(* ===== verification/Prelude.thy ===== *)
theory Prelude
  imports Complex_Main "HOL-Library.Multiset" "HOL-Library.AList"
begin

text \<open>
  Shared vocabulary of the development: the exceptions of the program, the result type of a
  computation that may raise, Python generators (a finite stream of values that ends normally or
  by raising), insertion-ordered dictionaries, and the generic list lemmas that several
  components use.
\<close>

section \<open>Collections of facts\<close>

named_theorems res_simps \<open>evaluation rules of the result type\<close>
named_theorems gen_simps \<open>evaluation rules of generators\<close>

section \<open>Exceptions and results\<close>

text \<open>
  Why \<^verbatim>\<open>AnalysisException\<close> was raised; the source says it in the message.
\<close>

datatype analysis_reason =
    UnknownColumn
  | DuplicateOutput string
  | GroupByNotColumn
  | NotAnAggregate
  | OrderByNotColumn
  | UnsupportedJoinType string
  | EmptyJoinKeys
  | JoinColumnMissingLeft string
  | JoinColumnMissingRight string
  | CollidingColumns

text \<open>What a \<^verbatim>\<open>SqlParseError\<close> complains about, with the position of the offending token.\<close>

datatype sql_problem =
    ExpectedToken string nat
  | ExpectedName nat
  | UnexpectedToken nat
  | UnknownTable string
  | UnknownFunction string
  | DifferentJoinKeys string string
  | StarWithGroupBy
  | MixedSelect
  | NotGrouped string
  | HavingNotSelected string

text \<open>
  The exception classes the modelled code raises or lets through.  Messages are not modelled,
  except for the data that some other part of the code reads back (the stage and partition of
  a \<^verbatim>\<open>MissingShuffleDataError\<close>) or that tells apart the branches of one function.
\<close>

datatype py_error =
    KeyError string
  | IndexError
  | TypeError
  | ValueError
  | ZeroDivisionError
  | OverflowError
  | AttributeError
  | NotImplementedError
  | AssertionError
  | FileNotFoundError string
  | StopIteration
  | CsvError
  | ShuffleChecksumError string
  | MissingShuffleDataError nat nat
  | AnalysisException analysis_reason
  | TaskExecutionError nat
  | SqlLexError nat
  | SqlParseError sql_problem

type_synonym 'a res = "py_error + 'a"

fun rbind :: "'a res \<Rightarrow> ('a \<Rightarrow> 'b res) \<Rightarrow> 'b res" where
  "rbind (Inl e) f = Inl e"
| "rbind (Inr x) f = f x"

lemma rbind_cong [fundef_cong]:
  "m = m' \<Longrightarrow> (\<And>x. m' = Inr x \<Longrightarrow> f x = f' x) \<Longrightarrow> rbind m f = rbind m' f'"
  by (cases m') auto

lemma rbind_Inr_iff [res_simps]:
  "rbind m f = Inr y \<longleftrightarrow> (\<exists>x. m = Inr x \<and> f x = Inr y)"
  by (cases m) auto

lemma rbind_Inl_iff:
  "rbind m f = Inl e \<longleftrightarrow> m = Inl e \<or> (\<exists>x. m = Inr x \<and> f x = Inl e)"
  by (cases m) auto

lemma rbind_Inr_right [simp]: "rbind m Inr = m"
  by (cases m) auto

lemma rbind_assoc: "rbind (rbind m f) g = rbind m (\<lambda>x. rbind (f x) g)"
  by (cases m) auto

text \<open>A list comprehension whose element expression may raise: left to right, first error wins.\<close>

fun rmap :: "('a \<Rightarrow> 'b res) \<Rightarrow> 'a list \<Rightarrow> 'b list res" where
  "rmap f [] = Inr []"
| "rmap f (x # xs) = rbind (f x) (\<lambda>y. rbind (rmap f xs) (\<lambda>ys. Inr (y # ys)))"

lemma rmap_cong [fundef_cong]:
  "xs = ys \<Longrightarrow> (\<And>x. x \<in> set ys \<Longrightarrow> f x = g x) \<Longrightarrow> rmap f xs = rmap g ys"
  by (induction ys arbitrary: xs) (auto intro!: rbind_cong)

lemma rmap_Inr_iff [res_simps]:
  "rmap f xs = Inr ys \<longleftrightarrow> list_all2 (\<lambda>x y. f x = Inr y) xs ys"
proof (induction xs arbitrary: ys)
  case Nil
  then show ?case by auto
next
  case (Cons x xs)
  then show ?case by (cases ys) (auto simp: res_simps)
qed

lemma rmap_member: "rmap f xs = Inr ys \<Longrightarrow> y \<in> set ys \<Longrightarrow> \<exists>x \<in> set xs. f x = Inr y"
  by (induction xs arbitrary: ys) (auto simp: rbind_Inr_iff)

lemma rmap_Inr_fun: "(\<And>x. x \<in> set xs \<Longrightarrow> f x = Inr (g x)) \<Longrightarrow> rmap f xs = Inr (map g xs)"
  by (induction xs) auto

lemma rmap_length: "rmap f xs = Inr ys \<Longrightarrow> length ys = length xs"
  by (auto simp: res_simps dest: list_all2_lengthD)

lemma rmap_append:
  "rmap f (xs @ ys) = rbind (rmap f xs) (\<lambda>as. rbind (rmap f ys) (\<lambda>bs. Inr (as @ bs)))"
  by (induction xs) (auto simp: rbind_assoc)

text \<open>A \<^verbatim>\<open>for\<close> loop over a list whose body may raise.\<close>

fun rfold :: "('s \<Rightarrow> 'a \<Rightarrow> 's res) \<Rightarrow> 's \<Rightarrow> 'a list \<Rightarrow> 's res" where
  "rfold f s [] = Inr s"
| "rfold f s (x # xs) = rbind (f s x) (\<lambda>s'. rfold f s' xs)"

lemma rfold_cong [fundef_cong]:
  "s = s' \<Longrightarrow> xs = ys \<Longrightarrow> (\<And>t x. x \<in> set ys \<Longrightarrow> f t x = g t x) \<Longrightarrow> rfold f s xs = rfold g s' ys"
proof (induction ys arbitrary: xs s s')
  case Nil
  then show ?case by simp
next
  case (Cons y ys)
  then have "rbind (g s' y) (\<lambda>t. rfold f t ys) = rbind (g s' y) (\<lambda>t. rfold g t ys)"
    by (intro rbind_cong) auto
  with Cons.prems show ?case by simp
qed

lemma rfold_append:
  "rfold f s (xs @ ys) = rbind (rfold f s xs) (\<lambda>s'. rfold f s' ys)"
  by (induction xs arbitrary: s) (auto simp: rbind_assoc)

lemma rfold_pure: "(\<And>s x. x \<in> set xs \<Longrightarrow> f s x = Inr (g s x)) \<Longrightarrow> rfold f s xs = Inr (foldl g s xs)"
  by (induction xs arbitrary: s) auto

lemma rfold_invariant:
  assumes "rfold f s xs = Inr t" and "P s"
    and "\<And>s x s'. x \<in> set xs \<Longrightarrow> P s \<Longrightarrow> f s x = Inr s' \<Longrightarrow> P s'"
  shows "P t"
  using assms by (induction xs arbitrary: s) (auto simp: res_simps)

text \<open>A check that raises \<^verbatim>\<open>e\<close> unless the condition holds.\<close>

definition ensure :: "bool \<Rightarrow> py_error \<Rightarrow> unit res" where
  "ensure b e = (if b then Inr () else Inl e)"

lemma ensure_Inr_iff [res_simps]: "ensure b e = Inr u \<longleftrightarrow> b"
  by (simp add: ensure_def)


section \<open>Generators\<close>

text \<open>
  A Python generator, iterated once: it yields values and then stops, or raises.  The rows of a
  partition are such a stream, so that an error raised by row \<^verbatim>\<open>i\<close> of an
  operator is seen after the rows before it and hides what the operators below would have done
  with later rows.
\<close>

datatype 'a gen = Stop | Raise py_error | Yield 'a "'a gen"

fun gen_of :: "'a list \<Rightarrow> 'a gen" where
  "gen_of [] = Stop"
| "gen_of (x # xs) = Yield x (gen_of xs)"

text \<open>\<^verbatim>\<open>list(g)\<close>\<close>

fun gen_list :: "'a gen \<Rightarrow> 'a list res" where
  "gen_list Stop = Inr []"
| "gen_list (Raise e) = Inl e"
| "gen_list (Yield x g) = rbind (gen_list g) (\<lambda>xs. Inr (x # xs))"

text \<open>\<^verbatim>\<open>for x in g: if p(x): yield x\<close>\<close>

fun gen_filter :: "('a \<Rightarrow> bool res) \<Rightarrow> 'a gen \<Rightarrow> 'a gen" where
  "gen_filter p Stop = Stop"
| "gen_filter p (Raise e) = Raise e"
| "gen_filter p (Yield x g) =
     (case p x of Inl e \<Rightarrow> Raise e
      | Inr b \<Rightarrow> if b then Yield x (gen_filter p g) else gen_filter p g)"

text \<open>\<^verbatim>\<open>for x in g: yield f(x)\<close>\<close>

fun gen_map :: "('a \<Rightarrow> 'b res) \<Rightarrow> 'a gen \<Rightarrow> 'b gen" where
  "gen_map f Stop = Stop"
| "gen_map f (Raise e) = Raise e"
| "gen_map f (Yield x g) = (case f x of Inl e \<Rightarrow> Raise e | Inr y \<Rightarrow> Yield y (gen_map f g))"

text \<open>\<^verbatim>\<open>for x in g: s = f(s, x)\<close>, with a body that may raise\<close>

fun gen_fold :: "('s \<Rightarrow> 'a \<Rightarrow> 's res) \<Rightarrow> 's \<Rightarrow> 'a gen \<Rightarrow> 's res" where
  "gen_fold f s Stop = Inr s"
| "gen_fold f s (Raise e) = Inl e"
| "gen_fold f s (Yield x g) = rbind (f s x) (\<lambda>s'. gen_fold f s' g)"

text \<open>One generator after another (\<^verbatim>\<open>yield from g; yield from h\<close>)\<close>

fun gen_append :: "'a gen \<Rightarrow> 'a gen \<Rightarrow> 'a gen" where
  "gen_append Stop h = h"
| "gen_append (Raise e) h = Raise e"
| "gen_append (Yield x g) h = Yield x (gen_append g h)"

definition gen_concat :: "'a gen list \<Rightarrow> 'a gen" where
  "gen_concat gs = foldr gen_append gs Stop"

lemma gen_list_gen_of [simp]: "gen_list (gen_of xs) = Inr xs"
  by (induction xs) auto

lemma gen_list_Inr_iff [gen_simps]: "gen_list g = Inr xs \<longleftrightarrow> g = gen_of xs"
proof (induction g arbitrary: xs)
  case (Yield x g)
  then show ?case by (cases xs) (auto simp: res_simps)
qed (case_tac xs; auto)+

lemma gen_fold_gen_of [simp]: "gen_fold f s (gen_of xs) = rfold f s xs"
  by (induction xs arbitrary: s) auto

lemma gen_append_gen_of [simp]: "gen_append (gen_of xs) (gen_of ys) = gen_of (xs @ ys)"
  by (induction xs) auto

lemma gen_list_append:
  "gen_list (gen_append g h) = rbind (gen_list g) (\<lambda>xs. rbind (gen_list h) (\<lambda>ys. Inr (xs @ ys)))"
  by (induction g) (auto simp: rbind_assoc)

lemma gen_concat_simps [simp]:
  "gen_concat [] = Stop"
  "gen_concat (g # gs) = gen_append g (gen_concat gs)"
  by (auto simp: gen_concat_def)

lemma gen_list_concat: "gen_list (gen_concat gs) = rbind (rmap gen_list gs) (\<lambda>xss. Inr (concat xss))"
  by (induction gs) (auto simp: gen_list_append rbind_assoc)

lemma gen_map_gen_of: "rmap f xs = Inr ys \<Longrightarrow> gen_map f (gen_of xs) = gen_of ys"
  by (induction xs arbitrary: ys) (auto simp: rbind_Inr_iff)

lemma gen_list_map: "gen_list (gen_map f (gen_of xs)) = rmap f xs"
  by (induction xs) (auto split: sum.splits)

text \<open>Filtering a list with a condition that may raise.\<close>

fun rfilter :: "('a \<Rightarrow> bool res) \<Rightarrow> 'a list \<Rightarrow> 'a list res" where
  "rfilter p [] = Inr []"
| "rfilter p (x # xs) =
     rbind (p x) (\<lambda>b. rbind (rfilter p xs) (\<lambda>ys. Inr (if b then x # ys else ys)))"

lemma gen_list_filter: "gen_list (gen_filter p (gen_of xs)) = rfilter p xs"
  by (induction xs) (auto split: sum.splits)

lemma rfilter_pure: "(\<And>x. x \<in> set xs \<Longrightarrow> p x = Inr (q x)) \<Longrightarrow> rfilter p xs = Inr (filter q xs)"
  by (induction xs) auto

lemma rfilter_Inr_D:
  "rfilter p xs = Inr ys \<Longrightarrow>
     (\<forall>x \<in> set xs. \<exists>b. p x = Inr b) \<and> ys = filter (\<lambda>x. p x = Inr True) xs"
  by (induction xs arbitrary: ys) (auto simp: rbind_Inr_iff)

lemma ex_gen_of_Yield [simp]:
  "(\<exists>xs. Yield x g = gen_of xs \<and> Q xs) \<longleftrightarrow> (\<exists>zs. g = gen_of zs \<and> Q (x # zs))"
proof
  assume "\<exists>xs. Yield x g = gen_of xs \<and> Q xs"
  then obtain xs where xs: "Yield x g = gen_of xs" "Q xs" by blast
  then show "\<exists>zs. g = gen_of zs \<and> Q (x # zs)" by (cases xs) auto
next
  assume "\<exists>zs. g = gen_of zs \<and> Q (x # zs)"
  then show "\<exists>xs. Yield x g = gen_of xs \<and> Q xs" by (metis gen_of.simps(2))
qed

lemma ex_gen_of_Stop [simp]: "(\<exists>xs. Stop = gen_of xs \<and> Q xs) \<longleftrightarrow> Q []"
  by (metis gen_of.simps(1) gen_list.simps(1) gen_list_gen_of sum.inject(2))

lemma gen_of_neq_Raise [simp]: "Raise e \<noteq> gen_of xs" "gen_of xs \<noteq> Raise e"
  by (cases xs; simp)+

lemma gen_fold_Inr_iff:
  "gen_fold f s g = Inr t \<longleftrightarrow> (\<exists>xs. g = gen_of xs \<and> rfold f s xs = Inr t)"
proof (induction g arbitrary: s)
  case (Yield x g)
  show ?case
    by (cases "f s x") (auto simp: Yield.IH)
qed auto

lemma gen_filter_Inr_iff:
  "gen_list (gen_filter p g) = Inr ys \<longleftrightarrow>
     (\<exists>xs. g = gen_of xs \<and> rfilter p xs = Inr ys)"
proof (induction g arbitrary: ys)
  case (Yield x g)
  show ?case
    by (cases "p x") (auto simp: res_simps Yield.IH)
qed auto

lemma gen_map_Inr_iff:
  "gen_list (gen_map f g) = Inr ys \<longleftrightarrow> (\<exists>xs. g = gen_of xs \<and> rmap f xs = Inr ys)"
proof (induction g arbitrary: ys)
  case (Yield x g)
  show ?case
    by (cases "f x") (auto simp: rbind_Inr_iff Yield.IH)
qed auto

section \<open>Insertion-ordered dictionaries\<close>

text \<open>The distinct elements of a list in the order of their first occurrence.\<close>

definition uniq :: "'a list \<Rightarrow> 'a list" where
  "uniq xs = foldl (\<lambda>acc x. if x \<in> set acc then acc else acc @ [x]) [] xs"

lemma uniq_snoc_aux:
  "uniq (xs @ [x]) = (if x \<in> set (uniq xs) then uniq xs else uniq xs @ [x])"
  by (simp add: uniq_def)

lemma set_uniq [simp]: "set (uniq xs) = set xs"
  by (induction xs rule: rev_induct) (auto simp: uniq_snoc_aux, simp add: uniq_def)

lemma distinct_uniq [simp]: "distinct (uniq xs)"
  by (induction xs rule: rev_induct) (auto simp: uniq_snoc_aux, simp add: uniq_def)

lemma uniq_simps [simp]:
  "uniq [] = []"
  "uniq (xs @ [x]) = (if x \<in> set xs then uniq xs else uniq xs @ [x])"
  by (simp add: uniq_def) (simp add: uniq_snoc_aux)

text \<open>\<^verbatim>\<open>d[k] = v\<close> on a dictionary given by its keys and a function.\<close>

lemma update_new_key: "k \<notin> set (map fst d) \<Longrightarrow> AList.update k v d = d @ [(k, v)]"
  by (induction d) auto

lemma update_old_key:
  "k \<in> set ks \<Longrightarrow> distinct ks \<Longrightarrow>
     AList.update k v (map (\<lambda>x. (x, f x)) ks) = map (\<lambda>x. (x, if x = k then v else f x)) ks"
  by (induction ks) (auto simp: map_idI cong: map_cong)

lemma map_of_keys: "map_of (map (\<lambda>x. (x, f x)) ks) k = (if k \<in> set ks then Some (f k) else None)"
  by (induction ks) auto

end
