(* ===== verification/PyFloat.thy ===== *)
theory PyFloat
  imports Prelude
begin

text \<open>
  Python's \<^verbatim>\<open>float\<close>: IEEE 754 binary64 with round-half-to-even.  A float is NaN, an infinity,
  the negative zero, or a finite number given by its exact rational value.  The arithmetic below
  computes the exact rational result and rounds it to the nearest double, as the hardware does;
  everything evaluates in the kernel.
\<close>

section \<open>Rounding a rational to a double\<close>

fun bitlen :: "nat \<Rightarrow> nat" where
  "bitlen n = (if n = 0 then 0 else Suc (bitlen (n div 2)))"

declare bitlen.simps [simp del]

text \<open>\<^verbatim>\<open>floor(log2(q))\<close> for a positive rational\<close>

definition flog2 :: "rat \<Rightarrow> int" where
  "flog2 q =
     (let (n, d) = quotient_of q; k = int (bitlen (nat n)) - int (bitlen (nat d))
      in if (if 0 \<le> k then 2 ^ nat k * d \<le> n else d \<le> 2 ^ nat (- k) * n) then k else k - 1)"

definition two_pow :: "int \<Rightarrow> rat" where
  "two_pow k = (if 0 \<le> k then 2 ^ nat k else 1 / 2 ^ nat (- k))"

definition round_half_even :: "rat \<Rightarrow> int" where
  "round_half_even q =
     (let f = \<lfloor>q\<rfloor>; r = q - of_int f
      in if r < 1/2 then f else if 1/2 < r then f + 1 else if even f then f else f + 1)"

text \<open>
  The magnitude of a double nearest to \<open>q \<ge> 0\<close>: 53 significant bits, least exponent
  \<open>-1074\<close>; \<^const>\<open>None\<close> when it would reach \<open>2 ^ 1024\<close>.
\<close>

definition round_mag :: "rat \<Rightarrow> rat option" where
  "round_mag q =
     (if q = 0 then Some 0
      else let e = max (flog2 q - 52) (- 1074);
               m = of_int (round_half_even (q / two_pow e)) * two_pow e
           in if two_pow 1024 \<le> m then None else Some m)"

lemma two_pow_pos [simp]: "0 < two_pow k"
  by (simp add: two_pow_def)

lemma round_half_even_nonneg: "0 \<le> q \<Longrightarrow> 0 \<le> round_half_even q"
  by (auto simp: round_half_even_def Let_def)

lemma round_mag_nonneg: "0 \<le> q \<Longrightarrow> round_mag q = Some m \<Longrightarrow> 0 \<le> m"
  by (auto simp: round_mag_def Let_def less_imp_le split: if_splits
      intro!: mult_nonneg_nonneg round_half_even_nonneg divide_nonneg_nonneg)

section \<open>Floats\<close>

text \<open>\<open>FInf True\<close> is minus infinity; \<open>FFin 0\<close> is the positive zero.\<close>

datatype pyfloat = FNan | FInf bool | FNegZero | FFin rat

definition mk_float :: "bool \<Rightarrow> rat \<Rightarrow> pyfloat" where
  "mk_float neg q =
     (case round_mag q of
        None \<Rightarrow> FInf neg
      | Some m \<Rightarrow> if m = 0 then (if neg then FNegZero else FFin 0)
                  else FFin (if neg then - m else m))"

definition rat_to_float :: "rat \<Rightarrow> pyfloat" where
  "rat_to_float q = mk_float (q < 0) \<bar>q\<bar>"

fun fsign :: "pyfloat \<Rightarrow> bool" where
  "fsign FNan = False"
| "fsign (FInf neg) = neg"
| "fsign FNegZero = True"
| "fsign (FFin q) = (q < 0)"

fun fval :: "pyfloat \<Rightarrow> rat" where
  "fval (FFin q) = q"
| "fval _ = 0"

fun fis_zero :: "pyfloat \<Rightarrow> bool" where
  "fis_zero FNegZero = True"
| "fis_zero (FFin q) = (q = 0)"
| "fis_zero _ = False"

fun fneg :: "pyfloat \<Rightarrow> pyfloat" where
  "fneg FNan = FNan"
| "fneg (FInf n) = FInf (\<not> n)"
| "fneg FNegZero = FFin 0"
| "fneg (FFin q) = (if q = 0 then FNegZero else FFin (- q))"

fun fadd :: "pyfloat \<Rightarrow> pyfloat \<Rightarrow> pyfloat" where
  "fadd FNan _ = FNan"
| "fadd _ FNan = FNan"
| "fadd (FInf a) (FInf b) = (if a = b then FInf a else FNan)"
| "fadd (FInf a) _ = FInf a"
| "fadd _ (FInf b) = FInf b"
| "fadd FNegZero FNegZero = FNegZero"
| "fadd a b = rat_to_float (fval a + fval b)"

definition fsub :: "pyfloat \<Rightarrow> pyfloat \<Rightarrow> pyfloat" where
  "fsub a b = fadd a (fneg b)"

fun fmul :: "pyfloat \<Rightarrow> pyfloat \<Rightarrow> pyfloat" where
  "fmul FNan _ = FNan"
| "fmul _ FNan = FNan"
| "fmul (FInf a) b = (if fis_zero b then FNan else FInf (a \<noteq> fsign b))"
| "fmul a (FInf b) = (if fis_zero a then FNan else FInf (fsign a \<noteq> b))"
| "fmul a b = mk_float (fsign a \<noteq> fsign b) (\<bar>fval a\<bar> * \<bar>fval b\<bar>)"

text \<open>Division by a non-zero float; Python raises before it divides by a zero.\<close>

fun fdiv :: "pyfloat \<Rightarrow> pyfloat \<Rightarrow> pyfloat" where
  "fdiv FNan _ = FNan"
| "fdiv _ FNan = FNan"
| "fdiv (FInf _) (FInf _) = FNan"
| "fdiv (FInf a) b = FInf (a \<noteq> fsign b)"
| "fdiv a (FInf b) = mk_float (fsign a \<noteq> b) 0"
| "fdiv a b = mk_float (fsign a \<noteq> fsign b) (\<bar>fval a\<bar> / \<bar>fval b\<bar>)"

section \<open>Exact numeric order\<close>

text \<open>
  Python compares ints and floats by their exact values, so everything but NaN is ordered on one
  line.
\<close>

datatype xnum = NegInf | Num rat | PosInf

instantiation xnum :: linorder
begin

fun less_eq_xnum :: "xnum \<Rightarrow> xnum \<Rightarrow> bool" where
  "less_eq_xnum NegInf _ = True"
| "less_eq_xnum _ PosInf = True"
| "less_eq_xnum (Num p) (Num q) = (p \<le> q)"
| "less_eq_xnum _ _ = False"

definition less_xnum :: "xnum \<Rightarrow> xnum \<Rightarrow> bool" where
  "less_xnum x y = (x \<le> y \<and> \<not> y \<le> x)"

instance
proof
  fix x y z :: xnum
  show "(x < y) = (x \<le> y \<and> \<not> y \<le> x)" by (simp add: less_xnum_def)
  show "x \<le> x" by (cases x) auto
  show "x \<le> y \<Longrightarrow> y \<le> z \<Longrightarrow> x \<le> z" by (cases x; cases y; cases z) auto
  show "x \<le> y \<Longrightarrow> y \<le> x \<Longrightarrow> x = y" by (cases x; cases y) auto
  show "x \<le> y \<or> y \<le> x" by (cases x; cases y) auto
qed

end

lemma less_xnum_Num [simp]: "Num p < Num q \<longleftrightarrow> p < q"
  by (auto simp: less_xnum_def)

fun float_xnum :: "pyfloat \<Rightarrow> xnum option" where
  "float_xnum FNan = None"
| "float_xnum (FInf neg) = Some (if neg then NegInf else PosInf)"
| "float_xnum FNegZero = Some (Num 0)"
| "float_xnum (FFin q) = Some (Num q)"

lemma fadd_commute: "fadd a b = fadd b a"
  by (cases a; cases b) (auto simp: add.commute)

end
