(* ===== verification/PyValue.thy ===== *)
theory PyValue
  imports PyFloat "HOL-Library.List_Lexorder" "HOL-Library.Char_ord"
begin

text \<open>
  The Python values that a MiniSpark row can hold, and the operators of the \<^verbatim>\<open>operator\<close> module
  that the expression classes use.  A wrong combination of types raises \<^const>\<open>TypeError\<close>, as in
  Python.  Strings are lists of 8-bit characters (code points below 256).  Comparing a NaN that
  sits inside a tuple with itself is modelled as comparing two distinct objects.
\<close>

section \<open>Values\<close>

datatype pval =
    VNone
  | VBool bool
  | VInt int
  | VFloat pyfloat
  | VStr string
  | VTuple "pval list"

datatype pnum = NInt int | NFlt pyfloat

fun as_num :: "pval \<Rightarrow> pnum option" where
  "as_num (VBool b) = Some (NInt (of_bool b))"
| "as_num (VInt i) = Some (NInt i)"
| "as_num (VFloat f) = Some (NFlt f)"
| "as_num _ = None"

text \<open>\<^verbatim>\<open>bool(v)\<close>\<close>

fun truthy :: "pval \<Rightarrow> bool" where
  "truthy VNone = False"
| "truthy (VBool b) = b"
| "truthy (VInt i) = (i \<noteq> 0)"
| "truthy (VFloat f) = (\<not> fis_zero f)"
| "truthy (VStr s) = (s \<noteq> [])"
| "truthy (VTuple vs) = (vs \<noteq> [])"

section \<open>Equality and order\<close>

text \<open>The exact numeric value; \<open>Some None\<close> is NaN, \<open>None\<close> is not a number.\<close>

fun num_view :: "pval \<Rightarrow> xnum option option" where
  "num_view (VBool b) = Some (Some (Num (of_bool b)))"
| "num_view (VInt i) = Some (Some (Num (of_int i)))"
| "num_view (VFloat f) = Some (float_xnum f)"
| "num_view _ = None"

definition num_eq :: "pval \<Rightarrow> pval \<Rightarrow> bool" where
  "num_eq a b = (case (num_view a, num_view b) of
     (Some (Some x), Some (Some y)) \<Rightarrow> x = y | _ \<Rightarrow> False)"

fun py_eq :: "pval \<Rightarrow> pval \<Rightarrow> bool"
  and py_eq_list :: "pval list \<Rightarrow> pval list \<Rightarrow> bool" where
  "py_eq VNone VNone = True"
| "py_eq (VStr s) (VStr t) = (s = t)"
| "py_eq (VTuple xs) (VTuple ys) = py_eq_list xs ys"
| "py_eq a b = num_eq a b"
| "py_eq_list [] [] = True"
| "py_eq_list (x # xs) (y # ys) = (py_eq x y \<and> py_eq_list xs ys)"
| "py_eq_list _ _ = False"

text \<open>Equality is symmetric and transitive; it is reflexive but for NaN.\<close>

fun nan_free :: "pval \<Rightarrow> bool" where
  "nan_free (VFloat f) = (f \<noteq> FNan)"
| "nan_free (VTuple vs) = list_all nan_free vs"
| "nan_free _ = True"

lemma num_eq_sym: "num_eq a b = num_eq b a"
  by (auto simp: num_eq_def split: option.splits)

lemma num_eq_trans: "num_eq a b \<Longrightarrow> num_eq b c \<Longrightarrow> num_eq a c"
  by (auto simp: num_eq_def split: option.splits)

lemma num_eq_views: "num_eq a b \<Longrightarrow> num_view a \<noteq> None \<and> num_view b \<noteq> None"
  by (auto simp: num_eq_def split: option.splits)

lemma num_view_ne_None: "num_view a \<noteq> None \<longleftrightarrow> (\<exists>b. a = VBool b) \<or> (\<exists>i. a = VInt i) \<or> (\<exists>f. a = VFloat f)"
  by (cases a) auto

lemma py_eq_sym: "py_eq a b = py_eq b a" and py_eq_list_sym: "py_eq_list as bs = py_eq_list bs as"
  by (induction a b and as bs rule: py_eq_py_eq_list.induct) (auto simp: num_eq_sym)

lemma py_eq_num_view: "num_view a \<noteq> None \<Longrightarrow> py_eq a b = num_eq a b"
  by (cases a; cases b) auto

lemma py_eq_VTuple: "py_eq (VTuple xs) b \<longleftrightarrow> (\<exists>ys. b = VTuple ys \<and> py_eq_list xs ys)"
  by (cases b) (auto simp: num_eq_def)

lemma py_eq_list_Cons: "py_eq_list (x # xs) zs \<longleftrightarrow> (\<exists>y ys. zs = y # ys \<and> py_eq x y \<and> py_eq_list xs ys)"
  by (cases zs) auto

lemma py_eq_list_trans_elems:
  assumes "\<And>x y z. x \<in> set xs \<Longrightarrow> py_eq x y \<Longrightarrow> py_eq y z \<Longrightarrow> py_eq x z"
  shows "py_eq_list xs ys \<Longrightarrow> py_eq_list ys zs \<Longrightarrow> py_eq_list xs zs"
  using assms
proof (induction xs arbitrary: ys zs)
  case Nil
  then show ?case by (cases ys) auto
next
  case (Cons x xs)
  from Cons.prems(1) obtain y ys' where ys: "ys = y # ys'" "py_eq x y" "py_eq_list xs ys'"
    by (auto simp: py_eq_list_Cons)
  from Cons.prems(2) obtain z zs' where zs: "zs = z # zs'" "py_eq y z" "py_eq_list ys' zs'"
    by (auto simp: ys py_eq_list_Cons)
  have "py_eq x z" by (rule Cons.prems(3) [OF _ ys(2) zs(2)]) simp
  moreover have "py_eq_list xs zs'"
    by (rule Cons.IH [OF ys(3) zs(3)]) (rule Cons.prems(3); simp)
  ultimately show ?case by (simp add: zs)
qed

lemma py_eq_trans_num:
  assumes "num_view a \<noteq> None" "py_eq a b" "py_eq b c"
  shows "py_eq a c"
proof -
  have ab: "num_eq a b" using assms(2) py_eq_num_view [OF assms(1)] by blast
  then have "num_view b \<noteq> None" using num_eq_views by blast
  from py_eq_num_view [OF this] assms(3) have "num_eq b c" by blast
  with ab have "num_eq a c" by (rule num_eq_trans)
  with py_eq_num_view [OF assms(1)] show ?thesis by blast
qed

lemma py_eq_trans: "py_eq a b \<Longrightarrow> py_eq b c \<Longrightarrow> py_eq a c"
proof (induction a arbitrary: b c)
  case VNone
  then show ?case by (cases b) (auto simp: num_eq_def)
next
  case (VStr s)
  then show ?case by (cases b) (auto simp: num_eq_def)
next
  case (VTuple xs)
  from VTuple.prems(1) obtain ys where ys: "b = VTuple ys" "py_eq_list xs ys"
    by (auto simp: py_eq_VTuple)
  from VTuple.prems(2) obtain zs where "c = VTuple zs" "py_eq_list ys zs"
    by (auto simp: ys py_eq_VTuple)
  moreover from this have "py_eq_list xs zs"
    by (intro py_eq_list_trans_elems [OF _ ys(2)]) (rule VTuple.IH)
  ultimately show ?case by (simp add: py_eq_VTuple)
qed (rule py_eq_trans_num; simp)+

lemma py_eq_list_trans: "py_eq_list as bs \<Longrightarrow> py_eq_list bs cs \<Longrightarrow> py_eq_list as cs"
  by (rule py_eq_list_trans_elems) (auto intro: py_eq_trans)

lemma py_eq_refl: "nan_free a \<Longrightarrow> py_eq a a"
proof (induction a)
  case (VTuple vs)
  have "list_all nan_free ws \<Longrightarrow> set ws \<subseteq> set vs \<Longrightarrow> py_eq_list ws ws" for ws
    using VTuple.IH by (induction ws) auto
  with VTuple.prems show ?case by simp
next
  case (VFloat f)
  then show ?case by (cases f) (auto simp: num_eq_def)
qed (auto simp: num_eq_def)

datatype cmp = CLt | CLe | CGt | CGe

fun cmp_ord :: "cmp \<Rightarrow> 'a::linorder \<Rightarrow> 'a \<Rightarrow> bool" where
  "cmp_ord CLt x y = (x < y)"
| "cmp_ord CLe x y = (x \<le> y)"
| "cmp_ord CGt x y = (y < x)"
| "cmp_ord CGe x y = (y \<le> x)"

definition num_cmp :: "cmp \<Rightarrow> pval \<Rightarrow> pval \<Rightarrow> bool res" where
  "num_cmp c a b = (case (num_view a, num_view b) of
     (Some x, Some y) \<Rightarrow>
       Inr (case (x, y) of (Some p, Some q) \<Rightarrow> cmp_ord c p q | _ \<Rightarrow> False)
   | _ \<Rightarrow> Inl TypeError)"

fun py_cmp :: "cmp \<Rightarrow> pval \<Rightarrow> pval \<Rightarrow> bool res"
  and py_cmp_list :: "cmp \<Rightarrow> pval list \<Rightarrow> pval list \<Rightarrow> bool res" where
  "py_cmp c (VStr s) (VStr t) = Inr (cmp_ord c s t)"
| "py_cmp c (VTuple xs) (VTuple ys) = py_cmp_list c xs ys"
| "py_cmp c a b = num_cmp c a b"
| "py_cmp_list c [] [] = Inr (cmp_ord c (0::nat) 0)"
| "py_cmp_list c [] (y # ys) = Inr (cmp_ord c (0::nat) 1)"
| "py_cmp_list c (x # xs) [] = Inr (cmp_ord c (1::nat) 0)"
| "py_cmp_list c (x # xs) (y # ys) =
     (if py_eq x y then py_cmp_list c xs ys else py_cmp c x y)"

abbreviation py_lt :: "pval \<Rightarrow> pval \<Rightarrow> bool res" where
  "py_lt \<equiv> py_cmp CLt"

section \<open>Arithmetic\<close>

text \<open>An int converted to a float, as mixed arithmetic does.\<close>

fun to_float :: "pnum \<Rightarrow> pyfloat res" where
  "to_float (NFlt f) = Inr f"
| "to_float (NInt i) =
     (case rat_to_float (of_int i) of FInf _ \<Rightarrow> Inl OverflowError | f \<Rightarrow> Inr f)"

definition arith ::
  "(int \<Rightarrow> int \<Rightarrow> int) \<Rightarrow> (pyfloat \<Rightarrow> pyfloat \<Rightarrow> pyfloat) \<Rightarrow> pnum \<Rightarrow> pnum \<Rightarrow> pval res" where
  "arith fi ff a b =
     (case (a, b) of
        (NInt x, NInt y) \<Rightarrow> Inr (VInt (fi x y))
      | _ \<Rightarrow> rbind (to_float a) (\<lambda>x. rbind (to_float b) (\<lambda>y. Inr (VFloat (ff x y)))))"

definition py_add :: "pval \<Rightarrow> pval \<Rightarrow> pval res" where
  "py_add a b =
     (case (as_num a, as_num b) of
        (Some x, Some y) \<Rightarrow> arith (+) fadd x y
      | _ \<Rightarrow> (case (a, b) of
                (VStr s, VStr t) \<Rightarrow> Inr (VStr (s @ t))
              | (VTuple xs, VTuple ys) \<Rightarrow> Inr (VTuple (xs @ ys))
              | _ \<Rightarrow> Inl TypeError))"

definition py_sub :: "pval \<Rightarrow> pval \<Rightarrow> pval res" where
  "py_sub a b =
     (case (as_num a, as_num b) of
        (Some x, Some y) \<Rightarrow> arith (-) fsub x y
      | _ \<Rightarrow> Inl TypeError)"

definition repeat_seq :: "int \<Rightarrow> 'a list \<Rightarrow> 'a list" where
  "repeat_seq n xs = concat (replicate (nat n) xs)"

definition py_mul :: "pval \<Rightarrow> pval \<Rightarrow> pval res" where
  "py_mul a b =
     (case (as_num a, as_num b) of
        (Some x, Some y) \<Rightarrow> arith (*) fmul x y
      | (Some (NInt n), None) \<Rightarrow>
          (case b of VStr s \<Rightarrow> Inr (VStr (repeat_seq n s))
           | VTuple xs \<Rightarrow> Inr (VTuple (repeat_seq n xs)) | _ \<Rightarrow> Inl TypeError)
      | (None, Some (NInt n)) \<Rightarrow>
          (case a of VStr s \<Rightarrow> Inr (VStr (repeat_seq n s))
           | VTuple xs \<Rightarrow> Inr (VTuple (repeat_seq n xs)) | _ \<Rightarrow> Inl TypeError)
      | _ \<Rightarrow> Inl TypeError)"

text \<open>
  \<^verbatim>\<open>a / b\<close>: two ints give the correctly rounded quotient (a negative zero when the signs differ),
  an overflow raises; a zero divisor raises in every case.
\<close>

definition int_truediv :: "int \<Rightarrow> int \<Rightarrow> pval res" where
  "int_truediv x y =
     (if y = 0 then Inl ZeroDivisionError
      else case mk_float ((x < 0) \<noteq> (y < 0)) \<bar>of_int x / of_int y\<bar> of
             FInf _ \<Rightarrow> Inl OverflowError
           | f \<Rightarrow> Inr (VFloat f))"

definition py_truediv :: "pval \<Rightarrow> pval \<Rightarrow> pval res" where
  "py_truediv a b =
     (case (as_num a, as_num b) of
        (Some (NInt x), Some (NInt y)) \<Rightarrow> int_truediv x y
      | (Some x, Some y) \<Rightarrow>
          rbind (to_float x) (\<lambda>f. rbind (to_float y) (\<lambda>g.
            if fis_zero g then Inl ZeroDivisionError else Inr (VFloat (fdiv f g))))
      | _ \<Rightarrow> Inl TypeError)"

section \<open>Sort keys\<close>

text \<open>
  Numbers other than NaN, and strings, are the values that are totally ordered among themselves.
  \<^verbatim>\<open>okey\<close> is that order; the two kinds never meet in a comparison that succeeds.
\<close>

datatype okey = KNum xnum | KStr string

instantiation okey :: linorder
begin

fun less_eq_okey :: "okey \<Rightarrow> okey \<Rightarrow> bool" where
  "less_eq_okey (KNum x) (KNum y) = (x \<le> y)"
| "less_eq_okey (KStr s) (KStr t) = (s \<le> t)"
| "less_eq_okey (KNum _) (KStr _) = True"
| "less_eq_okey (KStr _) (KNum _) = False"

definition less_okey :: "okey \<Rightarrow> okey \<Rightarrow> bool" where
  "less_okey x y = (x \<le> y \<and> \<not> y \<le> x)"

instance
proof
  fix x y z :: okey
  show "(x < y) = (x \<le> y \<and> \<not> y \<le> x)" by (simp add: less_okey_def)
  show "x \<le> x" by (cases x) auto
  show "x \<le> y \<Longrightarrow> y \<le> z \<Longrightarrow> x \<le> z" by (cases x; cases y; cases z) auto
  show "x \<le> y \<Longrightarrow> y \<le> x \<Longrightarrow> x = y" by (cases x; cases y) auto
  show "x \<le> y \<or> y \<le> x" by (cases x; cases y) auto
qed

end

lemma less_okey_simps [simp]:
  "KNum x < KNum y \<longleftrightarrow> x < y" "KStr s < KStr t \<longleftrightarrow> s < t"
  by (auto simp: less_okey_def)

fun ordkey :: "pval \<Rightarrow> okey option" where
  "ordkey (VBool b) = Some (KNum (Num (of_bool b)))"
| "ordkey (VInt i) = Some (KNum (Num (of_int i)))"
| "ordkey (VFloat f) = map_option KNum (float_xnum f)"
| "ordkey (VStr s) = Some (KStr s)"
| "ordkey _ = None"

fun is_num_key :: "pval \<Rightarrow> bool" where
  "is_num_key (VBool _) = True"
| "is_num_key (VInt _) = True"
| "is_num_key (VFloat f) = (f \<noteq> FNan)"
| "is_num_key _ = False"

fun is_str_key :: "pval \<Rightarrow> bool" where
  "is_str_key (VStr _) = True"
| "is_str_key _ = False"

text \<open>All the values can be compared with one another without an error, in a total order.\<close>

definition comparable :: "pval list \<Rightarrow> bool" where
  "comparable vs = (list_all is_num_key vs \<or> list_all is_str_key vs)"

definition okey_of :: "pval \<Rightarrow> okey" where
  "okey_of v = (case ordkey v of Some k \<Rightarrow> k | None \<Rightarrow> KStr [])"

lemma float_xnum_eq_None [simp]: "float_xnum f = None \<longleftrightarrow> f = FNan"
  by (cases f) auto

lemma num_key_view:
  "is_num_key v \<Longrightarrow> \<exists>x. num_view v = Some (Some x) \<and> ordkey v = Some (KNum x)"
  by (cases v) (auto simp flip: not_None_eq)

lemma py_eq_num: "is_num_key a \<Longrightarrow> py_eq a b = num_eq a b"
  by (cases a; cases b) (auto simp: num_eq_def)

lemma py_cmp_num: "is_num_key a \<Longrightarrow> py_cmp c a b = num_cmp c a b"
  by (cases a; cases b) (auto simp: num_cmp_def)

lemma py_cmp_num_keys:
  assumes "is_num_key a" "is_num_key b"
  shows "py_cmp c a b = Inr (cmp_ord c (okey_of a) (okey_of b))"
    and "py_eq a b \<longleftrightarrow> okey_of a = okey_of b"
proof -
  obtain x y where *: "num_view a = Some (Some x)" "ordkey a = Some (KNum x)"
      "num_view b = Some (Some y)" "ordkey b = Some (KNum y)"
    using assms by (meson num_key_view)
  show "py_cmp c a b = Inr (cmp_ord c (okey_of a) (okey_of b))"
    using * assms by (cases c) (simp_all add: py_cmp_num num_cmp_def okey_of_def)
  show "py_eq a b \<longleftrightarrow> okey_of a = okey_of b"
    using * assms by (simp add: py_eq_num num_eq_def okey_of_def)
qed

lemma py_cmp_str_keys:
  assumes "is_str_key a" "is_str_key b"
  shows "py_cmp c a b = Inr (cmp_ord c (okey_of a) (okey_of b))"
    and "py_eq a b \<longleftrightarrow> okey_of a = okey_of b"
  using assms by (cases a; cases b; cases c; simp add: okey_of_def)+

lemma comparable_cmp:
  assumes "comparable vs" "a \<in> set vs" "b \<in> set vs"
  shows "py_cmp c a b = Inr (cmp_ord c (okey_of a) (okey_of b))"
    and "py_eq a b \<longleftrightarrow> okey_of a = okey_of b"
  using assms by (auto simp: comparable_def list_all_iff py_cmp_num_keys py_cmp_str_keys)

lemma comparable_subset: "comparable vs \<Longrightarrow> set us \<subseteq> set vs \<Longrightarrow> comparable us"
  by (auto simp: comparable_def list_all_iff)

lemma py_add_int [simp]: "py_add (VInt a) (VInt b) = Inr (VInt (a + b))"
  by (simp add: py_add_def arith_def)

lemma py_mul_int [simp]: "py_mul (VInt a) (VInt b) = Inr (VInt (a * b))"
  by (simp add: py_mul_def arith_def)

end
