(* ===== verification/CoreData.thy ===== *)
theory CoreData
  imports PyValue
begin

text \<open>
  The core data model (\<^verbatim>\<open>minispark/core/\<close>): data types, fields and schemas, records, partitions
  and datasets.
\<close>

section \<open>Data types (\<open>core/types.py\<close>)\<close>

datatype dtype = IntType | FloatType | StringType | BoolType | NullType

text \<open>
  \<^verbatim>\<open>isinstance\<close> over the table in its order: a bool is found before it would match int; anything
  else (a tuple) falls back to the string type.
\<close>

fun infer_type :: "pval \<Rightarrow> dtype" where
  "infer_type (VBool _) = BoolType"
| "infer_type (VInt _) = IntType"
| "infer_type (VFloat _) = FloatType"
| "infer_type (VStr _) = StringType"
| "infer_type VNone = NullType"
| "infer_type (VTuple _) = StringType"

section \<open>Fields and schemas (\<open>core/schema.py\<close>)\<close>

record field =
  fname :: string
  data_type :: dtype
  nullable :: bool

type_synonym schema = "field list"

text \<open>The constructor refuses duplicate field names.\<close>

definition mk_schema :: "field list \<Rightarrow> schema res" where
  "mk_schema fs = (if distinct (map fname fs) then Inr fs else Inl ValueError)"

definition field_names :: "schema \<Rightarrow> string list" where
  "field_names s = map fname s"

definition has_field :: "schema \<Rightarrow> string \<Rightarrow> bool" where
  "has_field s n = (n \<in> set (field_names s))"

definition get_field :: "schema \<Rightarrow> string \<Rightarrow> field res" where
  "get_field s n = (case find (\<lambda>f. fname f = n) s of Some f \<Rightarrow> Inr f | None \<Rightarrow> Inl (KeyError n))"

definition schema_select :: "schema \<Rightarrow> string list \<Rightarrow> schema res" where
  "schema_select s names = rbind (rmap (get_field s) names) mk_schema"

lemma field_names_simps [simp]:
  "field_names [] = []"
  "field_names (s @ t) = field_names s @ field_names t"
  "field_names (filter (\<lambda>f. fname f \<notin> A) s) = filter (\<lambda>n. n \<notin> A) (field_names s)"
  by (auto simp: field_names_def filter_map comp_def)

lemma mk_schema_Inr_iff [res_simps]:
  "mk_schema fs = Inr s \<longleftrightarrow> s = fs \<and> distinct (field_names fs)"
  by (auto simp: mk_schema_def field_names_def)

lemma get_field_Inr_D: "get_field s n = Inr f \<Longrightarrow> f \<in> set s \<and> fname f = n"
  by (auto simp: get_field_def find_Some_iff split: option.splits)

lemma get_field_has_field: "(\<exists>f. get_field s n = Inr f) \<longleftrightarrow> has_field s n"
  by (auto simp: get_field_def has_field_def field_names_def find_Some_iff find_None_iff
      split: option.splits)

lemma schema_select_names: "schema_select s ns = Inr t \<Longrightarrow> field_names t = ns \<and> distinct ns"
proof -
  assume "schema_select s ns = Inr t"
  then obtain fs where fs: "list_all2 (\<lambda>n f. get_field s n = Inr f) ns fs"
    and t: "t = fs" "distinct (field_names fs)"
    by (auto simp: schema_select_def res_simps)
  from fs have "map fname fs = ns"
    by (induction rule: list_all2_induct) (auto dest: get_field_Inr_D)
  with t show ?thesis by (simp add: field_names_def)
qed

section \<open>Records (\<open>core/record.py\<close>)\<close>

text \<open>
  A record is a \<^verbatim>\<open>dict[str, Any]\<close>: an association list in insertion order, without repeated
  keys.  \<^const>\<open>AList.update\<close> is \<^verbatim>\<open>d[k] = v\<close>: a key that is present keeps its position.
\<close>

type_synonym row = "(string \<times> pval) list"

definition row_get :: "row \<Rightarrow> string \<Rightarrow> pval res" where
  "row_get r n = (case map_of r n of Some v \<Rightarrow> Inr v | None \<Rightarrow> Inl (KeyError n))"

definition row_keys :: "row \<Rightarrow> string list" where
  "row_keys r = map fst r"

definition row_values :: "row \<Rightarrow> pval list" where
  "row_values r = map snd r"

text \<open>\<^verbatim>\<open>dict(pairs)\<close>\<close>

definition dict_of :: "('k \<times> 'v) list \<Rightarrow> ('k \<times> 'v) list" where
  "dict_of kvs = foldl (\<lambda>d (k, v). AList.update k v d) [] kvs"

lemma dict_of_distinct_id: "distinct (map fst kvs) \<Longrightarrow> dict_of kvs = kvs"
proof -
  have upd: "k \<notin> fst ` set d \<Longrightarrow> AList.update k v d = d @ [(k, v)]" for k :: 'k and v :: 'v and d
    by (induction d) auto
  have "distinct (map fst (d @ kvs)) \<Longrightarrow> foldl (\<lambda>d (k, v). AList.update k v d) d kvs = d @ kvs"
    for d :: "('k \<times> 'v) list" and kvs
    by (induction kvs arbitrary: d) (auto simp: upd)
  from this [of "[]"] show "distinct (map fst kvs) \<Longrightarrow> dict_of kvs = kvs"
    by (simp add: dict_of_def)
qed

text \<open>\<^verbatim>\<open>zip(xs, ys, strict=True)\<close> consumed to its end\<close>

fun zip_strict :: "'a list \<Rightarrow> 'b list \<Rightarrow> ('a \<times> 'b) list res" where
  "zip_strict [] [] = Inr []"
| "zip_strict (x # xs) (y # ys) = rbind (zip_strict xs ys) (\<lambda>zs. Inr ((x, y) # zs))"
| "zip_strict _ _ = Inl ValueError"

lemma zip_strict_eq: "length xs = length ys \<Longrightarrow> zip_strict xs ys = Inr (zip xs ys)"
  by (induction xs ys rule: list_induct2) auto

lemma zip_strict_Inr_iff [res_simps]:
  "zip_strict xs ys = Inr zs \<longleftrightarrow> length xs = length ys \<and> zs = zip xs ys"
  by (induction xs ys arbitrary: zs rule: zip_strict.induct) (auto simp: rbind_Inr_iff)

section \<open>Partitions and datasets (\<open>core/partition.py\<close>, \<open>core/dataset.py\<close>)\<close>

record part_meta =
  meta_row_count :: "nat option"
  estimated_size_bytes :: "nat option"
  location :: "string option"

definition no_meta :: part_meta where
  "no_meta = \<lparr>meta_row_count = None, estimated_size_bytes = None, location = None\<rparr>"

definition counted_meta :: "nat option \<Rightarrow> part_meta" where
  "counted_meta n = \<lparr>meta_row_count = n, estimated_size_bytes = None, location = None\<rparr>"

text \<open>
  \<^verbatim>\<open>records_fn\<close> is a factory of iterators; \<open>records\<close> is what an iterator that it makes yields.
\<close>

record partition =
  partition_id :: nat
  part_schema :: schema
  records :: "row gen"
  metadata :: part_meta

definition part_row_count :: "partition \<Rightarrow> nat option" where
  "part_row_count p = meta_row_count (metadata p)"

definition part_to_list :: "partition \<Rightarrow> row list res" where
  "part_to_list p = gen_list (records p)"

record dataset =
  ds_schema :: schema
  ds_partitions :: "partition list"

definition num_partitions :: "dataset \<Rightarrow> nat" where
  "num_partitions d = length (ds_partitions d)"

definition ds_partition :: "dataset \<Rightarrow> nat \<Rightarrow> partition res" where
  "ds_partition d i =
     (if i < length (ds_partitions d) then Inr (ds_partitions d ! i) else Inl IndexError)"

definition iter_records :: "dataset \<Rightarrow> row gen" where
  "iter_records d = gen_concat (map records (ds_partitions d))"

text \<open>\<^verbatim>\<open>row_count\<close>: the recorded count of a partition where there is one, else a scan.\<close>

definition ds_row_count :: "dataset \<Rightarrow> nat res" where
  "ds_row_count d =
     rfold (\<lambda>total p. case part_row_count p of
              Some rc \<Rightarrow> Inr (total + rc)
            | None \<Rightarrow> gen_fold (\<lambda>n _. Inr (Suc n)) total (records p))
       0 (ds_partitions d)"

text \<open>
  \<^verbatim>\<open>repartition(n)\<close>: every row is appended to bucket \<^verbatim>\<open>i % n\<close>, then each bucket becomes a
  partition.
\<close>

definition deal_row :: "nat \<Rightarrow> nat \<times> row list list \<Rightarrow> row \<Rightarrow> (nat \<times> row list list) res" where
  "deal_row n s r =
     (case s of (i, buckets) \<Rightarrow>
        Inr (Suc i, buckets[i mod n := buckets ! (i mod n) @ [r]]))"

definition bucket_partition :: "schema \<Rightarrow> nat \<Rightarrow> row list \<Rightarrow> partition" where
  "bucket_partition sch i rows =
     \<lparr>partition_id = i, part_schema = sch, records = gen_of rows,
      metadata = counted_meta (Some (length rows))\<rparr>"

definition repartition :: "dataset \<Rightarrow> int \<Rightarrow> dataset res" where
  "repartition d n =
     (if n < 1 then Inl ValueError
      else rbind (gen_fold (deal_row (nat n)) (0, replicate (nat n) []) (iter_records d))
        (\<lambda>(_, buckets).
           Inr \<lparr>ds_schema = ds_schema d,
                ds_partitions = map2 (bucket_partition (ds_schema d)) [0..<length buckets] buckets\<rparr>))"

text \<open>The recorded count, where there is one, is the number of rows.\<close>

definition counts_ok :: "partition \<Rightarrow> bool" where
  "counts_ok p = (case part_row_count p of
      None \<Rightarrow> True
    | Some n \<Rightarrow> (case part_to_list p of Inl _ \<Rightarrow> True | Inr rows \<Rightarrow> length rows = n))"

lemma rfold_count: "rfold (\<lambda>n _. Inr (Suc n)) t xs = Inr (t + length xs)"
  by (induction xs arbitrary: t) auto

lemma row_count_scan:
  assumes "rmap gen_list (map records ps) = Inr xss" and "\<forall>p \<in> set ps. counts_ok p"
  shows "rfold (\<lambda>total p. case part_row_count p of
              Some rc \<Rightarrow> Inr (total + rc)
            | None \<Rightarrow> gen_fold (\<lambda>n _. Inr (Suc n)) total (records p)) t ps
         = Inr (t + length (concat xss))"
  using assms
proof (induction ps arbitrary: t xss)
  case Nil
  then show ?case by simp
next
  case (Cons p ps)
  then obtain xs yss where xs: "records p = gen_of xs" and xss: "xss = xs # yss"
    and ps: "rmap gen_list (map records ps) = Inr yss"
    by (auto simp: rbind_Inr_iff gen_simps)
  have "rfold (\<lambda>total p. case part_row_count p of
              Some rc \<Rightarrow> Inr (total + rc)
            | None \<Rightarrow> gen_fold (\<lambda>n _. Inr (Suc n)) total (records p)) (t + length xs) ps
         = Inr (t + length xs + length (concat yss))"
    using Cons.prems(2) ps by (intro Cons.IH) auto
  moreover have "counts_ok p" using Cons.prems(2) by simp
  ultimately show ?case
    by (auto simp: xs xss rfold_count counts_ok_def part_to_list_def split: option.splits)
qed

lemma row_count_eq:
  assumes "gen_list (iter_records d) = Inr rows"
    and "\<forall>p \<in> set (ds_partitions d). counts_ok p"
  shows "ds_row_count d = Inr (length rows)"
proof -
  from assms(1) obtain xss where "rmap gen_list (map records (ds_partitions d)) = Inr xss"
    and "rows = concat xss"
    by (auto simp: iter_records_def gen_list_concat rbind_Inr_iff)
  with row_count_scan [OF this(1) assms(2)] show ?thesis
    by (simp add: ds_row_count_def)
qed

text \<open>
  C24: \<^verbatim>\<open>Dataset.row_count\<close> returns the number of rows that iterating the dataset yields, whenever
  that iteration does not raise and the counts recorded in the partitions are right.
\<close>

theorem row_count_correct:
  assumes "gen_list (iter_records d) = Inr rows"
    and "\<forall>p \<in> set (ds_partitions d). counts_ok p"
  shows "ds_row_count d = Inr (length rows)"
  using assms by (rule row_count_eq)

text \<open>The rows that round-robin dealing gives to bucket \<open>j\<close> of \<open>n\<close>, in order.\<close>

definition bucket_rows :: "nat \<Rightarrow> 'a list \<Rightarrow> nat \<Rightarrow> 'a list" where
  "bucket_rows n xs j = map (\<lambda>i. xs ! i) (filter (\<lambda>i. i mod n = j) [0..<length xs])"

lemma bucket_rows_snoc:
  "bucket_rows n (xs @ [x]) j = (if length xs mod n = j then bucket_rows n xs j @ [x] else bucket_rows n xs j)"
  by (simp add: bucket_rows_def nth_append cong: map_cong)

lemma deal_rows:
  assumes "0 < n"
  shows "rfold (deal_row n) (0, replicate n []) rows
         = Inr (length rows, map (bucket_rows n rows) [0..<n])"
proof (induction rows rule: rev_induct)
  case Nil
  show ?case by (simp add: bucket_rows_def map_replicate_const)
next
  case (snoc r rows)
  have "(map (bucket_rows n rows) [0..<n])
          [length rows mod n := map (bucket_rows n rows) [0..<n] ! (length rows mod n) @ [r]]
        = map (bucket_rows n (rows @ [r])) [0..<n]"
    using assms by (intro nth_equalityI) (auto simp: bucket_rows_snoc nth_list_update)
  with snoc show ?case by (simp add: rfold_append deal_row_def)
qed

lemma mset_bucket_rows:
  assumes "0 < n"
  shows "(\<Sum>j<n. mset (bucket_rows n rows j)) = mset rows"
proof (induction rows rule: rev_induct)
  case Nil
  show ?case by (simp add: bucket_rows_def)
next
  case (snoc r rows)
  have "(\<Sum>j<n. mset (bucket_rows n (rows @ [r]) j))
      = (\<Sum>j<n. mset (bucket_rows n rows j) + (if length rows mod n = j then {#r#} else {#}))"
    by (intro sum.cong) (auto simp: bucket_rows_snoc)
  also have "\<dots> = mset rows + {#r#}"
    using assms by (simp add: sum.distrib snoc.IH)
  finally show ?case by simp
qed

text \<open>
  C25: \<^verbatim>\<open>Dataset.repartition(n)\<close> gives exactly \<^verbatim>\<open>n\<close> partitions; partition \<^verbatim>\<open>j\<close> yields, in their order,
  the rows whose index is \<^verbatim>\<open>j\<close> modulo \<^verbatim>\<open>n\<close>, so that no row is lost or duplicated.
\<close>

theorem repartition_round_robin:
  assumes "gen_list (iter_records d) = Inr rows" and "1 \<le> n"
  shows "\<exists>d'. repartition d n = Inr d' \<and> ds_schema d' = ds_schema d
           \<and> map part_to_list (ds_partitions d') = map (\<lambda>j. Inr (bucket_rows (nat n) rows j)) [0..<nat n]
           \<and> (\<Sum>j<nat n. mset (bucket_rows (nat n) rows j)) = mset rows"
proof -
  let ?bs = "map (bucket_rows (nat n) rows) [0..<nat n]"
  have "iter_records d = gen_of rows" using assms(1) by (simp add: gen_simps)
  then have "repartition d n = Inr \<lparr>ds_schema = ds_schema d,
      ds_partitions = map2 (bucket_partition (ds_schema d)) [0..<length ?bs] ?bs\<rparr>"
    using assms(2) by (simp add: repartition_def deal_rows)
  moreover have "map part_to_list (map2 (bucket_partition sch) [0..<length bs] bs) = map Inr bs"
    for sch and bs :: "row list list"
    by (intro nth_equalityI) (auto simp: part_to_list_def bucket_partition_def)
  from this [of "ds_schema d" ?bs]
  have "map part_to_list (map2 (bucket_partition (ds_schema d)) [0..<length ?bs] ?bs)
      = map (\<lambda>j. Inr (bucket_rows (nat n) rows j)) [0..<nat n]"
    by (simp add: comp_def)
  ultimately show ?thesis
    using assms(2) mset_bucket_rows [of "nat n" rows] by simp
qed

definition sample_dataset :: dataset where
  "sample_dataset = \<lparr>ds_schema = [\<lparr>fname = ''a'', data_type = IntType, nullable = False\<rparr>],
     ds_partitions =
       [bucket_partition [] 0 [[(''a'', VInt 1)], [(''a'', VInt 2)]],
        \<lparr>partition_id = 1, part_schema = [], records = gen_of [[(''a'', VInt 3)]],
         metadata = no_meta\<rparr>]\<rparr>"

lemma sample_dataset_rows:
  "gen_list (iter_records sample_dataset)
   = Inr [[(''a'', VInt 1)], [(''a'', VInt 2)], [(''a'', VInt 3)]]"
  by (simp add: sample_dataset_def iter_records_def bucket_partition_def)

theorem repartition_round_robin_witness:
  "\<exists>d'. repartition sample_dataset 2 = Inr d' \<and>
     map part_to_list (ds_partitions d')
     = [Inr [[(''a'', VInt 1)], [(''a'', VInt 3)]], Inr [[(''a'', VInt 2)]]]"
proof -
  have "[0..<nat 2] = [0, 1]" by (simp add: upt_rec numeral_2_eq_2)
  then show ?thesis
    using repartition_round_robin [OF sample_dataset_rows, of 2]
    by (auto simp: bucket_rows_def upt_rec)
qed

theorem row_count_correct_witness: "ds_row_count sample_dataset = Inr 3"
proof -
  have "\<forall>p \<in> set (ds_partitions sample_dataset). counts_ok p"
    by (simp add: sample_dataset_def bucket_partition_def counts_ok_def part_row_count_def
        counted_meta_def no_meta_def part_to_list_def)
  from row_count_correct [OF sample_dataset_rows this] show ?thesis by simp
qed

end
