(* ===== verification/PyRepr.thy ===== *)
theory PyRepr
  imports PyValue
begin

text \<open>
  \<^verbatim>\<open>repr()\<close> of the values a row can hold, digit by digit as CPython prints them: the program hashes
  the repr of a shuffle key, names an unaliased output column by the repr of its expression, and
  detects the optimizer's fixed point on printed plans.
\<close>

section \<open>Integers\<close>

definition digit :: "nat \<Rightarrow> char" where
  "digit d = char_of (48 + d)"

fun nat_str :: "nat \<Rightarrow> string" where
  "nat_str n = (if n < 10 then [digit n] else nat_str (n div 10) @ [digit (n mod 10)])"

declare nat_str.simps [simp del]

definition int_str :: "int \<Rightarrow> string" where
  "int_str i = (if i < 0 then CHR ''-'' # nat_str (nat (- i)) else nat_str (nat i))"

definition join_str :: "string \<Rightarrow> string list \<Rightarrow> string" where
  "join_str sep xs = (case xs of [] \<Rightarrow> [] | x # ys \<Rightarrow> x @ concat (map (\<lambda>y. sep @ y) ys))"

text \<open>Decimal numerals determine their number, and hold digits only.\<close>

definition str_nat :: "string \<Rightarrow> nat" where
  "str_nat s = foldl (\<lambda>n c. n * 10 + (of_char c - 48)) 0 s"

lemma of_char_digit: "d < 10 \<Longrightarrow> (of_char (digit d) :: nat) = 48 + d"
  by (simp add: digit_def)

lemma str_nat_nat_str [simp]: "str_nat (nat_str n) = n"
proof (induction n rule: nat_str.induct)
  case (1 n)
  show ?case
  proof (cases "n < 10")
    case True
    then show ?thesis by (simp add: nat_str.simps [of n] str_nat_def of_char_digit)
  next
    case False
    with 1 have "str_nat (nat_str (n div 10)) = n div 10" by simp
    with False show ?thesis
      by (simp add: nat_str.simps [of n] str_nat_def of_char_digit)
  qed
qed

lemma nat_str_inj [simp]: "nat_str m = nat_str n \<longleftrightarrow> m = n"
  by (metis str_nat_nat_str)

lemma nat_str_digits: "c \<in> set (nat_str n) \<Longrightarrow> 48 \<le> (of_char c :: nat) \<and> (of_char c :: nat) < 58"
proof (induction n rule: nat_str.induct)
  case (1 n)
  then show ?case
    by (cases "n < 10") (auto simp: nat_str.simps [of n] of_char_digit)
qed

lemma nat_str_no_sep [simp]:
  "CHR ''/'' \<notin> set (nat_str n)" "CHR ''_'' \<notin> set (nat_str n)" "CHR ''.'' \<notin> set (nat_str n)"
proof -
  show "CHR ''/'' \<notin> set (nat_str n)" using nat_str_digits [of "CHR ''/''" n] by auto
  show "CHR ''_'' \<notin> set (nat_str n)" using nat_str_digits [of "CHR ''_''" n] by auto
  show "CHR ''.'' \<notin> set (nat_str n)" using nat_str_digits [of "CHR ''.''" n] by auto
qed

text \<open>Two numerals followed by the same separator: the numbers and the rests agree.\<close>

lemma append_sep_eq:
  "c \<notin> set xs \<Longrightarrow> c \<notin> set ys \<Longrightarrow> xs @ c # us = ys @ c # vs \<longleftrightarrow> xs = ys \<and> us = vs"
proof (induction xs arbitrary: ys)
  case Nil
  then show ?case by (cases ys) auto
next
  case (Cons x xs)
  then show ?case by (cases ys) auto
qed

lemma nat_str_sep_eq [simp]:
  "nat_str m @ CHR ''/'' # us = nat_str n @ CHR ''/'' # vs \<longleftrightarrow> m = n \<and> us = vs"
  "nat_str m @ CHR ''_'' # us = nat_str n @ CHR ''_'' # vs \<longleftrightarrow> m = n \<and> us = vs"
  "nat_str m @ CHR ''.'' # us = nat_str n @ CHR ''.'' # vs \<longleftrightarrow> m = n \<and> us = vs"
  by (simp_all add: append_sep_eq)

section \<open>Floats: the shortest decimal that rounds to the double\<close>

definition ten_pow :: "int \<Rightarrow> rat" where
  "ten_pow k = (if 0 \<le> k then 10 ^ nat k else 1 / 10 ^ nat (- k))"

definition flog10 :: "rat \<Rightarrow> int" where
  "flog10 q =
     (let (n, d) = quotient_of q;
          k = int (length (nat_str (nat n))) - int (length (nat_str (nat d)))
      in if ten_pow k \<le> q then k else k - 1)"

text \<open>
  The decimals with \<open>n\<close> significant digits next to \<open>q\<close>, nearest first, as an integer and a power
  of ten; the first one that rounds back to \<open>q\<close> is printed.
\<close>

definition decimal_candidates :: "rat \<Rightarrow> nat \<Rightarrow> (int \<times> int) list" where
  "decimal_candidates q n =
     (let e = flog10 q - int n + 1; c = q / ten_pow e; lo = \<lfloor>c\<rfloor>; hi = \<lceil>c\<rceil>
      in if c - of_int lo \<le> of_int hi - c then [(lo, e), (hi, e)] else [(hi, e), (lo, e)])"

fun shortest_decimal :: "rat \<Rightarrow> nat \<Rightarrow> nat \<Rightarrow> int \<times> int" where
  "shortest_decimal q n 0 = hd (decimal_candidates q n)"
| "shortest_decimal q n (Suc k) =
     (case filter (\<lambda>(m, e). rat_to_float (of_int m * ten_pow e) = FFin q) (decimal_candidates q n) of
        c # _ \<Rightarrow> c
      | [] \<Rightarrow> shortest_decimal q (Suc n) k)"

fun strip_zeros :: "string \<Rightarrow> nat \<Rightarrow> string" where
  "strip_zeros s 0 = s"
| "strip_zeros s (Suc k) =
     (if length s > 1 \<and> last s = CHR ''0'' then strip_zeros (butlast s) k else s)"

definition exponent_str :: "int \<Rightarrow> string" where
  "exponent_str e =
     (let d = nat_str (nat \<bar>e\<bar>)
      in (if e < 0 then ''e-'' else ''e+'') @ (if length d < 2 then ''0'' @ d else d))"

definition format_digits :: "string \<Rightarrow> int \<Rightarrow> string" where
  "format_digits ds e =
     (if - 4 \<le> e \<and> e < 16 then
        (if e < 0 then ''0.'' @ replicate (nat (- e - 1)) (CHR ''0'') @ ds
         else if int (length ds) \<le> e + 1
           then ds @ replicate (nat (e + 1) - length ds) (CHR ''0'') @ ''.0''
         else take (nat (e + 1)) ds @ ''.'' @ drop (nat (e + 1)) ds)
      else take 1 ds @ (if 1 < length ds then ''.'' @ drop 1 ds else []) @ exponent_str e)"

definition pos_float_str :: "rat \<Rightarrow> string" where
  "pos_float_str q =
     (let (m, e) = shortest_decimal q 1 16; s = nat_str (nat m); ds = strip_zeros s (length s)
      in format_digits ds (e + int (length s) - 1))"

fun float_str :: "pyfloat \<Rightarrow> string" where
  "float_str FNan = ''nan''"
| "float_str (FInf neg) = (if neg then ''-inf'' else ''inf'')"
| "float_str FNegZero = ''-0.0''"
| "float_str (FFin q) =
     (if q = 0 then ''0.0'' else if q < 0 then CHR ''-'' # pos_float_str (- q) else pos_float_str q)"

section \<open>Strings and values\<close>

definition hex_digit :: "nat \<Rightarrow> char" where
  "hex_digit d = char_of (if d < 10 then 48 + d else 87 + d)"

definition escape_char :: "char \<Rightarrow> char \<Rightarrow> string" where
  "escape_char quote c =
     (let n = of_char c :: nat in
      if c = quote \<or> n = 92 then [char_of (92::nat), c]
      else if n = 9 then [char_of (92::nat), CHR ''t'']
      else if n = 10 then [char_of (92::nat), CHR ''n'']
      else if n = 13 then [char_of (92::nat), CHR ''r'']
      else if n < 32 \<or> (127 \<le> n \<and> n \<le> 160) \<or> n = 173
        then [char_of (92::nat), CHR ''x'', hex_digit (n div 16), hex_digit (n mod 16)]
      else [c])"

definition str_repr :: "string \<Rightarrow> string" where
  "str_repr s =
     (let apos = char_of (39::nat); dq = char_of (34::nat);
          quote = (if apos \<in> set s \<and> dq \<notin> set s then dq else apos)
      in quote # concat (map (escape_char quote) s) @ [quote])"

fun py_repr :: "pval \<Rightarrow> string" where
  "py_repr VNone = ''None''"
| "py_repr (VBool b) = (if b then ''True'' else ''False'')"
| "py_repr (VInt i) = int_str i"
| "py_repr (VFloat f) = float_str f"
| "py_repr (VStr s) = str_repr s"
| "py_repr (VTuple vs) =
     (case map py_repr vs of
        [s] \<Rightarrow> ''('' @ s @ '',)''
      | ss \<Rightarrow> ''('' @ join_str '', '' ss @ '')'')"

end
