(* ===== verification/Expressions.thy ===== *)
theory Expressions
  imports CoreData PyRepr
begin

text \<open>
  The expression tree (\<^verbatim>\<open>minispark/expressions/\<close>): columns, literals, aliases, binary operators,
  unary predicates and aggregate functions, with row evaluation, \<^verbatim>\<open>repr\<close>, and the columns an
  expression refers to.
\<close>

section \<open>Expression nodes\<close>

datatype binop =
    GreaterThan | GreaterEqual | LessThan | LessEqual | Equal | NotEqual
  | And | Or | Add | Subtract | Multiply | Divide

text \<open>
  \<open>NotE\<close> is the class \<^verbatim>\<open>Not\<close>; \<open>CountStar\<close> is \<^verbatim>\<open>Count(None)\<close>; the last five constructors are the
  subclasses of \<^verbatim>\<open>AggregateFunction\<close>.
\<close>

datatype expr =
    Column string
  | Literal pval
  | Alias expr string
  | Binary binop expr expr
  | NotE expr
  | IsNull expr
  | IsNotNull expr
  | CountStar
  | Count expr
  | SumOf expr
  | Avg expr
  | MinOf expr
  | MaxOf expr

fun is_aggregate :: "expr \<Rightarrow> bool" where
  "is_aggregate CountStar = True"
| "is_aggregate (Count _) = True"
| "is_aggregate (SumOf _) = True"
| "is_aggregate (Avg _) = True"
| "is_aggregate (MinOf _) = True"
| "is_aggregate (MaxOf _) = True"
| "is_aggregate _ = False"

fun is_column :: "expr \<Rightarrow> bool" where
  "is_column (Column _) = True"
| "is_column _ = False"

fun children :: "expr \<Rightarrow> expr list" where
  "children (Alias e _) = [e]"
| "children (Binary _ l r) = [l, r]"
| "children (NotE e) = [e]"
| "children (IsNull e) = [e]"
| "children (IsNotNull e) = [e]"
| "children (Count e) = [e]"
| "children (SumOf e) = [e]"
| "children (Avg e) = [e]"
| "children (MinOf e) = [e]"
| "children (MaxOf e) = [e]"
| "children _ = []"

text \<open>
  The operators that build expressions (\<^verbatim>\<open>col("x") > 1\<close>): the right operand is an expression or a
  plain value, which \<^verbatim>\<open>_to_expr\<close> wraps in a literal.
\<close>

datatype operand = OExpr expr | OValue pval

fun to_expr :: "operand \<Rightarrow> expr" where
  "to_expr (OExpr e) = e"
| "to_expr (OValue v) = Literal v"

definition expr_op :: "binop \<Rightarrow> expr \<Rightarrow> operand \<Rightarrow> expr" where
  "expr_op op self other = Binary op self (to_expr other)"

section \<open>Evaluation against one row\<close>

text \<open>
  \<^verbatim>\<open>And\<close> and \<^verbatim>\<open>Or\<close> are lambdas over two values, so both operands have been evaluated (and may have
  raised) before the first is tested.
\<close>

fun apply_binop :: "binop \<Rightarrow> pval \<Rightarrow> pval \<Rightarrow> pval res" where
  "apply_binop GreaterThan a b = rbind (py_cmp CGt a b) (\<lambda>c. Inr (VBool c))"
| "apply_binop GreaterEqual a b = rbind (py_cmp CGe a b) (\<lambda>c. Inr (VBool c))"
| "apply_binop LessThan a b = rbind (py_cmp CLt a b) (\<lambda>c. Inr (VBool c))"
| "apply_binop LessEqual a b = rbind (py_cmp CLe a b) (\<lambda>c. Inr (VBool c))"
| "apply_binop Equal a b = Inr (VBool (py_eq a b))"
| "apply_binop NotEqual a b = Inr (VBool (\<not> py_eq a b))"
| "apply_binop And a b = Inr (VBool (truthy a \<and> truthy b))"
| "apply_binop Or a b = Inr (VBool (truthy a \<or> truthy b))"
| "apply_binop Add a b = py_add a b"
| "apply_binop Subtract a b = py_sub a b"
| "apply_binop Multiply a b = py_mul a b"
| "apply_binop Divide a b = py_truediv a b"

text \<open>The unary predicates, on the value of their child.\<close>

definition not_value :: "pval \<Rightarrow> pval" where
  [simp]: "not_value v = VBool (\<not> truthy v)"

definition is_null_value :: "pval \<Rightarrow> pval" where
  [simp]: "is_null_value v = VBool (v = VNone)"

definition is_not_null_value :: "pval \<Rightarrow> pval" where
  [simp]: "is_not_null_value v = VBool (v \<noteq> VNone)"

text \<open>An aggregate has no value for a row: its \<^verbatim>\<open>evaluate\<close> raises.\<close>

fun eval :: "expr \<Rightarrow> row \<Rightarrow> pval res" where
  "eval (Column n) r = row_get r n"
| "eval (Literal v) r = Inr v"
| "eval (Alias e _) r = eval e r"
| "eval (Binary op e f) r = rbind (eval e r) (\<lambda>a. rbind (eval f r) (\<lambda>b. apply_binop op a b))"
| "eval (NotE e) r = rbind (eval e r) (\<lambda>a. Inr (not_value a))"
| "eval (IsNull e) r = rbind (eval e r) (\<lambda>a. Inr (is_null_value a))"
| "eval (IsNotNull e) r = rbind (eval e r) (\<lambda>a. Inr (is_not_null_value a))"
| "eval _ r = Inl NotImplementedError"

text \<open>\<^verbatim>\<open>if condition.evaluate(record)\<close>\<close>

definition holds :: "expr \<Rightarrow> row \<Rightarrow> bool res" where
  "holds e r = rbind (eval e r) (\<lambda>v. Inr (truthy v))"

section \<open>\<open>repr\<close> and output names\<close>

fun binop_name :: "binop \<Rightarrow> string" where
  "binop_name GreaterThan = ''GreaterThan''"
| "binop_name GreaterEqual = ''GreaterEqual''"
| "binop_name LessThan = ''LessThan''"
| "binop_name LessEqual = ''LessEqual''"
| "binop_name Equal = ''Equal''"
| "binop_name NotEqual = ''NotEqual''"
| "binop_name And = ''And''"
| "binop_name Or = ''Or''"
| "binop_name Add = ''Add''"
| "binop_name Subtract = ''Subtract''"
| "binop_name Multiply = ''Multiply''"
| "binop_name Divide = ''Divide''"

fun expr_repr :: "expr \<Rightarrow> string" where
  "expr_repr (Column n) = ''Column('' @ str_repr n @ '')''"
| "expr_repr (Literal v) = ''Literal('' @ py_repr v @ '')''"
| "expr_repr (Alias e n) = ''Alias('' @ expr_repr e @ '', '' @ str_repr n @ '')''"
| "expr_repr (Binary op l r) = binop_name op @ ''('' @ expr_repr l @ '', '' @ expr_repr r @ '')''"
| "expr_repr (NotE e) = ''Not('' @ expr_repr e @ '')''"
| "expr_repr (IsNull e) = ''IsNull('' @ expr_repr e @ '')''"
| "expr_repr (IsNotNull e) = ''IsNotNull('' @ expr_repr e @ '')''"
| "expr_repr CountStar = ''Count(*)''"
| "expr_repr (Count e) = ''Count('' @ expr_repr e @ '')''"
| "expr_repr (SumOf e) = ''Sum('' @ expr_repr e @ '')''"
| "expr_repr (Avg e) = ''Avg('' @ expr_repr e @ '')''"
| "expr_repr (MinOf e) = ''Min('' @ expr_repr e @ '')''"
| "expr_repr (MaxOf e) = ''Max('' @ expr_repr e @ '')''"

fun output_name :: "expr \<Rightarrow> string" where
  "output_name (Alias _ n) = n"
| "output_name (Column n) = n"
| "output_name e = expr_repr e"

text \<open>\<^verbatim>\<open>inner = expr.child if isinstance(expr, Alias) else expr\<close>, as several modules write it\<close>

fun unalias :: "expr \<Rightarrow> expr" where
  "unalias (Alias e _) = e"
| "unalias e = e"

section \<open>Referenced columns (\<open>logical/analyzer.py\<close>)\<close>

fun referenced_columns :: "expr \<Rightarrow> string set" where
  "referenced_columns (Column n) = {n}"
| "referenced_columns (Literal _) = {}"
| "referenced_columns (Alias e _) = referenced_columns e"
| "referenced_columns (Binary _ l r) = referenced_columns l \<union> referenced_columns r"
| "referenced_columns (NotE e) = referenced_columns e"
| "referenced_columns (IsNull e) = referenced_columns e"
| "referenced_columns (IsNotNull e) = referenced_columns e"
| "referenced_columns CountStar = {}"
| "referenced_columns (Count e) = referenced_columns e"
| "referenced_columns (SumOf e) = referenced_columns e"
| "referenced_columns (Avg e) = referenced_columns e"
| "referenced_columns (MinOf e) = referenced_columns e"
| "referenced_columns (MaxOf e) = referenced_columns e"

definition columns_of :: "expr list \<Rightarrow> string set" where
  "columns_of es = (\<Union>e \<in> set es. referenced_columns e)"

lemma columns_of_simps [simp]:
  "columns_of [] = {}" "columns_of (e # es) = referenced_columns e \<union> columns_of es"
  by (auto simp: columns_of_def)

lemma finite_referenced_columns [simp]: "finite (referenced_columns e)"
  by (induction e) auto

text \<open>The value depends on the referenced columns only.\<close>

lemma eval_cong_columns:
  "(\<And>n. n \<in> referenced_columns e \<Longrightarrow> map_of r n = map_of s n) \<Longrightarrow> eval e r = eval e s"
  by (induction e) (auto simp: row_get_def)

lemma holds_cong_columns:
  "(\<And>n. n \<in> referenced_columns e \<Longrightarrow> map_of r n = map_of s n) \<Longrightarrow> holds e r = holds e s"
  unfolding holds_def by (metis eval_cong_columns)

lemma to_float_no_KeyError [simp]: "to_float x \<noteq> Inl (KeyError n)"
  by (cases x) (auto split: pyfloat.splits)

lemma arith_no_KeyError [simp]: "arith f g a b \<noteq> Inl (KeyError n)"
  by (cases a; cases b) (auto simp: arith_def rbind_Inl_iff split: pyfloat.splits)

lemma py_cmp_no_KeyError [simp]:
  "py_cmp c a b \<noteq> Inl (KeyError n)" and "py_cmp_list c as bs \<noteq> Inl (KeyError n)"
  by (induction c a b and c as bs rule: py_cmp_py_cmp_list.induct)
     (auto simp: num_cmp_def split: option.splits)

lemma apply_binop_no_KeyError [simp]: "apply_binop op a b \<noteq> Inl (KeyError n)"
  by (cases op)
     (auto simp: rbind_Inl_iff py_add_def py_sub_def py_mul_def py_truediv_def int_truediv_def
       split: option.splits pnum.splits pval.splits pyfloat.splits)

lemma eval_no_KeyError:
  "referenced_columns e \<subseteq> set (row_keys r) \<Longrightarrow> eval e r \<noteq> Inl (KeyError n)"
proof (induction e)
  case (Column c)
  then have "map_of r c \<noteq> None" by (auto simp: row_keys_def map_of_eq_None_iff)
  then show ?case by (auto simp: row_get_def)
qed (auto simp: rbind_Inl_iff)

end
