(* ===== verification/Aggregates.thy ===== *)
theory Aggregates
  imports Expressions
begin

text \<open>
  The aggregate functions of \<^verbatim>\<open>minispark/expressions/aggregate.py\<close>: the four steps initialize,
  update, merge and finalize, the interface that partial aggregation relies on (a locale), and
  its interpretation on every aggregate of the program.
\<close>

section \<open>The four steps\<close>

fun agg_initialize :: "expr \<Rightarrow> pval res" where
  "agg_initialize CountStar = Inr (VInt 0)"
| "agg_initialize (Count _) = Inr (VInt 0)"
| "agg_initialize (SumOf _) = Inr VNone"
| "agg_initialize (Avg _) = Inr (VTuple [VInt 0, VInt 0])"
| "agg_initialize (MinOf _) = Inr VNone"
| "agg_initialize (MaxOf _) = Inr VNone"
| "agg_initialize _ = Inl AttributeError"

text \<open>\<^verbatim>\<open>total, count = state\<close>\<close>

fun unpack2 :: "pval \<Rightarrow> (pval \<times> pval) res" where
  "unpack2 (VTuple [a, b]) = Inr (a, b)"
| "unpack2 (VTuple _) = Inl ValueError"
| "unpack2 _ = Inl TypeError"

fun agg_update :: "expr \<Rightarrow> pval \<Rightarrow> row \<Rightarrow> pval res" where
  "agg_update CountStar s r = py_add s (VInt 1)"
| "agg_update (Count e) s r =
     rbind (eval e r) (\<lambda>v. py_add s (VInt (if v = VNone then 0 else 1)))"
| "agg_update (SumOf e) s r =
     rbind (eval e r) (\<lambda>v.
       if v = VNone then Inr s else if s = VNone then Inr v else py_add s v)"
| "agg_update (Avg e) s r =
     rbind (eval e r) (\<lambda>v.
       if v = VNone then Inr s
       else rbind (unpack2 s) (\<lambda>(total, count).
              rbind (py_add total v) (\<lambda>t. rbind (py_add count (VInt 1)) (\<lambda>c.
                Inr (VTuple [t, c])))))"
| "agg_update (MinOf e) s r =
     rbind (eval e r) (\<lambda>v.
       if v = VNone then Inr s else if s = VNone then Inr v
       else rbind (py_cmp CLt v s) (\<lambda>less. Inr (if less then v else s)))"
| "agg_update (MaxOf e) s r =
     rbind (eval e r) (\<lambda>v.
       if v = VNone then Inr s else if s = VNone then Inr v
       else rbind (py_cmp CGt v s) (\<lambda>greater. Inr (if greater then v else s)))"
| "agg_update _ s r = Inl AttributeError"

fun agg_merge :: "expr \<Rightarrow> pval \<Rightarrow> pval \<Rightarrow> pval res" where
  "agg_merge CountStar a b = py_add a b"
| "agg_merge (Count _) a b = py_add a b"
| "agg_merge (SumOf _) a b =
     (if a = VNone then Inr b else if b = VNone then Inr a else py_add a b)"
| "agg_merge (Avg _) a b =
     rbind (unpack2 a) (\<lambda>(ta, ca). rbind (unpack2 b) (\<lambda>(tb, cb).
       rbind (py_add ta tb) (\<lambda>t. rbind (py_add ca cb) (\<lambda>c. Inr (VTuple [t, c])))))"
| "agg_merge (MinOf _) a b =
     (if a = VNone then Inr b else if b = VNone then Inr a
      else rbind (py_cmp CLt a b) (\<lambda>less. Inr (if less then a else b)))"
| "agg_merge (MaxOf _) a b =
     (if a = VNone then Inr b else if b = VNone then Inr a
      else rbind (py_cmp CGt a b) (\<lambda>greater. Inr (if greater then a else b)))"
| "agg_merge _ a b = Inl AttributeError"

fun agg_finalize :: "expr \<Rightarrow> pval \<Rightarrow> pval res" where
  "agg_finalize (Avg _) s =
     rbind (unpack2 s) (\<lambda>(total, count).
       if truthy count then py_truediv total count else Inr VNone)"
| "agg_finalize _ s = Inr s"

fun agg_result_type :: "expr \<Rightarrow> dtype \<Rightarrow> dtype" where
  "agg_result_type CountStar _ = IntType"
| "agg_result_type (Count _) _ = IntType"
| "agg_result_type (Avg _) _ = FloatType"
| "agg_result_type _ t = t"

text \<open>The state that \<^const>\<open>agg_initialize\<close> returns for an aggregate.\<close>

definition init_state :: "expr \<Rightarrow> pval" where
  "init_state e = (case agg_initialize e of Inr s \<Rightarrow> s | Inl _ \<Rightarrow> VNone)"

lemma agg_initialize_eq: "is_aggregate e \<Longrightarrow> agg_initialize e = Inr (init_state e)"
  by (cases e) (auto simp: init_state_def)

section \<open>The interface of partial aggregation\<close>

text \<open>
  What a reduce side relies on: \<open>upd\<close> folds a raw row into a state, \<open>mrg\<close> combines two states,
  and merging the state of some rows after another state is folding those rows into it.  \<open>inv\<close>
  holds of the states that arise, \<open>ok\<close> of the rows on which the aggregate does not raise.
\<close>

locale mergeable =
  fixes init :: 's
    and upd :: "'s \<Rightarrow> 'a \<Rightarrow> 's res"
    and mrg :: "'s \<Rightarrow> 's \<Rightarrow> 's res"
    and inv :: "'s \<Rightarrow> bool"
    and ok :: "'a \<Rightarrow> bool"
  assumes inv_init: "inv init"
    and upd_total: "inv s \<Longrightarrow> ok x \<Longrightarrow> \<exists>t. upd s x = Inr t \<and> inv t"
    and mrg_total: "inv s \<Longrightarrow> inv t \<Longrightarrow> \<exists>u. mrg s t = Inr u \<and> inv u"
    and mrg_init: "inv s \<Longrightarrow> mrg s init = Inr s"
    and mrg_upd: "inv s \<Longrightarrow> inv t \<Longrightarrow> ok x \<Longrightarrow>
          rbind (upd t x) (mrg s) = rbind (mrg s t) (\<lambda>u. upd u x)"
begin

lemma fold_total:
  "inv s \<Longrightarrow> \<forall>x \<in> set xs. ok x \<Longrightarrow> \<exists>t. rfold upd s xs = Inr t \<and> inv t"
proof (induction xs arbitrary: s)
  case Nil
  then show ?case by simp
next
  case (Cons x xs)
  then obtain s' where "upd s x = Inr s'" "inv s'" using upd_total by fastforce
  with Cons show ?case by simp
qed

lemma mrg_fold:
  "inv s \<Longrightarrow> inv t \<Longrightarrow> \<forall>x \<in> set xs. ok x \<Longrightarrow>
     rbind (rfold upd t xs) (mrg s) = rbind (mrg s t) (\<lambda>u. rfold upd u xs)"
proof (induction xs arbitrary: t)
  case Nil
  then show ?case by simp
next
  case (Cons x xs)
  then obtain t' where t': "upd t x = Inr t'" "inv t'" using upd_total by fastforce
  with Cons have "rbind (rfold upd t (x # xs)) (mrg s) = rbind (mrg s t') (\<lambda>u. rfold upd u xs)"
    by simp
  also have "mrg s t' = rbind (mrg s t) (\<lambda>u. upd u x)"
    using mrg_upd [of s t x] Cons.prems t' by simp
  finally show ?case by (simp add: rbind_assoc)
qed

text \<open>Folding rows into \<open>s\<close> is merging their own partial state into \<open>s\<close>.\<close>

lemma fold_as_merge:
  assumes "inv s" "\<forall>x \<in> set xs. ok x"
  shows "rfold upd s xs = rbind (rfold upd init xs) (mrg s)"
  using mrg_fold [OF assms(1) inv_init assms(2)] assms(1) by (simp add: mrg_init)

text \<open>Merging the partial states of consecutive chunks is one pass over all the rows.\<close>

lemma merge_partials:
  "inv s \<Longrightarrow> \<forall>xs \<in> set xss. \<forall>x \<in> set xs. ok x \<Longrightarrow> rmap (rfold upd init) xss = Inr ps \<Longrightarrow>
     rfold mrg s ps = rfold upd s (concat xss)"
proof (induction xss arbitrary: s ps)
  case Nil
  then show ?case by simp
next
  case (Cons xs xss)
  from Cons.prems(3) obtain p qs where ps: "ps = p # qs" "rfold upd init xs = Inr p"
    and qs: "rmap (rfold upd init) xss = Inr qs"
    by (auto simp: rbind_Inr_iff)
  from Cons.prems obtain t where t: "rfold upd s xs = Inr t" "inv t"
    using fold_total [of s xs] by auto
  have "mrg s p = Inr t"
    using fold_as_merge [of s xs] Cons.prems ps(2) t(1) by simp
  moreover have "rfold mrg t qs = rfold upd t (concat xss)"
    using Cons.prems(2) t(2) qs by (intro Cons.IH) auto
  ultimately show ?case
    using t(1) by (simp only: ps(1) rfold.simps rbind.simps rfold_append concat.simps)
qed

lemma partials_inv:
  "\<forall>xs \<in> set xss. \<forall>x \<in> set xs. ok x \<Longrightarrow> rmap (rfold upd init) xss = Inr ps \<Longrightarrow> \<forall>p \<in> set ps. inv p"
proof (induction xss arbitrary: ps)
  case Nil
  then show ?case by simp
next
  case (Cons xs xss)
  from Cons.prems obtain p where "rfold upd init xs = Inr p" "inv p"
    using fold_total [OF inv_init, of xs] by auto
  with Cons show ?case by (auto simp: rbind_Inr_iff)
qed

end

text \<open>When the order in which states meet must not matter, merging also commutes.\<close>

locale commutative_mergeable = mergeable +
  assumes mrg_comm: "inv s \<Longrightarrow> inv t \<Longrightarrow> mrg s t = mrg t s"
    and mrg_assoc: "inv s \<Longrightarrow> inv t \<Longrightarrow> inv u \<Longrightarrow>
          rbind (mrg s t) (\<lambda>x. mrg x u) = rbind (mrg t u) (mrg s)"
begin

lemma merge_list_total:
  "inv s \<Longrightarrow> \<forall>t \<in> set ts. inv t \<Longrightarrow> \<exists>u. rfold mrg s ts = Inr u \<and> inv u"
proof (induction ts arbitrary: s)
  case Nil
  then show ?case by simp
next
  case (Cons t ts)
  then obtain s' where "mrg s t = Inr s'" "inv s'" using mrg_total by fastforce
  with Cons show ?case by simp
qed

lemma merge_swap:
  assumes "inv s" "inv t" "inv u"
  shows "rbind (mrg s t) (\<lambda>x. mrg x u) = rbind (mrg s u) (\<lambda>x. mrg x t)"
proof -
  have "rbind (mrg s t) (\<lambda>x. mrg x u) = rbind (mrg t u) (mrg s)"
    using assms by (rule mrg_assoc)
  also have "mrg t u = mrg u t" using assms by (simp add: mrg_comm)
  also have "rbind (mrg u t) (mrg s) = rbind (mrg s u) (\<lambda>x. mrg x t)"
    using assms by (simp add: mrg_assoc)
  finally show ?thesis .
qed

lemma merge_list_pull:
  "inv s \<Longrightarrow> inv t \<Longrightarrow> \<forall>u \<in> set us. inv u \<Longrightarrow>
     rfold mrg s (us @ [t]) = rfold mrg s (t # us)"
proof (induction us arbitrary: s)
  case Nil
  then show ?case by simp
next
  case (Cons u us)
  then obtain s' where s': "mrg s u = Inr s'" "inv s'" using mrg_total by fastforce
  have "rfold mrg s ((u # us) @ [t]) = rfold mrg s' (t # us)"
    using Cons s' by (simp add: Cons.IH)
  also have "\<dots> = rbind (rbind (mrg s u) (\<lambda>x. mrg x t)) (\<lambda>y. rfold mrg y us)"
    using s' by simp
  also have "\<dots> = rbind (rbind (mrg s t) (\<lambda>x. mrg x u)) (\<lambda>y. rfold mrg y us)"
    using merge_swap [of s u t] Cons.prems by simp
  finally show ?case by (simp add: rbind_assoc)
qed

lemma merge_list_perm:
  "inv s \<Longrightarrow> \<forall>t \<in> set ts. inv t \<Longrightarrow> mset ts = mset us \<Longrightarrow> rfold mrg s ts = rfold mrg s us"
proof (induction ts arbitrary: s us)
  case Nil
  then show ?case by simp
next
  case (Cons t ts)
  then have "t \<in> set us" by (metis list.set_intros(1) mset_eq_setD)
  then obtain as bs where us: "us = as @ t # bs" by (meson split_list)
  with Cons.prems have inv_us: "\<forall>u \<in> set as \<union> set bs. inv u"
    by (metis Un_iff insert_iff list.simps(15) mset_eq_setD set_append)
  obtain s' where s': "mrg s t = Inr s'" "inv s'" using Cons.prems mrg_total by fastforce
  have "rfold mrg s us = rbind (rfold mrg s (as @ [t])) (\<lambda>x. rfold mrg x bs)"
    by (simp add: us rfold_append rbind_assoc)
  also have "\<dots> = rbind (rfold mrg s (t # as)) (\<lambda>x. rfold mrg x bs)"
    using Cons.prems inv_us by (subst merge_list_pull) auto
  also have "\<dots> = rfold mrg s' (as @ bs)"
    using s' by (simp add: rfold_append)
  also have "\<dots> = rfold mrg s' ts"
    using Cons.IH [of s' "as @ bs"] Cons.prems us s'(2) by simp
  finally show ?case using s' by simp
qed

text \<open>The partial states of any chunks, merged in any order, give the state of all the rows.\<close>

lemma merge_partials_any_order:
  assumes "\<forall>xs \<in> set xss. \<forall>x \<in> set xs. ok x" "rmap (rfold upd init) xss = Inr ps"
    and "mset (q # qs) = mset ps"
  shows "rfold mrg q qs = rfold upd init (concat xss)"
proof -
  have inv: "\<forall>p \<in> set ps. inv p" using assms(1,2) by (rule partials_inv)
  then have invq: "inv q" "\<forall>p \<in> set (q # qs). inv p"
    using assms(3) by (metis list.set_intros(1) mset_eq_setD)+
  have "mrg init q = Inr q" using mrg_comm [OF inv_init invq(1)] mrg_init [OF invq(1)] by simp
  then have "rfold mrg q qs = rfold mrg init (q # qs)" by simp
  also have "\<dots> = rfold mrg init ps"
    by (rule merge_list_perm [OF inv_init invq(2) assms(3)])
  also have "\<dots> = rfold upd init (concat xss)"
    by (rule merge_partials [OF inv_init assms(1,2)])
  finally show ?thesis .
qed

end

section \<open>Every aggregate of the program is mergeable\<close>

text \<open>
  Python's \<^verbatim>\<open>+\<close> on floats is not associative, and \<^verbatim>\<open><\<close> mixes no strings with numbers, so the laws
  are stated for a column of ints or nulls, or, for min and max, of strings or nulls.
\<close>

datatype vkind = Ints | Strs

fun kind_ok :: "vkind \<Rightarrow> pval \<Rightarrow> bool" where
  "kind_ok _ VNone = True"
| "kind_ok Ints (VInt _) = True"
| "kind_ok Strs (VStr _) = True"
| "kind_ok _ _ = False"

fun eval_ok :: "(pval \<Rightarrow> bool) \<Rightarrow> pval res \<Rightarrow> bool" where
  "eval_ok p (Inr v) = p v"
| "eval_ok p (Inl _) = False"

fun agg_ok :: "(expr \<Rightarrow> vkind) \<Rightarrow> expr \<Rightarrow> row \<Rightarrow> bool" where
  "agg_ok \<kappa> CountStar r = True"
| "agg_ok \<kappa> (Count e) r = eval_ok (\<lambda>_. True) (eval e r)"
| "agg_ok \<kappa> (SumOf e) r = eval_ok (kind_ok Ints) (eval e r)"
| "agg_ok \<kappa> (Avg e) r = eval_ok (kind_ok Ints) (eval e r)"
| "agg_ok \<kappa> (MinOf e) r = eval_ok (kind_ok (\<kappa> (MinOf e))) (eval e r)"
| "agg_ok \<kappa> (MaxOf e) r = eval_ok (kind_ok (\<kappa> (MaxOf e))) (eval e r)"
| "agg_ok \<kappa> _ r = False"

fun is_int :: "pval \<Rightarrow> bool" where
  "is_int (VInt _) = True"
| "is_int _ = False"

fun is_int_pair :: "pval \<Rightarrow> bool" where
  "is_int_pair (VTuple [VInt _, VInt _]) = True"
| "is_int_pair _ = False"

fun agg_inv :: "(expr \<Rightarrow> vkind) \<Rightarrow> expr \<Rightarrow> pval \<Rightarrow> bool" where
  "agg_inv \<kappa> CountStar s = is_int s"
| "agg_inv \<kappa> (Count _) s = is_int s"
| "agg_inv \<kappa> (SumOf _) s = kind_ok Ints s"
| "agg_inv \<kappa> (Avg _) s = is_int_pair s"
| "agg_inv \<kappa> (MinOf e) s = kind_ok (\<kappa> (MinOf e)) s"
| "agg_inv \<kappa> (MaxOf e) s = kind_ok (\<kappa> (MaxOf e)) s"
| "agg_inv \<kappa> _ s = False"

lemma is_int_iff [simp]: "is_int v \<longleftrightarrow> (\<exists>i. v = VInt i)"
  by (cases v) auto

lemma is_int_pair_iff [simp]: "is_int_pair v \<longleftrightarrow> (\<exists>i j. v = VTuple [VInt i, VInt j])"
  by (cases v rule: is_int_pair.cases) auto

lemma kind_ok_Ints: "kind_ok Ints v \<longleftrightarrow> v = VNone \<or> (\<exists>i. v = VInt i)"
  by (cases v) auto

lemma kind_ok_Strs: "kind_ok Strs v \<longleftrightarrow> v = VNone \<or> (\<exists>s. v = VStr s)"
  by (cases v) auto

lemmas kind_ok_iff = kind_ok_Ints kind_ok_Strs

lemma eval_ok_iff: "eval_ok p m \<longleftrightarrow> (\<exists>v. m = Inr v \<and> p v)"
  by (cases m) auto

lemma num_cmp_ints [simp]: "num_cmp c (VInt a) (VInt b) = Inr (cmp_ord c a b)"
  by (cases c) (auto simp: num_cmp_def)

lemmas init_state_simps [simp] =
  init_state_def [of CountStar, simplified] init_state_def [of "Count e" for e, simplified]
  init_state_def [of "SumOf e" for e, simplified] init_state_def [of "Avg e" for e, simplified]
  init_state_def [of "MinOf e" for e, simplified] init_state_def [of "MaxOf e" for e, simplified]

interpretation count_star: commutative_mergeable
  "init_state CountStar" "agg_update CountStar" "agg_merge CountStar"
  "agg_inv \<kappa> CountStar" "agg_ok \<kappa> CountStar" for \<kappa>
  by unfold_locales (auto simp: add.commute add.left_commute)

interpretation count_col: commutative_mergeable
  "init_state (Count e)" "agg_update (Count e)" "agg_merge (Count e)"
  "agg_inv \<kappa> (Count e)" "agg_ok \<kappa> (Count e)" for \<kappa> e
  by unfold_locales (auto simp: eval_ok_iff add.commute add.left_commute)

interpretation sum_of: commutative_mergeable
  "init_state (SumOf e)" "agg_update (SumOf e)" "agg_merge (SumOf e)"
  "agg_inv \<kappa> (SumOf e)" "agg_ok \<kappa> (SumOf e)" for \<kappa> e
  by unfold_locales (auto simp: eval_ok_iff kind_ok_iff add.commute add.left_commute)

interpretation avg_of: commutative_mergeable
  "init_state (Avg e)" "agg_update (Avg e)" "agg_merge (Avg e)"
  "agg_inv \<kappa> (Avg e)" "agg_ok \<kappa> (Avg e)" for \<kappa> e
  by unfold_locales (auto simp: eval_ok_iff kind_ok_iff add.commute add.left_commute)

interpretation min_of: commutative_mergeable
  "init_state (MinOf e)" "agg_update (MinOf e)" "agg_merge (MinOf e)"
  "agg_inv \<kappa> (MinOf e)" "agg_ok \<kappa> (MinOf e)" for \<kappa> e
  by (cases "\<kappa> (MinOf e)"; unfold_locales) (auto simp: eval_ok_iff kind_ok_iff)

interpretation max_of: commutative_mergeable
  "init_state (MaxOf e)" "agg_update (MaxOf e)" "agg_merge (MaxOf e)"
  "agg_inv \<kappa> (MaxOf e)" "agg_ok \<kappa> (MaxOf e)" for \<kappa> e
  by (cases "\<kappa> (MaxOf e)"; unfold_locales) (auto simp: eval_ok_iff kind_ok_iff)

lemma aggregate_mergeable:
  assumes "is_aggregate e"
  shows "commutative_mergeable (init_state e) (agg_update e) (agg_merge e) (agg_inv \<kappa> e) (agg_ok \<kappa> e)"
  using assms
  by (cases e)
     (simp_all only: is_aggregate.simps count_star.commutative_mergeable_axioms
       count_col.commutative_mergeable_axioms sum_of.commutative_mergeable_axioms
       avg_of.commutative_mergeable_axioms min_of.commutative_mergeable_axioms
       max_of.commutative_mergeable_axioms)

section \<open>What the aggregates compute\<close>

text \<open>The non-null values of an expression over some rows, and their contents.\<close>

definition nonnull :: "expr \<Rightarrow> row list \<Rightarrow> pval list" where
  "nonnull e rows =
     filter (\<lambda>v. v \<noteq> VNone) (map (\<lambda>r. case eval e r of Inr v \<Rightarrow> v | Inl _ \<Rightarrow> VNone) rows)"

fun the_int :: "pval \<Rightarrow> int" where
  "the_int (VInt i) = i"
| "the_int _ = 0"

fun the_str :: "pval \<Rightarrow> string" where
  "the_str (VStr s) = s"
| "the_str _ = []"

definition ints_of :: "expr \<Rightarrow> row list \<Rightarrow> int list" where
  "ints_of e rows = map the_int (nonnull e rows)"

definition strs_of :: "expr \<Rightarrow> row list \<Rightarrow> string list" where
  "strs_of e rows = map the_str (nonnull e rows)"

text \<open>The specification: the state after all the rows, then the value shown to the user.\<close>

fun state_spec :: "(expr \<Rightarrow> vkind) \<Rightarrow> expr \<Rightarrow> row list \<Rightarrow> pval" where
  "state_spec \<kappa> CountStar rows = VInt (int (length rows))"
| "state_spec \<kappa> (Count e) rows = VInt (int (length (nonnull e rows)))"
| "state_spec \<kappa> (SumOf e) rows =
     (if nonnull e rows = [] then VNone else VInt (sum_list (ints_of e rows)))"
| "state_spec \<kappa> (Avg e) rows =
     VTuple [VInt (sum_list (ints_of e rows)), VInt (int (length (nonnull e rows)))]"
| "state_spec \<kappa> (MinOf e) rows =
     (if nonnull e rows = [] then VNone
      else case \<kappa> (MinOf e) of
             Ints \<Rightarrow> VInt (Min (set (ints_of e rows)))
           | Strs \<Rightarrow> VStr (Min (set (strs_of e rows))))"
| "state_spec \<kappa> (MaxOf e) rows =
     (if nonnull e rows = [] then VNone
      else case \<kappa> (MaxOf e) of
             Ints \<Rightarrow> VInt (Max (set (ints_of e rows)))
           | Strs \<Rightarrow> VStr (Max (set (strs_of e rows))))"
| "state_spec \<kappa> _ rows = VNone"

fun value_spec :: "(expr \<Rightarrow> vkind) \<Rightarrow> expr \<Rightarrow> row list \<Rightarrow> pval res" where
  "value_spec \<kappa> (Avg e) rows =
     (if nonnull e rows = [] then Inr VNone
      else int_truediv (sum_list (ints_of e rows)) (int (length (nonnull e rows))))"
| "value_spec \<kappa> e rows = Inr (state_spec \<kappa> e rows)"

lemma nonnull_Nil [simp]: "nonnull e [] = []"
  by (simp add: nonnull_def)

lemma nonnull_kind:
  "\<forall>r \<in> set rows. eval_ok (kind_ok k) (eval e r) \<Longrightarrow> \<forall>v \<in> set (nonnull e rows). kind_ok k v \<and> v \<noteq> VNone"
  by (auto simp: nonnull_def eval_ok_iff split: sum.splits)

lemma nonnull_snoc_simps [simp]:
  "eval e r = Inr VNone \<Longrightarrow> nonnull e (rows @ [r]) = nonnull e rows"
  "eval e r = Inr v \<Longrightarrow> v \<noteq> VNone \<Longrightarrow> nonnull e (rows @ [r]) = nonnull e rows @ [v]"
  by (auto simp: nonnull_def)

lemmas column_defs = ints_of_def strs_of_def

lemma update_snoc_spec:
  assumes "agg_ok \<kappa> e r" "\<forall>r \<in> set rows. agg_ok \<kappa> e r"
  shows "agg_update e (state_spec \<kappa> e rows) r = Inr (state_spec \<kappa> e (rows @ [r]))"
proof (cases e)
  case (MinOf c)
  have "\<forall>r \<in> set rows. eval_ok (kind_ok (\<kappa> e)) (eval c r)"
    using assms(2) MinOf by simp
  from nonnull_kind [OF this] show ?thesis
    using assms MinOf
    by (cases "\<kappa> e") (auto simp: eval_ok_iff kind_ok_iff column_defs min_def
          simp del: Min_gr_iff Min_ge_iff)
next
  case (MaxOf c)
  have "\<forall>r \<in> set rows. eval_ok (kind_ok (\<kappa> e)) (eval c r)"
    using assms(2) MaxOf by simp
  from nonnull_kind [OF this] show ?thesis
    using assms MaxOf
    by (cases "\<kappa> e") (auto simp: eval_ok_iff kind_ok_iff column_defs max_def
          simp del: Max_less_iff Max_le_iff)
qed (use assms in \<open>auto simp: eval_ok_iff kind_ok_iff column_defs\<close>)

lemma fold_update_spec:
  assumes "is_aggregate e" "\<forall>r \<in> set rows. agg_ok \<kappa> e r"
  shows "rfold (agg_update e) (init_state e) rows = Inr (state_spec \<kappa> e rows)"
  using assms(2)
proof (induction rows rule: rev_induct)
  case Nil
  show ?case using assms(1) by (cases e) (auto simp: ints_of_def)
next
  case (snoc r rows)
  then have "rfold (agg_update e) (init_state e) rows = Inr (state_spec \<kappa> e rows)" by simp
  moreover have "agg_update e (state_spec \<kappa> e rows) r = Inr (state_spec \<kappa> e (rows @ [r]))"
    using snoc.prems by (intro update_snoc_spec) auto
  ultimately show ?case by (simp add: rfold_append)
qed

lemma finalize_spec:
  "agg_finalize e (state_spec \<kappa> e rows) = (if is_aggregate e then value_spec \<kappa> e rows else Inr VNone)"
  by (cases e) (auto simp: py_truediv_def)

text \<open>
  C26: Driving an aggregate through initialize, update on every row, and finalize gives what its
  name says, if its argument has a value on every row, which for Sum and Avg is an int or null, and
  for Min and Max an int or null on every row, or a string or null on every row: the number of rows,
  the number of non-null values, their sum (null over none), the float nearest to their mean (null
  over none, \<^verbatim>\<open>OverflowError\<close> beyond the floats), their least or greatest element (null over none). Of
  columns of floats or bools only the counts are covered.
\<close>

theorem aggregate_functional:
  assumes "is_aggregate e" and "\<forall>r \<in> set rows. agg_ok \<kappa> e r"
  shows "rbind (agg_initialize e) (\<lambda>s. rbind (rfold (agg_update e) s rows) (agg_finalize e))
         = value_spec \<kappa> e rows"
  using assms by (simp add: agg_initialize_eq fold_update_spec finalize_spec)

theorem aggregate_functional_witness:
  "rbind (agg_initialize (Avg (Column ''x'')))
     (\<lambda>s. rbind (rfold (agg_update (Avg (Column ''x''))) s
            [[(''x'', VInt 3)], [(''x'', VNone)], [(''x'', VInt 4)]]) (agg_finalize (Avg (Column ''x''))))
   = Inr (VFloat (FFin (7/2)))"
proof -
  let ?rows = "[[(''x'', VInt 3)], [(''x'', VNone)], [(''x'', VInt 4)]]"
  have "\<forall>r \<in> set ?rows. agg_ok (\<lambda>_. Ints) (Avg (Column ''x'')) r"
    by (simp add: row_get_def)
  from aggregate_functional [OF _ this] have
    "rbind (agg_initialize (Avg (Column ''x'')))
       (\<lambda>s. rbind (rfold (agg_update (Avg (Column ''x''))) s ?rows) (agg_finalize (Avg (Column ''x''))))
     = value_spec (\<lambda>_. Ints) (Avg (Column ''x'')) ?rows" by simp
  also have "\<dots> = int_truediv 7 2"
    by (simp add: nonnull_def ints_of_def row_get_def)
  also have "\<dots> = Inr (VFloat (FFin (7/2)))"
    by code_simp
  finally show ?thesis .
qed

text \<open>
  C27: Partial aggregation is invisible. Split the rows of a group into any chunks (the source
  partitions), compute a partial state per chunk, and merge the states in any order, as the reduce
  side of a shuffle does: finalizing the result gives the same value as one pass. The argument has a
  value on every row; for Sum and Avg it is an int or null - adding floats is not associative, so
  their sums do depend on the chunks - and for Min and Max ints or null, or strings or null.
\<close>

theorem partial_aggregation:
  assumes "is_aggregate e" and "\<forall>rows \<in> set chunks. \<forall>r \<in> set rows. agg_ok \<kappa> e r"
    and "rmap (rfold (agg_update e) (init_state e)) chunks = Inr partials"
    and "mset (q # qs) = mset partials"
  shows "rbind (rfold (agg_merge e) q qs) (agg_finalize e) = value_spec \<kappa> e (concat chunks)"
proof -
  have "rfold (agg_merge e) q qs = rfold (agg_update e) (init_state e) (concat chunks)"
    by (rule commutative_mergeable.merge_partials_any_order
        [OF aggregate_mergeable [OF assms(1)] assms(2,3,4)])
  also have "\<dots> = Inr (state_spec \<kappa> e (concat chunks))"
    using assms(1,2) by (intro fold_update_spec) auto
  finally show ?thesis using assms(1) by (simp add: finalize_spec)
qed

theorem partial_aggregation_witness:
  "rbind (rfold (agg_merge (SumOf (Column ''x''))) (VInt 5) [VInt 3, VNone])
     (agg_finalize (SumOf (Column ''x''))) = Inr (VInt 8)"
proof -
  let ?chunks = "[[[(''x'', VInt 1)], [(''x'', VInt 2)]], [[(''x'', VNone)]], [[(''x'', VInt 5)]]]"
  have "\<forall>rows \<in> set ?chunks. \<forall>r \<in> set rows. agg_ok (\<lambda>_. Ints) (SumOf (Column ''x'')) r"
    by (simp add: row_get_def)
  moreover have "rmap (rfold (agg_update (SumOf (Column ''x''))) (init_state (SumOf (Column ''x'')))) ?chunks
      = Inr [VInt 3, VNone, VInt 5]"
    by (simp add: row_get_def)
  ultimately have "rbind (rfold (agg_merge (SumOf (Column ''x''))) (VInt 5) [VInt 3, VNone])
     (agg_finalize (SumOf (Column ''x'')))
    = value_spec (\<lambda>_. Ints) (SumOf (Column ''x'')) (concat ?chunks)"
    by (rule partial_aggregation [rotated]) simp_all
  then show ?thesis by (simp add: nonnull_def ints_of_def row_get_def)
qed

end
