(* ===== verification/LogicalPlan.thy ===== *)
theory LogicalPlan
  imports Aggregates
begin

text \<open>
  The logical plan (\<^verbatim>\<open>logical/nodes.py\<close>, \<^verbatim>\<open>logical/plan.py\<close>): its nodes, their output schemas, the
  printer that \<^verbatim>\<open>explain()\<close> and the optimizer's fixed-point test use, and a reference meaning of a
  plan (the rows it denotes) against which the optimizer is verified.
\<close>

section \<open>Nodes\<close>

text \<open>
  The \<^verbatim>\<open>source\<close> of a scan is any object with a \<^verbatim>\<open>read(columns, filter)\<close> method (the protocol
  \<^verbatim>\<open>ScanSource\<close>), so it is that method here.
\<close>

type_synonym scan_source = "string list option \<Rightarrow> expr option \<Rightarrow> dataset res"

datatype lplan =
    Scan dataset string "scan_source option"
  | Filter lplan expr
  | Project lplan "expr list"
  | Aggregate lplan "expr list" "expr list"
  | Join lplan lplan "string list" string bool
  | Sort lplan "expr list" "bool list"

fun lchildren :: "lplan \<Rightarrow> lplan list" where
  "lchildren (Scan _ _ _) = []"
| "lchildren (Filter c _) = [c]"
| "lchildren (Project c _) = [c]"
| "lchildren (Aggregate c _ _) = [c]"
| "lchildren (Join l r _ _ _) = [l, r]"
| "lchildren (Sort c _ _) = [c]"

text \<open>\<^verbatim>\<open>Sort.__init__\<close> refuses a direction list of another length.\<close>

definition mk_sort :: "lplan \<Rightarrow> expr list \<Rightarrow> bool list \<Rightarrow> lplan res" where
  "mk_sort c es asc = (if length es \<noteq> length asc then Inl ValueError else Inr (Sort c es asc))"

section \<open>Output schemas\<close>

definition output_field :: "expr \<Rightarrow> schema \<Rightarrow> field res" where
  "output_field e child =
     (case unalias e of
        Column n \<Rightarrow>
          if has_field child n
          then rbind (get_field child n) (\<lambda>f.
                 Inr \<lparr>fname = output_name e, data_type = data_type f, nullable = nullable f\<rparr>)
          else Inr \<lparr>fname = output_name e, data_type = StringType, nullable = True\<rparr>
      | _ \<Rightarrow> Inr \<lparr>fname = output_name e, data_type = StringType, nullable = True\<rparr>)"

definition infer_child_type :: "expr \<Rightarrow> schema \<Rightarrow> dtype res" where
  "infer_child_type e s =
     (case e of
        Column n \<Rightarrow> if has_field s n then rbind (get_field s n) (\<lambda>f. Inr (data_type f))
                    else Inr StringType
      | _ \<Rightarrow> Inr StringType)"

fun agg_child :: "expr \<Rightarrow> expr option" where
  "agg_child (Count e) = Some e"
| "agg_child (SumOf e) = Some e"
| "agg_child (Avg e) = Some e"
| "agg_child (MinOf e) = Some e"
| "agg_child (MaxOf e) = Some e"
| "agg_child _ = None"

definition aggregate_output_field :: "expr \<Rightarrow> schema \<Rightarrow> field res" where
  "aggregate_output_field e child =
     (let inner = unalias e in
      if \<not> is_aggregate inner then Inl ValueError
      else rbind (case agg_child inner of
                    Some c \<Rightarrow> infer_child_type c child | None \<Rightarrow> Inr StringType)
             (\<lambda>t. Inr \<lparr>fname = output_name e, data_type = agg_result_type inner t,
                       nullable = True\<rparr>))"

fun lschema :: "lplan \<Rightarrow> schema res" where
  "lschema (Scan d _ _) = Inr (ds_schema d)"
| "lschema (Filter c _) = lschema c"
| "lschema (Project c es) =
     (case lschema c of
        Inl x \<Rightarrow> if es = [] then mk_schema [] else Inl x
      | Inr s \<Rightarrow> rbind (rmap (\<lambda>e. output_field e s) es) mk_schema)"
| "lschema (Aggregate c gs as) =
     (case lschema c of
        Inl x \<Rightarrow> if gs = [] \<and> as = [] then mk_schema [] else Inl x
      | Inr s \<Rightarrow>
          rbind (rmap (\<lambda>g. output_field g s) gs) (\<lambda>gfs.
          rbind (rmap (\<lambda>a. aggregate_output_field a s) as) (\<lambda>afs. mk_schema (gfs @ afs))))"
| "lschema (Join l r on _ _) =
     rbind (lschema l) (\<lambda>ls. rbind (lschema r) (\<lambda>rs.
       mk_schema (ls @ filter (\<lambda>f. fname f \<notin> set on) rs)))"
| "lschema (Sort c _ _) = lschema c"

text \<open>The names of a plan's output columns, when its schema can be built.\<close>

lemma output_field_name: "output_field e s = Inr f \<Longrightarrow> fname f = output_name e"
  by (auto simp: output_field_def rbind_Inr_iff split: expr.splits if_splits)

lemma output_field_total: "\<exists>f. output_field e s = Inr f"
proof (cases "unalias e")
  case (Column n)
  then show ?thesis using get_field_has_field [of s n] by (auto simp: output_field_def)
qed (auto simp: output_field_def)

lemma aggregate_output_field_name:
  "aggregate_output_field e s = Inr f \<Longrightarrow> fname f = output_name e"
  by (auto simp: aggregate_output_field_def Let_def rbind_Inr_iff split: if_splits)

lemma rmap_field_names:
  assumes "rmap g es = Inr fs" and "\<And>e f. g e = Inr f \<Longrightarrow> fname f = output_name e"
  shows "field_names fs = map output_name es"
proof -
  have "list_all2 (\<lambda>e f. g e = Inr f) es fs" using assms(1) by (simp add: rmap_Inr_iff)
  then show ?thesis
    by (induction rule: list_all2_induct) (auto simp: field_names_def assms(2))
qed

lemma output_fields_names:
  "rmap (\<lambda>e. output_field e s) es = Inr fs \<Longrightarrow> map fname fs = map output_name es"
  using rmap_field_names [of "\<lambda>e. output_field e s" es fs] output_field_name
  by (simp add: field_names_def)

lemma aggregate_fields_names:
  "rmap (\<lambda>e. aggregate_output_field e s) es = Inr fs \<Longrightarrow> map fname fs = map output_name es"
  using rmap_field_names [of "\<lambda>e. aggregate_output_field e s" es fs] aggregate_output_field_name
  by (simp add: field_names_def)

lemma lschema_Project:
  "lschema (Project c es) = Inr s \<Longrightarrow> field_names s = map output_name es \<and> distinct (map output_name es)"
  by (auto simp: rbind_Inr_iff mk_schema_Inr_iff field_names_def
      dest!: output_fields_names split: sum.splits if_splits)

lemma lschema_Aggregate:
  assumes "lschema (Aggregate c gs as) = Inr s"
  shows "field_names s = map output_name gs @ map output_name as
    \<and> distinct (map output_name gs @ map output_name as)"
proof -
  have "field_names s = map output_name gs @ map output_name as \<and> distinct (field_names s)"
    using assms
    by (auto simp: rbind_Inr_iff mk_schema_def field_names_def
        dest!: output_fields_names aggregate_fields_names split: sum.splits if_splits
        simp del: distinct_append)
  then show ?thesis by metis
qed

section \<open>Printing (\<open>logical/plan.py\<close>)\<close>

definition dir_str :: "bool \<Rightarrow> string" where
  "dir_str asc = (if asc then ''ASC'' else ''DESC'')"

fun node_label :: "lplan \<Rightarrow> string" where
  "node_label (Scan d name _) =
     ''Scan['' @ name @ ''] ('' @ join_str '', '' (field_names (ds_schema d)) @ '')''"
| "node_label (Filter _ e) = ''Filter['' @ expr_repr e @ '']''"
| "node_label (Project _ es) = ''Project['' @ join_str '', '' (map output_name es) @ '']''"
| "node_label (Aggregate _ gs as) =
     ''Aggregate[groupBy=('' @ join_str '', '' (map output_name gs) @ ''), aggregates=(''
       @ join_str '', '' (map output_name as) @ '')]''"
| "node_label (Join _ _ on how b) =
     ''Join['' @ how @ '', on=('' @ join_str '', '' on @ '')]'' @ (if b then '' broadcast'' else [])"
| "node_label (Sort _ es asc) =
     ''Sort['' @ join_str '', '' (map2 (\<lambda>e a. output_name e @ '' '' @ dir_str a) es asc) @ '']''"

fun render :: "lplan \<Rightarrow> string \<Rightarrow> string list" where
  "render (Scan d n s) prefix = [prefix @ node_label (Scan d n s)]"
| "render (Filter c e) prefix = (prefix @ node_label (Filter c e)) # render c (prefix @ ''  '')"
| "render (Project c es) prefix = (prefix @ node_label (Project c es)) # render c (prefix @ ''  '')"
| "render (Aggregate c gs as) prefix =
     (prefix @ node_label (Aggregate c gs as)) # render c (prefix @ ''  '')"
| "render (Join l r on how b) prefix =
     (prefix @ node_label (Join l r on how b))
       # render l (prefix @ ''  '') @ render r (prefix @ ''  '')"
| "render (Sort c es asc) prefix = (prefix @ node_label (Sort c es asc)) # render c (prefix @ ''  '')"

definition explain_string :: "lplan \<Rightarrow> string" where
  "explain_string p = join_str [CHR 0x0A] (render p [])"

end
