(* ===== verification/Analyzer.thy ===== *)
theory Analyzer
  imports LogicalPlan
begin

text \<open>
  The analyzer (\<^verbatim>\<open>logical/analyzer.py\<close>): it accepts a plan or raises the first problem, and
  returns the plan unchanged.  Which of several unknown columns the message names depends on set
  iteration order, so the reason does not carry the name.
\<close>

section \<open>The checks\<close>

definition check_columns_exist :: "expr \<Rightarrow> schema \<Rightarrow> unit res" where
  "check_columns_exist e s =
     ensure (referenced_columns e \<subseteq> set (field_names s)) (AnalysisException UnknownColumn)"

text \<open>\<^verbatim>\<open>seen_names\<close> is threaded; the source mutates it.\<close>

definition reject_duplicate_name :: "string \<Rightarrow> string list \<Rightarrow> string list res" where
  "reject_duplicate_name n seen =
     (if n \<in> set seen then Inl (AnalysisException (DuplicateOutput n)) else Inr (n # seen))"

text \<open>
  In the three functions below the child's schema is a parameter that may itself have failed:
  the source evaluates \<^verbatim>\<open>plan.child.schema\<close> inside the loop, so an empty list never looks at it.
\<close>

fun analyze_project :: "schema res \<Rightarrow> expr list \<Rightarrow> string list \<Rightarrow> unit res" where
  "analyze_project cs [] seen = Inr ()"
| "analyze_project cs (e # es) seen =
     rbind cs (\<lambda>s. rbind (check_columns_exist e s) (\<lambda>_.
       rbind (reject_duplicate_name (output_name e) seen) (analyze_project cs es)))"

fun analyze_group_by :: "schema res \<Rightarrow> expr list \<Rightarrow> string list \<Rightarrow> string list res" where
  "analyze_group_by cs [] seen = Inr seen"
| "analyze_group_by cs (g # gs) seen =
     rbind (ensure (is_column g) (AnalysisException GroupByNotColumn)) (\<lambda>_.
       rbind cs (\<lambda>s. rbind (check_columns_exist g s) (\<lambda>_.
         rbind (reject_duplicate_name (output_name g) seen) (analyze_group_by cs gs))))"

fun analyze_aggs :: "schema res \<Rightarrow> expr list \<Rightarrow> string list \<Rightarrow> unit res" where
  "analyze_aggs cs [] seen = Inr ()"
| "analyze_aggs cs (a # as) seen =
     rbind (ensure (is_aggregate (unalias a)) (AnalysisException NotAnAggregate)) (\<lambda>_.
       rbind (case agg_child (unalias a) of
                None \<Rightarrow> Inr ()
              | Some c \<Rightarrow> rbind cs (check_columns_exist c)) (\<lambda>_.
         rbind (reject_duplicate_name (output_name a) seen) (analyze_aggs cs as)))"

definition analyze_aggregate :: "schema res \<Rightarrow> expr list \<Rightarrow> expr list \<Rightarrow> unit res" where
  "analyze_aggregate cs gs as = rbind (analyze_group_by cs gs []) (analyze_aggs cs as)"

fun check_join_columns :: "schema \<Rightarrow> schema \<Rightarrow> string list \<Rightarrow> unit res" where
  "check_join_columns ls rs [] = Inr ()"
| "check_join_columns ls rs (n # ns) =
     (if \<not> has_field ls n then Inl (AnalysisException (JoinColumnMissingLeft n))
      else if \<not> has_field rs n then Inl (AnalysisException (JoinColumnMissingRight n))
      else check_join_columns ls rs ns)"

definition supported_join_types :: "string list" where
  "supported_join_types = [''inner'']"

definition analyze_join :: "schema res \<Rightarrow> schema res \<Rightarrow> string list \<Rightarrow> string \<Rightarrow> unit res" where
  "analyze_join lsr rsr on how =
     (if how \<notin> set supported_join_types
        then Inl (AnalysisException (UnsupportedJoinType how))
      else if on = [] then Inl (AnalysisException EmptyJoinKeys)
      else rbind lsr (\<lambda>ls. rbind rsr (\<lambda>rs.
             rbind (check_join_columns ls rs on) (\<lambda>_.
               ensure ((set (field_names ls) \<inter> set (field_names rs)) - set on = {})
                 (AnalysisException CollidingColumns)))))"

fun analyze_sort :: "schema res \<Rightarrow> expr list \<Rightarrow> unit res" where
  "analyze_sort cs [] = Inr ()"
| "analyze_sort cs (e # es) =
     rbind (ensure (is_column e) (AnalysisException OrderByNotColumn)) (\<lambda>_.
       rbind cs (\<lambda>s. rbind (check_columns_exist e s) (\<lambda>_. analyze_sort cs es)))"

fun analyze :: "lplan \<Rightarrow> lplan res" where
  "analyze (Scan d n s) = Inr (Scan d n s)"
| "analyze (Filter c e) =
     rbind (analyze c) (\<lambda>_. rbind (lschema c) (\<lambda>s.
       rbind (check_columns_exist e s) (\<lambda>_. Inr (Filter c e))))"
| "analyze (Project c es) =
     rbind (analyze c) (\<lambda>_. rbind (analyze_project (lschema c) es []) (\<lambda>_. Inr (Project c es)))"
| "analyze (Aggregate c gs as) =
     rbind (analyze c) (\<lambda>_.
       rbind (analyze_aggregate (lschema c) gs as) (\<lambda>_. Inr (Aggregate c gs as)))"
| "analyze (Join l r on how b) =
     rbind (analyze l) (\<lambda>_. rbind (analyze r) (\<lambda>_.
       rbind (analyze_join (lschema l) (lschema r) on how) (\<lambda>_. Inr (Join l r on how b))))"
| "analyze (Sort c es asc) =
     rbind (analyze c) (\<lambda>_. rbind (analyze_sort (lschema c) es) (\<lambda>_. Inr (Sort c es asc)))"

section \<open>What acceptance means\<close>

text \<open>
  The declarative reading of the analyzer: \<^verbatim>\<open>out_names\<close> are the output columns of a plan, and a
  plan is well formed when every expression uses columns of its child only, output names are
  distinct, and a join's sides share exactly its keys.
\<close>

fun out_names :: "lplan \<Rightarrow> string list" where
  "out_names (Scan d _ _) = field_names (ds_schema d)"
| "out_names (Filter c _) = out_names c"
| "out_names (Project _ es) = map output_name es"
| "out_names (Aggregate _ gs as) = map output_name gs @ map output_name as"
| "out_names (Join l r on _ _) = out_names l @ filter (\<lambda>n. n \<notin> set on) (out_names r)"
| "out_names (Sort c _ _) = out_names c"

fun wf_plan :: "lplan \<Rightarrow> bool" where
  "wf_plan (Scan d _ _) = distinct (field_names (ds_schema d))"
| "wf_plan (Filter c e) = (wf_plan c \<and> referenced_columns e \<subseteq> set (out_names c))"
| "wf_plan (Project c es) =
     (wf_plan c \<and> columns_of es \<subseteq> set (out_names c) \<and> distinct (map output_name es))"
| "wf_plan (Aggregate c gs as) =
     (wf_plan c \<and> list_all is_column gs \<and> list_all (\<lambda>a. is_aggregate (unalias a)) as
      \<and> columns_of gs \<union> columns_of as \<subseteq> set (out_names c)
      \<and> distinct (map output_name gs @ map output_name as))"
| "wf_plan (Join l r on how _) =
     (wf_plan l \<and> wf_plan r \<and> how = ''inner'' \<and> on \<noteq> []
      \<and> set on \<subseteq> set (out_names l) \<inter> set (out_names r)
      \<and> set (out_names l) \<inter> set (out_names r) \<subseteq> set on)"
| "wf_plan (Sort c es _) =
     (wf_plan c \<and> list_all is_column es \<and> columns_of es \<subseteq> set (out_names c))"

text \<open>Schemas are built by their constructor, so the ones of datasets have no duplicates.\<close>

fun scans_ok :: "lplan \<Rightarrow> bool" where
  "scans_ok (Scan d _ _) = distinct (field_names (ds_schema d))"
| "scans_ok (Filter c _) = scans_ok c"
| "scans_ok (Project c _) = scans_ok c"
| "scans_ok (Aggregate c _ _) = scans_ok c"
| "scans_ok (Join l r _ _ _) = (scans_ok l \<and> scans_ok r)"
| "scans_ok (Sort c _ _) = scans_ok c"

lemma wf_out_names_distinct: "wf_plan p \<Longrightarrow> distinct (out_names p)"
  by (induction p) auto

lemma aggregate_field_total:
  "is_aggregate (unalias a) \<Longrightarrow> \<exists>f. aggregate_output_field a s = Inr f"
proof -
  assume a: "is_aggregate (unalias a)"
  have "\<exists>t. infer_child_type c s = Inr t" for c
  proof (cases c)
    case (Column n)
    then show ?thesis using get_field_has_field [of s n] by (auto simp: infer_child_type_def)
  qed (auto simp: infer_child_type_def)
  then have "\<exists>t. (case agg_child (unalias a) of
      Some c \<Rightarrow> infer_child_type c s | None \<Rightarrow> Inr StringType) = Inr t"
    by (cases "agg_child (unalias a)") auto
  with a show ?thesis by (auto simp: aggregate_output_field_def Let_def)
qed

lemma rmap_total: "\<forall>x \<in> set xs. \<exists>y. f x = Inr y \<Longrightarrow> \<exists>ys. rmap f xs = Inr ys"
  by (induction xs) auto

text \<open>A well-formed plan has a schema, with the names computed above.\<close>

lemma wf_schema:
  "wf_plan p \<Longrightarrow> \<exists>s. lschema p = Inr s \<and> field_names s = out_names p"
proof (induction p)
  case (Scan d n src)
  then show ?case by simp
next
  case (Project c es)
  then obtain s where s: "lschema c = Inr s" by auto
  obtain fs where fs: "rmap (\<lambda>e. output_field e s) es = Inr fs"
    using rmap_total output_field_total by metis
  with Project.prems s show ?case
    using output_fields_names [OF fs] by (simp add: mk_schema_def field_names_def)
next
  case (Aggregate c gs as)
  then obtain s where s: "lschema c = Inr s" by auto
  obtain fs where fs: "rmap (\<lambda>e. output_field e s) gs = Inr fs"
    using rmap_total output_field_total by metis
  have "\<forall>a \<in> set as. \<exists>f. aggregate_output_field a s = Inr f"
    using Aggregate.prems by (auto simp: list_all_iff intro: aggregate_field_total)
  from rmap_total [OF this] obtain hs
    where hs: "rmap (\<lambda>e. aggregate_output_field e s) as = Inr hs" ..
  from Aggregate.prems s fs hs show ?case
    using output_fields_names [OF fs] aggregate_fields_names [OF hs]
    by (simp add: mk_schema_def field_names_def flip: set_map)
next
  case (Join l r on how b)
  then obtain ls rs where *: "lschema l = Inr ls" "field_names ls = out_names l"
    "lschema r = Inr rs" "field_names rs = out_names r" by auto
  have "distinct (out_names (Join l r on how b))"
    using wf_out_names_distinct [OF Join.prems] .
  with * have "mk_schema (ls @ filter (\<lambda>f. fname f \<notin> set on) rs)
      = Inr (ls @ filter (\<lambda>f. fname f \<notin> set on) rs)"
    by (simp add: mk_schema_Inr_iff)
  with * show ?case
    by simp
qed auto

lemma analyze_project_iff:
  "analyze_project (Inr s) es seen = Inr () \<longleftrightarrow>
     columns_of es \<subseteq> set (field_names s) \<and> distinct (map output_name es)
     \<and> set seen \<inter> set (map output_name es) = {}"
  by (induction es arbitrary: seen)
     (auto simp: res_simps check_columns_exist_def reject_duplicate_name_def)

lemma analyze_group_by_iff:
  "analyze_group_by (Inr s) gs seen = Inr seen' \<longleftrightarrow>
     list_all is_column gs \<and> columns_of gs \<subseteq> set (field_names s)
     \<and> distinct (map output_name gs) \<and> set seen \<inter> set (map output_name gs) = {}
     \<and> seen' = rev (map output_name gs) @ seen"
  by (induction gs arbitrary: seen)
     (auto simp: res_simps check_columns_exist_def reject_duplicate_name_def)

lemma unalias_columns: "referenced_columns (unalias e) = referenced_columns e"
  by (cases e) auto

lemma agg_child_columns:
  "is_aggregate (unalias a) \<Longrightarrow> referenced_columns a =
     (case agg_child (unalias a) of None \<Rightarrow> {} | Some c \<Rightarrow> referenced_columns c)"
  by (subst unalias_columns [symmetric]) (cases "unalias a"; auto)

lemma analyze_aggs_iff:
  "analyze_aggs (Inr s) as seen = Inr () \<longleftrightarrow>
     list_all (\<lambda>a. is_aggregate (unalias a)) as \<and> columns_of as \<subseteq> set (field_names s)
     \<and> distinct (map output_name as) \<and> set seen \<inter> set (map output_name as) = {}"
proof (induction as arbitrary: seen)
  case Nil
  then show ?case by simp
next
  case (Cons a as)
  then show ?case
    by (cases "agg_child (unalias a)")
       (auto simp: res_simps check_columns_exist_def reject_duplicate_name_def agg_child_columns)
qed

lemma analyze_aggregate_iff:
  "analyze_aggregate (Inr s) gs as = Inr () \<longleftrightarrow>
     list_all is_column gs \<and> list_all (\<lambda>a. is_aggregate (unalias a)) as
     \<and> columns_of gs \<union> columns_of as \<subseteq> set (field_names s)
     \<and> distinct (map output_name gs @ map output_name as)"
  by (auto simp: analyze_aggregate_def res_simps analyze_group_by_iff analyze_aggs_iff)

lemma check_join_columns_iff:
  "check_join_columns ls rs on = Inr () \<longleftrightarrow>
     set on \<subseteq> set (field_names ls) \<inter> set (field_names rs)"
  by (induction on) (auto simp: has_field_def)

lemma analyze_join_iff:
  "analyze_join (Inr ls) (Inr rs) on how = Inr () \<longleftrightarrow>
     how = ''inner'' \<and> on \<noteq> []
     \<and> set on \<subseteq> set (field_names ls) \<inter> set (field_names rs)
     \<and> set (field_names ls) \<inter> set (field_names rs) \<subseteq> set on"
  by (auto simp: analyze_join_def supported_join_types_def res_simps check_join_columns_iff)

lemma analyze_sort_iff:
  "analyze_sort (Inr s) es = Inr () \<longleftrightarrow>
     list_all is_column es \<and> columns_of es \<subseteq> set (field_names s)"
  by (induction es) (auto simp: res_simps check_columns_exist_def)

lemmas analyze_iffs = analyze_project_iff analyze_aggregate_iff analyze_join_iff analyze_sort_iff

lemma ex_unit: "(\<exists>u::unit. P u) \<longleftrightarrow> P ()"
  by auto

text \<open>
  C15: The analyzer accepts exactly the well-formed plans, and returns the plan it was given:
  every referenced column exists below, output names are distinct, group-by and order-by keys are
  plain columns, aggregates are aggregates, and the two sides of an inner join share its keys and
  nothing else.
\<close>

theorem analyze_iff_wf:
  assumes "scans_ok p"
  shows "analyze p = Inr q \<longleftrightarrow> q = p \<and> wf_plan p"
  using assms
proof (induction p arbitrary: q)
  case (Filter c e)
  then show ?case using wf_schema [of c]
    by (cases "wf_plan c") (auto simp: res_simps check_columns_exist_def)
next
  case (Project c es)
  then show ?case using wf_schema [of c]
    by (cases "wf_plan c") (auto simp: res_simps analyze_iffs)
next
  case (Aggregate c gs as)
  show ?case
  proof (cases "wf_plan c")
    case True
    then obtain s where s: "lschema c = Inr s" "field_names s = out_names c"
      using wf_schema by blast
    from True Aggregate have c: "analyze c = Inr c" by simp
    show ?thesis
      by (simp only: analyze.simps c s rbind.simps rbind_Inr_iff wf_plan.simps True
          analyze_aggregate_iff ex_unit) (auto simp: s)
  next
    case False
    with Aggregate show ?thesis by (auto simp: rbind_Inr_iff)
  qed
next
  case (Join l r on how b)
  then show ?case using wf_schema [of l] wf_schema [of r]
    by (cases "wf_plan l \<and> wf_plan r") (auto simp: res_simps analyze_iffs)
next
  case (Sort c es asc)
  then show ?case using wf_schema [of c]
    by (cases "wf_plan c") (auto simp: res_simps analyze_iffs)
qed auto

definition sample_scan :: lplan where
  "sample_scan = Scan \<lparr>ds_schema = [\<lparr>fname = ''a'', data_type = IntType, nullable = False\<rparr>,
     \<lparr>fname = ''b'', data_type = StringType, nullable = True\<rparr>], ds_partitions = []\<rparr> ''t'' None"

theorem analyze_iff_wf_witness:
  "analyze (Filter (Project sample_scan [Column ''a'']) (IsNull (Column ''b''))) =
     Inl (AnalysisException UnknownColumn)
   \<and> analyze (Project (Filter sample_scan (IsNull (Column ''b''))) [Column ''a'']) =
     Inr (Project (Filter sample_scan (IsNull (Column ''b''))) [Column ''a''])"
proof -
  let ?p = "Project (Filter sample_scan (IsNull (Column ''b''))) [Column ''a'']"
  have "scans_ok ?p" "wf_plan ?p" by code_simp+
  with analyze_iff_wf [of ?p ?p] have "analyze ?p = Inr ?p" by simp
  moreover have "analyze (Filter (Project sample_scan [Column ''a'']) (IsNull (Column ''b'')))
      = Inl (AnalysisException UnknownColumn)"
    by (simp add: sample_scan_def check_columns_exist_def ensure_def reject_duplicate_name_def
        output_field_def has_field_def field_names_def get_field_def mk_schema_def)
  ultimately show ?thesis by simp
qed

end
