(* ===== verification/Partitioner.thy ===== *)
theory Partitioner
  imports Expressions "HOL-Library.Word"
begin

text \<open>
  The partitioners (\<^verbatim>\<open>shuffle/partitioner.py\<close>): which target partition a shuffle key belongs to.
  \<^verbatim>\<open>hashlib.md5\<close> is a parameter, a function from bytes to its 16-byte digest.
\<close>

type_synonym bytes = "8 word list"
type_synonym md5_fn = "bytes \<Rightarrow> bytes"

section \<open>The stable hash\<close>

text \<open>\<^verbatim>\<open>s.encode("utf-8")\<close>, for the code points below 256 that strings of the model have\<close>

definition utf8_char :: "char \<Rightarrow> bytes" where
  "utf8_char c =
     (let n = of_char c :: nat in
      if n < 128 then [of_nat n] else [of_nat (192 + n div 64), of_nat (128 + n mod 64)])"

definition utf8 :: "string \<Rightarrow> bytes" where
  "utf8 s = concat (map utf8_char s)"

definition from_bytes_big :: "bytes \<Rightarrow> nat" where
  "from_bytes_big bs = foldl (\<lambda>n b. n * 256 + unat b) 0 bs"

definition stable_hash :: "md5_fn \<Rightarrow> pval \<Rightarrow> nat" where
  "stable_hash md5 key = from_bytes_big (take 8 (md5 (utf8 (py_repr key))))"

lemma from_bytes_big_bound: "from_bytes_big bs < 256 ^ length bs"
proof (induction bs rule: rev_induct)
  case (snoc b bs)
  have "unat b < 256" by (rule less_le_trans [OF unsigned_less]) simp
  moreover have "from_bytes_big bs * 256 + 256 \<le> 256 ^ length bs * 256"
    using snoc by (metis Suc_leI mult.commute mult_Suc_right add.commute mult_le_mono1)
  moreover have "from_bytes_big (bs @ [b]) = from_bytes_big bs * 256 + unat b"
    by (simp add: from_bytes_big_def)
  ultimately have "from_bytes_big (bs @ [b]) < 256 ^ length bs * 256" by linarith
  then show ?case by simp
qed (simp add: from_bytes_big_def)

section \<open>\<open>bisect.bisect_right\<close>\<close>

function (sequential) bisect_loop :: "pval list \<Rightarrow> pval \<Rightarrow> nat \<Rightarrow> nat \<Rightarrow> nat res" where
  "bisect_loop a x lo hi =
     (if lo < hi then
        let mid = (lo + hi) div 2
        in rbind (py_lt x (a ! mid)) (\<lambda>less.
             if less then bisect_loop a x lo mid else bisect_loop a x (Suc mid) hi)
      else Inr lo)"
  by pat_completeness auto
termination by (relation "measure (\<lambda>(a, x, lo, hi). hi - lo)") auto

declare bisect_loop.simps [simp del]

definition bisect_right :: "pval list \<Rightarrow> pval \<Rightarrow> nat res" where
  "bisect_right a x = bisect_loop a x 0 (length a)"

section \<open>The partitioners\<close>

text \<open>
  The two subclasses of \<^verbatim>\<open>Partitioner\<close> with their attributes; the constructors raise on a bad
  count or a wrong number of boundaries.
\<close>

datatype partitioner = HashPartitioner nat | RangePartitioner nat "pval list"

fun num_targets :: "partitioner \<Rightarrow> nat" where
  "num_targets (HashPartitioner n) = n"
| "num_targets (RangePartitioner n _) = n"

definition mk_hash_partitioner :: "nat \<Rightarrow> partitioner res" where
  "mk_hash_partitioner n = (if n < 1 then Inl ValueError else Inr (HashPartitioner n))"

definition mk_range_partitioner :: "nat \<Rightarrow> pval list \<Rightarrow> partitioner res" where
  "mk_range_partitioner n bs =
     (if n < 1 then Inl ValueError
      else if length bs \<noteq> n - 1 then Inl ValueError
      else Inr (RangePartitioner n bs))"

fun partition_for :: "md5_fn \<Rightarrow> partitioner \<Rightarrow> pval \<Rightarrow> nat res" where
  "partition_for md5 (HashPartitioner n) key = Inr (stable_hash md5 key mod n)"
| "partition_for md5 (RangePartitioner n bs) key = bisect_right bs key"

section \<open>Correctness\<close>

text \<open>
  What bisection finds in a sorted list: the number of elements that are not greater than \<open>x\<close>.
\<close>

definition not_greater :: "pval list \<Rightarrow> pval \<Rightarrow> nat" where
  "not_greater a x = length (takeWhile (\<lambda>b. okey_of b \<le> okey_of x) a)"

lemma bisect_loop_range:
  "bisect_loop a x lo hi = Inr i \<Longrightarrow> lo \<le> hi \<Longrightarrow> lo \<le> i \<and> i \<le> hi"
proof (induction a x lo hi arbitrary: i rule: bisect_loop.induct)
  case (1 a x lo hi)
  show ?case
  proof (cases "lo < hi")
    case True
    with "1.prems"(1) obtain less where less: "py_lt x (a ! ((lo + hi) div 2)) = Inr less"
      and rest: "(if less then bisect_loop a x lo ((lo + hi) div 2)
                  else bisect_loop a x (Suc ((lo + hi) div 2)) hi) = Inr i"
      by (subst (asm) bisect_loop.simps) (auto simp: Let_def rbind_Inr_iff)
    show ?thesis
    proof (cases less)
      case t: True
      then have "lo \<le> i \<and> i \<le> (lo + hi) div 2"
        using "1.IH"(1) [OF True refl less t] rest True by simp
      with True show ?thesis by linarith
    next
      case f: False
      then have "Suc ((lo + hi) div 2) \<le> i \<and> i \<le> hi"
        using "1.IH"(2) [OF True refl less f] rest True by simp
      with True show ?thesis by linarith
    qed
  next
    case False
    with "1.prems" show ?thesis by (simp add: bisect_loop.simps [of a x lo hi])
  qed
qed

lemma bisect_loop_correct:
  assumes "comparable (x # a)" "sorted (map okey_of a)" "lo \<le> hi" "hi \<le> length a"
    and "\<forall>i < lo. okey_of (a ! i) \<le> okey_of x"
    and "\<forall>i. hi \<le> i \<longrightarrow> i < length a \<longrightarrow> okey_of x < okey_of (a ! i)"
  shows "bisect_loop a x lo hi = Inr (not_greater a x)"
  using assms
proof (induction a x lo hi rule: bisect_loop.induct)
  case (1 a x lo hi)
  let ?mid = "(lo + hi) div 2"
  have mono: "okey_of (a ! i) \<le> okey_of (a ! j)" if "i \<le> j" "j < length a" for i j
    using "1.prems"(2) that by (auto simp: sorted_iff_nth_mono)
  show ?case
  proof (cases "lo < hi")
    case True
    then have mid: "lo \<le> ?mid" "?mid < hi" "?mid < length a" using "1.prems"(4) by auto
    then have cmp: "py_lt x (a ! ?mid) = Inr (okey_of x < okey_of (a ! ?mid))"
      using comparable_cmp(1) [OF "1.prems"(1), of x "a ! ?mid" CLt] by simp
    show ?thesis
    proof (cases "okey_of x < okey_of (a ! ?mid)")
      case less: True
      have "\<forall>i. ?mid \<le> i \<longrightarrow> i < length a \<longrightarrow> okey_of x < okey_of (a ! i)"
        using mono less by (meson less_le_trans)
      then have "bisect_loop a x lo ?mid = Inr (not_greater a x)"
        using "1.IH"(1) [OF True refl cmp less] "1.prems" mid by simp
      with True cmp less show ?thesis by (simp add: bisect_loop.simps [of a x lo hi] Let_def)
    next
      case ge: False
      have "\<forall>i < Suc ?mid. okey_of (a ! i) \<le> okey_of x"
        using mono ge mid by (meson leI le_trans less_Suc_eq_le order_trans)
      then have "bisect_loop a x (Suc ?mid) hi = Inr (not_greater a x)"
        using "1.IH"(2) [OF True refl cmp ge] "1.prems" mid by simp
      with True cmp ge show ?thesis by (simp add: bisect_loop.simps [of a x lo hi] Let_def)
    qed
  next
    case False
    then have "lo = hi" using "1.prems"(3) by simp
    moreover have "takeWhile (\<lambda>b. okey_of b \<le> okey_of x) a = take lo a"
      using "1.prems" \<open>lo = hi\<close> by (intro takeWhile_eq_take_P_nth) (auto simp: not_le)
    ultimately show ?thesis
      using False "1.prems"(4) by (simp add: bisect_loop.simps [of a x hi hi] not_greater_def)
  qed
qed

lemma bisect_right_eq:
  "comparable (x # a) \<Longrightarrow> sorted (map okey_of a) \<Longrightarrow> bisect_right a x = Inr (not_greater a x)"
  by (simp add: bisect_right_def bisect_loop_correct)

lemma not_greater_bound: "not_greater a x \<le> length a"
  by (simp add: not_greater_def length_takeWhile_le)

lemma not_greater_mono:
  "okey_of x \<le> okey_of y \<Longrightarrow> not_greater a x \<le> not_greater a y"
  unfolding not_greater_def by (induction a) auto

lemma not_greater_strict:
  "not_greater a x < not_greater a y \<Longrightarrow> okey_of x < okey_of y"
  by (meson leI leD not_greater_mono)

text \<open>
  C29: Whatever partitioner a constructor returns, every key it assigns goes to one of its
  targets.
\<close>

theorem partition_for_in_range:
  assumes "mk_hash_partitioner n = Inr p \<or> mk_range_partitioner n bs = Inr p"
    and "partition_for md5 p key = Inr t"
  shows "num_targets p = n \<and> t < n"
proof -
  consider (hash) "1 \<le> n" "p = HashPartitioner n"
    | (range) "1 \<le> n" "length bs = n - 1" "p = RangePartitioner n bs"
    using assms(1)
    by (auto simp: mk_hash_partitioner_def mk_range_partitioner_def split: if_splits)
  then show ?thesis
  proof cases
    case hash
    then show ?thesis using assms(2) by auto
  next
    case range
    then have "bisect_loop bs key 0 (length bs) = Inr t" using assms(2) by (simp add: bisect_right_def)
    then have "t \<le> length bs" using bisect_loop_range by blast
    with range show ?thesis by simp
  qed
qed

theorem partition_for_in_range_witness:
  "partition_for id (RangePartitioner 3 [VInt 10, VInt 20]) (VInt 15) = Inr 1 \<and> (1::nat) < 3"
proof -
  have "mk_range_partitioner 3 [VInt 10, VInt 20] = Inr (RangePartitioner 3 [VInt 10, VInt 20])"
    by code_simp
  moreover have "partition_for id (RangePartitioner 3 [VInt 10, VInt 20]) (VInt 15) = Inr 1"
    by code_simp
  ultimately show ?thesis
    using partition_for_in_range [of 3 _ "[VInt 10, VInt 20]" id "VInt 15" 1] by blast
qed

text \<open>
  C30: With sorted boundaries that are comparable with the keys, the range partitioner respects
  order: it counts the boundaries that are not greater than the key, so a key of an earlier target
  is smaller than every key of a later one.
\<close>

theorem range_partitioner_ordered:
  assumes "sorted (map okey_of bs)" and "comparable (x # y # bs)"
    and "partition_for md5 (RangePartitioner n bs) x = Inr i"
    and "partition_for md5 (RangePartitioner n bs) y = Inr j"
  shows "i = not_greater bs x \<and> j = not_greater bs y
    \<and> (okey_of x \<le> okey_of y \<longrightarrow> i \<le> j) \<and> (i < j \<longrightarrow> okey_of x < okey_of y)"
proof -
  have "comparable (x # bs)" "comparable (y # bs)"
    by (rule comparable_subset [OF assms(2)]; auto)+
  then have "i = not_greater bs x" "j = not_greater bs y"
    using assms(1,3,4) by (simp_all add: bisect_right_eq)
  then show ?thesis using not_greater_mono not_greater_strict by auto
qed

theorem range_partitioner_ordered_witness:
  "partition_for id (RangePartitioner 2 [VFloat (FFin (3 / 2))]) (VInt 1) = Inr 0
   \<and> partition_for id (RangePartitioner 2 [VFloat (FFin (3 / 2))]) (VInt 2) = Inr 1
   \<and> okey_of (VInt 1) < okey_of (VInt 2)"
proof -
  have "partition_for id (RangePartitioner 2 [VFloat (FFin (3 / 2))]) (VInt 1) = Inr 0"
    "partition_for id (RangePartitioner 2 [VFloat (FFin (3 / 2))]) (VInt 2) = Inr 1"
    "comparable [VInt 1, VInt 2, VFloat (FFin (3 / 2))]"
    by code_simp+
  with range_partitioner_ordered [OF _ this(3) this(1,2)] show ?thesis by simp
qed

end
