(* ===== verification/ShuffleStore.thy ===== *)
theory ShuffleStore
  imports Partitioner
begin

text \<open>
  The shuffle (\<^verbatim>\<open>shuffle/writer.py\<close>, \<^verbatim>\<open>shuffle/reader.py\<close>, \<^verbatim>\<open>shuffle/manager.py\<close>): block files
  written per target partition, read back with their checksum verified, and the driver's record
  of which blocks exist.  The local disk is a map from paths to contents.
\<close>

section \<open>Files and the standard library\<close>

type_synonym 'b files = "string \<Rightarrow> 'b list option"

text \<open>
  \<^verbatim>\<open>pickle.dumps\<close>, \<^verbatim>\<open>pickle.load\<close> (\<^verbatim>\<open>Inr None\<close> is \<^verbatim>\<open>EOFError\<close>; otherwise the object and the bytes after
  it) and \<^verbatim>\<open>hashlib.md5(...).hexdigest()\<close>.
\<close>

record 'b codec =
  dumps :: "row \<Rightarrow> 'b list"
  load :: "'b list \<Rightarrow> (row \<times> 'b list) option res"
  hexdigest :: "'b list \<Rightarrow> string"

text \<open>
  What the documentation promises: an object that was dumped is loaded back, whatever follows it;
  loading at the end of the file raises \<^verbatim>\<open>EOFError\<close>; no pickle is empty.
\<close>

definition pickle_ok :: "'b codec \<Rightarrow> bool" where
  "pickle_ok c = ((\<forall>r rest. load c (dumps c r @ rest) = Inr (Some (r, rest)))
     \<and> load c [] = Inr None \<and> (\<forall>r. dumps c r \<noteq> []))"

section \<open>The writer\<close>

record block_meta =
  bm_stage_id :: nat
  source_task_id :: nat
  target_partition :: nat
  path :: string
  record_count :: nat
  byte_length :: nat
  checksum :: string

definition shuffle_partition_dir :: "string \<Rightarrow> nat \<Rightarrow> nat \<Rightarrow> string" where
  "shuffle_partition_dir rdir stage target =
     rdir @ ''/stage_'' @ nat_str stage @ ''/partition_'' @ nat_str target"

definition block_path :: "string \<Rightarrow> nat \<Rightarrow> nat \<Rightarrow> nat \<Rightarrow> string" where
  "block_path rdir stage target task =
     shuffle_partition_dir rdir stage target @ ''/block_'' @ nat_str task @ ''.pkl''"

lemma block_path_inj [simp]:
  "block_path rdir s t k = block_path rdir s' t' k' \<longleftrightarrow> s = s' \<and> t = t' \<and> k = k'"
  by (auto simp: block_path_def shuffle_partition_dir_def)

text \<open>
  \<^verbatim>\<open>_BlockWriter\<close>: its path, the bytes its hasher has seen, and the counters.  Writes of an open
  file are shown at once in \<^verbatim>\<open>files\<close>; nothing reads a block before it is closed.
\<close>

record 'b block_writer =
  bw_path :: string
  bw_hashed :: "'b list"
  bw_record_count :: nat
  bw_byte_length :: nat

definition bw_open :: "string \<Rightarrow> 'b block_writer" where
  "bw_open p = \<lparr>bw_path = p, bw_hashed = [], bw_record_count = 0, bw_byte_length = 0\<rparr>"

definition bw_write :: "'b codec \<Rightarrow> row \<Rightarrow> 'b files \<times> 'b block_writer \<Rightarrow> 'b files \<times> 'b block_writer" where
  "bw_write c r s = (case s of (fs, w) \<Rightarrow>
     let chunk = dumps c r; old = (case fs (bw_path w) of Some bs \<Rightarrow> bs | None \<Rightarrow> [])
     in (fs(bw_path w \<mapsto> old @ chunk),
         w\<lparr>bw_hashed := bw_hashed w @ chunk, bw_record_count := bw_record_count w + 1,
           bw_byte_length := bw_byte_length w + length chunk\<rparr>))"

definition bw_close :: "'b codec \<Rightarrow> 'b block_writer \<Rightarrow> string" where
  "bw_close c w = hexdigest c (bw_hashed w)"

type_synonym 'b write_state = "'b files \<times> (nat \<times> 'b block_writer) list"

text \<open>One iteration of the loop, for a record whose target is known: open the block on first use.\<close>

definition write_record ::
    "'b codec \<Rightarrow> (nat \<Rightarrow> string) \<Rightarrow> nat \<Rightarrow> row \<Rightarrow> 'b write_state \<Rightarrow> 'b write_state" where
  "write_record c path_of t r st = (case st of (fs, writers) \<Rightarrow>
     let (fs1, w) = (case map_of writers t of
                       None \<Rightarrow> (fs(path_of t \<mapsto> []), bw_open (path_of t))
                     | Some w \<Rightarrow> (fs, w));
         (fs2, w') = bw_write c r (fs1, w)
     in (fs2, AList.update t w' writers))"

fun write_loop ::
    "'b codec \<Rightarrow> (nat \<Rightarrow> string) \<Rightarrow> (row \<Rightarrow> nat res) \<Rightarrow> 'b write_state \<Rightarrow> row list
     \<Rightarrow> 'b write_state \<times> py_error option" where
  "write_loop c path_of target st [] = (st, None)"
| "write_loop c path_of target st (r # rs) =
     (case target r of
        Inl e \<Rightarrow> (st, Some e)
      | Inr t \<Rightarrow> write_loop c path_of target (write_record c path_of t r st) rs)"

definition write_shuffle_partition ::
    "'b codec \<Rightarrow> string \<Rightarrow> nat \<Rightarrow> nat \<Rightarrow> row list \<Rightarrow> (row \<Rightarrow> pval res) \<Rightarrow> md5_fn \<Rightarrow> partitioner
     \<Rightarrow> 'b files \<Rightarrow> 'b files \<times> block_meta list res" where
  "write_shuffle_partition c rdir stage task rows key_fn md5 p fs =
     (case write_loop c (\<lambda>t. block_path rdir stage t task)
             (\<lambda>r. rbind (key_fn r) (partition_for md5 p)) (fs, []) rows of
        ((fs', writers), Some e) \<Rightarrow> (fs', Inl e)
      | ((fs', writers), None) \<Rightarrow> (fs', Inr (map (\<lambda>(t, w).
            \<lparr>bm_stage_id = stage, source_task_id = task, target_partition = t, path = bw_path w,
             record_count = bw_record_count w, byte_length = bw_byte_length w,
             checksum = bw_close c w\<rparr>) writers)))"

section \<open>The reader\<close>

text \<open>
  \<^verbatim>\<open>while True: yield pickle.load(buffer)\<close> until \<^verbatim>\<open>EOFError\<close>.  Every load consumes at least a byte, so
  one more step than there are bytes is enough; \<^verbatim>\<open>load_records_fuel\<close> below shows that the last
  branch is not reached.
\<close>

fun load_records :: "'b codec \<Rightarrow> nat \<Rightarrow> 'b list \<Rightarrow> row gen" where
  "load_records c (Suc n) bs =
     (case load c bs of
        Inl e \<Rightarrow> Raise e
      | Inr None \<Rightarrow> Stop
      | Inr (Some (r, rest)) \<Rightarrow> Yield r (load_records c n rest))"
| "load_records c 0 bs = Raise OverflowError"

definition read_block :: "'b codec \<Rightarrow> 'b files \<Rightarrow> bool \<Rightarrow> block_meta \<Rightarrow> row gen" where
  "read_block c fs verify_checksum block =
     (case fs (path block) of
        None \<Rightarrow> Raise (FileNotFoundError (path block))
      | Some raw \<Rightarrow>
          if verify_checksum \<and> hexdigest c raw \<noteq> checksum block
          then Raise (ShuffleChecksumError (path block))
          else load_records c (Suc (length raw)) raw)"

definition read_shuffle_blocks :: "'b codec \<Rightarrow> 'b files \<Rightarrow> bool \<Rightarrow> block_meta list \<Rightarrow> row gen" where
  "read_shuffle_blocks c fs verify_checksum blocks =
     gen_concat (map (read_block c fs verify_checksum) blocks)"

section \<open>The manager\<close>

record shuffle_manager =
  root_dir :: string
  sm_blocks :: "nat \<Rightarrow> block_meta list option"

definition new_manager :: "string \<Rightarrow> shuffle_manager" where
  "new_manager rdir = \<lparr>root_dir = rdir, sm_blocks = (\<lambda>_. None)\<rparr>"

definition register_blocks :: "shuffle_manager \<Rightarrow> nat \<Rightarrow> block_meta list \<Rightarrow> shuffle_manager" where
  "register_blocks m stage blocks = m\<lparr>sm_blocks := (sm_blocks m)(stage \<mapsto> blocks)\<rparr>"

definition blocks_for :: "shuffle_manager \<Rightarrow> nat \<Rightarrow> nat \<Rightarrow> block_meta list" where
  "blocks_for m stage target =
     filter (\<lambda>b. target_partition b = target)
       (case sm_blocks m stage of Some bs \<Rightarrow> bs | None \<Rightarrow> [])"

record partition_metrics =
  pm_block_count :: nat
  pm_record_count :: nat
  pm_byte_length :: nat

definition metrics_for :: "shuffle_manager \<Rightarrow> nat \<Rightarrow> nat \<Rightarrow> partition_metrics" where
  "metrics_for m stage target =
     (let blocks = blocks_for m stage target in
      \<lparr>pm_block_count = length blocks,
       pm_record_count = sum_list (map record_count blocks),
       pm_byte_length = sum_list (map byte_length blocks)\<rparr>)"

section \<open>Reading back what was dumped\<close>

definition dump_all :: "'b codec \<Rightarrow> row list \<Rightarrow> 'b list" where
  "dump_all c rows = concat (map (dumps c) rows)"

lemma dump_all_simps [simp]:
  "dump_all c [] = []" "dump_all c (r # rs) = dumps c r @ dump_all c rs"
  "dump_all c (rs @ ss) = dump_all c rs @ dump_all c ss"
  by (auto simp: dump_all_def)

text \<open>Any fuel above the number of bytes gives the rows.\<close>

lemma pickle_okD:
  assumes "pickle_ok c"
  shows "load c (dumps c r @ rest) = Inr (Some (r, rest))" "load c [] = Inr None" "dumps c r \<noteq> []"
  using assms by (simp_all add: pickle_ok_def)

lemma load_records_dumped:
  assumes "pickle_ok c"
  shows "length (dump_all c rows) < n \<Longrightarrow> load_records c n (dump_all c rows) = gen_of rows"
proof (induction rows arbitrary: n)
  case Nil
  then obtain k where "n = Suc k" by (cases n) auto
  then show ?case by (simp add: pickle_okD(2) [OF assms])
next
  case (Cons r rows)
  then obtain k where n: "n = Suc k" by (cases n) auto
  have "0 < length (dumps c r)" using pickle_okD(3) [OF assms] by simp
  with Cons.prems n have "length (dump_all c rows) < k"
    unfolding dump_all_simps length_append by linarith
  then have "load_records c k (dump_all c rows) = gen_of rows" by (rule Cons.IH)
  then show ?case by (simp add: n pickle_okD(1) [OF assms])
qed

lemma load_records_fuel:
  assumes "\<forall>bs r rest. load c bs = Inr (Some (r, rest)) \<longrightarrow> length rest < length bs"
  shows "length bs < m \<Longrightarrow> length bs < n \<Longrightarrow> load_records c m bs = load_records c n bs"
proof (induction m arbitrary: n bs)
  case 0
  then show ?case by simp
next
  case (Suc m)
  obtain k where n: "n = Suc k" using Suc.prems(2) by (cases n) auto
  have *: "load_records c m rest = load_records c k rest" if "load c bs = Inr (Some (r, rest))" for r rest
  proof -
    have "length rest < length bs" using assms that by blast
    then show ?thesis using Suc.prems n by (intro Suc.IH) linarith+
  qed
  show ?case
  proof (cases "load c bs")
    case (Inr m')
    then show ?thesis using * by (cases m') (auto simp: n)
  qed (simp add: n)
qed

section \<open>What one map task writes\<close>

definition rows_for :: "(row \<Rightarrow> nat) \<Rightarrow> nat \<Rightarrow> row list \<Rightarrow> row list" where
  "rows_for tgt t rows = filter (\<lambda>r. tgt r = t) rows"

lemma rows_for_snoc [simp]:
  "rows_for tgt t (rows @ [r]) = rows_for tgt t rows @ (if tgt r = t then [r] else [])"
  "rows_for tgt t [] = []"
  by (auto simp: rows_for_def)

lemma rows_for_empty: "t \<notin> tgt ` set rows \<Longrightarrow> rows_for tgt t rows = []"
  by (auto simp: rows_for_def filter_empty_conv)

definition writer_for ::
    "'b codec \<Rightarrow> (nat \<Rightarrow> string) \<Rightarrow> (row \<Rightarrow> nat) \<Rightarrow> row list \<Rightarrow> nat \<Rightarrow> 'b block_writer" where
  "writer_for c path_of tgt rows t =
     (let rs = rows_for tgt t rows
      in \<lparr>bw_path = path_of t, bw_hashed = dump_all c rs, bw_record_count = length rs,
          bw_byte_length = length (dump_all c rs)\<rparr>)"

text \<open>The state of the loop after some rows, as a function of those rows.\<close>

definition write_inv ::
    "'b codec \<Rightarrow> (nat \<Rightarrow> string) \<Rightarrow> (row \<Rightarrow> nat) \<Rightarrow> 'b files \<Rightarrow> row list \<Rightarrow> 'b write_state \<Rightarrow> bool" where
  "write_inv c path_of tgt fs0 rows st = (case st of (fs, writers) \<Rightarrow>
     writers = map (\<lambda>t. (t, writer_for c path_of tgt rows t)) (uniq (map tgt rows))
     \<and> (\<forall>t \<in> tgt ` set rows. fs (path_of t) = Some (dump_all c (rows_for tgt t rows)))
     \<and> (\<forall>p. p \<notin> path_of ` tgt ` set rows \<longrightarrow> fs p = fs0 p))"

lemma write_record_inv:
  assumes "inj path_of" "write_inv c path_of tgt fs0 rows st"
  shows "write_inv c path_of tgt fs0 (rows @ [r]) (write_record c path_of (tgt r) r st)"
proof -
  obtain fs writers where st: "st = (fs, writers)" by (cases st)
  let ?w = "writer_for c path_of tgt"
  have writers: "writers = map (\<lambda>t. (t, ?w rows t)) (uniq (map tgt rows))"
    and fs: "\<forall>t \<in> tgt ` set rows. fs (path_of t) = Some (dump_all c (rows_for tgt t rows))"
    and rest: "\<forall>p. p \<notin> path_of ` tgt ` set rows \<longrightarrow> fs p = fs0 p"
    using assms(2) by (auto simp: write_inv_def st)
  have other: "?w (rows @ [r]) t = ?w rows t" if "t \<noteq> tgt r" for t
    using that by (simp add: writer_for_def)
  have path_eq: "path_of t = path_of u \<longleftrightarrow> t = u" for t u
    using assms(1) by (auto simp: inj_def)
  show ?thesis
  proof (cases "tgt r \<in> tgt ` set rows")
    case True
    then have "map_of writers (tgt r) = Some (?w rows (tgt r))"
      by (simp add: writers map_of_keys)
    moreover have "fs (path_of (tgt r)) = Some (dump_all c (rows_for tgt (tgt r) rows))"
      using fs True by blast
    ultimately have "write_record c path_of (tgt r) r st
        = (fs(path_of (tgt r) \<mapsto> dump_all c (rows_for tgt (tgt r) (rows @ [r]))),
           AList.update (tgt r) (?w (rows @ [r]) (tgt r)) writers)"
      by (simp add: write_record_def st bw_write_def writer_for_def Let_def)
    moreover have "AList.update (tgt r) (?w (rows @ [r]) (tgt r)) writers
        = map (\<lambda>t. (t, ?w (rows @ [r]) t)) (uniq (map tgt rows))"
      using True by (simp add: writers update_old_key other)
    ultimately show ?thesis
      using True fs rest by (auto simp: write_inv_def path_eq)
  next
    case False
    then have "map_of writers (tgt r) = None"
      by (simp add: writers map_of_keys)
    then have "write_record c path_of (tgt r) r st
        = (fs(path_of (tgt r) \<mapsto> dump_all c (rows_for tgt (tgt r) (rows @ [r]))),
           AList.update (tgt r) (?w (rows @ [r]) (tgt r)) writers)"
      by (simp add: write_record_def st bw_write_def bw_open_def writer_for_def Let_def
          rows_for_empty [OF False])
    moreover have "AList.update (tgt r) (?w (rows @ [r]) (tgt r)) writers
        = map (\<lambda>t. (t, ?w (rows @ [r]) t)) (uniq (map tgt rows) @ [tgt r])"
    proof -
      have "map (\<lambda>t. (t, ?w (rows @ [r]) t)) (uniq (map tgt rows)) = writers"
      proof -
        have "?w (rows @ [r]) t = ?w rows t" if "t \<in> tgt ` set rows" for t
          using that False by (metis other)
        then show ?thesis unfolding writers by (intro map_cong) auto
      qed
      moreover have "tgt r \<notin> set (map fst writers)" using False by (simp add: writers comp_def)
      ultimately show ?thesis by (simp add: update_new_key)
    qed
    ultimately show ?thesis
      using False fs rest by (auto simp: write_inv_def path_eq)
  qed
qed

lemma write_loop_inv:
  assumes "inj path_of" "\<forall>r \<in> set rows. target r = Inr (tgt r)" "write_inv c path_of tgt fs0 done st"
  shows "\<exists>st'. write_loop c path_of target st rows = (st', None)
    \<and> write_inv c path_of tgt fs0 (done @ rows) st'"
  using assms(2,3)
proof (induction rows arbitrary: "done" st)
  case (Cons r rows)
  have "write_inv c path_of tgt fs0 (done @ [r]) (write_record c path_of (tgt r) r st)"
    using Cons.prems(2) by (rule write_record_inv [OF assms(1)])
  with Cons.IH [of "done @ [r]"] Cons.prems show ?case by simp
qed simp

definition block_of :: "'b codec \<Rightarrow> string \<Rightarrow> nat \<Rightarrow> nat \<Rightarrow> (row \<Rightarrow> nat) \<Rightarrow> row list \<Rightarrow> nat \<Rightarrow> block_meta" where
  "block_of c rdir stage task tgt rows t =
     (let bs = dump_all c (rows_for tgt t rows)
      in \<lparr>bm_stage_id = stage, source_task_id = task, target_partition = t,
          path = block_path rdir stage t task, record_count = length (rows_for tgt t rows),
          byte_length = length bs, checksum = hexdigest c bs\<rparr>)"

lemma write_shuffle_partition_spec:
  assumes "\<forall>r \<in> set rows. rbind (key_fn r) (partition_for md5 p) = Inr (tgt r)"
  shows "\<exists>fs'. write_shuffle_partition c rdir stage task rows key_fn md5 p fs
        = (fs', Inr (map (block_of c rdir stage task tgt rows) (uniq (map tgt rows))))
    \<and> (\<forall>t \<in> tgt ` set rows. fs' (block_path rdir stage t task) = Some (dump_all c (rows_for tgt t rows)))
    \<and> (\<forall>q. q \<notin> (\<lambda>t. block_path rdir stage t task) ` tgt ` set rows \<longrightarrow> fs' q = fs q)"
proof -
  let ?path = "\<lambda>t. block_path rdir stage t task"
  have inj: "inj ?path" by (simp add: inj_def)
  have "write_inv c ?path tgt fs [] (fs, [])" by (simp add: write_inv_def)
  from write_loop_inv [OF inj assms this] obtain st where "write_loop c ?path (\<lambda>r. rbind (key_fn r) (partition_for md5 p)) (fs, []) rows
      = (st, None)" "write_inv c ?path tgt fs rows st"
    by auto
  then show ?thesis
    by (cases st)
       (auto simp: write_shuffle_partition_def write_inv_def block_of_def writer_for_def bw_close_def Let_def)
qed

section \<open>Reading a target partition back\<close>

lemma read_block_of:
  assumes "pickle_ok c" "fs (path b) = Some (dump_all c rows)" "checksum b = hexdigest c (dump_all c rows)"
  shows "read_block c fs verify b = gen_of rows"
  using assms by (simp add: read_block_def load_records_dumped del: load_records.simps)

lemma filter_uniq_eq: "filter (\<lambda>x. x = t) (uniq xs) = (if t \<in> set xs then [t] else [])"
proof -
  have "distinct ys \<Longrightarrow> filter (\<lambda>x. x = t) ys = (if t \<in> set ys then [t] else [])" for ys
    by (induction ys) auto
  from this [OF distinct_uniq, of xs] show ?thesis by simp
qed

lemma blocks_of_target:
  "filter (\<lambda>b. target_partition b = t) (map (block_of c rdir stage task tgt rows) (uniq (map tgt rows)))
   = (if t \<in> tgt ` set rows then [block_of c rdir stage task tgt rows t] else [])"
proof -
  have "target_partition \<circ> block_of c rdir stage task tgt rows = id"
    by (auto simp: block_of_def Let_def)
  then have "filter (\<lambda>b. target_partition b = t) (map (block_of c rdir stage task tgt rows) (uniq (map tgt rows)))
      = map (block_of c rdir stage task tgt rows) (filter (\<lambda>x. x = t) (uniq (map tgt rows)))"
    by (simp add: filter_map comp_def fun_eq_iff)
  then show ?thesis by (simp add: filter_uniq_eq)
qed

text \<open>The map tasks of a stage, one after another, each with the rows it shuffles.\<close>

fun run_map_tasks ::
    "'b codec \<Rightarrow> string \<Rightarrow> nat \<Rightarrow> (row \<Rightarrow> pval res) \<Rightarrow> md5_fn \<Rightarrow> partitioner \<Rightarrow> (nat \<times> row list) list
     \<Rightarrow> 'b files \<Rightarrow> 'b files \<times> block_meta list res" where
  "run_map_tasks c rdir stage key_fn md5 p [] fs = (fs, Inr [])"
| "run_map_tasks c rdir stage key_fn md5 p ((task, rows) # tasks) fs =
     (case write_shuffle_partition c rdir stage task rows key_fn md5 p fs of
        (fs', Inl e) \<Rightarrow> (fs', Inl e)
      | (fs', Inr bs) \<Rightarrow>
          (case run_map_tasks c rdir stage key_fn md5 p tasks fs' of
             (fs'', m) \<Rightarrow> (fs'', rbind m (\<lambda>bs'. Inr (bs @ bs')))))"

lemma run_map_tasks_spec:
  assumes "\<forall>(task, rows) \<in> set tasks. \<forall>r \<in> set rows.
      rbind (key_fn r) (partition_for md5 p) = Inr (tgt r)"
    and "distinct (map fst tasks)"
  shows "\<exists>fs'. run_map_tasks c rdir stage key_fn md5 p tasks fs
        = (fs', Inr (concat (map (\<lambda>(task, rows).
              map (block_of c rdir stage task tgt rows) (uniq (map tgt rows))) tasks)))
    \<and> (\<forall>(task, rows) \<in> set tasks. \<forall>t \<in> tgt ` set rows.
         fs' (block_path rdir stage t task) = Some (dump_all c (rows_for tgt t rows)))
    \<and> (\<forall>q. (\<forall>t. \<forall>task \<in> fst ` set tasks. q \<noteq> block_path rdir stage t task) \<longrightarrow> fs' q = fs q)"
  using assms
proof (induction tasks arbitrary: fs)
  case Nil
  then show ?case by simp
next
  case (Cons tk tasks)
  obtain task rows where tk: "tk = (task, rows)" by (cases tk)
  obtain fs1 where fs1: "write_shuffle_partition c rdir stage task rows key_fn md5 p fs
        = (fs1, Inr (map (block_of c rdir stage task tgt rows) (uniq (map tgt rows))))"
    and w1: "\<forall>t \<in> tgt ` set rows. fs1 (block_path rdir stage t task) = Some (dump_all c (rows_for tgt t rows))"
    and f1: "\<forall>q. q \<notin> (\<lambda>t. block_path rdir stage t task) ` tgt ` set rows \<longrightarrow> fs1 q = fs q"
    using write_shuffle_partition_spec [of rows key_fn md5 p tgt c rdir stage task fs] Cons.prems(1) tk
    by auto
  obtain fs2 where fs2: "run_map_tasks c rdir stage key_fn md5 p tasks fs1
        = (fs2, Inr (concat (map (\<lambda>(task, rows).
              map (block_of c rdir stage task tgt rows) (uniq (map tgt rows))) tasks)))"
    and w2: "\<forall>(task, rows) \<in> set tasks. \<forall>t \<in> tgt ` set rows.
         fs2 (block_path rdir stage t task) = Some (dump_all c (rows_for tgt t rows))"
    and f2: "\<forall>q. (\<forall>t. \<forall>task \<in> fst ` set tasks. q \<noteq> block_path rdir stage t task) \<longrightarrow> fs2 q = fs1 q"
    using Cons.IH [of fs1] Cons.prems by auto
  have "task \<notin> fst ` set tasks" using Cons.prems(2) tk by simp
  then have "\<forall>t. fs2 (block_path rdir stage t task) = fs1 (block_path rdir stage t task)"
    using f2 by (metis block_path_inj)
  then show ?case
    using fs1 fs2 w1 w2 f1 f2 by (auto simp: tk)
qed

text \<open>The rows that the tasks, in their order, shuffle to target \<open>t\<close>.\<close>

definition shuffled_rows :: "(row \<Rightarrow> nat) \<Rightarrow> nat \<Rightarrow> (nat \<times> row list) list \<Rightarrow> row list" where
  "shuffled_rows tgt t tasks = concat (map (\<lambda>(task, rows). rows_for tgt t rows) tasks)"

lemma concat_gen_of: "gen_list (gen_concat (map gen_of xss)) = Inr (concat xss)"
  by (induction xss) (auto simp: gen_list_append)

lemma read_target:
  assumes "pickle_ok c"
    and "\<forall>(task, rows) \<in> set tasks. \<forall>t \<in> tgt ` set rows.
         fs (block_path rdir stage t task) = Some (dump_all c (rows_for tgt t rows))"
  shows "gen_list (read_shuffle_blocks c fs verify (filter (\<lambda>b. target_partition b = t)
           (concat (map (\<lambda>(task, rows).
              map (block_of c rdir stage task tgt rows) (uniq (map tgt rows))) tasks))))
       = Inr (shuffled_rows tgt t tasks)"
  using assms(2)
proof (induction tasks)
  case Nil
  then show ?case by (simp add: read_shuffle_blocks_def shuffled_rows_def)
next
  case (Cons tk tasks)
  obtain task rows where tk: "tk = (task, rows)" by (cases tk)
  show ?case
  proof (cases "t \<in> tgt ` set rows")
    case True
    with Cons.prems tk have "read_block c fs verify (block_of c rdir stage task tgt rows t)
        = gen_of (rows_for tgt t rows)"
      by (intro read_block_of [OF assms(1)]) (auto simp: block_of_def Let_def)
    with Cons True tk show ?thesis
      by (simp add: read_shuffle_blocks_def shuffled_rows_def blocks_of_target gen_list_append)
  next
    case False
    with Cons tk show ?thesis
      by (simp add: read_shuffle_blocks_def shuffled_rows_def blocks_of_target rows_for_empty)
  qed
qed

text \<open>
  C31: Shuffling loses, duplicates and reorders nothing: after the map tasks of a stage have
  written their rows and their blocks are registered, reading the blocks of target \<open>t\<close> gives
  exactly the rows that go to \<open>t\<close>, in task order and, within a task, in their order.
\<close>

theorem shuffle_round_trip:
  assumes "pickle_ok c"
    and "\<forall>(task, rows) \<in> set tasks. \<forall>r \<in> set rows.
      rbind (key_fn r) (partition_for md5 p) = Inr (tgt r)"
    and "distinct (map fst tasks)"
  shows "\<exists>fs' blocks. run_map_tasks c rdir stage key_fn md5 p tasks fs = (fs', Inr blocks)
    \<and> (\<forall>t. gen_list (read_shuffle_blocks c fs' True
              (blocks_for (register_blocks m stage blocks) stage t))
            = Inr (shuffled_rows tgt t tasks))"
proof -
  from run_map_tasks_spec [OF assms(2,3), of c rdir stage fs] obtain fs' where
    run: "run_map_tasks c rdir stage key_fn md5 p tasks fs
        = (fs', Inr (concat (map (\<lambda>(task, rows).
              map (block_of c rdir stage task tgt rows) (uniq (map tgt rows))) tasks)))"
    and "\<forall>(task, rows) \<in> set tasks. \<forall>t \<in> tgt ` set rows.
         fs' (block_path rdir stage t task) = Some (dump_all c (rows_for tgt t rows))"
    by blast
  note read = read_target [OF assms(1) this(2)]
  show ?thesis
    by (intro exI conjI, rule run) (simp add: blocks_for_def register_blocks_def read)
qed

text \<open>A pickler over bytes that are whole rows.\<close>

definition sample_codec :: "row codec" where
  "sample_codec = \<lparr>dumps = (\<lambda>r. [r]),
     load = (\<lambda>bs. Inr (case bs of [] \<Rightarrow> None | r # rest \<Rightarrow> Some (r, rest))),
     hexdigest = (\<lambda>bs. concat (map (\<lambda>r. py_repr (VTuple (map snd r))) bs))\<rparr>"

lemma sample_codec_ok: "pickle_ok sample_codec"
  by (simp add: pickle_ok_def sample_codec_def)

definition sample_tasks :: "(nat \<times> row list) list" where
  "sample_tasks = [(7, [[(''a'', VInt 1)], [(''a'', VInt 9)]]), (8, [[(''a'', VInt 2)]])]"

definition sample_target :: "row \<Rightarrow> nat" where
  "sample_target r = (if r = [(''a'', VInt 9)] then 1 else 0)"

lemma sample_tasks_targets:
  "\<forall>(task, rows) \<in> set sample_tasks. \<forall>r \<in> set rows.
     rbind (row_get r ''a'') (partition_for id (RangePartitioner 2 [VInt 5])) = Inr (sample_target r)"
  by code_simp

theorem shuffle_round_trip_witness:
  "\<exists>fs blocks. run_map_tasks sample_codec ''/tmp/s'' 0 (\<lambda>r. row_get r ''a'') id
        (RangePartitioner 2 [VInt 5]) sample_tasks Map.empty = (fs, Inr blocks)
    \<and> gen_list (read_shuffle_blocks sample_codec fs True
         (blocks_for (register_blocks (new_manager ''/tmp/s'') 0 blocks) 0 0))
      = Inr [[(''a'', VInt 1)], [(''a'', VInt 2)]]"
proof -
  have "shuffled_rows sample_target 0 sample_tasks = [[(''a'', VInt 1)], [(''a'', VInt 2)]]"
    "distinct (map fst sample_tasks)"
    by code_simp+
  with shuffle_round_trip [OF sample_codec_ok sample_tasks_targets this(2), of "''/tmp/s''" 0
      Map.empty "new_manager ''/tmp/s''"]
  show ?thesis by metis
qed

section \<open>Lost and damaged blocks\<close>

text \<open>The only ways a verified read can fail: a block is gone, or is not what was written.\<close>

definition read_failure :: "'b files \<Rightarrow> string \<Rightarrow> 'b list \<Rightarrow> py_error \<Rightarrow> bool" where
  "read_failure fs q written e =
     (e = FileNotFoundError q \<and> fs q = None
      \<or> e = ShuffleChecksumError q \<and> fs q \<noteq> None \<and> fs q \<noteq> Some written)"

definition no_collision :: "'b codec \<Rightarrow> 'b files \<Rightarrow> string \<Rightarrow> 'b list \<Rightarrow> bool" where
  "no_collision c fs q written =
     (case fs q of None \<Rightarrow> True | Some raw \<Rightarrow> hexdigest c raw = hexdigest c written \<longrightarrow> raw = written)"

lemma read_block_safe:
  assumes "pickle_ok c" "checksum b = hexdigest c (dump_all c rows)"
    and "no_collision c fs (path b) (dump_all c rows)"
  shows "read_block c fs True b = gen_of rows
    \<or> (\<exists>e. read_block c fs True b = Raise e \<and> read_failure fs (path b) (dump_all c rows) e)"
proof (cases "fs (path b) = Some (dump_all c rows)")
  case True
  with assms show ?thesis by (simp add: read_block_of)
next
  case False
  with assms(2,3) show ?thesis
    by (cases "fs (path b)") (auto simp: read_block_def no_collision_def read_failure_def)
qed

lemma read_target_safe:
  assumes "pickle_ok c"
    and "\<forall>(task, rows) \<in> set tasks. \<forall>t. no_collision c fs (block_path rdir stage t task)
           (dump_all c (rows_for tgt t rows))"
  shows "case gen_list (read_shuffle_blocks c fs True (filter (\<lambda>b. target_partition b = t)
           (concat (map (\<lambda>(task, rows).
              map (block_of c rdir stage task tgt rows) (uniq (map tgt rows))) tasks)))) of
       Inr rows \<Rightarrow> rows = shuffled_rows tgt t tasks
     | Inl e \<Rightarrow> \<exists>(task, rows) \<in> set tasks.
         read_failure fs (block_path rdir stage t task) (dump_all c (rows_for tgt t rows)) e"
  using assms(2)
proof (induction tasks)
  case Nil
  then show ?case by (simp add: read_shuffle_blocks_def shuffled_rows_def)
next
  case (Cons tk tasks)
  obtain task rows where tk: "tk = (task, rows)" by (cases tk)
  let ?rest = "gen_list (read_shuffle_blocks c fs True (filter (\<lambda>b. target_partition b = t)
           (concat (map (\<lambda>(task, rows).
              map (block_of c rdir stage task tgt rows) (uniq (map tgt rows))) tasks))))"
  let ?fail = "\<lambda>task rows e. read_failure fs (block_path rdir stage t task)
      (dump_all c (rows_for tgt t rows)) e"
  have IH: "case ?rest of Inr rows \<Rightarrow> rows = shuffled_rows tgt t tasks
     | Inl e \<Rightarrow> \<exists>(task, rows) \<in> set tasks. ?fail task rows e"
    using Cons by simp
  show ?case
  proof (cases "t \<in> tgt ` set rows")
    case True
    let ?b = "block_of c rdir stage task tgt rows t"
    have "read_block c fs True ?b = gen_of (rows_for tgt t rows)
        \<or> (\<exists>e. read_block c fs True ?b = Raise e \<and> read_failure fs (path ?b) (dump_all c (rows_for tgt t rows)) e)"
      using Cons.prems tk by (intro read_block_safe [OF assms(1)]) (auto simp: block_of_def Let_def)
    moreover have "path ?b = block_path rdir stage t task" by (simp add: block_of_def Let_def)
    ultimately show ?thesis
      using IH True tk
      by (auto simp: read_shuffle_blocks_def shuffled_rows_def blocks_of_target gen_list_append
          split: sum.splits)
  next
    case False
    with IH tk show ?thesis
      by (auto simp: read_shuffle_blocks_def shuffled_rows_def blocks_of_target rows_for_empty
          split: sum.splits)
  qed
qed

text \<open>
  C11: Whatever happens to the disk after the map tasks have run, a reduce task that reads its
  target with verification either gets exactly the rows that were written for it or fails with
  a \<^verbatim>\<open>FileNotFoundError\<close> or \<^verbatim>\<open>ShuffleChecksumError\<close> for one of its blocks that really is gone or
  changed (as long as no changed block collides with the written one under MD5).
\<close>

theorem shuffle_read_safe:
  assumes "pickle_ok c"
    and "\<forall>(task, rows) \<in> set tasks. \<forall>r \<in> set rows.
      rbind (key_fn r) (partition_for md5 p) = Inr (tgt r)"
    and "distinct (map fst tasks)"
    and "\<forall>(task, rows) \<in> set tasks. \<forall>t. no_collision c disk (block_path rdir stage t task)
           (dump_all c (rows_for tgt t rows))"
  shows "\<exists>fs' blocks. run_map_tasks c rdir stage key_fn md5 p tasks fs = (fs', Inr blocks)
    \<and> (case gen_list (read_shuffle_blocks c disk True
              (blocks_for (register_blocks m stage blocks) stage t)) of
         Inr rows \<Rightarrow> rows = shuffled_rows tgt t tasks
       | Inl e \<Rightarrow> \<exists>(task, rows) \<in> set tasks.
           read_failure disk (block_path rdir stage t task) (dump_all c (rows_for tgt t rows)) e)"
proof -
  from run_map_tasks_spec [OF assms(2,3), of c rdir stage fs] obtain fs' where
    run: "run_map_tasks c rdir stage key_fn md5 p tasks fs
        = (fs', Inr (concat (map (\<lambda>(task, rows).
              map (block_of c rdir stage task tgt rows) (uniq (map tgt rows))) tasks)))"
    by blast
  note safe = read_target_safe [OF assms(1,4), of t]
  show ?thesis
    by (intro exI conjI, rule run) (use safe in \<open>simp add: blocks_for_def register_blocks_def\<close>)
qed

theorem shuffle_read_safe_witness:
  "\<exists>fs blocks. run_map_tasks sample_codec ''/tmp/s'' 0 (\<lambda>r. row_get r ''a'') id
        (RangePartitioner 2 [VInt 5]) sample_tasks Map.empty = (fs, Inr blocks)
    \<and> (case gen_list (read_shuffle_blocks sample_codec Map.empty True
         (blocks_for (register_blocks (new_manager ''/tmp/s'') 0 blocks) 0 0)) of
         Inr rows \<Rightarrow> rows = [[(''a'', VInt 1)], [(''a'', VInt 2)]]
       | Inl e \<Rightarrow> \<exists>(task, rows) \<in> set sample_tasks. read_failure Map.empty
           (block_path ''/tmp/s'' 0 0 task) (dump_all sample_codec (rows_for sample_target 0 rows)) e)"
proof -
  have rows: "shuffled_rows sample_target 0 sample_tasks = [[(''a'', VInt 1)], [(''a'', VInt 2)]]"
    and dist: "distinct (map fst sample_tasks)"
    by code_simp+
  have "\<forall>(task, rows) \<in> set sample_tasks. \<forall>t. no_collision sample_codec Map.empty
      (block_path ''/tmp/s'' 0 t task) (dump_all sample_codec (rows_for sample_target t rows))"
    by (simp add: no_collision_def)
  from shuffle_read_safe [OF sample_codec_ok sample_tasks_targets dist this,
      where fs = Map.empty and m = "new_manager ''/tmp/s''" and t = 0]
  show ?thesis unfolding rows .
qed

end
