(* ===== verification/PhysicalPlan.thy ===== *)
theory PhysicalPlan
  imports LogicalPlan ShuffleStore
begin

text \<open>
  The physical plan nodes (\<^verbatim>\<open>physical/plan.py\<close>), their schemas and labels, the leaves of a plan,
  the dependency graph (\<^verbatim>\<open>execution/dag.py\<close>), and the spill files (\<^verbatim>\<open>physical/spill.py\<close>).
\<close>

section \<open>Nodes\<close>

definition NEVER_SPILL :: int where
  "NEVER_SPILL = 2 ^ 62"

text \<open>
  The constructors carry the attributes of the classes, in the order of their \<^verbatim>\<open>__init__\<close>
  parameters.
\<close>

datatype pplan =
    ScanExec dataset string
  | FilterExec pplan expr
  | ProjectExec pplan "expr list" schema
  | HashAggregateExec pplan "expr list" "expr list" schema bool int
  | ExchangeExec pplan nat "expr list" bool "pval list option"
  | ShuffleWriteExec pplan nat "expr list" "pval list option"
  | ShuffleReadExec nat schema bool
  | HashJoinExec pplan pplan "expr list" "expr list" "string list" schema
  | SortExec pplan "expr list" "bool list" schema int

fun pschema :: "pplan \<Rightarrow> schema" where
  "pschema (ScanExec d _) = ds_schema d"
| "pschema (FilterExec c _) = pschema c"
| "pschema (ProjectExec _ _ s) = s"
| "pschema (HashAggregateExec _ _ _ s _ _) = s"
| "pschema (ExchangeExec c _ _ _ _) = pschema c"
| "pschema (ShuffleWriteExec c _ _ _) = pschema c"
| "pschema (ShuffleReadExec _ s _) = s"
| "pschema (HashJoinExec _ _ _ _ _ s) = s"
| "pschema (SortExec _ _ _ s _) = s"

fun pchildren :: "pplan \<Rightarrow> pplan list" where
  "pchildren (ScanExec _ _) = []"
| "pchildren (FilterExec c _) = [c]"
| "pchildren (ProjectExec c _ _) = [c]"
| "pchildren (HashAggregateExec c _ _ _ _ _) = [c]"
| "pchildren (ExchangeExec c _ _ _ _) = [c]"
| "pchildren (ShuffleWriteExec c _ _ _) = [c]"
| "pchildren (ShuffleReadExec _ _ _) = []"
| "pchildren (HashJoinExec l r _ _ _ _) = [l, r]"
| "pchildren (SortExec c _ _ _ _) = [c]"

definition comma_names :: "expr list \<Rightarrow> string" where
  "comma_names es = join_str '', '' (map output_name es)"

definition exchange_kind :: "pval list option \<Rightarrow> string" where
  "exchange_kind bounds = (if bounds \<noteq> None then ''range'' else ''hash'')"

fun pnode_label :: "pplan \<Rightarrow> string res" where
  "pnode_label (ScanExec d name) =
     Inr (''ScanExec['' @ name @ ''] ('' @ join_str '', '' (field_names (ds_schema d)) @ '')'')"
| "pnode_label (FilterExec _ e) = Inr (''FilterExec['' @ expr_repr e @ '']'')"
| "pnode_label (ProjectExec _ es _) = Inr (''ProjectExec['' @ comma_names es @ '']'')"
| "pnode_label (HashAggregateExec _ gs as _ part _) =
     Inr (''HashAggregateExec['' @ (if part then ''partial'' else ''final'') @ ''](groupBy=(''
       @ comma_names gs @ ''), aggregates=('' @ comma_names as @ ''))'')"
| "pnode_label (ExchangeExec _ n es broadcast bounds) =
     Inr (if broadcast then ''Exchange[broadcast]''
          else ''Exchange['' @ exchange_kind bounds @ ''('' @ comma_names es @ ''), '' @ nat_str n
            @ '' partitions]'')"
| "pnode_label (ShuffleWriteExec _ n es bounds) =
     Inr (''ShuffleWriteExec['' @ exchange_kind bounds @ ''('' @ comma_names es @ ''), '' @ nat_str n
       @ '' partitions]'')"
| "pnode_label (ShuffleReadExec stage _ broadcast) =
     Inr (''ShuffleReadExec[stage '' @ nat_str stage @ '']'' @ (if broadcast then '' broadcast'' else []))"
| "pnode_label (HashJoinExec _ _ _ _ on _) =
     Inr (''HashJoinExec[inner, on=('' @ join_str '', '' on @ '')]'')"
| "pnode_label (SortExec _ es asc _ _) =
     rbind (zip_strict es asc) (\<lambda>zs.
       Inr (''SortExec['' @ join_str '', '' (map (\<lambda>(e, a). output_name e @ '' '' @ dir_str a) zs) @ '']''))"

text \<open>\<^verbatim>\<open>leaves(plan)\<close>, generic over \<^verbatim>\<open>children\<close>\<close>

lemma pchildren_smaller [termination_simp]: "c \<in> set (pchildren p) \<Longrightarrow> size c < size p"
  by (cases p) auto

fun leaves :: "pplan \<Rightarrow> pplan list" where
  "leaves p = (if pchildren p = [] then [p] else concat (map leaves (pchildren p)))"

declare leaves.simps [simp del]

lemma leaves_simps [simp]:
  "leaves (ScanExec d n) = [ScanExec d n]"
  "leaves (FilterExec c e) = leaves c"
  "leaves (ProjectExec c es s) = leaves c"
  "leaves (HashAggregateExec c gs as s part t) = leaves c"
  "leaves (ExchangeExec c k es b bs) = leaves c"
  "leaves (ShuffleWriteExec c k es bs) = leaves c"
  "leaves (ShuffleReadExec i s b) = [ShuffleReadExec i s b]"
  "leaves (HashJoinExec l r lk rk on s) = leaves l @ leaves r"
  "leaves (SortExec c es asc s t) = leaves c"
  by (subst leaves.simps; simp)+

lemma leaf_no_children: "l \<in> set (leaves p) \<Longrightarrow> pchildren l = []"
  by (induction p) auto

section \<open>The dependency graph (\<open>execution/dag.py\<close>)\<close>

datatype dependency = Narrow | Wide

fun dependency_kind :: "pplan \<Rightarrow> dependency" where
  "dependency_kind (ExchangeExec _ _ _ _ _) = Wide"
| "dependency_kind _ = Narrow"

datatype dag_node = DAGNode (dag_plan: pplan) (dag_dependency: dependency) (dag_children: "dag_node list")

fun build_dag :: "pplan \<Rightarrow> dag_node" where
  "build_dag p = DAGNode p (dependency_kind p) (map build_dag (pchildren p))"

declare build_dag.simps [simp del]

fun has_wide_dependency :: "dag_node \<Rightarrow> bool" where
  "has_wide_dependency (DAGNode p d cs) = (d = Wide \<or> list_ex has_wide_dependency cs)"

fun has_exchange :: "pplan \<Rightarrow> bool" where
  "has_exchange p = (dependency_kind p = Wide \<or> list_ex has_exchange (pchildren p))"

declare has_exchange.simps [simp del]

lemma has_exchange_simps [simp]:
  "\<not> has_exchange (ScanExec d n)"
  "has_exchange (FilterExec c e) \<longleftrightarrow> has_exchange c"
  "has_exchange (ProjectExec c es s) \<longleftrightarrow> has_exchange c"
  "has_exchange (HashAggregateExec c gs as s part t) \<longleftrightarrow> has_exchange c"
  "has_exchange (ExchangeExec c k es b bs)"
  "has_exchange (ShuffleWriteExec c k es bs) \<longleftrightarrow> has_exchange c"
  "\<not> has_exchange (ShuffleReadExec i s b)"
  "has_exchange (HashJoinExec l r lk rk on s) \<longleftrightarrow> has_exchange l \<or> has_exchange r"
  "has_exchange (SortExec c es asc s t) \<longleftrightarrow> has_exchange c"
  by (subst has_exchange.simps; simp)+

lemma has_wide_build_dag: "has_wide_dependency (build_dag p) = has_exchange p"
proof (induction p rule: build_dag.induct)
  case (1 p)
  have "list_ex (has_wide_dependency \<circ> build_dag) (pchildren p) = list_ex has_exchange (pchildren p)"
    using 1 by (auto simp: list_ex_iff)
  then show ?case by (simp add: build_dag.simps [of p] has_exchange.simps [of p] list_ex_iff)
qed

section \<open>Spill files (\<open>physical/spill.py\<close>)\<close>

text \<open>
  The scratch directory of one task: \<^verbatim>\<open>write_spill_file\<close> (re)writes a file with the pickles of the
  items and returns its path; \<^verbatim>\<open>read_spill_file\<close> yields them until the end of the file.  A spill
  file never leaves the process, and pickling round-trips, so a file is the list of its items.
\<close>

type_synonym 'i spill_files = "string \<Rightarrow> 'i list option"

definition write_spill_file ::
    "string \<Rightarrow> string \<Rightarrow> 'i list \<Rightarrow> 'i spill_files \<Rightarrow> 'i spill_files \<times> string" where
  "write_spill_file directory name items fs =
     (let fpath = directory @ ''/'' @ name in (fs(fpath \<mapsto> items), fpath))"

definition read_spill_file :: "'i spill_files \<Rightarrow> string \<Rightarrow> 'i list res" where
  "read_spill_file fs fpath =
     (case fs fpath of Some items \<Rightarrow> Inr items | None \<Rightarrow> Inl (FileNotFoundError fpath))"

lemma read_write_spill [simp]:
  "write_spill_file d n items fs = (fs', p) \<Longrightarrow>
     read_spill_file fs' q = (if q = d @ ''/'' @ n then Inr items else read_spill_file fs q)"
  by (auto simp: write_spill_file_def read_spill_file_def Let_def)

end
