(* ===== verification/SortRows.thy ===== *)
theory SortRows
  imports Expressions "HOL-Library.Product_Lexorder"
begin

text \<open>
  Row sorting (the functions \<^verbatim>\<open>_sort_rows\<close>, \<^verbatim>\<open>_null_last_sort_key\<close>, \<^verbatim>\<open>_composite_sort_key\<close> and
  the class \<^verbatim>\<open>_Desc\<close> of \<^verbatim>\<open>physical/operators.py\<close>), with models of \<^verbatim>\<open>list.sort\<close> and \<^verbatim>\<open>heapq.merge\<close>,
  and the single total order that both ways of sorting implement.
\<close>

section \<open>\<open>list.sort\<close>\<close>

text \<open>
  A stable sort by comparisons that may raise.  The language promises no more than stability and
  order, which determine the result whenever \<open>lt\<close> is a strict weak order; when a comparison is
  not defined, any comparison sort that finishes has to make one that raises.
\<close>

fun rinsert :: "('a \<Rightarrow> 'a \<Rightarrow> bool res) \<Rightarrow> 'a \<Rightarrow> 'a list \<Rightarrow> 'a list res" where
  "rinsert lt x [] = Inr [x]"
| "rinsert lt x (y # ys) =
     rbind (lt y x) (\<lambda>b. if b then rbind (rinsert lt x ys) (\<lambda>zs. Inr (y # zs))
                         else Inr (x # y # ys))"

fun rsort :: "('a \<Rightarrow> 'a \<Rightarrow> bool res) \<Rightarrow> 'a list \<Rightarrow> 'a list res" where
  "rsort lt [] = Inr []"
| "rsort lt (x # xs) = rbind (rsort lt xs) (rinsert lt x)"

text \<open>
  \<^verbatim>\<open>xs.sort(key=key, reverse=reverse)\<close>: all keys are computed first; a reversed sort keeps equal
  elements in their order (the list is reversed before and after).
\<close>

definition py_sort :: "('a \<Rightarrow> pval res) \<Rightarrow> bool \<Rightarrow> 'a list \<Rightarrow> 'a list res" where
  "py_sort key reverse xs =
     rbind (rmap key xs) (\<lambda>ks.
       let ps = zip ks xs; flip = (if reverse then rev else id)
       in rbind (rsort (\<lambda>p q. py_lt (fst p) (fst q)) (flip ps)) (\<lambda>qs. Inr (map snd (flip qs))))"

section \<open>Sort keys and passes\<close>

text \<open>\<^verbatim>\<open>_null_last_sort_key\<close>\<close>

definition null_last_sort_key :: "expr \<Rightarrow> bool \<Rightarrow> row \<Rightarrow> pval res" where
  "null_last_sort_key e asc r =
     rbind (eval e r) (\<lambda>v.
       let is_null = (v = VNone); null_sentinel = (if asc then is_null else \<not> is_null)
       in Inr (VTuple [VBool null_sentinel, if \<not> is_null then v else VInt 0]))"

type_synonym seq_row = "nat \<times> row"

definition sort_rows :: "seq_row list \<Rightarrow> expr list \<Rightarrow> bool list \<Rightarrow> seq_row list res" where
  "sort_rows rows es asc =
     rbind (zip_strict es asc) (\<lambda>zs.
       rfold (\<lambda>rs (e, a). py_sort (\<lambda>p. null_last_sort_key e a (snd p)) (\<not> a) rs) rows (rev zs))"

text \<open>\<^verbatim>\<open>_Desc\<close>: its order and equality are those of the wrapped value, the order flipped.\<close>

datatype ckey = CVal pval | CDesc pval

fun ckey_eq :: "ckey \<Rightarrow> ckey \<Rightarrow> bool" where
  "ckey_eq (CVal a) (CVal b) = py_eq a b"
| "ckey_eq (CDesc a) (CDesc b) = py_eq a b"
| "ckey_eq _ _ = False"

fun ckey_lt :: "ckey \<Rightarrow> ckey \<Rightarrow> bool res" where
  "ckey_lt (CVal a) (CVal b) = py_lt a b"
| "ckey_lt (CDesc a) (CDesc b) = py_lt b a"
| "ckey_lt (CDesc a) (CVal b) = Inl AttributeError"
| "ckey_lt (CVal a) (CDesc b) = Inl TypeError"

text \<open>Tuple comparison: the first pair of unequal elements decides.\<close>

fun ckeys_lt :: "ckey list \<Rightarrow> ckey list \<Rightarrow> bool res" where
  "ckeys_lt [] [] = Inr False"
| "ckeys_lt [] (y # ys) = Inr True"
| "ckeys_lt (x # xs) [] = Inr False"
| "ckeys_lt (x # xs) (y # ys) = (if ckey_eq x y then ckeys_lt xs ys else ckey_lt x y)"

definition composite_part :: "row \<Rightarrow> expr \<times> bool \<Rightarrow> ckey list res" where
  "composite_part r z = (case z of (e, asc) \<Rightarrow>
     rbind (eval e r) (\<lambda>v.
       let is_null = (v = VNone); placeholder = (if is_null then VInt 0 else v)
       in Inr [CVal (VBool is_null), if asc then CVal placeholder else CDesc placeholder]))"

definition composite_sort_key :: "expr list \<Rightarrow> bool list \<Rightarrow> seq_row \<Rightarrow> ckey list res" where
  "composite_sort_key es asc p = (case p of (sq, r) \<Rightarrow>
     rbind (zip_strict es asc) (\<lambda>zs. rbind (rmap (composite_part r) zs) (\<lambda>parts.
       Inr (concat parts @ [CVal (VInt (int sq))]))))"

section \<open>\<open>heapq.merge\<close>\<close>

text \<open>
  \<^verbatim>\<open>heapq.merge(*runs, key=key)\<close> repeatedly yields the least head of the runs that are not
  exhausted; on equal keys the run that was given first wins.  \<^verbatim>\<open>pick_run\<close> finds that run.
\<close>

fun pick_run :: "('a \<Rightarrow> 'k res) \<Rightarrow> ('k \<Rightarrow> 'k \<Rightarrow> bool res) \<Rightarrow> 'a list list
    \<Rightarrow> ('k \<times> nat) option res" where
  "pick_run key lt [] = Inr None"
| "pick_run key lt ([] # runs) =
     rbind (pick_run key lt runs) (\<lambda>m. Inr (map_option (\<lambda>(k, i). (k, Suc i)) m))"
| "pick_run key lt ((x # xs) # runs) =
     rbind (key x) (\<lambda>k. rbind (pick_run key lt runs) (\<lambda>m.
       case m of None \<Rightarrow> Inr (Some (k, 0))
       | Some (k', i) \<Rightarrow> rbind (lt k' k) (\<lambda>b. Inr (Some (if b then (k', Suc i) else (k, 0))))))"

lemma pick_run_index:
  "pick_run key lt runs = Inr (Some (k, i)) \<Longrightarrow> i < length runs \<and> runs ! i \<noteq> []"
  by (induction key lt runs arbitrary: k i rule: pick_run.induct)
     (auto simp: rbind_Inr_iff split: option.splits if_splits)

function (sequential) heap_merge ::
    "('a \<Rightarrow> 'k res) \<Rightarrow> ('k \<Rightarrow> 'k \<Rightarrow> bool res) \<Rightarrow> 'a list list \<Rightarrow> 'a gen" where
  "heap_merge key lt runs =
     (case pick_run key lt runs of
        Inl e \<Rightarrow> Raise e
      | Inr None \<Rightarrow> Stop
      | Inr (Some (_, i)) \<Rightarrow>
          Yield (hd (runs ! i)) (heap_merge key lt (runs[i := tl (runs ! i)])))"
  by pat_completeness auto

lemma sum_list_update_tl:
  "i < length runs \<Longrightarrow> runs ! i \<noteq> [] \<Longrightarrow>
     sum_list (map length (runs[i := tl (runs ! i)])) < sum_list (map length runs)"
proof (induction runs arbitrary: i)
  case (Cons r runs)
  then show ?case by (cases i) (auto simp: neq_Nil_conv)
qed simp

termination heap_merge
  by (relation "measure (\<lambda>(key, lt, runs). sum_list (map length runs))")
     (auto dest!: pick_run_index simp: sum_list_update_tl)

declare heap_merge.simps [simp del]

section \<open>The order that sorting implements\<close>

text \<open>An orderable value together with the direction of its column.\<close>

datatype dkey = Up okey | Down okey

instantiation dkey :: linorder
begin

fun less_eq_dkey :: "dkey \<Rightarrow> dkey \<Rightarrow> bool" where
  "less_eq_dkey (Up x) (Up y) = (x \<le> y)"
| "less_eq_dkey (Down x) (Down y) = (y \<le> x)"
| "less_eq_dkey (Up _) (Down _) = True"
| "less_eq_dkey (Down _) (Up _) = False"

definition less_dkey :: "dkey \<Rightarrow> dkey \<Rightarrow> bool" where
  "less_dkey x y = (x \<le> y \<and> \<not> y \<le> x)"

instance
proof
  fix x y z :: dkey
  show "(x < y) = (x \<le> y \<and> \<not> y \<le> x)" by (simp add: less_dkey_def)
  show "x \<le> x" by (cases x) auto
  show "x \<le> y \<Longrightarrow> y \<le> z \<Longrightarrow> x \<le> z" by (cases x; cases y; cases z) auto
  show "x \<le> y \<Longrightarrow> y \<le> x \<Longrightarrow> x = y" by (cases x; cases y) auto
  show "x \<le> y \<or> y \<le> x" by (cases x; cases y) auto
qed

end

lemma less_dkey_simps [simp]:
  "Up x < Up y \<longleftrightarrow> x < y" "Down x < Down y \<longleftrightarrow> y < x"
  by (auto simp: less_dkey_def)

text \<open>The key of one value: nulls after everything else, whatever the direction.\<close>

definition okey0 :: "pval \<Rightarrow> okey" where
  "okey0 v = okey_of (if v = VNone then VInt 0 else v)"

definition val_key :: "bool \<Rightarrow> pval \<Rightarrow> bool \<times> dkey" where
  "val_key asc v = (v = VNone, if asc then Up (okey0 v) else Down (okey0 v))"

definition value_at :: "expr \<Rightarrow> row \<Rightarrow> pval" where
  "value_at e r = (case eval e r of Inr v \<Rightarrow> v | Inl _ \<Rightarrow> VNone)"

definition row_key :: "(expr \<times> bool) list \<Rightarrow> row \<Rightarrow> (bool \<times> dkey) list" where
  "row_key zs r = map (\<lambda>(e, a). val_key a (value_at e r)) zs"

text \<open>
  Every sort expression has a value on every row, and the values that are not null can be
  compared with one another.
\<close>

definition sortable :: "expr list \<Rightarrow> row list \<Rightarrow> bool" where
  "sortable es rows = (\<forall>e \<in> set es. (\<forall>r \<in> set rows. \<not> isl (eval e r))
     \<and> comparable (filter (\<lambda>v. v \<noteq> VNone) (map (value_at e) rows)))"

lemma sortable_eval: "sortable es rows \<Longrightarrow> e \<in> set es \<Longrightarrow> r \<in> set rows \<Longrightarrow> eval e r = Inr (value_at e r)"
  by (fastforce simp: sortable_def value_at_def split: sum.splits)

lemma sortable_subset:
  "sortable es rows \<Longrightarrow> set es' \<subseteq> set es \<Longrightarrow> set rows' \<subseteq> set rows \<Longrightarrow> sortable es' rows'"
  unfolding sortable_def by (fastforce elim!: comparable_subset)

text \<open>Two values of the same kind compare by their keys.\<close>

lemma sortable_cmp:
  assumes "sortable es rows" "e \<in> set es" "r \<in> set rows" "r' \<in> set rows"
    and "value_at e r \<noteq> VNone" "value_at e r' \<noteq> VNone"
  shows "py_lt (value_at e r) (value_at e r') = Inr (okey0 (value_at e r) < okey0 (value_at e r'))"
    and "py_eq (value_at e r) (value_at e r') \<longleftrightarrow> okey0 (value_at e r) = okey0 (value_at e r')"
proof -
  let ?vs = "filter (\<lambda>v. v \<noteq> VNone) (map (value_at e) rows)"
  have "comparable ?vs" "value_at e r \<in> set ?vs" "value_at e r' \<in> set ?vs"
    using assms by (auto simp: sortable_def)
  from comparable_cmp [OF this]
  show "py_lt (value_at e r) (value_at e r') = Inr (okey0 (value_at e r) < okey0 (value_at e r'))"
    and "py_eq (value_at e r) (value_at e r') \<longleftrightarrow> okey0 (value_at e r) = okey0 (value_at e r')"
    using assms(5,6) by (auto simp: okey0_def)
qed

section \<open>One pass\<close>

lemma rinsert_insort:
  "(\<And>y. y \<in> set ys \<Longrightarrow> lt y x = Inr (f y < f x)) \<Longrightarrow> rinsert lt x ys = Inr (insort_key f x ys)"
  by (induction ys) auto

lemma rsort_sort_key:
  "(\<And>x y. x \<in> set xs \<Longrightarrow> y \<in> set xs \<Longrightarrow> lt y x = Inr (f y < f x)) \<Longrightarrow> rsort lt xs = Inr (sort_key f xs)"
  by (induction xs) (auto intro!: rinsert_insort)

lemma rev_sort_key:
  assumes "\<And>x y. x \<in> set xs \<Longrightarrow> y \<in> set xs \<Longrightarrow> g x \<le> g y \<longleftrightarrow> f y \<le> f x"
  shows "rev (sort_key f (rev xs)) = sort_key g xs"
proof (rule properties_for_sort_key [symmetric])
  show "mset (rev (sort_key f (rev xs))) = mset xs" by simp
next
  fix k assume k: "k \<in> set (rev (sort_key f (rev xs)))"
  have eq: "g k = g x \<longleftrightarrow> f x = f k" if "x \<in> set xs" for x
    using assms k that by (metis antisym order_refl set_rev set_sort)
  have "filter (\<lambda>x. g k = g x) (rev (sort_key f (rev xs)))
      = filter (\<lambda>x. f x = f k) (rev (sort_key f (rev xs)))"
    using eq by (intro filter_cong) auto
  also have "\<dots> = rev (filter (\<lambda>x. f x = f k) (rev xs))"
    by (simp add: rev_filter [symmetric] sort_key_stable del: rev_filter)
  also have "\<dots> = filter (\<lambda>x. g k = g x) xs"
    using eq by (simp add: rev_filter) (intro filter_cong; auto)
  finally show "filter (\<lambda>x. g k = g x) (rev (sort_key f (rev xs))) = filter (\<lambda>x. g k = g x) xs" .
next
  have "sorted_wrt (\<lambda>x y. g x \<le> g y) (rev (sort_key f (rev xs)))"
  proof -
    have "sorted_wrt (\<lambda>x y. f x \<le> f y) (sort_key f (rev xs))"
      using sorted_sort_key [of f "rev xs"] by (simp add: sorted_map)
    then have "sorted_wrt (\<lambda>x y. g y \<le> g x) (sort_key f (rev xs))"
      by (rule sorted_wrt_mono_rel [rotated]) (use assms in auto)
    then show ?thesis by (simp add: sorted_wrt_rev)
  qed
  then show "sorted (map g (rev (sort_key f (rev xs))))" by (simp only: sorted_map)
qed

lemma sort_key_map: "map h (sort_key (f \<circ> h) xs) = sort_key f (map h xs)"
proof -
  have "map h (insort_key (f \<circ> h) x ys) = insort_key f (h x) (map h ys)" for x ys
    by (induction ys) auto
  then show ?thesis by (induction xs) auto
qed

text \<open>Sorting by a minor key and then, stably, by a major one.\<close>

lemma sort_key_two_pass:
  "sort_key f (sort_key g xs) = sort_key (\<lambda>x. (f x, g x)) xs"
proof (rule properties_for_sort_key [symmetric])
  show "mset (sort_key f (sort_key g xs)) = mset xs" by simp
next
  fix k
  have f: "filter (\<lambda>x. f x = f k) (sort_key f ys) = filter (\<lambda>x. f x = f k) ys" for ys
    by (rule sort_key_stable)
  have g: "filter (\<lambda>x. g x = g k) (sort_key g xs) = filter (\<lambda>x. g x = g k) xs"
    by (rule sort_key_stable)
  have "filter (\<lambda>x. (f k, g k) = (f x, g x)) (sort_key f (sort_key g xs))
      = filter (\<lambda>x. g x = g k) (filter (\<lambda>x. f x = f k) (sort_key f (sort_key g xs)))"
    by (auto intro!: filter_cong)
  also have "\<dots> = filter (\<lambda>x. f x = f k) (filter (\<lambda>x. g x = g k) (sort_key g xs))"
    by (simp only: f) (simp add: conj_commute)
  also have "\<dots> = filter (\<lambda>x. (f k, g k) = (f x, g x)) xs"
    by (simp only: g) (auto intro!: filter_cong)
  finally show "filter (\<lambda>x. (f k, g k) = (f x, g x)) (sort_key f (sort_key g xs))
      = filter (\<lambda>x. (f k, g k) = (f x, g x)) xs" .
next
  have "sorted (map g ys) \<Longrightarrow> sorted (map (\<lambda>x. (f x, g x)) (sort_key f ys))" for ys
  proof (induction ys)
    case (Cons y ys)
    have "insort_key f y zs = insort_key (\<lambda>x. (f x, g x)) y zs" if "\<forall>z \<in> set zs. g y \<le> g z" for zs
      using that by (induction zs) (auto simp: less_eq_prod_def)
    then have "sort_key f (y # ys) = insort_key (\<lambda>x. (f x, g x)) y (sort_key f ys)"
      using Cons.prems by simp
    with Cons show ?case by (simp add: sorted_insort_key)
  qed simp
  then show "sorted (map (\<lambda>x. (f x, g x)) (sort_key f (sort_key g xs)))" by simp
qed

lemma sort_key_cong_order:
  assumes "\<And>x y. x \<in> set xs \<Longrightarrow> y \<in> set xs \<Longrightarrow> f x \<le> f y \<longleftrightarrow> g x \<le> g y"
  shows "sort_key f xs = sort_key g xs"
proof -
  have ins: "insort_key f x ys = insort_key g x ys"
    if "\<And>y. y \<in> set ys \<Longrightarrow> f x \<le> f y \<longleftrightarrow> g x \<le> g y" for x ys
    using that by (induction ys) auto
  with assms show ?thesis
  proof (induction xs)
    case (Cons a xs)
    have "sort_key f xs = sort_key g xs" using Cons by auto
    moreover have "insort_key f a (sort_key g xs) = insort_key g a (sort_key g xs)"
      using Cons.prems by (intro ins) auto
    ultimately show ?case by simp
  qed simp
qed

text \<open>One pass of the loop sorts stably by the key of its column.\<close>

definition pass_key :: "expr \<Rightarrow> bool \<Rightarrow> row \<Rightarrow> bool \<times> okey" where
  "pass_key e a r = (let v = value_at e r in (if a then v = VNone else v \<noteq> VNone, okey0 v))"

definition pass_tuple :: "expr \<Rightarrow> bool \<Rightarrow> row \<Rightarrow> pval" where
  "pass_tuple e a r = (let v = value_at e r in
     VTuple [VBool (if a then v = VNone else v \<noteq> VNone), if v \<noteq> VNone then v else VInt 0])"

lemma pass_tuple_lt:
  assumes "sortable es rows" "e \<in> set es" "r \<in> set rows" "r' \<in> set rows"
  shows "py_lt (pass_tuple e a r) (pass_tuple e a r') = Inr (pass_key e a r < pass_key e a r')"
  using sortable_cmp [OF assms]
  by (auto simp: pass_tuple_def pass_key_def Let_def num_eq_def num_cmp_def less_prod_def okey0_def okey_of_def)

lemma pass_key_order:
  "a \<Longrightarrow> pass_key e a r \<le> pass_key e a r' \<longleftrightarrow> val_key a (value_at e r) \<le> val_key a (value_at e r')"
  "\<not> a \<Longrightarrow> pass_key e a r' \<le> pass_key e a r \<longleftrightarrow> val_key a (value_at e r) \<le> val_key a (value_at e r')"
  by (auto simp: pass_key_def val_key_def Let_def less_eq_prod_def)

lemma sort_pass:
  assumes "sortable es (map snd rows)" "e \<in> set es"
  shows "py_sort (\<lambda>p. null_last_sort_key e a (snd p)) (\<not> a) (rows :: seq_row list)
       = Inr (sort_key (\<lambda>p. val_key a (value_at e (snd p))) rows)"
proof -
  let ?h = "\<lambda>p :: seq_row. (pass_tuple e a (snd p), p)"
  let ?f = "\<lambda>q. pass_key e a (snd (snd q))"
  let ?k = "\<lambda>p. val_key a (value_at e (snd p))"
  have ev: "eval e (snd p) = Inr (value_at e (snd p))" if "p \<in> set rows" for p
    using sortable_eval [OF assms] that by auto
  have keys: "rmap (\<lambda>p. null_last_sort_key e a (snd p)) rows = Inr (map (\<lambda>p. pass_tuple e a (snd p)) rows)"
    by (rule rmap_Inr_fun) (simp add: null_last_sort_key_def pass_tuple_def Let_def ev)
  have zip: "zip (map (\<lambda>p. pass_tuple e a (snd p)) rows) rows = map ?h rows"
    by (induction rows) auto
  have sort: "rsort (\<lambda>p q. py_lt (fst p) (fst q)) qs = Inr (sort_key ?f qs)"
    if "set qs \<subseteq> set (map ?h rows)" for qs :: "(pval \<times> seq_row) list"
  proof (rule rsort_sort_key)
    fix x y assume "x \<in> set qs" "y \<in> set qs"
    with that have "x \<in> ?h ` set rows" "y \<in> ?h ` set rows" by auto
    then obtain p p' where "p \<in> set rows" "p' \<in> set rows" "x = ?h p" "y = ?h p'"
      by (elim imageE) blast
    then show "py_lt (fst y) (fst x) = Inr (?f y < ?f x)"
      using pass_tuple_lt [OF assms, of "snd p'" "snd p"] by simp
  qed
  have strip: "map snd (sort_key ?f (map ?h xs)) = sort_key (?f \<circ> ?h) xs" for xs :: "seq_row list"
    by (simp only: sort_key_map [symmetric]) (simp add: comp_def)
  show ?thesis
  proof (cases a)
    case True
    then have "sort_key (?f \<circ> ?h) rows = sort_key ?k rows"
      by (intro sort_key_cong_order) (simp add: pass_key_order)
    then show ?thesis
      unfolding py_sort_def keys rbind.simps Let_def zip using True sort strip by simp
  next
    case False
    then have "rev (sort_key (?f \<circ> ?h) (rev rows)) = sort_key ?k rows"
      by (intro rev_sort_key) (simp add: pass_key_order)
    then show ?thesis
      unfolding py_sort_def keys rbind.simps Let_def zip
      using False sort strip [of "rev rows"] by (simp add: rev_map [symmetric])
  qed
qed

text \<open>The whole loop sorts stably by the composite key.\<close>

lemma prod_le_def: "p \<le> q \<longleftrightarrow> fst p < fst q \<or> fst p = fst q \<and> snd p \<le> snd q"
  for p q :: "'a::linorder \<times> 'b::linorder"
  by (auto simp: less_eq_prod_def)

lemma row_key_Cons:
  "row_key ((e, a) # zs) r \<le> row_key ((e, a) # zs) r' \<longleftrightarrow>
     (val_key a (value_at e r), row_key zs r) \<le> (val_key a (value_at e r'), row_key zs r')"
  by (cases "val_key a (value_at e r) = val_key a (value_at e r')")
     (auto simp: row_key_def prod_le_def)

lemma sort_key_const: "sort_key (\<lambda>p. k) xs = xs"
proof (induction xs)
  case (Cons x xs)
  then show ?case by (cases xs) auto
qed simp

lemma sort_passes:
  assumes "sortable (map fst zs) (map snd rows)"
  shows "rfold (\<lambda>rs (e, a). py_sort (\<lambda>p. null_last_sort_key e a (snd p)) (\<not> a) rs) (rows :: seq_row list) (rev zs)
       = Inr (sort_key (\<lambda>p. row_key zs (snd p)) rows)"
  using assms
proof (induction zs)
  case Nil
  show ?case by (simp add: row_key_def sort_key_const)
next
  case (Cons z zs)
  obtain e a where z: "z = (e, a)" by (cases z)
  let ?r1 = "sort_key (\<lambda>p. row_key zs (snd p)) rows"
  have "rfold (\<lambda>rs (e, a). py_sort (\<lambda>p. null_last_sort_key e a (snd p)) (\<not> a) rs) rows (rev zs) = Inr ?r1"
    using Cons.prems by (intro Cons.IH) (auto elim: sortable_subset)
  moreover have "py_sort (\<lambda>p. null_last_sort_key e a (snd p)) (\<not> a) ?r1
      = Inr (sort_key (\<lambda>p. val_key a (value_at e (snd p))) ?r1)"
    using Cons.prems by (intro sort_pass [of "map fst (z # zs)"]) (auto simp: z elim: sortable_subset)
  moreover have "sort_key (\<lambda>p. val_key a (value_at e (snd p))) ?r1
      = sort_key (\<lambda>p. row_key (z # zs) (snd p)) rows"
    unfolding sort_key_two_pass by (rule sort_key_cong_order) (simp add: z row_key_Cons)
  ultimately show ?case by (simp add: rfold_append z)
qed

lemma sort_rows_eq:
  assumes "sortable es (map snd rows)" "length es = length asc"
  shows "sort_rows rows es asc = Inr (sort_key (\<lambda>p. row_key (zip es asc) (snd p)) rows)"
  using assms by (simp add: sort_rows_def zip_strict_eq sort_passes)

section \<open>Merging sorted runs\<close>

lemma pick_run_min:
  assumes "\<And>x. x \<in> S \<Longrightarrow> key x = Inr (k x)"
    and "\<And>x y. x \<in> S \<Longrightarrow> y \<in> S \<Longrightarrow> lt (k x) (k y) = Inr (m x < (m y :: 'b::linorder))"
    and "set (concat runs) \<subseteq> S"
  shows "(\<forall>r \<in> set runs. r = []) \<and> pick_run key lt runs = Inr None
    \<or> (\<exists>i < length runs. runs ! i \<noteq> [] \<and> pick_run key lt runs = Inr (Some (k (hd (runs ! i)), i))
         \<and> (\<forall>r \<in> set runs. r \<noteq> [] \<longrightarrow> m (hd (runs ! i)) \<le> m (hd r)))"
  using assms(3)
proof (induction runs)
  case Nil
  then show ?case by simp
next
  case (Cons r runs)
  then have "(\<forall>r \<in> set runs. r = []) \<and> pick_run key lt runs = Inr None
    \<or> (\<exists>i < length runs. runs ! i \<noteq> [] \<and> pick_run key lt runs = Inr (Some (k (hd (runs ! i)), i))
         \<and> (\<forall>r \<in> set runs. r \<noteq> [] \<longrightarrow> m (hd (runs ! i)) \<le> m (hd r)))"
    by simp
  then consider (none) "\<forall>r \<in> set runs. r = []" "pick_run key lt runs = Inr None"
    | (some) i where "i < length runs" "runs ! i \<noteq> []"
        "pick_run key lt runs = Inr (Some (k (hd (runs ! i)), i))"
        "\<forall>r \<in> set runs. r \<noteq> [] \<longrightarrow> m (hd (runs ! i)) \<le> m (hd r)"
    by blast
  then show ?case
  proof cases
    case none
    show ?thesis
    proof (cases r)
      case r: (Cons x xs)
      then have "x \<in> S" using Cons.prems by auto
      with none r show ?thesis by (intro disjI2 exI [of _ 0]) (simp add: assms(1))
    qed (use none in simp)
  next
    case some
    show ?thesis
    proof (cases r)
      case Nil
      with some show ?thesis by (intro disjI2 exI [of _ "Suc i"]) auto
    next
      case r: (Cons x xs)
      have x: "x \<in> S" "hd (runs ! i) \<in> S"
        using Cons.prems some(1,2) r by (auto dest!: nth_mem hd_in_set)
      have pick: "pick_run key lt (r # runs) = Inr (Some
          (if m (hd (runs ! i)) < m x then (k (hd (runs ! i)), Suc i) else (k x, 0)))"
        using some(3) r assms(1) [OF x(1)] assms(2) [OF x(2,1)] by simp
      show ?thesis
      proof (cases "m (hd (runs ! i)) < m x")
        case True
        with pick some r show ?thesis by (intro disjI2 exI [of _ "Suc i"]) auto
      next
        case False
        then have "\<forall>r \<in> set runs. r \<noteq> [] \<longrightarrow> m x \<le> m (hd r)"
          using some(4) by (meson leI order_trans)
        with pick False r show ?thesis by (intro disjI2 exI [of _ 0]) auto
      qed
    qed
  qed
qed

lemma mset_remove_head:
  "i < length runs \<Longrightarrow> runs ! i \<noteq> [] \<Longrightarrow>
     mset (concat runs) = add_mset (hd (runs ! i)) (mset (concat (runs[i := tl (runs ! i)])))"
proof (induction runs arbitrary: i)
  case (Cons r runs)
  then show ?case by (cases i; cases r) auto
qed simp

lemma heap_merge_sorted:
  assumes "\<And>x. x \<in> S \<Longrightarrow> key x = Inr (k x)"
    and "\<And>x y. x \<in> S \<Longrightarrow> y \<in> S \<Longrightarrow> lt (k x) (k y) = Inr (m x < (m y :: 'b::linorder))"
    and "set (concat runs) \<subseteq> S" and "\<forall>r \<in> set runs. sorted (map m r)"
  shows "\<exists>zs. heap_merge key lt runs = gen_of zs \<and> mset zs = mset (concat runs) \<and> sorted (map m zs)"
  using assms(3,4)
proof (induction "sum_list (map length runs)" arbitrary: runs rule: less_induct)
  case less
  have "(\<forall>r \<in> set runs. r = []) \<and> pick_run key lt runs = Inr None
    \<or> (\<exists>i < length runs. runs ! i \<noteq> [] \<and> pick_run key lt runs = Inr (Some (k (hd (runs ! i)), i))
         \<and> (\<forall>r \<in> set runs. r \<noteq> [] \<longrightarrow> m (hd (runs ! i)) \<le> m (hd r)))"
    using less.prems(1) by (intro pick_run_min [of S]) (auto simp: assms(1,2))
  then consider (none) "\<forall>r \<in> set runs. r = []" "pick_run key lt runs = Inr None"
    | (some) i where "i < length runs" "runs ! i \<noteq> []"
        "pick_run key lt runs = Inr (Some (k (hd (runs ! i)), i))"
        "\<forall>r \<in> set runs. r \<noteq> [] \<longrightarrow> m (hd (runs ! i)) \<le> m (hd r)"
    by auto
  then show ?case
  proof cases
    case none
    then have "heap_merge key lt runs = gen_of []" by (simp add: heap_merge.simps)
    with none(1) show ?thesis by (intro exI [of _ "[]"]) simp
  next
    case some
    let ?x = "hd (runs ! i)" and ?rest = "runs[i := tl (runs ! i)]"
    have mem: "mset (concat runs) = add_mset ?x (mset (concat ?rest))"
      using some by (intro mset_remove_head)
    then have set: "set (concat runs) = insert ?x (set (concat ?rest))"
      by (metis set_mset_mset set_mset_add_mset_insert)
    have "sorted (map m (tl (runs ! i)))"
      using less.prems(2) some(1) by (simp add: map_tl sorted_tl)
    then have sorted: "\<forall>r \<in> set ?rest. sorted (map m r)"
      using less.prems(2) set_update_subset_insert [of runs i "tl (runs ! i)"] by blast
    have "set (concat ?rest) \<subseteq> S" using less.prems(1) set by blast
    then obtain zs where zs: "heap_merge key lt ?rest = gen_of zs" "mset zs = mset (concat ?rest)"
        "sorted (map m zs)"
      using less.hyps [OF sum_list_update_tl [OF some(1,2)] _ sorted] by blast
    have "m ?x \<le> m z" if "z \<in> set zs" for z
    proof -
      from that zs(2) have "z \<in> set (concat runs)" using set by (metis insertI2 mset_eq_setD)
      then obtain r where r: "r \<in> set runs" "z \<in> set r" by auto
      obtain y ys where y: "r = y # ys" using r(2) by (cases r) auto
      have "sorted (map m r)" using less.prems(2) r(1) by blast
      with y r(2) have "m y \<le> m z" by auto
      moreover have "m ?x \<le> m y" using some(4) r(1) y by auto
      ultimately show ?thesis by (rule order_trans [rotated])
    qed
    with zs some(3) mem show ?thesis
      by (intro exI [of _ "?x # zs"]) (simp add: heap_merge.simps)
  qed
qed

text \<open>The composite key is the row key followed by the arrival number.\<close>

definition comp_key :: "(expr \<times> bool) list \<Rightarrow> seq_row \<Rightarrow> ckey list" where
  "comp_key zs p =
     concat (map (\<lambda>(e, a). let v = value_at e (snd p); h = (if v = VNone then VInt 0 else v)
                           in [CVal (VBool (v = VNone)), if a then CVal h else CDesc h]) zs)
     @ [CVal (VInt (int (fst p)))]"

lemma composite_sort_key_eq:
  assumes "sortable es rows" "snd p \<in> set rows" "length es = length asc"
  shows "composite_sort_key es asc p = Inr (comp_key (zip es asc) p)"
proof -
  have "rmap (composite_part (snd p)) (zip es asc)
      = Inr (map (\<lambda>(e, a). let v = value_at e (snd p); h = (if v = VNone then VInt 0 else v)
                           in [CVal (VBool (v = VNone)), if a then CVal h else CDesc h]) (zip es asc))"
    by (rule rmap_Inr_fun)
       (auto simp: composite_part_def Let_def sortable_eval [OF assms(1) _ assms(2)] dest: set_zip_leftD)
  with assms(3) show ?thesis
    by (cases p) (simp add: composite_sort_key_def comp_key_def zip_strict_eq)
qed

lemma less_cons_pair:
  "(x # xs, i) < (y # ys, j) \<longleftrightarrow> x < y \<or> x = y \<and> (xs, i) < (ys, j)"
  for x :: "'a::linorder" and i :: nat
  by (auto simp: less_prod_def)

lemma comp_key_Cons:
  "comp_key ((e, a) # zs) p =
     (let v = value_at e (snd p); h = (if v = VNone then VInt 0 else v)
      in CVal (VBool (v = VNone)) # (if a then CVal h else CDesc h) # comp_key zs p)"
  by (simp add: comp_key_def Let_def)

lemma comp_key_lt:
  assumes "sortable (map fst zs) rows" "snd p \<in> set rows" "snd q \<in> set rows"
  shows "ckeys_lt (comp_key zs p) (comp_key zs q)
       = Inr ((row_key zs (snd p), fst p) < (row_key zs (snd q), fst q))"
  using assms(1)
proof (induction zs)
  case Nil
  then show ?case by (simp add: comp_key_def row_key_def num_eq_def num_cmp_def less_prod_def)
next
  case (Cons z zs)
  obtain e a where z: "z = (e, a)" by (cases z)
  have IH: "ckeys_lt (comp_key zs p) (comp_key zs q)
       = Inr ((row_key zs (snd p), fst p) < (row_key zs (snd q), fst q))"
    using Cons.prems by (intro Cons.IH) (auto elim: sortable_subset)
  have e: "e \<in> set (map fst (z # zs))" by (simp add: z)
  note cmp = sortable_cmp [OF Cons.prems e assms(2,3)] sortable_cmp [OF Cons.prems e assms(3,2)]
  have "ckeys_lt (comp_key ((e, a) # zs) p) (comp_key ((e, a) # zs) q)
      = Inr (val_key a (value_at e (snd p)) < val_key a (value_at e (snd q))
         \<or> val_key a (value_at e (snd p)) = val_key a (value_at e (snd q))
            \<and> (row_key zs (snd p), fst p) < (row_key zs (snd q), fst q))"
    using cmp
    by (cases "value_at e (snd p) = VNone"; cases "value_at e (snd q) = VNone"; cases a)
       (auto simp: comp_key_Cons Let_def IH val_key_def num_eq_def num_cmp_def
         less_prod_def [where ?'a = bool] okey0_def okey_of_def)
  moreover have "row_key ((e, a) # zs) r = val_key a (value_at e r) # row_key zs r" for r
    by (simp add: row_key_def)
  ultimately show ?case
    by (simp only: z less_cons_pair)
qed

text \<open>
  Rows that arrive in the order of their numbers, cut into chunks of any size, each chunk sorted
  on its own and the runs merged, come out as one stable sort of all of them would give.
\<close>

definition arrival_order :: "seq_row list \<Rightarrow> bool" where
  "arrival_order rows = sorted_wrt (<) (map fst rows)"

lemma arrival_sort_key:
  assumes "arrival_order rows"
  shows "sort_key (\<lambda>p. f (snd p)) rows = sort_key (\<lambda>p. (f (snd p), fst p)) rows"
proof -
  have "sorted (map fst rows)"
    using assms by (simp add: arrival_order_def strict_sorted_imp_sorted)
  then have "sort_key fst rows = rows" by (rule sort_key_id_if_sorted)
  then show ?thesis using sort_key_two_pass [of "\<lambda>p. f (snd p)" fst rows] by simp
qed

lemma arrival_inj: "arrival_order rows \<Longrightarrow> inj_on (\<lambda>p. (f (snd p), fst p)) (set rows)"
  by (auto simp: arrival_order_def strict_sorted_iff distinct_map inj_on_def)

lemma merge_of_runs:
  assumes "sortable es (map snd rows)" "length es = length asc" "arrival_order rows"
    and "mset (concat chunks) = mset rows" "\<forall>c \<in> set chunks. arrival_order c"
    and "rmap (\<lambda>c. sort_rows c es asc) chunks = Inr runs"
  shows "gen_list (heap_merge (composite_sort_key es asc) ckeys_lt runs) = sort_rows rows es asc"
proof -
  let ?zs = "zip es asc"
  let ?m = "\<lambda>p. (row_key ?zs (snd p), fst p)"
  have fst_zs: "map fst ?zs = es" using assms(2) by simp
  have mem: "set (concat chunks) = set rows" using assms(4) by (rule mset_eq_setD)
  have run: "sort_rows c es asc = Inr (sort_key ?m c)" if "c \<in> set chunks" for c
  proof -
    have "set (map snd c) \<subseteq> set (map snd rows)" using that mem by fastforce
    then have "sortable es (map snd c)" by (rule sortable_subset [OF assms(1) subset_refl])
    then show ?thesis
      using assms(2,5) that by (simp add: sort_rows_eq arrival_sort_key)
  qed
  have runs: "runs = map (sort_key ?m) chunks"
    using assms(6) rmap_Inr_fun [of chunks "\<lambda>c. sort_rows c es asc" "sort_key ?m"] run by simp
  have "mset (concat (map (sort_key ?m) cs)) = mset (concat cs)" for cs :: "seq_row list list"
    by (induction cs) auto
  then have mset: "mset (concat runs) = mset rows" using assms(4) runs by simp
  have "\<exists>zs. heap_merge (composite_sort_key es asc) ckeys_lt runs = gen_of zs
      \<and> mset zs = mset (concat runs) \<and> sorted (map ?m zs)"
  proof (rule heap_merge_sorted [of "set rows" _ "comp_key ?zs"])
    show "composite_sort_key es asc p = Inr (comp_key ?zs p)" if "p \<in> set rows" for p
      using that assms(1,2) by (intro composite_sort_key_eq [of es "map snd rows"]) auto
    show "ckeys_lt (comp_key ?zs p) (comp_key ?zs q) = Inr (?m p < ?m q)"
      if "p \<in> set rows" "q \<in> set rows" for p q
      using that assms(1) fst_zs by (intro comp_key_lt [of _ "map snd rows"]) auto
    show "set (concat runs) \<subseteq> set rows" using mset by (metis mset_eq_setD subset_refl)
    show "\<forall>r \<in> set runs. sorted (map ?m r)" by (simp add: runs)
  qed
  then obtain zs where zs: "heap_merge (composite_sort_key es asc) ckeys_lt runs = gen_of zs"
      "mset zs = mset rows" "sorted (map ?m zs)"
    using mset by auto
  have "sort_key ?m rows = zs"
    using zs(2,3) arrival_inj [OF assms(3)] by (intro sort_key_inj_key_eq) auto
  then show ?thesis
    using zs(1) assms(1-3) by (simp add: sort_rows_eq arrival_sort_key)
qed

text \<open>What a sorted list of rows is, whatever computed it.\<close>

definition row_le :: "expr list \<Rightarrow> bool list \<Rightarrow> row \<Rightarrow> row \<Rightarrow> bool" where
  "row_le es asc r r' = (row_key (zip es asc) r \<le> row_key (zip es asc) r')"

text \<open>
  C28: \<^verbatim>\<open>_sort_rows\<close> returns a permutation of its rows that is ordered by all sort keys in their
  directions with nulls last, and keeps the arrival order of rows that tie on every key.
\<close>

theorem sort_rows_correct:
  assumes "sortable es (map snd rows)" "length es = length asc"
  shows "\<exists>sorted_rows. sort_rows rows es asc = Inr sorted_rows
    \<and> mset sorted_rows = mset rows
    \<and> sorted_wrt (row_le es asc) (map snd sorted_rows)
    \<and> (\<forall>k. filter (\<lambda>p. row_key (zip es asc) (snd p) = k) sorted_rows
          = filter (\<lambda>p. row_key (zip es asc) (snd p) = k) rows)"
proof -
  let ?f = "\<lambda>p. row_key (zip es asc) (snd p)"
  have "sorted_wrt (\<lambda>p q. ?f p \<le> ?f q) (sort_key ?f rows)"
    using sorted_sort_key [of ?f rows] by (simp add: sorted_map)
  then have "sorted_wrt (row_le es asc) (map snd (sort_key ?f rows))"
    by (simp add: sorted_wrt_map row_le_def)
  then show ?thesis
    by (auto simp: sort_rows_eq [OF assms] sort_key_stable)
qed

definition sample_rows :: "seq_row list" where
  "sample_rows =
     [(0, [(''a'', VInt 2), (''b'', VStr ''x'')]), (1, [(''a'', VNone), (''b'', VStr ''y'')]),
      (2, [(''a'', VInt 5), (''b'', VStr ''z'')]), (3, [(''a'', VInt 2), (''b'', VStr ''w'')])]"

lemma sample_sortable: "sortable [Column ''a''] (map snd sample_rows)"
  by code_simp

theorem sort_rows_correct_witness:
  "\<exists>s. sort_rows sample_rows [Column ''a''] [False] = Inr s \<and> map fst s = [2, 0, 3, 1]
     \<and> sorted_wrt (row_le [Column ''a''] [False]) (map snd s)"
proof -
  have "sort_rows sample_rows [Column ''a''] [False]
      = Inr (map (\<lambda>i. sample_rows ! i) [2, 0, 3, 1])"
    by code_simp
  then show ?thesis
    using sort_rows_correct [OF sample_sortable, of "[False]"] by (auto simp: sample_rows_def)
qed

end
