(* ===== verification/Operators.thy ===== *)
theory Operators
  imports PhysicalPlan SortRows
begin

text \<open>
  The physical operators (\<^verbatim>\<open>physical/operators.py\<close>): \<^verbatim>\<open>execute\<close> over whole datasets and
  \<^verbatim>\<open>execute_partition\<close>, what a task runs, for every node: scan, filter, project, hash aggregation
  and sort with their spilling paths, hash join, and the shuffle read.
\<close>

section \<open>The environment of a task\<close>

text \<open>
  What the operators take from the machine: the disk with the shuffle blocks and how to decode them,
  MD5, \<^verbatim>\<open>sys.getsizeof\<close>, and the fresh scratch directory that \<^verbatim>\<open>tempfile.mkdtemp\<close> returns.
\<close>

record 'b env =
  env_codec :: "'b codec"
  env_disk :: "'b files"
  env_md5 :: md5_fn
  env_getsizeof :: "pval \<Rightarrow> nat"
  env_tmpdir :: string

text \<open>\<^verbatim>\<open>[f(x, y) for x, y in zip(xs, ys, strict=True)]\<close>\<close>

fun rmap2 :: "('a \<Rightarrow> 'b \<Rightarrow> 'c res) \<Rightarrow> 'a list \<Rightarrow> 'b list \<Rightarrow> 'c list res" where
  "rmap2 f [] [] = Inr []"
| "rmap2 f (x # xs) (y # ys) = rbind (f x y) (\<lambda>z. rbind (rmap2 f xs ys) (\<lambda>zs. Inr (z # zs)))"
| "rmap2 f _ _ = Inl ValueError"

section \<open>Filter and project\<close>

definition filter_partition :: "expr \<Rightarrow> partition \<Rightarrow> partition" where
  "filter_partition e parent =
     \<lparr>partition_id = partition_id parent, part_schema = part_schema parent,
      records = gen_filter (holds e) (records parent), metadata = no_meta\<rparr>"

definition project_row :: "string list \<Rightarrow> expr list \<Rightarrow> row \<Rightarrow> row res" where
  "project_row names es r =
     rbind (rmap2 (\<lambda>n e. rbind (eval e r) (\<lambda>v. Inr (n, v))) names es) (\<lambda>kvs. Inr (dict_of kvs))"

definition project_partition :: "expr list \<Rightarrow> schema \<Rightarrow> partition \<Rightarrow> partition" where
  "project_partition es s parent =
     \<lparr>partition_id = partition_id parent, part_schema = s,
      records = gen_map (project_row (field_names s) es) (records parent),
      metadata = counted_meta (part_row_count parent)\<rparr>"

text \<open>\<^verbatim>\<open>execute(plan)\<close>, the whole-dataset interpreter of scan, filter and project\<close>

fun execute :: "pplan \<Rightarrow> dataset res" where
  "execute (ScanExec d _) = Inr d"
| "execute (FilterExec c e) =
     rbind (execute c) (\<lambda>d. Inr \<lparr>ds_schema = ds_schema d,
       ds_partitions = map (filter_partition e) (ds_partitions d)\<rparr>)"
| "execute (ProjectExec c es s) =
     rbind (execute c) (\<lambda>d. Inr \<lparr>ds_schema = s,
       ds_partitions = map (project_partition es s) (ds_partitions d)\<rparr>)"
| "execute _ = Inl NotImplementedError"

section \<open>Hash aggregation\<close>

text \<open>
  A dictionary keyed by tuples: keys are found by Python equality, and assigning to a key that is
  present keeps the key object that was inserted first.
\<close>

type_synonym 'v kdict = "(pval list \<times> 'v) list"

fun kget :: "'v kdict \<Rightarrow> pval list \<Rightarrow> 'v option" where
  "kget [] k = None"
| "kget ((k', v) # d) k = (if py_eq_list k' k then Some v else kget d k)"

fun kset :: "'v kdict \<Rightarrow> pval list \<Rightarrow> 'v \<Rightarrow> 'v kdict" where
  "kset [] k v = [(k, v)]"
| "kset ((k', v') # d) k v = (if py_eq_list k' k then (k', v) # d else (k', v') # kset d k v)"

lemma kget_kset: "kget (kset d k v) k' = (if py_eq_list k k' then Some v else kget d k')"
proof (induction d)
  case (Cons e d)
  obtain k0 v0 where e: "e = (k0, v0)" by (cases e)
  show ?case
  proof (cases "py_eq_list k0 k")
    case True
    then have "py_eq_list k0 k' \<longleftrightarrow> py_eq_list k k'"
      using py_eq_list_trans py_eq_list_sym by metis
    with True show ?thesis by (simp add: e)
  next
    case False
    then have "\<not> (py_eq_list k0 k' \<and> py_eq_list k k')"
      using py_eq_list_trans py_eq_list_sym by metis
    with False Cons show ?thesis by (auto simp: e)
  qed
qed simp

definition tuple_key :: "expr list \<Rightarrow> row \<Rightarrow> pval list res" where
  "tuple_key es r = rmap (\<lambda>e. eval e r) es"

definition agg_state_name :: "nat \<Rightarrow> string" where
  "agg_state_name i = ''__agg_state_'' @ nat_str i"

definition unwrap_aggregate :: "expr \<Rightarrow> expr res" where
  "unwrap_aggregate e =
     (let inner = unalias e in if is_aggregate inner then Inr inner else Inl AssertionError)"

fun merge_states :: "expr list \<Rightarrow> pval list \<Rightarrow> pval list \<Rightarrow> pval list res" where
  "merge_states [] [] [] = Inr []"
| "merge_states (a # as) (s # ss) (i # is) =
     rbind (agg_merge a s i) (\<lambda>t. rbind (merge_states as ss is) (\<lambda>ts. Inr (t # ts)))"
| "merge_states _ _ _ = Inl ValueError"

definition agg_new_state :: "bool \<Rightarrow> expr list \<Rightarrow> pval list option \<Rightarrow> row \<Rightarrow> pval list res" where
  "agg_new_state is_partial aggs existing r =
     (if is_partial then
        rbind (case existing of Some s \<Rightarrow> Inr s | None \<Rightarrow> rmap agg_initialize aggs)
          (\<lambda>state. rmap2 (\<lambda>a s. agg_update a s r) aggs state)
      else
        rbind (rmap (\<lambda>i. row_get r (agg_state_name i)) [0..<length aggs]) (\<lambda>incoming.
          case existing of None \<Rightarrow> Inr incoming | Some s \<Rightarrow> merge_states aggs s incoming))"

definition estimate_group_bytes :: "(pval \<Rightarrow> nat) \<Rightarrow> pval list \<Rightarrow> pval list \<Rightarrow> int" where
  "estimate_group_bytes sz key state = int (sum_list (map sz key) + sum_list (map sz state))"

definition AGGREGATE_SPILL_BUCKETS :: nat where
  "AGGREGATE_SPILL_BUCKETS = 32"

type_synonym group_item = "pval list \<times> pval list"

definition bucket_of :: "md5_fn \<Rightarrow> pval list \<Rightarrow> nat res" where
  "bucket_of md5 key = partition_for md5 (HashPartitioner AGGREGATE_SPILL_BUCKETS) (VTuple key)"

definition spill_name :: "nat \<Rightarrow> nat \<Rightarrow> string" where
  "spill_name round_num bucket = ''round'' @ nat_str round_num @ ''_bucket'' @ nat_str bucket @ ''.pkl''"

text \<open>\<^verbatim>\<open>_spill_groups\<close>: the items by bucket, then one file per non-empty bucket.\<close>

definition add_to_bucket ::
    "md5_fn \<Rightarrow> (nat \<times> group_item list) list \<Rightarrow> group_item \<Rightarrow> (nat \<times> group_item list) list res" where
  "add_to_bucket md5 by_bucket item =
     rbind (bucket_of md5 (fst item)) (\<lambda>b.
       Inr (AList.update b
              ((case map_of by_bucket b of Some items \<Rightarrow> items | None \<Rightarrow> []) @ [item]) by_bucket))"

type_synonym spill_area = "group_item spill_files \<times> string list list"

definition spill_bucket :: "string \<Rightarrow> nat \<Rightarrow> spill_area \<Rightarrow> nat \<times> group_item list \<Rightarrow> spill_area" where
  "spill_bucket dir round_num area bi =
     (case (area, bi) of ((files, paths), (b, items)) \<Rightarrow>
        let (files', p) = write_spill_file dir (spill_name round_num b) items files
        in (files', paths[b := paths ! b @ [p]]))"

definition spill_groups ::
    "md5_fn \<Rightarrow> string \<Rightarrow> nat \<Rightarrow> pval list kdict \<Rightarrow> spill_area \<Rightarrow> spill_area res" where
  "spill_groups md5 dir round_num groups area =
     rbind (rfold (add_to_bucket md5) [] groups) (\<lambda>by_bucket.
       Inr (foldl (spill_bucket dir round_num) area by_bucket))"

record agg_acc =
  acc_groups :: "pval list kdict"
  acc_bytes :: int
  acc_spilled :: bool
  acc_area :: spill_area
  acc_round :: nat

definition agg_start :: agg_acc where
  "agg_start = \<lparr>acc_groups = [], acc_bytes = 0, acc_spilled = False,
     acc_area = (\<lambda>_. None, replicate AGGREGATE_SPILL_BUCKETS []), acc_round = 0\<rparr>"

text \<open>One iteration of the accumulation loop.\<close>

definition agg_step ::
    "'b env \<Rightarrow> expr list \<Rightarrow> expr list \<Rightarrow> bool \<Rightarrow> int \<Rightarrow> agg_acc \<Rightarrow> row \<Rightarrow> agg_acc res" where
  "agg_step env gs aggs is_partial threshold acc r =
     rbind (tuple_key gs r) (\<lambda>key.
       let existing = kget (acc_groups acc) key; est = estimate_group_bytes (env_getsizeof env) key
       in rbind (agg_new_state is_partial aggs existing r) (\<lambda>new_state.
         let bytes = acc_bytes acc - (case existing of Some s \<Rightarrow> est s | None \<Rightarrow> 0) + est new_state;
             groups = kset (acc_groups acc) key new_state
         in if threshold \<le> bytes then
              rbind (spill_groups (env_md5 env) (env_tmpdir env) (acc_round acc) groups (acc_area acc))
                (\<lambda>area. Inr \<lparr>acc_groups = [], acc_bytes = 0, acc_spilled = True, acc_area = area,
                           acc_round = acc_round acc + 1\<rparr>)
            else Inr (acc\<lparr>acc_groups := groups, acc_bytes := bytes\<rparr>)))"

text \<open>The output row of a group: its key columns, then raw states or finalized values.\<close>

fun finalize_into :: "row \<Rightarrow> string list \<Rightarrow> expr list \<Rightarrow> pval list \<Rightarrow> row res" where
  "finalize_into row [] [] [] = Inr row"
| "finalize_into row (n # ns) (a # as) (s # ss) =
     rbind (agg_finalize a s) (\<lambda>v. finalize_into (AList.update n v row) ns as ss)"
| "finalize_into row _ _ _ = Inl ValueError"

definition states_into :: "row \<Rightarrow> pval list \<Rightarrow> row" where
  "states_into row state =
     foldl (\<lambda>d (i, s). AList.update (agg_state_name i) s d) row (zip [0..<length state] state)"

definition group_row ::
    "string list \<Rightarrow> string list \<Rightarrow> expr list \<Rightarrow> bool \<Rightarrow> group_item \<Rightarrow> row res" where
  "group_row group_names agg_names aggs is_partial item =
     (case item of (key, state) \<Rightarrow>
        rbind (zip_strict group_names key) (\<lambda>kvs.
          let row = dict_of kvs
          in if is_partial then Inr (states_into row state)
             else finalize_into row agg_names aggs state))"

text \<open>The merge phase: the remainder's keys of a bucket, then every spill file of that bucket.\<close>

definition seed_bucket ::
    "md5_fn \<Rightarrow> pval list kdict list \<Rightarrow> group_item \<Rightarrow> pval list kdict list res" where
  "seed_bucket md5 buckets item =
     rbind (bucket_of md5 (fst item)) (\<lambda>b.
       Inr (buckets[b := kset (buckets ! b) (fst item) (snd item)]))"

definition merge_item :: "expr list \<Rightarrow> pval list kdict \<Rightarrow> group_item \<Rightarrow> pval list kdict res" where
  "merge_item aggs merged item =
     (case item of (key, state) \<Rightarrow>
        rbind (case kget merged key of None \<Rightarrow> Inr state | Some s \<Rightarrow> merge_states aggs s state)
          (\<lambda>t. Inr (kset merged key t)))"

definition merge_bucket ::
    "expr list \<Rightarrow> group_item spill_files \<Rightarrow> pval list kdict \<Rightarrow> string list \<Rightarrow> pval list kdict res" where
  "merge_bucket aggs files seed paths =
     rfold (\<lambda>merged p. rbind (read_spill_file files p) (rfold (merge_item aggs) merged)) seed paths"

definition bucket_gen ::
    "(group_item \<Rightarrow> row res) \<Rightarrow> pval list kdict res \<Rightarrow> row gen" where
  "bucket_gen out m = (case m of Inl e \<Rightarrow> Raise e | Inr merged \<Rightarrow> gen_map out (gen_of merged))"

definition spilled_records ::
    "md5_fn \<Rightarrow> expr list \<Rightarrow> (group_item \<Rightarrow> row res) \<Rightarrow> pval list kdict \<Rightarrow> spill_area \<Rightarrow> row gen" where
  "spilled_records md5 aggs out remainder area =
     (case rfold (seed_bucket md5) (replicate AGGREGATE_SPILL_BUCKETS []) remainder of
        Inl e \<Rightarrow> Raise e
      | Inr seeds \<Rightarrow>
          gen_concat (map (\<lambda>b. bucket_gen out (merge_bucket aggs (fst area) (seeds ! b) (snd area ! b)))
                       [0..<AGGREGATE_SPILL_BUCKETS]))"

definition aggregate_partition ::
    "'b env \<Rightarrow> expr list \<Rightarrow> expr list \<Rightarrow> schema \<Rightarrow> bool \<Rightarrow> int \<Rightarrow> nat \<Rightarrow> partition \<Rightarrow> partition res" where
  "aggregate_partition env gs as s is_partial threshold pid parent =
     rbind (rmap unwrap_aggregate as) (\<lambda>aggs.
     rbind (gen_fold (agg_step env gs aggs is_partial threshold) agg_start (records parent)) (\<lambda>acc.
       let out = group_row (map output_name gs) (map output_name as) aggs is_partial
       in Inr (if \<not> acc_spilled acc then
                 \<lparr>partition_id = pid, part_schema = s, records = gen_map out (gen_of (acc_groups acc)),
                  metadata = counted_meta (Some (length (acc_groups acc)))\<rparr>
               else
                 \<lparr>partition_id = pid, part_schema = s,
                  records = spilled_records (env_md5 env) aggs out (acc_groups acc) (acc_area acc),
                  metadata = no_meta\<rparr>)))"

section \<open>Hash join\<close>

definition join_table :: "expr list \<Rightarrow> row gen \<Rightarrow> row list kdict res" where
  "join_table keys g =
     gen_fold (\<lambda>table r. rbind (tuple_key keys r) (\<lambda>k.
       Inr (kset table k ((case kget table k of Some rs \<Rightarrow> rs | None \<Rightarrow> []) @ [r])))) [] g"

definition merge_rows :: "string list \<Rightarrow> row \<Rightarrow> row \<Rightarrow> row" where
  "merge_rows on left_row right_row =
     foldl (\<lambda>d (n, v). if n \<in> set on then d else AList.update n v d) left_row right_row"

definition probe :: "string list \<Rightarrow> expr list \<Rightarrow> row list kdict \<Rightarrow> row \<Rightarrow> row gen" where
  "probe on keys table right_row =
     (case tuple_key keys right_row of
        Inl e \<Rightarrow> Raise e
      | Inr k \<Rightarrow> gen_of (map (\<lambda>l. merge_rows on l right_row)
                     (case kget table k of Some ls \<Rightarrow> ls | None \<Rightarrow> [])))"

definition join_partition ::
    "expr list \<Rightarrow> expr list \<Rightarrow> string list \<Rightarrow> schema \<Rightarrow> nat \<Rightarrow> partition \<Rightarrow> partition \<Rightarrow> partition res" where
  "join_partition lkeys rkeys on s pid left right =
     rbind (join_table lkeys (records left)) (\<lambda>table.
     rbind (gen_list (records right)) (\<lambda>right_rows.
       Inr \<lparr>partition_id = pid, part_schema = s,
            records = gen_concat (map (probe on rkeys table) right_rows), metadata = no_meta\<rparr>))"

section \<open>Sort\<close>

definition estimate_record_bytes :: "(pval \<Rightarrow> nat) \<Rightarrow> row \<Rightarrow> int" where
  "estimate_record_bytes sz r = int (sum_list (map sz (row_values r)))"

record sort_acc =
  sa_buffer :: "seq_row list"
  sa_bytes :: int
  sa_total :: nat
  sa_paths :: "string list"
  sa_files :: "seq_row spill_files"

definition sort_start :: sort_acc where
  "sort_start = \<lparr>sa_buffer = [], sa_bytes = 0, sa_total = 0, sa_paths = [], sa_files = (\<lambda>_. None)\<rparr>"

text \<open>
  One iteration; the sequence number is the number of rows consumed so far.
\<close>

definition sort_step ::
    "'b env \<Rightarrow> expr list \<Rightarrow> bool list \<Rightarrow> int \<Rightarrow> sort_acc \<Rightarrow> row \<Rightarrow> sort_acc res" where
  "sort_step env es asc threshold acc r =
     (let buffer = sa_buffer acc @ [(sa_total acc, r)];
          bytes = sa_bytes acc + estimate_record_bytes (env_getsizeof env) r;
          total = sa_total acc + 1
      in if threshold \<le> bytes then
           rbind (sort_rows buffer es asc) (\<lambda>chunk.
             let (files, p) = write_spill_file (env_tmpdir env)
                   (''run_'' @ nat_str (length (sa_paths acc)) @ ''.pkl'') chunk (sa_files acc)
             in Inr \<lparr>sa_buffer = [], sa_bytes = 0, sa_total = total, sa_paths = sa_paths acc @ [p],
                     sa_files = files\<rparr>)
         else Inr (acc\<lparr>sa_buffer := buffer, sa_bytes := bytes, sa_total := total\<rparr>))"

text \<open>
  The merged runs: the final in-memory one first, then the spill files.  (A second iteration of a
  sorted partition is not modelled: the in-memory path hands out one generator, and the spilling
  path removes its files when the first iteration ends.)
\<close>

definition merged_runs ::
    "expr list \<Rightarrow> bool list \<Rightarrow> seq_row list \<Rightarrow> seq_row spill_files \<Rightarrow> string list \<Rightarrow> row gen" where
  "merged_runs es asc final_run files paths =
     (case rmap (read_spill_file files) paths of
        Inl e \<Rightarrow> Raise e
      | Inr runs \<Rightarrow>
          gen_map (\<lambda>p. Inr (snd p)) (heap_merge (composite_sort_key es asc) ckeys_lt (final_run # runs)))"

definition sort_partition ::
    "'b env \<Rightarrow> expr list \<Rightarrow> bool list \<Rightarrow> schema \<Rightarrow> int \<Rightarrow> nat \<Rightarrow> partition \<Rightarrow> partition res" where
  "sort_partition env es asc s threshold pid parent =
     rbind (gen_fold (sort_step env es asc threshold) sort_start (records parent)) (\<lambda>acc.
       if sa_paths acc = [] then
         rbind (sort_rows (sa_buffer acc) es asc) (\<lambda>rows.
           Inr \<lparr>partition_id = pid, part_schema = s, records = gen_of (map snd rows),
                metadata = counted_meta (Some (length rows))\<rparr>)
       else
         rbind (sort_rows (sa_buffer acc) es asc) (\<lambda>final_run.
           Inr \<lparr>partition_id = pid, part_schema = s,
                records = merged_runs es asc final_run (sa_files acc) (sa_paths acc),
                metadata = counted_meta (Some (sa_total acc))\<rparr>))"

section \<open>Shuffle read\<close>

type_synonym blocks_by_stage = "(nat \<Rightarrow> block_meta list option) option"

definition shuffle_read_partition ::
    "'b env \<Rightarrow> nat \<Rightarrow> schema \<Rightarrow> nat \<Rightarrow> blocks_by_stage \<Rightarrow> partition res" where
  "shuffle_read_partition env stage s pid shuffle_blocks =
     (case shuffle_blocks of
        None \<Rightarrow> Inl ValueError
      | Some m \<Rightarrow> (case m stage of
          None \<Rightarrow> Inl ValueError
        | Some blocks \<Rightarrow>
            (case gen_list (read_shuffle_blocks (env_codec env) (env_disk env) True blocks) of
               Inl (FileNotFoundError q) \<Rightarrow> Inl (MissingShuffleDataError stage pid)
             | Inl (ShuffleChecksumError q) \<Rightarrow> Inl (MissingShuffleDataError stage pid)
             | Inl e \<Rightarrow> Inl e
             | Inr rows \<Rightarrow>
                 Inr \<lparr>partition_id = pid, part_schema = s, records = gen_of rows,
                      metadata = counted_meta (Some (length rows))\<rparr>)))"

section \<open>Executing one partition\<close>

fun execute_partition :: "'b env \<Rightarrow> pplan \<Rightarrow> nat \<Rightarrow> blocks_by_stage \<Rightarrow> partition res" where
  "execute_partition env (ScanExec d _) pid bs = ds_partition d pid"
| "execute_partition env (FilterExec c e) pid bs =
     rbind (execute_partition env c pid bs) (\<lambda>p. Inr (filter_partition e p))"
| "execute_partition env (ProjectExec c es s) pid bs =
     rbind (execute_partition env c pid bs) (\<lambda>p. Inr (project_partition es s p))"
| "execute_partition env (HashAggregateExec c gs as s is_partial threshold) pid bs =
     rbind (execute_partition env c pid bs) (aggregate_partition env gs as s is_partial threshold pid)"
| "execute_partition env (HashJoinExec l r lkeys rkeys on s) pid bs =
     rbind (execute_partition env l pid bs) (\<lambda>lp. rbind (execute_partition env r pid bs) (\<lambda>rp.
       join_partition lkeys rkeys on s pid lp rp))"
| "execute_partition env (SortExec c es asc s threshold) pid bs =
     rbind (execute_partition env c pid bs) (sort_partition env es asc s threshold pid)"
| "execute_partition env (ShuffleReadExec stage s _) pid bs =
     shuffle_read_partition env stage s pid bs"
| "execute_partition env (ExchangeExec _ _ _ _ _) pid bs = Inl NotImplementedError"
| "execute_partition env (ShuffleWriteExec _ _ _ _) pid bs = Inl NotImplementedError"

text \<open>An environment in which every value takes 28 bytes, for the examples below.\<close>

definition sample_env :: "row env" where
  "sample_env = \<lparr>env_codec = sample_codec, env_disk = (\<lambda>_. None), env_md5 = (\<lambda>_. [0]),
     env_getsizeof = (\<lambda>_. 28), env_tmpdir = ''/tmp/t''\<rparr>"

definition sample_partition :: "row list \<Rightarrow> partition" where
  "sample_partition rows =
     \<lparr>partition_id = 0, part_schema = [], records = gen_of rows, metadata = no_meta\<rparr>"

end
