(* ===== verification/SortExecution.thy ===== *)
theory SortExecution
  imports Operators
begin

text \<open>
  The sort operator: whatever the memory budget, and however often it spilled, a sorted partition
  holds what one stable in-memory sort gives.
\<close>

section \<open>The accumulation loop\<close>

text \<open>The rows in arrival order with their sequence numbers, from \<open>n\<close> on.\<close>

definition numbered :: "nat \<Rightarrow> row list \<Rightarrow> seq_row list" where
  "numbered n rows = zip [n..<n + length rows] rows"

lemma numbered_simps [simp]:
  "numbered n [] = []"
  "numbered n (rows @ [r]) = numbered n rows @ [(n + length rows, r)]"
  "map snd (numbered n rows) = rows"
  "length (numbered n rows) = length rows"
  by (auto simp: numbered_def)

lemma numbered_append: "numbered n (rows @ rows') = numbered n rows @ numbered (n + length rows) rows'"
  by (induction rows' rule: rev_induct) (auto simp flip: append_assoc)

lemma numbered_arrival: "arrival_order (numbered n rows)"
  by (simp add: arrival_order_def numbered_def)

text \<open>
  The state after some rows: they were cut into spilled chunks and the rows still in the buffer,
  and the spill files hold the sorted chunks.
\<close>

definition run_path :: "'b env \<Rightarrow> nat \<Rightarrow> string" where
  "run_path env i = env_tmpdir env @ ''/'' @ ''run_'' @ nat_str i @ ''.pkl''"

lemma run_path_inj [simp]: "run_path env i = run_path env j \<longleftrightarrow> i = j"
  by (simp add: run_path_def)

definition sort_inv ::
    "'b env \<Rightarrow> expr list \<Rightarrow> bool list \<Rightarrow> row list \<Rightarrow> seq_row list list \<Rightarrow> sort_acc \<Rightarrow> bool" where
  "sort_inv env es asc rows chunks acc =
     (sa_total acc = length rows
      \<and> concat chunks @ sa_buffer acc = numbered 0 rows
      \<and> sa_paths acc = map (run_path env) [0..<length chunks]
      \<and> (\<forall>i < length chunks. \<exists>run. sort_rows (chunks ! i) es asc = Inr run
            \<and> sa_files acc (run_path env i) = Some run))"

lemma sort_step_inv:
  assumes "sortable es (rows @ [r])" "length es = length asc" "sort_inv env es asc rows chunks acc"
  shows "\<exists>acc' chunks'. sort_step env es asc threshold acc r = Inr acc'
    \<and> sort_inv env es asc (rows @ [r]) chunks' acc'"
proof -
  let ?buffer = "sa_buffer acc @ [(sa_total acc, r)]"
  have inv: "sa_total acc = length rows" "concat chunks @ sa_buffer acc = numbered 0 rows"
      "sa_paths acc = map (run_path env) [0..<length chunks]"
      "\<forall>i < length chunks. \<exists>run. sort_rows (chunks ! i) es asc = Inr run
            \<and> sa_files acc (run_path env i) = Some run"
    using assms(3) by (auto simp: sort_inv_def)
  have all: "concat chunks @ ?buffer = numbered 0 (rows @ [r])"
    using inv(1,2) by (simp flip: append_assoc)
  show ?thesis
  proof (cases "threshold \<le> sa_bytes acc + estimate_record_bytes (env_getsizeof env) r")
    case True
    have "set (map snd ?buffer) \<subseteq> set (map snd (numbered 0 (rows @ [r])))"
      unfolding all [symmetric] by auto
    then have "set (map snd ?buffer) \<subseteq> set (rows @ [r])" by (simp only: numbered_simps(3))
    then have "sortable es (map snd ?buffer)"
      by (rule sortable_subset [OF assms(1) subset_refl])
    from sort_rows_eq [OF this assms(2)] obtain run where run: "sort_rows ?buffer es asc = Inr run"
      by blast
    let ?p = "run_path env (length chunks)"
    let ?acc' = "\<lparr>sa_buffer = [], sa_bytes = 0, sa_total = sa_total acc + 1,
        sa_paths = sa_paths acc @ [?p], sa_files = (sa_files acc)(?p \<mapsto> run)\<rparr>"
    have "sort_step env es asc threshold acc r = Inr ?acc'"
      using True run inv(3)
      by (simp add: sort_step_def Let_def write_spill_file_def run_path_def)
    moreover have "sort_inv env es asc (rows @ [r]) (chunks @ [?buffer]) ?acc'"
      using inv all run by (auto simp: sort_inv_def nth_append less_Suc_eq)
    ultimately show ?thesis by blast
  next
    case False
    then have "sort_step env es asc threshold acc r
        = Inr (acc\<lparr>sa_buffer := ?buffer,
                   sa_bytes := sa_bytes acc + estimate_record_bytes (env_getsizeof env) r,
                   sa_total := sa_total acc + 1\<rparr>)"
      by (simp add: sort_step_def Let_def)
    moreover have "sort_inv env es asc (rows @ [r]) chunks
        (acc\<lparr>sa_buffer := ?buffer,
             sa_bytes := sa_bytes acc + estimate_record_bytes (env_getsizeof env) r,
             sa_total := sa_total acc + 1\<rparr>)"
      using inv all by (simp add: sort_inv_def)
    ultimately show ?thesis by blast
  qed
qed

lemma sort_loop_inv:
  assumes "sortable es (rows @ rows')" "length es = length asc" "sort_inv env es asc rows chunks acc"
  shows "\<exists>acc' chunks'. rfold (sort_step env es asc threshold) acc rows' = Inr acc'
    \<and> sort_inv env es asc (rows @ rows') chunks' acc'"
  using assms(1,3)
proof (induction rows' arbitrary: rows chunks acc)
  case (Cons r rows')
  have "sortable es (rows @ [r])"
    by (rule sortable_subset [OF Cons.prems(1) subset_refl]) auto
  from sort_step_inv [OF this assms(2) Cons.prems(2), of threshold] obtain acc1 chunks1
    where "sort_step env es asc threshold acc r = Inr acc1" "sort_inv env es asc (rows @ [r]) chunks1 acc1"
    by blast
  with Cons.IH [of "rows @ [r]" chunks1 acc1] Cons.prems(1) show ?case by simp
qed auto

section \<open>The operator\<close>

lemma rmap_nth_runs:
  assumes "\<forall>i < length chunks. \<exists>run. f (chunks ! i) = Inr run \<and> g i = Inr run"
  shows "\<exists>runs. rmap f chunks = Inr runs \<and> rmap g [0..<length chunks] = Inr runs"
proof -
  have "list_all2 (\<lambda>c i. \<exists>run. f c = Inr run \<and> g i = Inr run) chunks [0..<length chunks]"
    using assms by (simp add: list_all2_conv_all_nth)
  then show ?thesis by (induction rule: list_all2_induct) auto
qed

lemma gen_list_map_pure: "gen_list (gen_map (\<lambda>x. Inr (f x)) g) = rbind (gen_list g) (\<lambda>xs. Inr (map f xs))"
  by (induction g) (auto simp: rbind_assoc)

lemma sort_partition_eq:
  assumes "records parent = gen_of rows" "sortable es rows" "length es = length asc"
  shows "\<exists>p. sort_partition env es asc s threshold pid parent = Inr p
    \<and> part_to_list p = Inr (sort_key (row_key (zip es asc)) rows)
    \<and> part_row_count p = Some (length rows)"
proof -
  have "sort_inv env es asc [] [] sort_start" by (simp add: sort_inv_def sort_start_def)
  from sort_loop_inv [OF _ assms(3) this, of rows threshold] assms(2) obtain acc chunks
    where acc: "rfold (sort_step env es asc threshold) sort_start rows = Inr acc"
      and inv: "sort_inv env es asc rows chunks acc"
    by auto
  have all: "concat chunks @ sa_buffer acc = numbered 0 rows"
    and total: "sa_total acc = length rows"
    and paths: "sa_paths acc = map (run_path env) [0..<length chunks]"
    and runs: "\<forall>i < length chunks. \<exists>run. sort_rows (chunks ! i) es asc = Inr run
            \<and> sa_files acc (run_path env i) = Some run"
    using inv by (auto simp: sort_inv_def)
  let ?k = "\<lambda>p :: seq_row. row_key (zip es asc) (snd p)"
  have sorted_all: "sort_rows (numbered 0 rows) es asc = Inr (sort_key ?k (numbered 0 rows))"
    using assms(2,3) by (simp add: sort_rows_eq)
  have strip: "map snd (sort_key ?k (numbered 0 rows)) = sort_key (row_key (zip es asc)) rows"
    using sort_key_map [of snd "row_key (zip es asc)" "numbered 0 rows"] by (simp add: comp_def)
  show ?thesis
  proof (cases "chunks = []")
    case True
    then show ?thesis
      using acc all paths assms(1) sorted_all strip
      by (auto simp: sort_partition_def part_to_list_def part_row_count_def counted_meta_def)
  next
    case False
    have "set (map snd (sa_buffer acc)) \<subseteq> set (map snd (concat chunks @ sa_buffer acc))" by auto
    then have "set (map snd (sa_buffer acc)) \<subseteq> set rows" unfolding all by (simp only: numbered_simps(3))
    then have "sortable es (map snd (sa_buffer acc))"
      by (rule sortable_subset [OF assms(2) subset_refl])
    from sort_rows_eq [OF this assms(3)] obtain final where
      final: "sort_rows (sa_buffer acc) es asc = Inr final" by blast
    have "\<forall>i < length chunks. \<exists>run. sort_rows (chunks ! i) es asc = Inr run
        \<and> read_spill_file (sa_files acc) (run_path env i) = Inr run"
      using runs by (fastforce simp: read_spill_file_def)
    from rmap_nth_runs [OF this] obtain rs where rs: "rmap (\<lambda>c. sort_rows c es asc) chunks = Inr rs"
      "rmap (\<lambda>i. read_spill_file (sa_files acc) (run_path env i)) [0..<length chunks] = Inr rs"
      by blast
    have read: "rmap (read_spill_file (sa_files acc)) (sa_paths acc) = Inr rs"
      using rs(2) by (simp add: paths rmap_Inr_iff list_all2_map1)
    have arrival: "\<forall>c \<in> set (sa_buffer acc # chunks). arrival_order c"
    proof -
      have "arrival_order (concat chunks @ sa_buffer acc)" unfolding all by (rule numbered_arrival)
      moreover have "arrival_order (concat cs) \<Longrightarrow> c \<in> set cs \<Longrightarrow> arrival_order c" for c cs
        by (induction cs) (auto simp: arrival_order_def sorted_wrt_append)
      ultimately show ?thesis by (auto simp: arrival_order_def sorted_wrt_append)
    qed
    have "gen_list (heap_merge (composite_sort_key es asc) ckeys_lt (final # rs))
        = sort_rows (numbered 0 rows) es asc"
    proof (rule merge_of_runs)
      show "sortable es (map snd (numbered 0 rows))" using assms(2) by simp
      show "mset (concat (sa_buffer acc # chunks)) = mset (numbered 0 rows)"
        unfolding all [symmetric] by simp
      show "rmap (\<lambda>c. sort_rows c es asc) (sa_buffer acc # chunks) = Inr (final # rs)"
        using final rs(1) by simp
    qed (use assms(3) arrival numbered_arrival in auto)
    then have "gen_list (merged_runs es asc final (sa_files acc) (sa_paths acc))
        = Inr (sort_key (row_key (zip es asc)) rows)"
      by (simp add: merged_runs_def read gen_list_map_pure sorted_all strip)
    moreover have "sa_paths acc \<noteq> []" using False paths by simp
    ultimately show ?thesis
      using acc final total assms(1)
      by (auto simp: sort_partition_def part_to_list_def part_row_count_def counted_meta_def)
  qed
qed

text \<open>
  C7: The sort operator gives the same partition whatever the spill threshold and the size
  estimates: the stable sort of its input by the sort keys, and the right row count.
\<close>

theorem sort_partition_correct:
  assumes "records parent = gen_of rows" "sortable es rows" "length es = length asc"
  shows "\<exists>p. sort_partition env es asc s threshold pid parent = Inr p
    \<and> part_to_list p = Inr (sort_key (row_key (zip es asc)) rows)
    \<and> part_row_count p = Some (length rows)"
  using assms by (rule sort_partition_eq)

text \<open>A threshold of 56 bytes makes the sample spill twice.\<close>

theorem sort_partition_correct_witness:
  "\<exists>p. sort_partition sample_env [Column ''a''] [True] [] 56 0
         \<lparr>partition_id = 0, part_schema = [],
          records = gen_of (map (\<lambda>i. [(''a'', VInt i)]) [4, 2, 5, 1, 3]), metadata = no_meta\<rparr> = Inr p
     \<and> part_to_list p = Inr (map (\<lambda>i. [(''a'', VInt i)]) [1, 2, 3, 4, 5])"
proof -
  let ?rows = "map (\<lambda>i. [(''a'', VInt i)]) [4, 2, 5, 1, 3]"
  let ?parent = "\<lparr>partition_id = 0, part_schema = [], records = gen_of ?rows, metadata = no_meta\<rparr>"
  have "sortable [Column ''a''] ?rows" by code_simp
  moreover have "sort_key (row_key (zip [Column ''a''] [True])) ?rows
      = map (\<lambda>i. [(''a'', VInt i)]) [1, 2, 3, 4, 5]" by code_simp
  ultimately show ?thesis
    using sort_partition_correct [of ?parent ?rows "[Column ''a'']" "[True]" sample_env "[]" 56 0]
    by auto
qed

end
