(* ===== verification/JoinExecution.thy ===== *)
theory JoinExecution
  imports Operators
begin

text \<open>
  The hash join operator: building a table on the left rows and probing it with the right rows is
  the nested-loop join, in the order of the right rows and, per right row, of the left rows.
\<close>

section \<open>The reference\<close>

definition nested_loop_join ::
    "string list \<Rightarrow> (row \<Rightarrow> pval list) \<Rightarrow> (row \<Rightarrow> pval list) \<Rightarrow> row list \<Rightarrow> row list \<Rightarrow> row list" where
  "nested_loop_join on lk rk ls rs =
     concat (map (\<lambda>r. map (\<lambda>l. merge_rows on l r) (filter (\<lambda>l. py_eq_list (lk l) (rk r)) ls)) rs)"

section \<open>The table\<close>

definition table_ok :: "(row \<Rightarrow> pval list) \<Rightarrow> row list \<Rightarrow> row list kdict \<Rightarrow> bool" where
  "table_ok lk ls table =
     (\<forall>k. (case kget table k of Some rows \<Rightarrow> rows | None \<Rightarrow> []) = filter (\<lambda>l. py_eq_list (lk l) k) ls)"

lemma table_ok_insert:
  assumes "table_ok lk ls table"
  shows "table_ok lk (ls @ [l])
           (kset table (lk l) ((case kget table (lk l) of Some rows \<Rightarrow> rows | None \<Rightarrow> []) @ [l]))"
proof -
  have "py_eq_list (lk l') (lk l) \<longleftrightarrow> py_eq_list (lk l') k" if "py_eq_list (lk l) k" for k l'
    using that py_eq_list_trans py_eq_list_sym by metis
  then show ?thesis
    using assms by (auto simp: table_ok_def kget_kset)
qed

lemma join_table_correct:
  assumes "\<forall>l \<in> set ls. tuple_key keys l = Inr (lk l)"
  shows "\<exists>table. join_table keys (gen_of ls) = Inr table \<and> table_ok lk ls table"
  using assms
proof (induction ls rule: rev_induct)
  case Nil
  then show ?case by (simp add: join_table_def table_ok_def)
next
  case (snoc l ls)
  then obtain table where table: "join_table keys (gen_of ls) = Inr table" "table_ok lk ls table"
    by auto
  with snoc.prems show ?case
    using table_ok_insert [OF table(2), of l] by (simp add: join_table_def rfold_append)
qed

section \<open>The operator\<close>

lemma join_partition_eq:
  assumes "records left = gen_of ls" "records right = gen_of rs"
    and "\<forall>l \<in> set ls. tuple_key lkeys l = Inr (lk l)" "\<forall>r \<in> set rs. tuple_key rkeys r = Inr (rk r)"
  shows "\<exists>p. join_partition lkeys rkeys on s pid left right = Inr p
    \<and> part_to_list p = Inr (nested_loop_join on lk rk ls rs)"
proof -
  obtain table where table: "join_table lkeys (gen_of ls) = Inr table" "table_ok lk ls table"
    using join_table_correct [OF assms(3)] by blast
  have probes: "map (probe on rkeys table) rs
      = map (\<lambda>r. gen_of (map (\<lambda>l. merge_rows on l r) (filter (\<lambda>l. py_eq_list (lk l) (rk r)) ls))) rs"
    using assms(4) table(2) by (simp add: probe_def table_ok_def)
  have "gen_list (gen_concat (map (probe on rkeys table) rs)) = Inr (nested_loop_join on lk rk ls rs)"
    unfolding probes
    using concat_gen_of [of "map (\<lambda>r. map (\<lambda>l. merge_rows on l r)
        (filter (\<lambda>l. py_eq_list (lk l) (rk r)) ls)) rs"]
    by (simp add: nested_loop_join_def comp_def)
  then show ?thesis
    using assms(1,2) table(1) by (simp add: join_partition_def part_to_list_def)
qed

text \<open>
  C32: The hash join of two partitions yields exactly the nested-loop inner join on Python
  equality of the keys: every matching pair once, merged without the right side's key columns.
\<close>

theorem join_partition_correct:
  assumes "records left = gen_of ls" "records right = gen_of rs"
    and "\<forall>l \<in> set ls. tuple_key lkeys l = Inr (lk l)" "\<forall>r \<in> set rs. tuple_key rkeys r = Inr (rk r)"
  shows "\<exists>p. join_partition lkeys rkeys on s pid left right = Inr p
    \<and> part_to_list p = Inr (nested_loop_join on lk rk ls rs)"
  using assms by (rule join_partition_eq)

theorem join_partition_correct_witness:
  "\<exists>p. join_partition [Column ''k''] [Column ''k''] [''k''] [] 0
        \<lparr>partition_id = 0, part_schema = [],
          records = gen_of [[(''k'', VInt 1), (''a'', VStr ''x'')], [(''k'', VNone), (''a'', VStr ''y'')]], metadata = no_meta\<rparr>
        \<lparr>partition_id = 0, part_schema = [],
          records = gen_of [[(''b'', VInt 7), (''k'', VInt 1)], [(''b'', VInt 8), (''k'', VInt 2)]], metadata = no_meta\<rparr> = Inr p
     \<and> part_to_list p = Inr [[(''k'', VInt 1), (''a'', VStr ''x''), (''b'', VInt 7)]]"
proof -
  let ?ls = "[[(''k'', VInt 1), (''a'', VStr ''x'')], [(''k'', VNone), (''a'', VStr ''y'')]]"
  let ?rs = "[[(''b'', VInt 7), (''k'', VInt 1)], [(''b'', VInt 8), (''k'', VInt 2)]]"
  let ?l = "\<lparr>partition_id = 0, part_schema = [], records = gen_of ?ls, metadata = no_meta\<rparr>"
  let ?r = "\<lparr>partition_id = 0, part_schema = [], records = gen_of ?rs, metadata = no_meta\<rparr>"
  let ?k = "\<lambda>r. [value_at (Column ''k'') r]"
  have keys: "\<forall>l \<in> set ?ls. tuple_key [Column ''k''] l = Inr (?k l)"
    "\<forall>l \<in> set ?rs. tuple_key [Column ''k''] l = Inr (?k l)"
    by code_simp+
  have "nested_loop_join [''k''] ?k ?k ?ls ?rs = [[(''k'', VInt 1), (''a'', VStr ''x''), (''b'', VInt 7)]]"
    by code_simp
  with join_partition_correct [OF _ _ keys, of ?l ?r "[''k'']" "[]" 0]
  show ?thesis by auto
qed

end
