(* ===== verification/AggregateExecution.thy ===== *)
theory AggregateExecution
  imports Operators
begin

text \<open>
  The hash aggregation operator: with or without spilling, a partition of partial or final groups
  holds one row per distinct key, whose state is that of all the rows with that key.
\<close>

section \<open>A vector of aggregates is an aggregate\<close>

abbreviation vec_update :: "expr list \<Rightarrow> pval list \<Rightarrow> row \<Rightarrow> pval list res" where
  "vec_update aggs s r \<equiv> rmap2 (\<lambda>a s. agg_update a s r) aggs s"

definition vec_inv :: "(expr \<Rightarrow> vkind) \<Rightarrow> expr list \<Rightarrow> pval list \<Rightarrow> bool" where
  "vec_inv \<kappa> aggs s = list_all2 (agg_inv \<kappa>) aggs s"

definition vec_ok :: "(expr \<Rightarrow> vkind) \<Rightarrow> expr list \<Rightarrow> row \<Rightarrow> bool" where
  "vec_ok \<kappa> aggs r = (\<forall>a \<in> set aggs. agg_ok \<kappa> a r)"

lemma vec_inv_simps [simp]:
  "vec_inv \<kappa> [] s \<longleftrightarrow> s = []"
  "vec_inv \<kappa> (a # as) s \<longleftrightarrow> (\<exists>x xs. s = x # xs \<and> agg_inv \<kappa> a x \<and> vec_inv \<kappa> as xs)"
  by (auto simp: vec_inv_def list_all2_Cons1)

lemma vec_ok_simps [simp]:
  "vec_ok \<kappa> [] r" "vec_ok \<kappa> (a # as) r \<longleftrightarrow> agg_ok \<kappa> a r \<and> vec_ok \<kappa> as r"
  by (auto simp: vec_ok_def)

lemma vector_mergeable:
  assumes "list_all is_aggregate aggs"
  shows "commutative_mergeable (map init_state aggs) (vec_update aggs) (merge_states aggs)
           (vec_inv \<kappa> aggs) (vec_ok \<kappa> aggs)"
  using assms
proof (induction aggs)
  case Nil
  show ?case by unfold_locales auto
next
  case (Cons a as)
  have A: "commutative_mergeable (init_state a) (agg_update a) (agg_merge a) (agg_inv \<kappa> a) (agg_ok \<kappa> a)"
    using Cons.prems by (intro aggregate_mergeable) simp
  have V: "commutative_mergeable (map init_state as) (vec_update as) (merge_states as)
      (vec_inv \<kappa> as) (vec_ok \<kappa> as)"
    using Cons by simp
  note A' = commutative_mergeable.axioms(1) [OF A] and V' = commutative_mergeable.axioms(1) [OF V]
  show ?case
  proof (unfold_locales, goal_cases)
    case 1
    show ?case using mergeable.inv_init [OF A'] mergeable.inv_init [OF V'] by simp
  next
    case (2 s r)
    then show ?case
      using mergeable.upd_total [OF A', of _ r] mergeable.upd_total [OF V', of _ r] by fastforce
  next
    case (3 s t)
    then show ?case
      using mergeable.mrg_total [OF A'] mergeable.mrg_total [OF V'] by fastforce
  next
    case (4 s)
    then show ?case
      using mergeable.mrg_init [OF A'] mergeable.mrg_init [OF V'] by fastforce
  next
    case (5 s t r)
    then obtain x xs y ys where s: "s = x # xs" "agg_inv \<kappa> a x" "vec_inv \<kappa> as xs"
      and t: "t = y # ys" "agg_inv \<kappa> a y" "vec_inv \<kappa> as ys"
      and r: "agg_ok \<kappa> a r" "vec_ok \<kappa> as r" by auto
    obtain y' where y': "agg_update a y r = Inr y'" using mergeable.upd_total [OF A'] t r by blast
    obtain ys' where ys': "vec_update as ys r = Inr ys'" using mergeable.upd_total [OF V'] t r by blast
    obtain u where u: "agg_merge a x y = Inr u" using mergeable.mrg_total [OF A'] s t by blast
    obtain us where us: "merge_states as xs ys = Inr us" using mergeable.mrg_total [OF V'] s t by blast
    show ?case
      using mergeable.mrg_upd [OF A' s(2) t(2) r(1)] mergeable.mrg_upd [OF V' s(3) t(3) r(2)]
      by (simp add: s t y' ys' u us)
  next
    case (6 s t)
    then show ?case
      using commutative_mergeable.mrg_comm [OF A] commutative_mergeable.mrg_comm [OF V] by auto
  next
    case (7 s t v)
    then obtain x xs y ys z zs where s: "s = x # xs" "agg_inv \<kappa> a x" "vec_inv \<kappa> as xs"
      and t: "t = y # ys" "agg_inv \<kappa> a y" "vec_inv \<kappa> as ys"
      and v: "v = z # zs" "agg_inv \<kappa> a z" "vec_inv \<kappa> as zs" by auto
    obtain u where u: "agg_merge a x y = Inr u" using mergeable.mrg_total [OF A'] s t by blast
    obtain us where us: "merge_states as xs ys = Inr us" using mergeable.mrg_total [OF V'] s t by blast
    obtain w where w: "agg_merge a y z = Inr w" using mergeable.mrg_total [OF A'] t v by blast
    obtain ws where ws: "merge_states as ys zs = Inr ws" using mergeable.mrg_total [OF V'] t v by blast
    show ?case
      using commutative_mergeable.mrg_assoc [OF A s(2) t(2) v(2)]
        commutative_mergeable.mrg_assoc [OF V s(3) t(3) v(3)]
      by (simp add: s t v u us w ws)
  qed
qed

text \<open>Merging states is itself such an interface: the items are states.\<close>

lemma merging_mergeable:
  assumes "commutative_mergeable init upd mrg iv ok"
  shows "commutative_mergeable init mrg mrg iv iv"
proof -
  note C = assms and M = commutative_mergeable.axioms(1) [OF assms]
  show ?thesis
    by (unfold_locales;
        (rule mergeable.inv_init [OF M] | erule (1) mergeable.mrg_total [OF M]
          | erule mergeable.mrg_init [OF M]
          | erule (2) commutative_mergeable.mrg_assoc [OF C, symmetric]
          | erule (1) commutative_mergeable.mrg_comm [OF C]
          | erule (2) commutative_mergeable.mrg_assoc [OF C]))
qed

section \<open>Dictionaries with canonical keys\<close>

text \<open>
  Keys are canonical when Python equality and identity agree on them: no NaN, and no two
  representations of one number (\<^verbatim>\<open>1\<close>, \<^verbatim>\<open>1.0\<close>, \<^verbatim>\<open>True\<close>).
\<close>

definition canonical :: "pval list set \<Rightarrow> bool" where
  "canonical K = (\<forall>k \<in> K. \<forall>k' \<in> K. py_eq_list k k' = (k = k'))"

lemma canonical_subset: "canonical K \<Longrightarrow> L \<subseteq> K \<Longrightarrow> canonical L"
  by (auto simp: canonical_def)

lemma kget_canonical:
  "canonical (insert k (set ks)) \<Longrightarrow>
     kget (map (\<lambda>x. (x, f x)) ks) k = (if k \<in> set ks then Some (f k) else None)"
proof (induction ks)
  case (Cons x ks)
  have "canonical (insert k (set ks))" by (rule canonical_subset [OF Cons.prems]) auto
  with Cons show ?case by (auto simp: canonical_def)
qed simp

lemma kset_canonical:
  "canonical (insert k (set ks)) \<Longrightarrow> distinct ks \<Longrightarrow>
     kset (map (\<lambda>x. (x, f x)) ks) k v =
       (if k \<in> set ks then map (\<lambda>x. (x, if x = k then v else f x)) ks
        else map (\<lambda>x. (x, f x)) ks @ [(k, v)])"
proof (induction ks)
  case (Cons x ks)
  have "canonical (insert k (set ks))" by (rule canonical_subset [OF Cons.prems(1)]) auto
  with Cons show ?case by (auto simp: canonical_def)
qed simp

section \<open>The groups of a list of rows\<close>

text \<open>
  \<open>group_state\<close> is the state of the rows with key \<open>k\<close>, \<open>groups_of\<close> the table after some rows:
  one entry per distinct key, in the order of first occurrence.
\<close>

definition group_rows :: "(row \<Rightarrow> pval list) \<Rightarrow> row list \<Rightarrow> pval list \<Rightarrow> row list" where
  "group_rows kf rows k = filter (\<lambda>r. kf r = k) rows"

definition group_state ::
    "pval list \<Rightarrow> (pval list \<Rightarrow> row \<Rightarrow> pval list res) \<Rightarrow> (row \<Rightarrow> pval list) \<Rightarrow> row list \<Rightarrow> pval list
     \<Rightarrow> pval list" where
  "group_state init upd kf rows k =
     (case rfold upd init (group_rows kf rows k) of Inr s \<Rightarrow> s | Inl _ \<Rightarrow> [])"

definition groups_of ::
    "pval list \<Rightarrow> (pval list \<Rightarrow> row \<Rightarrow> pval list res) \<Rightarrow> (row \<Rightarrow> pval list) \<Rightarrow> row list
     \<Rightarrow> pval list kdict" where
  "groups_of init upd kf rows = map (\<lambda>k. (k, group_state init upd kf rows k)) (uniq (map kf rows))"

lemma group_rows_simps [simp]:
  "group_rows kf [] k = []"
  "group_rows kf (rows @ rows') k = group_rows kf rows k @ group_rows kf rows' k"
  "group_rows kf [r] k = (if kf r = k then [r] else [])"
  by (auto simp: group_rows_def)

lemma group_rows_concat: "group_rows kf (concat xss) k = concat (map (\<lambda>xs. group_rows kf xs k) xss)"
  by (induction xss) auto

lemma group_rows_subset: "r \<in> set (group_rows kf rows k) \<Longrightarrow> r \<in> set rows"
  by (auto simp: group_rows_def)

lemma group_rows_absent: "k \<notin> kf ` set rows \<Longrightarrow> group_rows kf rows k = []"
  by (auto simp: group_rows_def filter_empty_conv)

lemma groups_of_keys [simp]:
  "map fst (groups_of init upd kf rows) = uniq (map kf rows)"
  by (simp add: groups_of_def comp_def)

text \<open>
  How the loop computes a new state, for the partial and for the final aggregation alike: the
  assumptions under which the lemmas below hold.
\<close>

definition accumulates ::
    "bool \<Rightarrow> expr list \<Rightarrow> pval list \<Rightarrow> (pval list \<Rightarrow> row \<Rightarrow> pval list res) \<Rightarrow> (pval list \<Rightarrow> bool)
     \<Rightarrow> (row \<Rightarrow> bool) \<Rightarrow> bool" where
  "accumulates is_partial aggs init upd iv ok =
     (commutative_mergeable init upd (merge_states aggs) iv ok
      \<and> (\<forall>r. ok r \<longrightarrow> agg_new_state is_partial aggs None r = upd init r)
      \<and> (\<forall>r s. ok r \<longrightarrow> iv s \<longrightarrow> agg_new_state is_partial aggs (Some s) r = upd s r))"

lemma accumulatesD:
  assumes "accumulates is_partial aggs init upd iv ok"
  shows "commutative_mergeable init upd (merge_states aggs) iv ok"
    and "mergeable init upd (merge_states aggs) iv ok"
    and "ok r \<Longrightarrow> agg_new_state is_partial aggs None r = upd init r"
    and "ok r \<Longrightarrow> iv s \<Longrightarrow> agg_new_state is_partial aggs (Some s) r = upd s r"
  using assms by (auto simp: accumulates_def dest: commutative_mergeable.axioms(1))

lemma group_state_eq:
  assumes "mergeable init upd mrg iv ok" "\<forall>r \<in> set rows. ok r"
  shows "rfold upd init (group_rows kf rows k) = Inr (group_state init upd kf rows k)
    \<and> iv (group_state init upd kf rows k)"
proof -
  have "\<forall>r \<in> set (group_rows kf rows k). ok r" using assms(2) group_rows_subset by blast
  from mergeable.fold_total [OF assms(1) mergeable.inv_init [OF assms(1)] this] show ?thesis
    by (auto simp: group_state_def)
qed

text \<open>One more row.\<close>

lemma groups_step:
  assumes acc: "accumulates is_partial aggs init upd iv ok"
    and ok: "\<forall>r \<in> set (rows @ [r]). ok r" and can: "canonical (kf ` set (rows @ [r]))"
  shows "agg_new_state is_partial aggs (kget (groups_of init upd kf rows) (kf r)) r
       = Inr (group_state init upd kf (rows @ [r]) (kf r))"
    and "kset (groups_of init upd kf rows) (kf r) (group_state init upd kf (rows @ [r]) (kf r))
       = groups_of init upd kf (rows @ [r])"
proof -
  let ?S = "group_state init upd kf"
  note M = accumulatesD(2) [OF acc]
  have all: "rfold upd init (group_rows kf (rows @ [r]) k) = Inr (?S (rows @ [r]) k)" for k
    using group_state_eq [OF M ok] by blast
  have old: "rfold upd init (group_rows kf rows k) = Inr (?S rows k)" "iv (?S rows k)" for k
    using group_state_eq [OF M, of rows kf k] ok by auto
  have can': "canonical (insert (kf r) (set (uniq (map kf rows))))"
    using can by (simp add: image_image)
  have get: "kget (groups_of init upd kf rows) (kf r)
      = (if kf r \<in> kf ` set rows then Some (?S rows (kf r)) else None)"
    by (simp add: groups_of_def kget_canonical [OF can'])
  have step: "upd (?S rows (kf r)) r = Inr (?S (rows @ [r]) (kf r))"
    using all [of "kf r"] old [of "kf r"] by (simp add: rfold_append)
  show "agg_new_state is_partial aggs (kget (groups_of init upd kf rows) (kf r)) r
       = Inr (?S (rows @ [r]) (kf r))"
  proof (cases "kf r \<in> kf ` set rows")
    case True
    then show ?thesis using get accumulatesD(4) [OF acc] ok old step by simp
  next
    case False
    then have "?S rows (kf r) = init"
      using old(1) [of "kf r"] by (simp add: group_rows_absent)
    then show ?thesis using False get accumulatesD(3) [OF acc] ok step by simp
  qed
  have other: "?S (rows @ [r]) k = ?S rows k" if "k \<noteq> kf r" for k
    using that by (simp add: group_state_def)
  have ne: "kf x \<noteq> kf r" if "x \<in> set rows" "kf r \<notin> kf ` set rows" for x
    using that by (metis imageI)
  show "kset (groups_of init upd kf rows) (kf r) (?S (rows @ [r]) (kf r))
       = groups_of init upd kf (rows @ [r])"
    unfolding groups_of_def kset_canonical [OF can' distinct_uniq]
    using ne by (auto simp: other intro!: map_cong other [symmetric])
qed

section \<open>Spilling a table\<close>

definition bucket_nat :: "md5_fn \<Rightarrow> pval list \<Rightarrow> nat" where
  "bucket_nat md5 k = stable_hash md5 (VTuple k) mod AGGREGATE_SPILL_BUCKETS"

lemma bucket_of_eq: "bucket_of md5 k = Inr (bucket_nat md5 k)"
  by (simp add: bucket_of_def bucket_nat_def)

lemma bucket_nat_bound [simp]: "bucket_nat md5 k < AGGREGATE_SPILL_BUCKETS"
  by (simp add: bucket_nat_def AGGREGATE_SPILL_BUCKETS_def)

definition bucket_items :: "md5_fn \<Rightarrow> nat \<Rightarrow> pval list kdict \<Rightarrow> pval list kdict" where
  "bucket_items md5 b d = filter (\<lambda>i. bucket_nat md5 (fst i) = b) d"

lemma bucket_items_simps [simp]:
  "bucket_items md5 b [] = []"
  "bucket_items md5 b (d @ e) = bucket_items md5 b d @ bucket_items md5 b e"
  "bucket_items md5 b [i] = (if bucket_nat md5 (fst i) = b then [i] else [])"
  by (auto simp: bucket_items_def)

definition bucket_list :: "md5_fn \<Rightarrow> pval list kdict \<Rightarrow> nat list" where
  "bucket_list md5 d = uniq (map (\<lambda>i. bucket_nat md5 (fst i)) d)"

lemma bucket_list_iff: "b \<in> set (bucket_list md5 d) \<longleftrightarrow> bucket_items md5 b d \<noteq> []"
  by (auto simp: bucket_list_def bucket_items_def filter_empty_conv)

lemma by_bucket_eq:
  "rfold (add_to_bucket md5) [] d = Inr (map (\<lambda>b. (b, bucket_items md5 b d)) (bucket_list md5 d))"
proof (induction d rule: rev_induct)
  case Nil
  show ?case by (simp add: bucket_list_def)
next
  case (snoc i d)
  let ?b = "bucket_nat md5 (fst i)"
  let ?old = "map (\<lambda>b. (b, bucket_items md5 b d)) (bucket_list md5 d)"
  have items: "(case map_of ?old ?b of Some items \<Rightarrow> items | None \<Rightarrow> []) = bucket_items md5 ?b d"
    using bucket_list_iff [of ?b md5 d] by (simp add: map_of_keys)
  have "AList.update ?b (bucket_items md5 ?b d @ [i]) ?old
      = map (\<lambda>b. (b, bucket_items md5 b (d @ [i]))) (bucket_list md5 (d @ [i]))"
  proof (cases "?b \<in> set (bucket_list md5 d)")
    case True
    then have "bucket_list md5 (d @ [i]) = bucket_list md5 d" by (simp add: bucket_list_def)
    moreover have "AList.update ?b (bucket_items md5 ?b d @ [i]) ?old
        = map (\<lambda>b. (b, if b = ?b then bucket_items md5 ?b d @ [i] else bucket_items md5 b d)) (bucket_list md5 d)"
      using True by (intro update_old_key) (auto simp: bucket_list_def)
    ultimately show ?thesis by (auto intro!: map_cong)
  next
    case False
    then have keys: "bucket_list md5 (d @ [i]) = bucket_list md5 d @ [?b]" by (simp add: bucket_list_def)
    have upd: "AList.update ?b (bucket_items md5 ?b d @ [i]) ?old = ?old @ [(?b, bucket_items md5 ?b d @ [i])]"
      using False by (intro update_new_key) (simp add: comp_def)
    have same: "map (\<lambda>b. (b, bucket_items md5 b (d @ [i]))) (bucket_list md5 d) = ?old"
      using False by (auto intro!: map_cong)
    show ?thesis unfolding upd keys map_append same by simp
  qed
  then have "add_to_bucket md5 ?old i
      = Inr (map (\<lambda>b. (b, bucket_items md5 b (d @ [i]))) (bucket_list md5 (d @ [i])))"
    by (simp add: add_to_bucket_def bucket_of_eq items)
  then show ?case by (simp only: snoc rfold_append rbind.simps rfold.simps)
qed

definition spill_path :: "string \<Rightarrow> nat \<Rightarrow> nat \<Rightarrow> string" where
  "spill_path dir rnd b = dir @ ''/'' @ spill_name rnd b"

lemma spill_path_inj [simp]: "spill_path dir i b = spill_path dir j c \<longleftrightarrow> i = j \<and> b = c"
  by (auto simp: spill_path_def spill_name_def)

lemma spill_buckets_effect:
  assumes "distinct bs" "\<forall>b \<in> set bs. b < length paths"
  shows "foldl (spill_bucket dir rnd) (files, paths) (map (\<lambda>b. (b, f b)) bs)
       = ((\<lambda>q. case find (\<lambda>b. q = spill_path dir rnd b) bs of Some b \<Rightarrow> Some (f b) | None \<Rightarrow> files q),
          map (\<lambda>b. paths ! b @ (if b \<in> set bs then [spill_path dir rnd b] else [])) [0..<length paths])"
  using assms
proof (induction bs arbitrary: files paths)
  case Nil
  show ?case by (simp add: map_nth)
next
  case (Cons b bs)
  let ?paths' = "paths[b := paths ! b @ [spill_path dir rnd b]]"
  have "foldl (spill_bucket dir rnd) (files, paths) (map (\<lambda>b. (b, f b)) (b # bs))
      = foldl (spill_bucket dir rnd) (files(spill_path dir rnd b \<mapsto> f b), ?paths') (map (\<lambda>b. (b, f b)) bs)"
    by (simp add: spill_bucket_def write_spill_file_def spill_path_def Let_def)
  also have "\<dots> = ((\<lambda>q. case find (\<lambda>b. q = spill_path dir rnd b) bs of
              Some b \<Rightarrow> Some (f b) | None \<Rightarrow> (files(spill_path dir rnd b \<mapsto> f b)) q),
          map (\<lambda>c. ?paths' ! c @ (if c \<in> set bs then [spill_path dir rnd c] else [])) [0..<length paths])"
    using Cons.prems by (subst Cons.IH) auto
  also have "map (\<lambda>c. ?paths' ! c @ (if c \<in> set bs then [spill_path dir rnd c] else [])) [0..<length paths]
      = map (\<lambda>c. paths ! c @ (if c \<in> set (b # bs) then [spill_path dir rnd c] else [])) [0..<length paths]"
    using Cons.prems by (intro map_cong) (auto simp: nth_list_update)
  also have "(\<lambda>q. case find (\<lambda>b. q = spill_path dir rnd b) bs of
              Some b \<Rightarrow> Some (f b) | None \<Rightarrow> (files(spill_path dir rnd b \<mapsto> f b)) q)
      = (\<lambda>q. case find (\<lambda>b. q = spill_path dir rnd b) (b # bs) of Some b \<Rightarrow> Some (f b) | None \<Rightarrow> files q)"
  proof
    fix q
    have "find (\<lambda>c. spill_path dir rnd b = spill_path dir rnd c) bs = None"
      using Cons.prems(1) by (auto simp: find_None_iff)
    then show "(case find (\<lambda>b. q = spill_path dir rnd b) bs of
              Some b \<Rightarrow> Some (f b) | None \<Rightarrow> (files(spill_path dir rnd b \<mapsto> f b)) q)
      = (case find (\<lambda>b. q = spill_path dir rnd b) (b # bs) of Some b \<Rightarrow> Some (f b) | None \<Rightarrow> files q)"
      by (auto split: option.splits)
  qed
  finally show ?case .
qed

section \<open>The accumulation loop\<close>

text \<open>
  After some rows: earlier segments were spilled, round by round and bucket by bucket; the current
  segment is in memory.
\<close>

definition round_paths ::
    "md5_fn \<Rightarrow> string \<Rightarrow> (row list \<Rightarrow> pval list kdict) \<Rightarrow> row list list \<Rightarrow> nat \<Rightarrow> string list" where
  "round_paths md5 dir G segs b =
     map (\<lambda>i. spill_path dir i b)
       (filter (\<lambda>i. b \<in> set (bucket_list md5 (G (segs ! i)))) [0..<length segs])"

definition area_ok ::
    "md5_fn \<Rightarrow> string \<Rightarrow> (row list \<Rightarrow> pval list kdict) \<Rightarrow> row list list \<Rightarrow> spill_area \<Rightarrow> bool" where
  "area_ok md5 dir G segs area =
     (length (snd area) = AGGREGATE_SPILL_BUCKETS
      \<and> (\<forall>b < AGGREGATE_SPILL_BUCKETS. snd area ! b = round_paths md5 dir G segs b)
      \<and> (\<forall>i < length segs. \<forall>b \<in> set (bucket_list md5 (G (segs ! i))).
           fst area (spill_path dir i b) = Some (bucket_items md5 b (G (segs ! i)))))"

lemma bucket_list_bound: "b \<in> set (bucket_list md5 d) \<Longrightarrow> b < AGGREGATE_SPILL_BUCKETS"
  by (auto simp: bucket_list_def)

lemma find_const [simp]: "find (\<lambda>b. False) bs = None" "find ((=) c) bs = (if c \<in> set bs then Some c else None)"
  by (induction bs) auto

lemma spill_groups_ok:
  assumes "area_ok md5 dir G segs area"
  shows "\<exists>area'. spill_groups md5 dir (length segs) (G seg) area = Inr area'
    \<and> area_ok md5 dir G (segs @ [seg]) area'"
proof -
  obtain files paths where area: "area = (files, paths)" by (cases area)
  have len: "length paths = AGGREGATE_SPILL_BUCKETS"
    and paths: "\<And>b. b < AGGREGATE_SPILL_BUCKETS \<Longrightarrow> paths ! b = round_paths md5 dir G segs b"
    and files: "\<And>i b. i < length segs \<Longrightarrow> b \<in> set (bucket_list md5 (G (segs ! i)))
        \<Longrightarrow> files (spill_path dir i b) = Some (bucket_items md5 b (G (segs ! i)))"
    using assms by (auto simp: area_ok_def area)
  let ?bs = "bucket_list md5 (G seg)" and ?n = "length segs"
  let ?files = "\<lambda>q. case find (\<lambda>b. q = spill_path dir ?n b) ?bs of
      Some b \<Rightarrow> Some (bucket_items md5 b (G seg)) | None \<Rightarrow> files q"
  let ?paths = "map (\<lambda>b. paths ! b @ (if b \<in> set ?bs then [spill_path dir ?n b] else [])) [0..<length paths]"
  have "distinct ?bs" by (simp add: bucket_list_def)
  moreover have "\<forall>b \<in> set ?bs. b < length paths" using len bucket_list_bound by auto
  ultimately have "spill_groups md5 dir ?n (G seg) area = Inr (?files, ?paths)"
    by (simp add: spill_groups_def by_bucket_eq area spill_buckets_effect)
  moreover have "area_ok md5 dir G (segs @ [seg]) (?files, ?paths)"
  proof -
    have "round_paths md5 dir G (segs @ [seg]) b
        = round_paths md5 dir G segs b @ (if b \<in> set ?bs then [spill_path dir ?n b] else [])" for b
    proof -
      have "filter (\<lambda>i. b \<in> set (bucket_list md5 (G ((segs @ [seg]) ! i)))) [0..<?n]
          = filter (\<lambda>i. b \<in> set (bucket_list md5 (G (segs ! i)))) [0..<?n]"
        by (intro filter_cong) (auto simp: nth_append)
      then show ?thesis by (simp add: round_paths_def)
    qed
    then show ?thesis
      using len paths files by (auto simp: area_ok_def nth_append less_Suc_eq)
  qed
  ultimately show ?thesis by blast
qed

definition agg_loop_inv ::
    "'b env \<Rightarrow> (row list \<Rightarrow> pval list kdict) \<Rightarrow> row list \<Rightarrow> row list list \<Rightarrow> row list \<Rightarrow> agg_acc \<Rightarrow> bool" where
  "agg_loop_inv env G rows segs cur acc =
     (concat segs @ cur = rows \<and> acc_groups acc = G cur \<and> acc_round acc = length segs
      \<and> (acc_spilled acc \<longleftrightarrow> segs \<noteq> [])
      \<and> area_ok (env_md5 env) (env_tmpdir env) G segs (acc_area acc))"

lemma groups_of_Nil [simp]: "groups_of init upd kf [] = []"
  by (simp add: groups_of_def)

lemma agg_step_inv:
  assumes acc: "accumulates is_partial aggs init upd iv ok"
    and rows: "\<forall>r \<in> set (rows @ [r]). ok r \<and> tuple_key gs r = Inr (kf r)"
    and can: "canonical (kf ` set (rows @ [r]))"
    and inv: "agg_loop_inv env (groups_of init upd kf) rows segs cur st"
  shows "\<exists>segs' cur' st'. agg_step env gs aggs is_partial threshold st r = Inr st'
    \<and> agg_loop_inv env (groups_of init upd kf) (rows @ [r]) segs' cur' st'"
proof -
  let ?G = "groups_of init upd kf"
  have cur: "concat segs @ cur = rows" and groups: "acc_groups st = ?G cur"
    and rnd: "acc_round st = length segs" and spilled: "acc_spilled st \<longleftrightarrow> segs \<noteq> []"
    and area: "area_ok (env_md5 env) (env_tmpdir env) ?G segs (acc_area st)"
    using inv by (auto simp: agg_loop_inv_def)
  have sub: "set (cur @ [r]) \<subseteq> set (rows @ [r])" using cur by auto
  have "\<forall>x \<in> set (cur @ [r]). ok x" using rows sub by blast
  moreover have "canonical (kf ` set (cur @ [r]))" using can sub by (meson canonical_subset image_mono)
  ultimately have step:
      "agg_new_state is_partial aggs (kget (?G cur) (kf r)) r
        = Inr (group_state init upd kf (cur @ [r]) (kf r))"
      "kset (?G cur) (kf r) (group_state init upd kf (cur @ [r]) (kf r)) = ?G (cur @ [r])"
    by (rule groups_step [OF acc])+
  have key: "tuple_key gs r = Inr (kf r)" using rows by simp
  let ?est = "estimate_group_bytes (env_getsizeof env) (kf r)"
  let ?bytes = "acc_bytes st - (case kget (?G cur) (kf r) of Some s \<Rightarrow> ?est s | None \<Rightarrow> 0)
      + ?est (group_state init upd kf (cur @ [r]) (kf r))"
  show ?thesis
  proof (cases "threshold \<le> ?bytes")
    case True
    from spill_groups_ok [OF area, of "cur @ [r]"] obtain area' where
      "spill_groups (env_md5 env) (env_tmpdir env) (length segs) (?G (cur @ [r])) (acc_area st) = Inr area'"
      "area_ok (env_md5 env) (env_tmpdir env) ?G (segs @ [cur @ [r]]) area'" by blast
    then show ?thesis
      using True key step groups rnd cur
      by (intro exI [of _ "segs @ [cur @ [r]]"] exI [of _ "[]"])
         (simp add: agg_step_def agg_loop_inv_def Let_def)
  next
    case False
    then show ?thesis
      using key step groups rnd cur spilled area
      by (intro exI [of _ segs] exI [of _ "cur @ [r]"])
         (simp add: agg_step_def agg_loop_inv_def Let_def flip: append_assoc)
  qed
qed

lemma agg_loop:
  assumes acc: "accumulates is_partial aggs init upd iv ok"
    and rows: "\<forall>r \<in> set rows. ok r \<and> tuple_key gs r = Inr (kf r)"
    and can: "canonical (kf ` set rows)"
  shows "\<exists>segs cur st. rfold (agg_step env gs aggs is_partial threshold) agg_start rows = Inr st
    \<and> agg_loop_inv env (groups_of init upd kf) rows segs cur st"
  using rows can
proof (induction rows rule: rev_induct)
  case Nil
  show ?case
    by (intro exI [of _ "[]"])
       (auto simp: agg_loop_inv_def agg_start_def area_ok_def round_paths_def)
next
  case (snoc r rows)
  have "canonical (kf ` set rows)" by (rule canonical_subset [OF snoc.prems(2)]) auto
  with snoc obtain segs cur st where
    "rfold (agg_step env gs aggs is_partial threshold) agg_start rows = Inr st"
    "agg_loop_inv env (groups_of init upd kf) rows segs cur st" by auto
  with agg_step_inv [OF acc snoc.prems this(2), of threshold] show ?case
    by (auto simp: rfold_append)
qed

section \<open>The merge phase\<close>

lemma kset_append:
  "canonical (insert k (fst ` set d)) \<Longrightarrow> k \<notin> fst ` set d \<Longrightarrow> kset d k v = d @ [(k, v)]"
proof (induction d)
  case (Cons e d)
  obtain k0 v0 where e: "e = (k0, v0)" by (cases e)
  have "canonical (insert k (fst ` set d))" by (rule canonical_subset [OF Cons.prems(1)]) auto
  with Cons e show ?case by (auto simp: canonical_def)
qed simp

lemma merge_distinct:
  "canonical (fst ` set d) \<Longrightarrow> distinct (map fst d) \<Longrightarrow> rfold (merge_item aggs) [] d = Inr d"
proof (induction d rule: rev_induct)
  case (snoc i d)
  obtain k v where i: "i = (k, v)" by (cases i)
  have can: "canonical (insert k (fst ` set d))" using snoc.prems(1) by (simp add: i)
  have k: "k \<notin> fst ` set d" using snoc.prems(2) by (simp add: i)
  have "kget d k = None"
    using can k by (induction d) (auto simp: canonical_def)
  then have "merge_item aggs d i = Inr (d @ [i])"
    using kset_append [OF can k] by (simp add: merge_item_def i)
  moreover have "canonical (fst ` set d)" by (rule canonical_subset [OF can]) auto
  ultimately show ?case using snoc by (simp add: rfold_append)
qed simp

lemma seeds_eq:
  "canonical (fst ` set d) \<Longrightarrow> distinct (map fst d) \<Longrightarrow>
     rfold (seed_bucket md5) (replicate AGGREGATE_SPILL_BUCKETS []) d
       = Inr (map (\<lambda>b. bucket_items md5 b d) [0..<AGGREGATE_SPILL_BUCKETS])"
proof (induction d rule: rev_induct)
  case Nil
  show ?case by (simp add: map_replicate_const)
next
  case (snoc i d)
  let ?b = "bucket_nat md5 (fst i)"
  let ?seeds = "map (\<lambda>b. bucket_items md5 b d) [0..<AGGREGATE_SPILL_BUCKETS]"
  have "canonical (fst ` set d)" by (rule canonical_subset [OF snoc.prems(1)]) auto
  with snoc have IH: "rfold (seed_bucket md5) (replicate AGGREGATE_SPILL_BUCKETS []) d = Inr ?seeds"
    by simp
  have "set (bucket_items md5 ?b d) \<subseteq> set d" by (auto simp: bucket_items_def)
  then have "canonical (insert (fst i) (fst ` set (bucket_items md5 ?b d)))"
    by (intro canonical_subset [OF snoc.prems(1)]) auto
  moreover have "fst i \<notin> fst ` set (bucket_items md5 ?b d)"
    using snoc.prems(2) by (auto simp: bucket_items_def)
  ultimately have "kset (bucket_items md5 ?b d) (fst i) (snd i) = bucket_items md5 ?b d @ [i]"
    by (simp add: kset_append)
  then have "seed_bucket md5 ?seeds i = Inr (?seeds[?b := bucket_items md5 ?b d @ [i]])"
    by (simp add: seed_bucket_def bucket_of_eq)
  moreover have "?seeds[?b := bucket_items md5 ?b d @ [i]]
      = map (\<lambda>b. bucket_items md5 b (d @ [i])) [0..<AGGREGATE_SPILL_BUCKETS]"
    by (intro nth_equalityI) (auto simp: nth_list_update)
  ultimately show ?case using IH by (simp add: rfold_append)
qed

text \<open>The states that a list of items holds for a key, and their merge, the first one seeding it.\<close>

definition item_states :: "pval list kdict \<Rightarrow> pval list \<Rightarrow> pval list list" where
  "item_states L k = map snd (filter (\<lambda>i. fst i = k) L)"

definition merged_state :: "expr list \<Rightarrow> pval list kdict \<Rightarrow> pval list \<Rightarrow> pval list" where
  "merged_state aggs L k =
     (case item_states L k of
        [] \<Rightarrow> []
      | q # qs \<Rightarrow> (case rfold (merge_states aggs) q qs of Inr s \<Rightarrow> s | Inl _ \<Rightarrow> []))"

lemma item_states_simps [simp]:
  "item_states [] k = []"
  "item_states (L @ L') k = item_states L k @ item_states L' k"
  "item_states [i] k = (if fst i = k then [snd i] else [])"
  by (auto simp: item_states_def)

lemma merge_items_eq:
  assumes C: "commutative_mergeable init upd (merge_states aggs) iv ok"
  shows "\<forall>i \<in> set L. iv (snd i) \<Longrightarrow> canonical (fst ` set L) \<Longrightarrow>
    rfold (merge_item aggs) [] L = Inr (map (\<lambda>k. (k, merged_state aggs L k)) (uniq (map fst L)))
    \<and> (\<forall>k \<in> fst ` set L. case item_states L k of [] \<Rightarrow> False
         | q # qs \<Rightarrow> rfold (merge_states aggs) q qs = Inr (merged_state aggs L k) \<and> iv (merged_state aggs L k))"
proof (induction L rule: rev_induct)
  case Nil
  show ?case by simp
next
  case (snoc i L)
  obtain k v where i: "i = (k, v)" by (cases i)
  have can: "canonical (insert k (set (uniq (map fst L))))"
    using snoc.prems(2) by (simp add: i image_image)
  have "canonical (fst ` set L)" by (rule canonical_subset [OF snoc.prems(2)]) auto
  with snoc have IH: "rfold (merge_item aggs) [] L = Inr (map (\<lambda>k. (k, merged_state aggs L k)) (uniq (map fst L)))"
    and states: "\<forall>k \<in> fst ` set L. case item_states L k of [] \<Rightarrow> False
         | q # qs \<Rightarrow> rfold (merge_states aggs) q qs = Inr (merged_state aggs L k) \<and> iv (merged_state aggs L k)"
    by auto
  let ?d = "map (\<lambda>k. (k, merged_state aggs L k)) (uniq (map fst L))"
  let ?M' = "merged_state aggs (L @ [i])"
  have other: "?M' k' = merged_state aggs L k'" if "k' \<noteq> k" for k'
    using that by (simp add: merged_state_def i)
  show ?case
  proof (cases "k \<in> fst ` set L")
    case True
    then obtain q qs where q: "item_states L k = q # qs"
        "rfold (merge_states aggs) q qs = Inr (merged_state aggs L k)" "iv (merged_state aggs L k)"
      using states by (cases "item_states L k") force+
    have "iv v" using snoc.prems(1) by (simp add: i)
    then obtain t where t: "merge_states aggs (merged_state aggs L k) v = Inr t" "iv t"
      using mergeable.mrg_total [OF commutative_mergeable.axioms(1) [OF C]] q(3) by blast
    have fold: "rfold (merge_states aggs) q (qs @ [v]) = Inr t"
      using t(1) by (simp add: rfold_append q(2))
    moreover have "item_states (L @ [i]) k = q # (qs @ [v])" by (simp add: i q(1))
    ultimately have M': "rfold (merge_states aggs) q (qs @ [v]) = Inr t" "?M' k = t"
      by (simp_all only: merged_state_def list.case sum.case)
    have "merge_item aggs ?d i = Inr (kset ?d k t)"
      using True t(1) by (simp add: merge_item_def i kget_canonical [OF can])
    moreover have "kset ?d k t = map (\<lambda>k. (k, ?M' k)) (uniq (map fst (L @ [i])))"
      using True by (auto simp: kset_canonical [OF can distinct_uniq] i M'(2) [unfolded i]
          other [unfolded i] intro!: map_cong)
    moreover have "\<forall>k' \<in> fst ` set (L @ [i]). case item_states (L @ [i]) k' of [] \<Rightarrow> False
         | q # qs \<Rightarrow> rfold (merge_states aggs) q qs = Inr (?M' k') \<and> iv (?M' k')"
    proof
      fix k' assume k': "k' \<in> fst ` set (L @ [i])"
      show "case item_states (L @ [i]) k' of [] \<Rightarrow> False
         | q # qs \<Rightarrow> rfold (merge_states aggs) q qs = Inr (?M' k') \<and> iv (?M' k')"
      proof (cases "k' = k")
        case True
        then show ?thesis using q(1) M' t(2) by (simp add: i)
      next
        case False
        then have "k' \<in> fst ` set L" using k' by (auto simp: i)
        with states have "case item_states L k' of [] \<Rightarrow> False
          | q # qs \<Rightarrow> rfold (merge_states aggs) q qs = Inr (merged_state aggs L k') \<and> iv (merged_state aggs L k')"
          by blast
        then show ?thesis unfolding other [OF False] using False by (simp add: i)
      qed
    qed
    ultimately show ?thesis using IH by (simp add: rfold_append)
  next
    case False
    then have none: "item_states L k = []" by (force simp: item_states_def filter_empty_conv)
    have "merge_item aggs ?d i = Inr (kset ?d k v)"
      using False by (simp add: merge_item_def i kget_canonical [OF can])
    moreover have "?M' k = v" by (simp add: merged_state_def i none)
    moreover have ne: "k' \<noteq> k" if "k' \<in> fst ` set L" for k' using that False by blast
    ultimately have "merge_item aggs ?d i = Inr (map (\<lambda>k. (k, ?M' k)) (uniq (map fst (L @ [i]))))"
      using False ne
      by (auto simp: kset_canonical [OF can distinct_uniq] i intro!: map_cong other [symmetric, unfolded i])
    moreover have "\<forall>k' \<in> fst ` set (L @ [i]). case item_states (L @ [i]) k' of [] \<Rightarrow> False
         | q # qs \<Rightarrow> rfold (merge_states aggs) q qs = Inr (?M' k') \<and> iv (?M' k')"
    proof
      fix k' assume k': "k' \<in> fst ` set (L @ [i])"
      show "case item_states (L @ [i]) k' of [] \<Rightarrow> False
         | q # qs \<Rightarrow> rfold (merge_states aggs) q qs = Inr (?M' k') \<and> iv (?M' k')"
      proof (cases "k' = k")
        case True
        then show ?thesis using none \<open>?M' k = v\<close> snoc.prems(1) by (simp add: i)
      next
        case False
        then have "k' \<in> fst ` set L" using k' by (auto simp: i)
        with states have "case item_states L k' of [] \<Rightarrow> False
          | q # qs \<Rightarrow> rfold (merge_states aggs) q qs = Inr (merged_state aggs L k') \<and> iv (merged_state aggs L k')"
          by blast
        then show ?thesis unfolding other [OF False] using False by (simp add: i)
      qed
    qed
    ultimately show ?thesis using IH by (simp add: rfold_append)
  qed
qed

text \<open>All items of a bucket: the remainder in memory, then the rounds.\<close>

lemma gather_rounds:
  assumes "area_ok md5 dir G segs area" "b < AGGREGATE_SPILL_BUCKETS"
  shows "merge_bucket aggs (fst area) seed (snd area ! b)
       = rfold (merge_item aggs) seed (concat (map (\<lambda>seg. bucket_items md5 b (G seg)) segs))"
proof -
  have read: "read_spill_file (fst area) (spill_path dir i b) = Inr (bucket_items md5 b (G (segs ! i)))"
    if "i < length segs" "b \<in> set (bucket_list md5 (G (segs ! i)))" for i
    using assms(1) that by (auto simp: area_ok_def read_spill_file_def)
  have "merge_bucket aggs (fst area) s (map (\<lambda>i. spill_path dir i b)
          (filter (\<lambda>i. b \<in> set (bucket_list md5 (G (segs ! i)))) is))
      = rfold (merge_item aggs) s (concat (map (\<lambda>i. bucket_items md5 b (G (segs ! i))) is))"
    if "\<forall>i \<in> set is. i < length segs" for s "is"
    using that
  proof (induction "is" arbitrary: s)
    case Nil
    then show ?case by (simp add: merge_bucket_def)
  next
    case (Cons i "is")
    show ?case
    proof (cases "b \<in> set (bucket_list md5 (G (segs ! i)))")
      case True
      then have "merge_bucket aggs (fst area) s (map (\<lambda>i. spill_path dir i b)
            (filter (\<lambda>i. b \<in> set (bucket_list md5 (G (segs ! i)))) (i # is)))
          = rbind (rfold (merge_item aggs) s (bucket_items md5 b (G (segs ! i))))
              (\<lambda>t. merge_bucket aggs (fst area) t (map (\<lambda>i. spill_path dir i b)
                 (filter (\<lambda>i. b \<in> set (bucket_list md5 (G (segs ! i)))) is)))"
        using read [of i] Cons.prems by (simp add: merge_bucket_def)
      with Cons show ?thesis by (simp add: rfold_append)
    next
      case False
      then have "bucket_items md5 b (G (segs ! i)) = []" by (simp add: bucket_list_iff)
      with Cons False show ?thesis by simp
    qed
  qed
  from this [of "[0..<length segs]" seed] have
    "merge_bucket aggs (fst area) seed (round_paths md5 dir G segs b)
      = rfold (merge_item aggs) seed (concat (map (\<lambda>i. bucket_items md5 b (G (segs ! i))) [0..<length segs]))"
    by (simp add: round_paths_def)
  moreover have "map (\<lambda>i. bucket_items md5 b (G (segs ! i))) [0..<length segs]
      = map (\<lambda>seg. bucket_items md5 b (G seg)) segs"
    by (intro nth_equalityI) auto
  ultimately show ?thesis using assms by (simp add: area_ok_def)
qed

lemma item_states_groups:
  "item_states (bucket_items md5 b (groups_of init upd kf seg)) k
   = (if bucket_nat md5 k = b \<and> k \<in> kf ` set seg then [group_state init upd kf seg k] else [])"
proof -
  let ?S = "group_state init upd kf seg"
  have "item_states (bucket_items md5 b (groups_of init upd kf seg)) k
      = map ?S (filter (\<lambda>k'. bucket_nat md5 k' = b \<and> k' = k) (uniq (map kf seg)))"
    by (simp add: item_states_def bucket_items_def groups_of_def filter_map comp_def conj_commute)
  also have "filter (\<lambda>k'. bucket_nat md5 k' = b \<and> k' = k) (uniq (map kf seg))
      = filter (\<lambda>k'. bucket_nat md5 k = b) (filter (\<lambda>k'. k' = k) (uniq (map kf seg)))"
    by (auto intro!: filter_cong)
  also have "filter (\<lambda>k'. k' = k) (uniq (map kf seg)) = (if k \<in> kf ` set seg then [k] else [])"
    by (simp add: filter_uniq_eq)
  finally show ?thesis by simp
qed

text \<open>What the merged state of a key is: the state of all its rows.\<close>

lemma merged_state_all:
  assumes C: "commutative_mergeable init upd (merge_states aggs) iv ok"
    and ok: "\<forall>seg \<in> set segs. \<forall>r \<in> set seg. ok r" and k: "k \<in> kf ` set (concat segs)"
    and perm: "mset segs' = mset segs"
  shows "merged_state aggs (concat (map (\<lambda>seg. bucket_items md5 (bucket_nat md5 k)
             (groups_of init upd kf seg)) segs')) k
       = group_state init upd kf (concat segs) k"
proof -
  note M = commutative_mergeable.axioms(1) [OF C]
  let ?has = "\<lambda>seg. k \<in> kf ` set seg" and ?S = "\<lambda>seg. group_state init upd kf seg k"
  let ?chunks = "map (\<lambda>seg. group_rows kf seg k) (filter ?has segs)"
  have states: "item_states (concat (map (\<lambda>seg. bucket_items md5 (bucket_nat md5 k)
      (groups_of init upd kf seg)) ss)) k = map ?S (filter ?has ss)" for ss
    by (induction ss) (auto simp: item_states_groups)
  have partials: "rmap (rfold upd init) ?chunks = Inr (map ?S (filter ?has segs))"
  proof -
    have "rfold upd init (group_rows kf seg k) = Inr (?S seg)" if "seg \<in> set segs" for seg
      using group_state_eq [OF M, of seg kf k] ok that by blast
    then show ?thesis
      using rmap_Inr_fun [of "filter ?has segs" "\<lambda>seg. rfold upd init (group_rows kf seg k)" ?S]
      by (simp add: rmap_Inr_iff list_all2_map1)
  qed
  have chunks_ok: "\<forall>xs \<in> set ?chunks. \<forall>x \<in> set xs. ok x"
  proof (intro ballI)
    fix xs x assume "xs \<in> set ?chunks" "x \<in> set xs"
    then obtain seg where "seg \<in> set segs" "x \<in> set (group_rows kf seg k)" by auto
    then show "ok x" using ok group_rows_subset by metis
  qed
  have rows: "concat ?chunks = group_rows kf (concat segs) k"
  proof -
    have "concat (map (\<lambda>seg. group_rows kf seg k) (filter ?has ss)) = group_rows kf (concat ss) k" for ss
      by (induction ss) (auto simp: group_rows_absent)
    then show ?thesis .
  qed
  have perm': "mset (map ?S (filter ?has segs')) = mset (map ?S (filter ?has segs))"
    using perm by (simp only: mset_map mset_filter)
  have "map ?S (filter ?has segs') \<noteq> []"
  proof -
    obtain seg where "seg \<in> set segs" "?has seg" using k by auto
    then have "map ?S (filter ?has segs) \<noteq> []" by (auto simp: filter_empty_conv)
    with perm' show ?thesis by (metis mset_zero_iff)
  qed
  then obtain q qs where q: "map ?S (filter ?has segs') = q # qs"
    by (meson neq_Nil_conv)
  have fold: "rfold (merge_states aggs) q qs = rfold upd init (concat ?chunks)"
    by (rule commutative_mergeable.merge_partials_any_order [OF C chunks_ok partials])
       (simp only: q [symmetric] perm')
  show ?thesis
    unfolding merged_state_def states q list.case fold rows by (simp only: group_state_def)
qed

section \<open>The operator\<close>

lemma rmap_concat: "rbind (rmap (rmap f) xss) (\<lambda>yss. Inr (concat yss)) = rmap f (concat xss)"
proof (induction xss)
  case (Cons xs xss)
  show ?case
  proof (cases "rmap f xs")
    case (Inr ys)
    then show ?thesis
      by (cases "rmap (rmap f) xss") (auto simp: rmap_append simp flip: Cons.IH)
  qed (simp add: rmap_append)
qed simp

lemma rmap_map: "rmap f (map g xs) = rmap (\<lambda>x. f (g x)) xs"
  by (induction xs) auto

lemma bucket_gens:
  assumes "\<forall>b \<in> set bs. m b = Inr (map (\<lambda>k. (k, S k)) (ks b))"
  shows "gen_list (gen_concat (map (\<lambda>b. bucket_gen out (m b)) bs))
       = rmap (\<lambda>k. out (k, S k)) (concat (map ks bs))"
proof -
  have "map (\<lambda>b. bucket_gen out (m b)) bs
      = map (\<lambda>b. gen_map out (gen_of (map (\<lambda>k. (k, S k)) (ks b)))) bs"
    using assms by (simp add: bucket_gen_def)
  moreover have "rmap gen_list (map (\<lambda>b. gen_map out (gen_of (map (\<lambda>k. (k, S k)) (ks b)))) bs)
      = rmap (rmap (\<lambda>k. out (k, S k))) (map ks bs)"
  proof -
    show ?thesis by (induction bs) (auto simp: gen_list_map rmap_map)
  qed
  ultimately show ?thesis by (simp only: gen_list_concat rmap_concat)
qed

lemma aggregate_partition_groups:
  assumes acc: "accumulates is_partial aggs init upd iv ok"
    and unwrap: "rmap unwrap_aggregate as = Inr aggs"
    and parent: "records parent = gen_of rows"
    and rows: "\<forall>r \<in> set rows. ok r \<and> tuple_key gs r = Inr (kf r)"
    and can: "canonical (kf ` set rows)"
  shows "\<exists>p ks. aggregate_partition env gs as s is_partial threshold pid parent = Inr p
    \<and> distinct ks \<and> set ks = kf ` set rows
    \<and> part_to_list p = rmap (\<lambda>k. group_row (map output_name gs) (map output_name as) aggs is_partial
                              (k, group_state init upd kf rows k)) ks
    \<and> (part_row_count p \<noteq> None \<longrightarrow> ks = uniq (map kf rows) \<and> part_row_count p = Some (length ks))"
proof -
  let ?G = "groups_of init upd kf" and ?S = "group_state init upd kf rows"
  let ?out = "group_row (map output_name gs) (map output_name as) aggs is_partial"
  let ?md5 = "env_md5 env"
  note C = accumulatesD(1) [OF acc]
  obtain segs cur st where st: "rfold (agg_step env gs aggs is_partial threshold) agg_start rows = Inr st"
    and inv: "agg_loop_inv env ?G rows segs cur st"
    using agg_loop [OF acc rows can] by blast
  have cat: "concat segs @ cur = rows" and groups: "acc_groups st = ?G cur"
    and spilled: "acc_spilled st \<longleftrightarrow> segs \<noteq> []"
    and area: "area_ok ?md5 (env_tmpdir env) ?G segs (acc_area st)"
    using inv by (auto simp: agg_loop_inv_def)
  show ?thesis
  proof (cases "segs = []")
    case True
    then have "cur = rows" using cat by simp
    then have "gen_list (gen_map ?out (gen_of (acc_groups st))) = rmap (\<lambda>k. ?out (k, ?S k)) (uniq (map kf rows))"
      by (simp add: groups groups_of_def gen_list_map rmap_map)
    with True st unwrap parent spilled groups \<open>cur = rows\<close> show ?thesis
      by (intro exI [of _ "\<lparr>partition_id = pid, part_schema = s, records = gen_map ?out (gen_of (?G rows)),
            metadata = counted_meta (Some (length (?G rows)))\<rparr>"] exI [of _ "uniq (map kf rows)"])
         (auto simp: aggregate_partition_def Let_def part_to_list_def
          part_row_count_def counted_meta_def groups_of_def)
  next
    case False
    define L where "L b = concat (map (\<lambda>seg. bucket_items ?md5 b (?G seg)) (cur # segs))" for b
    define ks where "ks b = uniq (map fst (L b))" for b
    have seg_rows: "set seg \<subseteq> set rows" if "seg \<in> set (cur # segs)" for seg
      using that cat by auto
    have ok: "\<forall>seg \<in> set (segs @ [cur]). \<forall>r \<in> set seg. ok r"
      using rows seg_rows by fastforce
    have keys_L: "fst ` set (L b) = {k \<in> kf ` set rows. bucket_nat ?md5 k = b}" for b
      by (auto simp: L_def bucket_items_def groups_of_def image_iff simp flip: cat) force+
    have can_L: "canonical (fst ` set (L b))" for b
      by (rule canonical_subset [OF can]) (auto simp: keys_L)
    have inv_L: "\<forall>i \<in> set (L b). iv (snd i)" for b
    proof
      fix i assume "i \<in> set (L b)"
      then obtain seg k where "seg \<in> set (cur # segs)" "i = (k, group_state init upd kf seg k)"
        by (auto simp: L_def bucket_items_def groups_of_def)
      moreover from this(1) have "\<forall>r \<in> set seg. ok r" using ok by auto
      ultimately show "iv (snd i)"
        using group_state_eq [OF accumulatesD(2) [OF acc]] by simp
    qed
    have state: "merged_state aggs (L b) k = ?S k" if "k \<in> fst ` set (L b)" for b k
    proof -
      have k: "k \<in> kf ` set (concat (segs @ [cur]))" "b = bucket_nat ?md5 k"
        using that cat by (auto simp: keys_L)
      have "merged_state aggs (L b) k = group_state init upd kf (concat (segs @ [cur])) k"
        unfolding L_def k(2) by (rule merged_state_all [OF C ok k(1)]) simp
      with cat show ?thesis by simp
    qed
    have "distinct (map fst (?G cur))" by (simp only: groups_of_keys distinct_uniq)
    moreover have "fst ` set (?G cur) = kf ` set cur"
      by (metis groups_of_keys set_map set_uniq)
    then have "canonical (fst ` set (?G cur))"
      using seg_rows [of cur] by (intro canonical_subset [OF can]) auto
    ultimately have seeds: "rfold (seed_bucket ?md5) (replicate AGGREGATE_SPILL_BUCKETS []) (?G cur)
        = Inr (map (\<lambda>b. bucket_items ?md5 b (?G cur)) [0..<AGGREGATE_SPILL_BUCKETS])"
      by (intro seeds_eq)
    have merged: "merge_bucket aggs (fst (acc_area st)) (bucket_items ?md5 b (?G cur)) (snd (acc_area st) ! b)
        = Inr (map (\<lambda>k. (k, ?S k)) (ks b))" if "b < AGGREGATE_SPILL_BUCKETS" for b
    proof -
      have sub: "set (bucket_items ?md5 b (?G cur)) \<subseteq> set (L b)" by (auto simp: L_def)
      have "distinct (map fst (bucket_items ?md5 b (?G cur)))"
        by (simp add: bucket_items_def groups_of_def filter_map comp_def)
      then have "rfold (merge_item aggs) [] (bucket_items ?md5 b (?G cur)) = Inr (bucket_items ?md5 b (?G cur))"
        using sub can_L [of b] by (intro merge_distinct) (auto intro: canonical_subset)
      then have "rfold (merge_item aggs) (bucket_items ?md5 b (?G cur))
            (concat (map (\<lambda>seg. bucket_items ?md5 b (?G seg)) segs))
          = rfold (merge_item aggs) [] (L b)"
        by (simp add: L_def rfold_append)
      also have "\<dots> = Inr (map (\<lambda>k. (k, merged_state aggs (L b) k)) (ks b))"
        using merge_items_eq [OF C inv_L can_L] by (simp add: ks_def)
      also have "map (\<lambda>k. (k, merged_state aggs (L b) k)) (ks b) = map (\<lambda>k. (k, ?S k)) (ks b)"
        using state by (auto simp: ks_def)
      finally show ?thesis using gather_rounds [OF area that] by simp
    qed
    have set_ks: "set (ks b) = {k \<in> kf ` set rows. bucket_nat ?md5 k = b}" for b
      by (simp only: ks_def set_uniq set_map keys_L)
    let ?ks = "concat (map ks [0..<AGGREGATE_SPILL_BUCKETS])"
    have "gen_list (spilled_records ?md5 aggs ?out (?G cur) (acc_area st)) = rmap (\<lambda>k. ?out (k, ?S k)) ?ks"
    proof -
      have "spilled_records ?md5 aggs ?out (?G cur) (acc_area st)
          = gen_concat (map (\<lambda>b. bucket_gen ?out (merge_bucket aggs (fst (acc_area st))
               (bucket_items ?md5 b (?G cur)) (snd (acc_area st) ! b))) [0..<AGGREGATE_SPILL_BUCKETS])"
        unfolding spilled_records_def seeds sum.case
        by (intro arg_cong [where f = gen_concat] map_cong) auto
      then show ?thesis
        using bucket_gens [of "[0..<AGGREGATE_SPILL_BUCKETS]" "\<lambda>b. merge_bucket aggs (fst (acc_area st))
               (bucket_items ?md5 b (?G cur)) (snd (acc_area st) ! b)" ?S ks ?out] merged
        by simp
    qed
    moreover have "set ?ks = kf ` set rows" by (auto simp: set_ks)
    moreover have "distinct ?ks"
    proof -
      have "distinct (concat (map ks bs))" if "distinct bs" for bs
        using that
      proof (induction bs)
        case (Cons b bs)
        have "set (ks b) \<inter> set (concat (map ks bs)) = {}"
          using Cons.prems by (auto simp: set_ks)
        with Cons show ?case by (simp add: ks_def)
      qed simp
      then show ?thesis by simp
    qed
    ultimately show ?thesis
      using st unwrap parent spilled groups False
      by (intro exI [of _ "\<lparr>partition_id = pid, part_schema = s,
            records = spilled_records ?md5 aggs ?out (?G cur) (acc_area st), metadata = no_meta\<rparr>"]
          exI [of _ ?ks])
         (simp add: aggregate_partition_def Let_def part_to_list_def part_row_count_def no_meta_def)
  qed
qed

end
