(* ===== verification/GroupBy.thy ===== *)
theory GroupBy
  imports AggregateExecution
begin

text \<open>
  Two-phase aggregation: what the partial (map-side) and the final (reduce-side) aggregate
  operators compute, and that together, around a shuffle, they are a group-by over all the rows.
\<close>

section \<open>The partial phase\<close>

lemma partial_accumulates:
  assumes "list_all is_aggregate aggs"
  shows "accumulates True aggs (map init_state aggs) (vec_update aggs) (vec_inv \<kappa> aggs) (vec_ok \<kappa> aggs)"
proof -
  have "rmap agg_initialize aggs = Inr (map init_state aggs)"
    using assms by (intro rmap_Inr_fun) (auto simp: agg_initialize_eq list_all_iff)
  then show ?thesis
    using vector_mergeable [OF assms] by (simp add: accumulates_def agg_new_state_def)
qed

lemma vec_update_spec:
  "vec_ok \<kappa> aggs r \<Longrightarrow> \<forall>r \<in> set rows. vec_ok \<kappa> aggs r \<Longrightarrow>
     vec_update aggs (map (\<lambda>a. state_spec \<kappa> a rows) aggs) r
       = Inr (map (\<lambda>a. state_spec \<kappa> a (rows @ [r])) aggs)"
  by (induction aggs) (auto simp: update_snoc_spec)

lemma vec_fold_spec:
  assumes "list_all is_aggregate aggs" "\<forall>r \<in> set rows. vec_ok \<kappa> aggs r"
  shows "rfold (vec_update aggs) (map init_state aggs) rows = Inr (map (\<lambda>a. state_spec \<kappa> a rows) aggs)"
  using assms(2)
proof (induction rows rule: rev_induct)
  case Nil
  have "init_state a = state_spec \<kappa> a []" if "is_aggregate a" for a
    using fold_update_spec [OF that, of "[]" \<kappa>] by simp
  with assms(1) show ?case by (simp add: list_all_iff)
next
  case (snoc r rows)
  then have "rfold (vec_update aggs) (map init_state aggs) rows = Inr (map (\<lambda>a. state_spec \<kappa> a rows) aggs)"
    by simp
  with snoc.prems vec_update_spec [of \<kappa> aggs r rows] show ?case by (simp add: rfold_append)
qed

definition states_of :: "(expr \<Rightarrow> vkind) \<Rightarrow> expr list \<Rightarrow> row list \<Rightarrow> pval list" where
  "states_of \<kappa> aggs rows = map (\<lambda>a. state_spec \<kappa> a rows) aggs"

lemma partial_group_state:
  assumes "list_all is_aggregate aggs" "\<forall>r \<in> set rows. vec_ok \<kappa> aggs r"
  shows "group_state (map init_state aggs) (vec_update aggs) kf rows k
       = states_of \<kappa> aggs (group_rows kf rows k)"
proof -
  have "\<forall>r \<in> set (group_rows kf rows k). vec_ok \<kappa> aggs r" using assms(2) group_rows_subset by blast
  from vec_fold_spec [OF assms(1) this] show ?thesis by (simp add: group_state_def states_of_def)
qed

text \<open>A row of the partial aggregate: the key columns, then the state columns.\<close>

definition state_names :: "nat \<Rightarrow> string list" where
  "state_names n = map agg_state_name [0..<n]"

definition partial_row :: "string list \<Rightarrow> pval list \<Rightarrow> pval list \<Rightarrow> row" where
  "partial_row names k state = zip names k @ zip (state_names (length state)) state"

lemma agg_state_name_inj [simp]: "agg_state_name i = agg_state_name j \<longleftrightarrow> i = j"
  by (simp add: agg_state_name_def)

lemma states_into_eq:
  assumes "set (map fst row) \<inter> set (state_names (length state)) = {}"
  shows "states_into row state = row @ zip (state_names (length state)) state"
  using assms
proof (induction state rule: rev_induct)
  case Nil
  then show ?case by (simp add: states_into_def)
next
  case (snoc s state)
  have IH: "states_into row state = row @ zip (state_names (length state)) state"
    using snoc by (auto simp: state_names_def)
  have "states_into row (state @ [s])
      = AList.update (agg_state_name (length state)) s (states_into row state)"
    by (simp add: states_into_def)
  also have "\<dots> = states_into row state @ [(agg_state_name (length state), s)]"
    using snoc.prems unfolding IH
    by (intro update_new_key) (auto simp: state_names_def dest!: set_zip_leftD)
  finally show ?case by (simp add: IH state_names_def)
qed

lemma partial_group_row:
  assumes "length names = length k" "distinct (names @ state_names (length state))"
  shows "group_row names agg_names aggs True (k, state) = Inr (partial_row names k state)"
proof -
  have "map fst (zip names k) = names" using assms(1) by simp
  then show ?thesis
    using assms by (simp add: group_row_def zip_strict_eq dict_of_distinct_id partial_row_def states_into_eq)
qed

lemma tuple_key_length: "tuple_key gs r = Inr k \<Longrightarrow> length k = length gs"
  by (simp add: tuple_key_def rmap_length)

lemma rmap_pure: "(\<And>x. x \<in> set xs \<Longrightarrow> f x = Inr (g x)) \<Longrightarrow> rmap f xs = Inr (map g xs)"
  by (rule rmap_Inr_fun)

lemma partial_phase:
  assumes aggs: "rmap unwrap_aggregate as = Inr aggs" "list_all is_aggregate aggs"
    and names: "distinct (map output_name gs @ state_names (length aggs))"
    and parent: "records parent = gen_of rows"
    and rows: "\<forall>r \<in> set rows. vec_ok \<kappa> aggs r \<and> tuple_key gs r = Inr (kf r)"
    and can: "canonical (kf ` set rows)"
  shows "\<exists>p ks. aggregate_partition env gs as s True threshold pid parent = Inr p
    \<and> distinct ks \<and> set ks = kf ` set rows
    \<and> part_to_list p = Inr (map (\<lambda>k. partial_row (map output_name gs) k
                                     (states_of \<kappa> aggs (group_rows kf rows k))) ks)"
proof -
  from aggregate_partition_groups [OF partial_accumulates [OF aggs(2)] aggs(1) parent rows can,
      of env s threshold pid]
  obtain p ks where p: "aggregate_partition env gs as s True threshold pid parent = Inr p"
      "distinct ks" "set ks = kf ` set rows"
      "part_to_list p = rmap (\<lambda>k. group_row (map output_name gs) (map output_name as) aggs True
          (k, group_state (map init_state aggs) (vec_update aggs) kf rows k)) ks" by blast
  have "group_row (map output_name gs) (map output_name as) aggs True
          (k, group_state (map init_state aggs) (vec_update aggs) kf rows k)
      = Inr (partial_row (map output_name gs) k (states_of \<kappa> aggs (group_rows kf rows k)))"
    if k: "k \<in> set ks" for k
  proof -
    from k p(3) obtain r where "r \<in> set rows" "k = kf r" by auto
    with rows have "length k = length gs" using tuple_key_length by metis
    moreover have "group_state (map init_state aggs) (vec_update aggs) kf rows k
        = states_of \<kappa> aggs (group_rows kf rows k)"
      using rows by (intro partial_group_state [OF aggs(2)]) blast
    ultimately show ?thesis
      using names by (intro trans [OF _ partial_group_row]) (auto simp: states_of_def)
  qed
  then have "part_to_list p = Inr (map (\<lambda>k. partial_row (map output_name gs) k
      (states_of \<kappa> aggs (group_rows kf rows k))) ks)"
    unfolding p(4) by (rule rmap_pure)
  with p(1-3) show ?thesis by blast
qed

text \<open>
  C33: A partial aggregate over a partition yields one row for every distinct group key, with the
  exact state (counts, sums, least and greatest values) of the rows that have that key, however
  often and at whatever threshold its hash table was spilled to disk and merged back: if the
  expressions have a value on every row, the arguments of Sum and Avg are ints or null (a sum of
  floats would depend on the spills), those of Min and Max ints or null, or strings or null, and the
  group keys are equal in Python only if identical (no 1 beside 1.0 or True, no NaN).
\<close>

theorem partial_aggregate_correct:
  assumes "rmap unwrap_aggregate as = Inr aggs" "list_all is_aggregate aggs"
    and "distinct (map output_name gs @ state_names (length aggs))"
    and "records parent = gen_of rows"
    and "\<forall>r \<in> set rows. vec_ok \<kappa> aggs r \<and> tuple_key gs r = Inr (kf r)"
    and "canonical (kf ` set rows)"
  shows "\<exists>p ks. aggregate_partition env gs as s True threshold pid parent = Inr p
    \<and> distinct ks \<and> set ks = kf ` set rows
    \<and> part_to_list p = Inr (map (\<lambda>k. partial_row (map output_name gs) k
                                     (states_of \<kappa> aggs (group_rows kf rows k))) ks)"
  using assms by (rule partial_phase)

section \<open>The final phase\<close>

definition incoming :: "nat \<Rightarrow> row \<Rightarrow> pval list res" where
  "incoming n r = rmap (\<lambda>i. row_get r (agg_state_name i)) [0..<n]"

definition final_update :: "expr list \<Rightarrow> pval list \<Rightarrow> row \<Rightarrow> pval list res" where
  "final_update aggs s r = rbind (incoming (length aggs) r) (merge_states aggs s)"

definition final_ok :: "(expr \<Rightarrow> vkind) \<Rightarrow> expr list \<Rightarrow> row \<Rightarrow> bool" where
  "final_ok \<kappa> aggs r = (\<exists>inc. incoming (length aggs) r = Inr inc \<and> vec_inv \<kappa> aggs inc)"

lemma final_accumulates:
  assumes "list_all is_aggregate aggs"
  shows "accumulates False aggs (map init_state aggs) (final_update aggs) (vec_inv \<kappa> aggs) (final_ok \<kappa> aggs)"
proof -
  note C = vector_mergeable [OF assms, of \<kappa>] and M = commutative_mergeable.axioms(1) [OF C]
  have init: "merge_states aggs (map init_state aggs) s = Inr s" if "vec_inv \<kappa> aggs s" for s
    using commutative_mergeable.mrg_comm [OF C mergeable.inv_init [OF M] that]
      mergeable.mrg_init [OF M that] by simp
  have "commutative_mergeable (map init_state aggs) (final_update aggs) (merge_states aggs)
      (vec_inv \<kappa> aggs) (final_ok \<kappa> aggs)"
  proof (unfold_locales, goal_cases)
    case 1
    show ?case by (rule mergeable.inv_init [OF M])
  next
    case (2 s r)
    then show ?case
      using mergeable.mrg_total [OF M] by (auto simp: final_ok_def final_update_def)
  next
    case (3 s t)
    then show ?case by (rule mergeable.mrg_total [OF M])
  next
    case (4 s)
    then show ?case by (rule mergeable.mrg_init [OF M])
  next
    case (5 s t r)
    then obtain inc where "incoming (length aggs) r = Inr inc" "vec_inv \<kappa> aggs inc"
      by (auto simp: final_ok_def)
    with 5 commutative_mergeable.mrg_assoc [OF C, of s t inc] show ?case
      by (simp add: final_update_def)
  next
    case (6 s t)
    then show ?case by (rule commutative_mergeable.mrg_comm [OF C])
  next
    case (7 s t u)
    then show ?case by (rule commutative_mergeable.mrg_assoc [OF C])
  qed
  then show ?thesis
    by (auto simp: accumulates_def agg_new_state_def final_update_def final_ok_def init
        simp flip: incoming_def)
qed

text \<open>Reading back the columns of a partial row.\<close>

lemma rmap_row_get_zip:
  assumes "distinct (ns @ ms)" "length ns = length vs" "length ms = length ws"
  shows "rmap (row_get (zip ns vs @ zip ms ws)) ns = Inr vs"
    and "rmap (row_get (zip ns vs @ zip ms ws)) ms = Inr ws"
proof -
  have keys: "map fst (zip ns vs) = ns" "map fst (zip ms ws) = ms" using assms(2,3) by simp_all
  let ?r = "zip ns vs @ zip ms ws"
  have dist: "distinct (map fst ?r)" using assms(1) keys by simp
  have get: "row_get ?r n = Inr v" if "(n, v) \<in> set ?r" for n v
    using map_of_is_SomeI [OF dist that] by (simp add: row_get_def)
  show "rmap (row_get ?r) ns = Inr vs"
    unfolding rmap_Inr_iff list_all2_conv_all_nth
    using assms(2) get by (auto simp: set_zip)
  show "rmap (row_get ?r) ms = Inr ws"
    unfolding rmap_Inr_iff list_all2_conv_all_nth
    using assms(3) get by (auto simp: set_zip)
qed

definition plain_columns :: "expr list \<Rightarrow> bool" where
  "plain_columns gs = list_all is_column gs"

lemma partial_row_reads:
  assumes "plain_columns gs" "distinct (map output_name gs @ state_names (length state))"
    and "length k = length gs"
  shows "tuple_key gs (partial_row (map output_name gs) k state) = Inr k"
    and "incoming (length state) (partial_row (map output_name gs) k state) = Inr state"
proof -
  let ?r = "partial_row (map output_name gs) k state"
  have "eval g ?r = row_get ?r (output_name g)" if "g \<in> set gs" for g
  proof -
    have "is_column g" using that assms(1) by (simp add: plain_columns_def list_all_iff)
    then show ?thesis by (cases g) simp_all
  qed
  then have "tuple_key gs ?r = rmap (row_get ?r) (map output_name gs)"
    by (auto simp: tuple_key_def rmap_map intro: rmap_cong)
  also have "\<dots> = Inr k"
    using assms(2,3) unfolding partial_row_def
    by (intro rmap_row_get_zip(1)) (simp_all add: state_names_def)
  finally show "tuple_key gs ?r = Inr k" .
  have "incoming (length state) ?r = rmap (row_get ?r) (state_names (length state))"
    by (simp add: incoming_def state_names_def rmap_map)
  also have "\<dots> = Inr state"
    using assms(2,3) unfolding partial_row_def
    by (intro rmap_row_get_zip(2)) (simp_all add: state_names_def)
  finally show "incoming (length state) ?r = Inr state" .
qed

text \<open>The output row of a group after the final phase: its key, then the finalized values.\<close>

definition final_row ::
    "string list \<Rightarrow> string list \<Rightarrow> (expr \<Rightarrow> vkind) \<Rightarrow> expr list \<Rightarrow> pval list \<Rightarrow> row list \<Rightarrow> row res" where
  "final_row names agg_names \<kappa> aggs k rows =
     rbind (rmap (\<lambda>a. value_spec \<kappa> a rows) aggs) (\<lambda>vs. Inr (zip names k @ zip agg_names vs))"

lemma finalize_into_eq:
  assumes "list_all is_aggregate aggs" "length agg_names = length aggs"
    and "distinct (map fst row @ agg_names)"
  shows "finalize_into row agg_names aggs (states_of \<kappa> aggs rows)
       = rbind (rmap (\<lambda>a. value_spec \<kappa> a rows) aggs) (\<lambda>vs. Inr (row @ zip agg_names vs))"
  using assms
proof (induction aggs arbitrary: row agg_names)
  case Nil
  then show ?case by (simp add: states_of_def)
next
  case (Cons a aggs)
  then obtain n ns where ns: "agg_names = n # ns" by (cases agg_names) auto
  show ?case
  proof (cases "value_spec \<kappa> a rows")
    case (Inl e)
    then show ?thesis using Cons.prems(1) by (simp add: ns states_of_def finalize_spec)
  next
    case (Inr v)
    have "AList.update n v row = row @ [(n, v)]"
      using Cons.prems(3) by (intro update_new_key) (simp add: ns)
    moreover have "finalize_into (row @ [(n, v)]) ns aggs (states_of \<kappa> aggs rows)
        = rbind (rmap (\<lambda>a. value_spec \<kappa> a rows) aggs) (\<lambda>vs. Inr ((row @ [(n, v)]) @ zip ns vs))"
      using Cons.prems by (intro Cons.IH) (auto simp: ns)
    ultimately show ?thesis
      using Inr Cons.prems(1) by (simp add: ns states_of_def finalize_spec rbind_assoc)
  qed
qed

lemma final_group_row:
  assumes "list_all is_aggregate aggs" "length agg_names = length aggs"
    and "distinct (names @ agg_names)" "length names = length k"
  shows "group_row names agg_names aggs False (k, states_of \<kappa> aggs rows)
       = final_row names agg_names \<kappa> aggs k rows"
proof -
  have "map fst (zip names k) = names" using assms(4) by simp
  then show ?thesis
    using assms
    by (simp add: group_row_def zip_strict_eq dict_of_distinct_id finalize_into_eq final_row_def)
qed

section \<open>Both phases together\<close>

lemma filter_mset_of_one:
  assumes "distinct ks" "\<And>x. x \<in> set ks \<Longrightarrow> key (f x) = x"
  shows "filter (\<lambda>r. key r = k) (map f ks) = (if k \<in> set ks then [f k] else [])"
  using assms by (induction ks) auto

definition partial_rows_of ::
    "expr list \<Rightarrow> expr list \<Rightarrow> (expr \<Rightarrow> vkind) \<Rightarrow> (row \<Rightarrow> pval list) \<Rightarrow> row list \<Rightarrow> pval list list \<Rightarrow> row list" where
  "partial_rows_of gs aggs \<kappa> kf chunk ks =
     map (\<lambda>k. partial_row (map output_name gs) k (states_of \<kappa> aggs (group_rows kf chunk k))) ks"

lemma states_of_inv:
  assumes "list_all is_aggregate aggs" "\<forall>r \<in> set rows. vec_ok \<kappa> aggs r"
  shows "vec_inv \<kappa> aggs (states_of \<kappa> aggs (group_rows kf rows k))"
  using group_state_eq [OF accumulatesD(2) [OF partial_accumulates [OF assms(1), of \<kappa>]] assms(2), of kf k]
  by (simp add: partial_group_state [OF assms])

lemma final_fold_merge:
  assumes "\<forall>r \<in> set rows. incoming (length aggs) r = Inr (inc r)"
  shows "rfold (final_update aggs) s rows = rfold (merge_states aggs) s (map inc rows)"
  using assms by (induction rows arbitrary: s) (auto simp: final_update_def intro!: rbind_cong)

text \<open>The partial states of a key from the chunks that have it merge into the state of all its rows.\<close>

lemma merged_chunks:
  assumes "list_all is_aggregate aggs" "\<forall>chunk \<in> set chunks. \<forall>r \<in> set chunk. vec_ok \<kappa> aggs r"
    and "mset incs = mset (map (\<lambda>chunk. states_of \<kappa> aggs (group_rows kf chunk k))
                             (filter (\<lambda>chunk. k \<in> kf ` set chunk) chunks))"
  shows "rfold (merge_states aggs) (map init_state aggs) incs
       = Inr (states_of \<kappa> aggs (group_rows kf (concat chunks) k))"
proof -
  note C = vector_mergeable [OF assms(1), of \<kappa>] and M = commutative_mergeable.axioms(1) [OF vector_mergeable [OF assms(1), of \<kappa>]]
  let ?has = "filter (\<lambda>chunk. k \<in> kf ` set chunk) chunks"
  let ?S = "\<lambda>chunk. states_of \<kappa> aggs (group_rows kf chunk k)"
  let ?rows = "map (\<lambda>chunk. group_rows kf chunk k) ?has"
  have "\<forall>t \<in> set (map ?S ?has). vec_inv \<kappa> aggs t"
    using assms(2) by (auto intro!: states_of_inv [OF assms(1)])
  then have inv: "\<forall>t \<in> set incs. vec_inv \<kappa> aggs t"
    using mset_eq_setD [OF assms(3)] by simp
  have parts: "rmap (rfold (vec_update aggs) (map init_state aggs)) ?rows = Inr (map ?S ?has)"
    unfolding rmap_map
  proof (rule rmap_pure)
    fix chunk assume "chunk \<in> set ?has"
    then have "\<forall>r \<in> set (group_rows kf chunk k). vec_ok \<kappa> aggs r"
      using assms(2) by (auto dest: group_rows_subset)
    then show "rfold (vec_update aggs) (map init_state aggs) (group_rows kf chunk k) = Inr (?S chunk)"
      by (simp add: vec_fold_spec [OF assms(1)] states_of_def)
  qed
  have rows_ok: "\<forall>xs \<in> set ?rows. \<forall>x \<in> set xs. vec_ok \<kappa> aggs x"
    using assms(2) by (auto dest: group_rows_subset)
  have "concat (map (\<lambda>chunk. group_rows kf chunk k) (filter (\<lambda>chunk. k \<in> kf ` set chunk) cs))
      = group_rows kf (concat cs) k" for cs
    by (induction cs) (auto simp: group_rows_absent)
  then have cat: "concat ?rows = group_rows kf (concat chunks) k" .
  have "rfold (merge_states aggs) (map init_state aggs) incs
      = rfold (merge_states aggs) (map init_state aggs) (map ?S ?has)"
    by (rule commutative_mergeable.merge_list_perm [OF C mergeable.inv_init [OF M] inv assms(3)])
  also have "\<dots> = rfold (vec_update aggs) (map init_state aggs) (concat ?rows)"
    by (rule mergeable.merge_partials [OF M mergeable.inv_init [OF M] rows_ok parts])
  also have "\<dots> = Inr (states_of \<kappa> aggs (group_rows kf (concat chunks) k))"
    unfolding cat states_of_def
  proof (rule vec_fold_spec [OF assms(1)], rule ballI)
    fix x assume "x \<in> set (group_rows kf (concat chunks) k)"
    then have "x \<in> set (concat chunks)" by (rule group_rows_subset)
    then show "vec_ok \<kappa> aggs x" using assms(2) by auto
  qed
  finally show ?thesis .
qed

text \<open>
  The reduce side of one target partition receives, in any order, the partial rows of the keys
  \<open>T\<close> that the partitioner sends there, from every map partition.
\<close>

lemma two_phase:
  assumes aggs: "rmap unwrap_aggregate as = Inr aggs" "list_all is_aggregate aggs"
    and cols: "plain_columns gs"
    and names: "distinct (map output_name gs @ state_names (length aggs))"
      "distinct (map output_name gs @ map output_name as)"
    and rows: "\<forall>chunk \<in> set chunks. \<forall>r \<in> set chunk. vec_ok \<kappa> aggs r \<and> tuple_key gs r = Inr (kf r)"
    and can: "canonical (kf ` set (concat chunks))"
    and keys: "list_all2 (\<lambda>chunk ks. distinct ks \<and> set ks = kf ` set chunk) chunks kss"
    and reduce: "mset input = mset (concat (map2 (\<lambda>chunk ks.
        partial_rows_of gs aggs \<kappa> kf chunk (filter (\<lambda>k. k \<in> T) ks)) chunks kss))"
    and parent: "records parent = gen_of input"
  shows "\<exists>p ks. aggregate_partition env gs as s False threshold pid parent = Inr p
    \<and> distinct ks \<and> set ks = kf ` set (concat chunks) \<inter> T
    \<and> part_to_list p = rmap (\<lambda>k. final_row (map output_name gs) (map output_name as) \<kappa> aggs k
                               (group_rows kf (concat chunks) k)) ks"
proof -
  let ?S = "\<lambda>chunk k. states_of \<kappa> aggs (group_rows kf chunk k)"
  let ?prow = "\<lambda>chunk k. partial_row (map output_name gs) k (?S chunk k)"
  let ?all = "concat (map2 (\<lambda>chunk ks. partial_rows_of gs aggs \<kappa> kf chunk (filter (\<lambda>k. k \<in> T) ks)) chunks kss)"
  define key where "key r = (case tuple_key gs r of Inr k \<Rightarrow> k | Inl _ \<Rightarrow> [])" for r
  have len: "length k = length gs" if "chunk \<in> set chunks" "k \<in> kf ` set chunk" for chunk k
    using that rows tuple_key_length by (metis (no_types, lifting) imageE)
  have reads: "tuple_key gs (?prow chunk k) = Inr k" "key (?prow chunk k) = k"
      "incoming (length aggs) (?prow chunk k) = Inr (?S chunk k)"
    if "chunk \<in> set chunks" "k \<in> kf ` set chunk" for chunk k
    using partial_row_reads [OF cols, of "?S chunk k" k] names(1) len [OF that]
    by (simp_all add: states_of_def key_def)
  have in_all: "r \<in> set ?all \<longleftrightarrow> (\<exists>chunk \<in> set chunks. \<exists>k \<in> kf ` set chunk \<inter> T. r = ?prow chunk k)" for r
    using keys
  proof (induction rule: list_all2_induct)
    case (Cons chunk chunks ks kss)
    then show ?case by (auto simp: partial_rows_of_def)
  qed simp
  have in_input: "set input = set ?all" using reduce by (rule mset_eq_setD)
  have ok: "\<forall>r \<in> set input. final_ok \<kappa> aggs r \<and> tuple_key gs r = Inr (key r)"
  proof
    fix r assume "r \<in> set input"
    then obtain chunk k where ck: "chunk \<in> set chunks" "k \<in> kf ` set chunk" "r = ?prow chunk k"
      unfolding in_input in_all by blast
    have "vec_inv \<kappa> aggs (?S chunk k)"
      using rows ck(1) by (intro states_of_inv [OF aggs(2)]) blast
    then show "final_ok \<kappa> aggs r \<and> tuple_key gs r = Inr (key r)"
      using reads [OF ck(1,2)] ck(3) by (auto simp: final_ok_def)
  qed
  have keys_input: "key ` set input = kf ` set (concat chunks) \<inter> T"
  proof
    show "key ` set input \<subseteq> kf ` set (concat chunks) \<inter> T"
    proof
      fix k' assume "k' \<in> key ` set input"
      then obtain r where "r \<in> set ?all" "k' = key r" unfolding in_input by blast
      then obtain chunk k where "chunk \<in> set chunks" "k \<in> kf ` set chunk" "k \<in> T" "k' = key (?prow chunk k)"
        unfolding in_all by blast
      with reads(2) show "k' \<in> kf ` set (concat chunks) \<inter> T" by auto
    qed
    show "kf ` set (concat chunks) \<inter> T \<subseteq> key ` set input"
    proof
      fix k assume "k \<in> kf ` set (concat chunks) \<inter> T"
      then obtain chunk where ck: "chunk \<in> set chunks" "k \<in> kf ` set chunk" "k \<in> T" by auto
      then have "?prow chunk k \<in> set input" unfolding in_input in_all by blast
      with reads(2) [OF ck(1,2)] show "k \<in> key ` set input" by (metis imageI)
    qed
  qed
  then have can': "canonical (key ` set input)" by (intro canonical_subset [OF can]) auto
  obtain p ks where p: "aggregate_partition env gs as s False threshold pid parent = Inr p"
      "distinct ks" "set ks = key ` set input"
      "part_to_list p = rmap (\<lambda>k. group_row (map output_name gs) (map output_name as) aggs False
          (k, group_state (map init_state aggs) (final_update aggs) key input k)) ks"
    using aggregate_partition_groups [OF final_accumulates [OF aggs(2), of \<kappa>] aggs(1) parent ok can',
      of env s threshold pid] by blast
  have out: "group_row (map output_name gs) (map output_name as) aggs False
          (k, group_state (map init_state aggs) (final_update aggs) key input k)
      = final_row (map output_name gs) (map output_name as) \<kappa> aggs k (group_rows kf (concat chunks) k)"
    if k: "k \<in> set ks" for k
  proof -
    have kT: "k \<in> kf ` set (concat chunks)" "k \<in> T" using k p(3) keys_input by auto
    define inc where "inc r = (case incoming (length aggs) r of Inr s \<Rightarrow> s | Inl _ \<Rightarrow> [])" for r
    have inc_input: "\<forall>r \<in> set input. incoming (length aggs) r = Inr (inc r)"
      using ok by (auto simp: final_ok_def inc_def)
    have "group_rows key ?all k = map (\<lambda>chunk. ?prow chunk k) (filter (\<lambda>chunk. k \<in> kf ` set chunk) chunks)"
      using keys reads(2)
    proof (induction rule: list_all2_induct)
      case (Cons chunk chunks ks' kss)
      have "group_rows key (partial_rows_of gs aggs \<kappa> kf chunk (filter (\<lambda>k. k \<in> T) ks')) k
          = (if k \<in> set (filter (\<lambda>k. k \<in> T) ks') then [?prow chunk k] else [])"
        unfolding group_rows_def [of key] partial_rows_of_def
        using Cons.hyps(1) Cons.prems by (intro filter_mset_of_one) auto
      with Cons kT(2) show ?case by auto
    qed simp
    moreover have "mset (group_rows key input k) = mset (group_rows key ?all k)"
      using reduce by (simp add: group_rows_def)
    ultimately have "mset (map inc (group_rows key input k))
        = mset (map inc (map (\<lambda>chunk. ?prow chunk k) (filter (\<lambda>chunk. k \<in> kf ` set chunk) chunks)))"
      by (simp only: mset_map)
    also have "map inc (map (\<lambda>chunk. ?prow chunk k) (filter (\<lambda>chunk. k \<in> kf ` set chunk) chunks))
        = map (\<lambda>chunk. ?S chunk k) (filter (\<lambda>chunk. k \<in> kf ` set chunk) chunks)"
      using reads(3) by (auto simp: inc_def)
    finally have "rfold (merge_states aggs) (map init_state aggs) (map inc (group_rows key input k))
        = Inr (states_of \<kappa> aggs (group_rows kf (concat chunks) k))"
      using rows by (intro merged_chunks [OF aggs(2)]) auto
    moreover have "\<forall>r \<in> set (group_rows key input k). incoming (length aggs) r = Inr (inc r)"
      using inc_input group_rows_subset by blast
    ultimately have "group_state (map init_state aggs) (final_update aggs) key input k
        = states_of \<kappa> aggs (group_rows kf (concat chunks) k)"
      using final_fold_merge [of "group_rows key input k" aggs inc] by (simp add: group_state_def)
    moreover have "length k = length gs" using kT(1) len by auto
    moreover have "length as = length aggs" using rmap_length [OF aggs(1)] by simp
    ultimately show ?thesis
      using names(2) by (simp add: final_group_row [OF aggs(2)])
  qed
  have "part_to_list p = rmap (\<lambda>k. final_row (map output_name gs) (map output_name as) \<kappa> aggs k
                               (group_rows kf (concat chunks) k)) ks"
    unfolding p(4) using out by (rule rmap_cong [OF refl])
  with p(1-3) keys_input show ?thesis by blast
qed

text \<open>What a map task's aggregate operator hands to the shuffle for its rows.\<close>

definition map_side_output ::
    "expr list \<Rightarrow> expr list \<Rightarrow> row list \<Rightarrow> row list \<Rightarrow> bool" where
  "map_side_output gs as chunk out =
     (\<exists>(env :: row env) parent s threshold pid p. records parent = gen_of chunk
        \<and> aggregate_partition env gs as s True threshold pid parent = Inr p
        \<and> part_to_list p = Inr out)"

lemma map_side_output_rows:
  assumes "rmap unwrap_aggregate as = Inr aggs" "list_all is_aggregate aggs"
    and "distinct (map output_name gs @ state_names (length aggs))"
    and "\<forall>r \<in> set chunk. vec_ok \<kappa> aggs r \<and> tuple_key gs r = Inr (kf r)"
    and "canonical (kf ` set chunk)"
    and "map_side_output gs as chunk out"
  shows "\<exists>ks. distinct ks \<and> set ks = kf ` set chunk \<and> out = partial_rows_of gs aggs \<kappa> kf chunk ks"
proof -
  obtain env :: "row env" and parent s threshold pid p where p: "records parent = gen_of chunk"
      "aggregate_partition env gs as s True threshold pid parent = Inr p" "part_to_list p = Inr out"
    using assms(6) by (auto simp: map_side_output_def)
  from partial_phase [OF assms(1-3) p(1) assms(4,5), of env s threshold pid] p(2,3)
  show ?thesis by (auto simp: partial_rows_of_def)
qed

lemma partial_row_key:
  assumes "list_all is_column gs" "distinct (map output_name gs @ state_names (length aggs))"
    and "\<forall>r \<in> set chunk. tuple_key gs r = Inr (kf r)" "k \<in> kf ` set chunk"
  shows "tuple_key gs (partial_row (map output_name gs) k (states_of \<kappa> aggs rows)) = Inr k"
proof -
  have "length k = length gs" using assms(3,4) tuple_key_length by (metis (no_types, lifting) imageE)
  then show ?thesis
    using assms(1,2) by (intro partial_row_reads(1)) (simp_all add: states_of_def plain_columns_def)
qed

definition map_side_rows ::
    "expr list \<Rightarrow> expr list \<Rightarrow> (expr \<Rightarrow> vkind) \<Rightarrow> (row \<Rightarrow> pval list) \<Rightarrow> row list \<Rightarrow> row list \<Rightarrow> bool" where
  "map_side_rows gs aggs \<kappa> kf chunk out =
     (\<exists>ks. distinct ks \<and> set ks = kf ` set chunk \<and> out = partial_rows_of gs aggs \<kappa> kf chunk ks)"

lemma two_phase_shuffled:
  assumes "rmap unwrap_aggregate as = Inr aggs" "list_all is_aggregate aggs" "list_all is_column gs"
    and "distinct (map output_name gs @ state_names (length aggs))"
    and "distinct (map output_name gs @ map output_name as)"
    and "\<forall>chunk \<in> set chunks. \<forall>r \<in> set chunk. vec_ok \<kappa> aggs r \<and> tuple_key gs r = Inr (kf r)"
    and "canonical (kf ` set (concat chunks))"
    and "list_all2 (map_side_rows gs aggs \<kappa> kf) chunks outs"
    and "mset input = mset (filter (\<lambda>r. tuple_key gs r \<in> Inr ` T) (concat outs))"
    and "records parent = gen_of input"
  shows "\<exists>p ks. aggregate_partition env gs as s False threshold pid parent = Inr p
    \<and> distinct ks \<and> set ks = kf ` set (concat chunks) \<inter> T
    \<and> part_to_list p = rmap (\<lambda>k. final_row (map output_name gs) (map output_name as) \<kappa> aggs k
                               (group_rows kf (concat chunks) k)) ks"
proof -
  have "\<exists>kss. list_all2 (\<lambda>chunk ks. distinct ks \<and> set ks = kf ` set chunk) chunks kss
    \<and> filter (\<lambda>r. tuple_key gs r \<in> Inr ` T) (concat outs)
      = concat (map2 (\<lambda>chunk ks. partial_rows_of gs aggs \<kappa> kf chunk (filter (\<lambda>k. k \<in> T) ks)) chunks kss)"
    using assms(8,6)
  proof (induction rule: list_all2_induct)
    case Nil
    then show ?case by (intro exI [of _ "[]"]) simp
  next
    case (Cons chunk chunks out outs)
    then obtain kss where kss: "list_all2 (\<lambda>chunk ks. distinct ks \<and> set ks = kf ` set chunk) chunks kss"
      "filter (\<lambda>r. tuple_key gs r \<in> Inr ` T) (concat outs)
       = concat (map2 (\<lambda>chunk ks. partial_rows_of gs aggs \<kappa> kf chunk (filter (\<lambda>k. k \<in> T) ks)) chunks kss)"
      by auto
    have rows: "\<forall>r \<in> set chunk. tuple_key gs r = Inr (kf r)" using Cons.prems(1) by simp
    obtain ks where ks: "distinct ks" "set ks = kf ` set chunk" "out = partial_rows_of gs aggs \<kappa> kf chunk ks"
      using Cons.hyps(1) by (auto simp: map_side_rows_def)
    have "tuple_key gs (partial_row (map output_name gs) k (states_of \<kappa> aggs (group_rows kf chunk k))) = Inr k"
      if "k \<in> set ks" for k
      using rows that ks(2) by (intro partial_row_key [OF assms(3,4)]) auto
    then have "filter (\<lambda>r. tuple_key gs r \<in> Inr ` T) out
        = partial_rows_of gs aggs \<kappa> kf chunk (filter (\<lambda>k. k \<in> T) ks)"
      unfolding ks(3) partial_rows_of_def filter_map comp_def
      by (intro arg_cong [where f = "map _"] filter_cong) auto
    with kss ks(1,2) show ?case by (intro exI [of _ "ks # kss"]) simp
  qed
  then obtain kss where kss: "list_all2 (\<lambda>chunk ks. distinct ks \<and> set ks = kf ` set chunk) chunks kss"
    "filter (\<lambda>r. tuple_key gs r \<in> Inr ` T) (concat outs)
      = concat (map2 (\<lambda>chunk ks. partial_rows_of gs aggs \<kappa> kf chunk (filter (\<lambda>k. k \<in> T) ks)) chunks kss)"
    by blast
  have "plain_columns gs" using assms(3) by (simp add: plain_columns_def)
  from two_phase [OF assms(1,2) this assms(4-7) kss(1) _ assms(10), of T env s threshold pid]
  show ?thesis using assms(9) kss(2) by simp
qed

text \<open>
  C6: A shuffled group-by is a group-by. Let every expression have a value on every row, the
  arguments of Sum and Avg be ints or null (sums of floats depend on the order they are added in)
  and those of Min and Max ints or null, or strings or null; let the group keys be canonical, that
  is, equal in Python only if identical (no 1 beside 1.0 or True, no NaN); and let the output names be
  distinct. Let every map task aggregate its partition into partial rows, let the shuffle bring the
  partial rows of the keys \<open>T\<close> to one reduce task, in any order, and let that task aggregate them
  into final rows: it yields exactly one row per key of \<open>T\<close> that occurs in any partition,
  holding the key and each aggregate's value over all the rows with that key.
\<close>

theorem two_phase_group_by:
  assumes "rmap unwrap_aggregate as = Inr aggs" "list_all is_aggregate aggs" "list_all is_column gs"
    and "distinct (map output_name gs @ state_names (length aggs))"
    and "distinct (map output_name gs @ map output_name as)"
    and "\<forall>chunk \<in> set chunks. \<forall>r \<in> set chunk. vec_ok \<kappa> aggs r \<and> tuple_key gs r = Inr (kf r)"
    and "canonical (kf ` set (concat chunks))"
    and "list_all2 (map_side_output gs as) chunks outs"
    and "mset input = mset (filter (\<lambda>r. tuple_key gs r \<in> Inr ` T) (concat outs))"
    and "records parent = gen_of input"
  shows "\<exists>p ks. aggregate_partition env gs as s False threshold pid parent = Inr p
    \<and> distinct ks \<and> set ks = kf ` set (concat chunks) \<inter> T
    \<and> part_to_list p = rmap (\<lambda>k. final_row (map output_name gs) (map output_name as) \<kappa> aggs k
                               (group_rows kf (concat chunks) k)) ks"
proof (rule two_phase_shuffled [OF assms(1-7) _ assms(9,10)])
  have side: "map_side_rows gs aggs \<kappa> kf chunk out"
    if "chunk \<in> set chunks" "map_side_output gs as chunk out" for chunk out
  proof -
    have "\<forall>r \<in> set chunk. vec_ok \<kappa> aggs r \<and> tuple_key gs r = Inr (kf r)" using assms(6) that(1) by blast
    moreover have "canonical (kf ` set chunk)" by (rule canonical_subset [OF assms(7)]) (use that(1) in auto)
    ultimately show ?thesis
      unfolding map_side_rows_def by (rule map_side_output_rows [OF assms(1,2,4) _ _ that(2)])
  qed
  show "list_all2 (map_side_rows gs aggs \<kappa> kf) chunks outs"
    by (rule list.rel_mono_strong [OF assms(8)]) (rule side)
qed

section \<open>An example\<close>

definition sale :: "string \<Rightarrow> int \<Rightarrow> row" where
  "sale c x = [(''c'', VStr c), (''x'', VInt x)]"

definition sample_key :: "row \<Rightarrow> pval list" where
  "sample_key r = [value_at (Column ''c'') r]"

definition sample_aggs :: "expr list" where
  "sample_aggs = [Alias (SumOf (Column ''x'')) ''s'', CountStar]"

definition sample_chunks :: "row list list" where
  "sample_chunks = [[sale ''u'' 1, sale ''v'' 2, sale ''u'' 3], [sale ''u'' 5]]"

definition state_row :: "string \<Rightarrow> int \<Rightarrow> int \<Rightarrow> row" where
  "state_row c x n =
     [(''c'', VStr c), (''__agg_state_0'', VInt x), (''__agg_state_1'', VInt n)]"

lemma sample_facts:
  "rmap unwrap_aggregate sample_aggs = Inr [SumOf (Column ''x''), CountStar]"
  "list_all is_aggregate [SumOf (Column ''x''), CountStar]"
  "list_all is_column [Column ''c'']"
  "distinct (map output_name [Column ''c''] @ state_names (length [SumOf (Column ''x''), CountStar]))"
  "distinct (map output_name [Column ''c''] @ map output_name sample_aggs)"
  "\<forall>chunk \<in> set sample_chunks. \<forall>r \<in> set chunk.
     vec_ok (\<lambda>_. Ints) [SumOf (Column ''x''), CountStar] r \<and> tuple_key [Column ''c''] r = Inr (sample_key r)"
  "canonical (sample_key ` set (concat sample_chunks))"
  by code_simp+

lemma map_side_outputI:
  assumes "rbind (aggregate_partition sample_env gs as [] True threshold 0 (sample_partition chunk))
      part_to_list = Inr out"
  shows "map_side_output gs as chunk out"
proof -
  from assms obtain p where "aggregate_partition sample_env gs as [] True threshold 0 (sample_partition chunk)
      = Inr p" "part_to_list p = Inr out" by (auto simp: rbind_Inr_iff)
  moreover have "records (sample_partition chunk) = gen_of chunk" by (simp add: sample_partition_def)
  ultimately show ?thesis unfolding map_side_output_def by blast
qed

text \<open>With a threshold of 100 bytes the first map task spills once.\<close>

lemma sample_run:
  "rbind (aggregate_partition sample_env [Column ''c''] sample_aggs [] True 100 0
     (sample_partition [sale ''u'' 1, sale ''v'' 2, sale ''u'' 3])) part_to_list
   = Inr [state_row ''u'' 4 2, state_row ''v'' 2 1]"
  "rbind (aggregate_partition sample_env [Column ''c''] sample_aggs [] True 100 0
     (sample_partition [sale ''u'' 5])) part_to_list
   = Inr [state_row ''u'' 5 1]"
  by code_simp+

lemma sample_maps:
  "list_all2 (map_side_output [Column ''c''] sample_aggs) sample_chunks
     [[state_row ''u'' 4 2, state_row ''v'' 2 1], [state_row ''u'' 5 1]]"
  using sample_run by (simp add: sample_chunks_def map_side_outputI)

theorem partial_aggregate_correct_witness:
  "\<exists>p. aggregate_partition sample_env [Column ''c''] sample_aggs [] True 50 0
         (sample_partition [sale ''u'' 1, sale ''u'' 3]) = Inr p
     \<and> part_to_list p = Inr [state_row ''u'' 4 2]"
proof -
  let ?rows = "[sale ''u'' 1, sale ''u'' 3]" and ?aggs = "[SumOf (Column ''x''), CountStar]"
  have rows: "\<forall>r \<in> set ?rows. vec_ok (\<lambda>_. Ints) ?aggs r \<and> tuple_key [Column ''c''] r = Inr (sample_key r)"
    and can: "canonical (sample_key ` set ?rows)"
    and keys: "sample_key ` set ?rows = {[VStr ''u'']}"
    and out: "partial_row (map output_name [Column ''c'']) [VStr ''u'']
        (states_of (\<lambda>_. Ints) ?aggs (group_rows sample_key ?rows [VStr ''u''])) = state_row ''u'' 4 2"
    by code_simp+
  have "records (sample_partition ?rows) = gen_of ?rows" by (simp add: sample_partition_def)
  from partial_aggregate_correct [OF sample_facts(1,2,4) this rows can, of sample_env "[]" 50 0]
  obtain p ks where p: "aggregate_partition sample_env [Column ''c''] sample_aggs [] True 50 0
      (sample_partition ?rows) = Inr p" "distinct ks" "set ks = {[VStr ''u'']}"
      "part_to_list p = Inr (map (\<lambda>k. partial_row (map output_name [Column ''c'']) k
          (states_of (\<lambda>_. Ints) ?aggs (group_rows sample_key ?rows k))) ks)"
    unfolding keys by blast
  from p(2,3) have "ks = [[VStr ''u'']]"
    by (cases ks; cases "tl ks") auto
  with p(1,4) out show ?thesis by simp
qed

theorem two_phase_group_by_witness:
  "\<exists>p. aggregate_partition sample_env [Column ''c''] sample_aggs [] False 50 1
         (sample_partition [state_row ''u'' 5 1, state_row ''u'' 4 2]) = Inr p
     \<and> part_to_list p = Inr [[(''c'', VStr ''u''), (''s'', VInt 9), (''Count(*)'', VInt 3)]]"
proof -
  let ?in = "[state_row ''u'' 5 1, state_row ''u'' 4 2]" and ?T = "{[VStr ''u'']}"
  let ?aggs = "[SumOf (Column ''x''), CountStar]"
  let ?outs = "[[state_row ''u'' 4 2, state_row ''v'' 2 1], [state_row ''u'' 5 1]]"
  have keys: "tuple_key [Column ''c''] (state_row c x n) = Inr [VStr c]" for c x n
    by (simp add: state_row_def tuple_key_def row_get_def)
  have input: "mset ?in = mset (filter (\<lambda>r. tuple_key [Column ''c''] r \<in> Inr ` ?T) (concat ?outs))"
    by (simp add: keys)
  have set: "sample_key ` set (concat sample_chunks) \<inter> ?T = {[VStr ''u'']}"
    and out: "final_row (map output_name [Column ''c'']) (map output_name sample_aggs) (\<lambda>_. Ints) ?aggs
        [VStr ''u''] (group_rows sample_key (concat sample_chunks) [VStr ''u''])
      = Inr [(''c'', VStr ''u''), (''s'', VInt 9), (''Count(*)'', VInt 3)]"
    by code_simp+
  have "records (sample_partition ?in) = gen_of ?in" by (simp add: sample_partition_def)
  from two_phase_group_by [OF sample_facts(1-7) sample_maps input this, of sample_env "[]" 50 1]
  obtain p ks where p: "aggregate_partition sample_env [Column ''c''] sample_aggs [] False 50 1
      (sample_partition ?in) = Inr p" "distinct ks" "set ks = {[VStr ''u'']}"
      "part_to_list p = rmap (\<lambda>k. final_row (map output_name [Column ''c'']) (map output_name sample_aggs)
          (\<lambda>_. Ints) ?aggs k (group_rows sample_key (concat sample_chunks) k)) ks"
    unfolding set by blast
  from p(2,3) have "ks = [[VStr ''u'']]"
    by (cases ks; cases "tl ks") auto
  with p(1,4) out show ?thesis by simp
qed

end
