(* ===== verification/Stages.thy ===== *)
theory Stages
  imports PhysicalPlan
begin

text \<open>
  Stages (\<^verbatim>\<open>execution/stages.py\<close>): cutting a physical plan at its exchanges.  \<open>split\<close> is \<^verbatim>\<open>_split\<close>
  with the list it appends to passed along; \<^verbatim>\<open>_split\<close> returns the very node it was given when
  nothing below was rewritten, and rebuilding a node with its old child gives an equal node, so
  the identity tests of the source are equality here (\<open>split_unchanged\<close>).
\<close>

record stage =
  stage_id :: nat
  stage_plan :: pplan
  stage_partitions :: nat

fun with_child :: "pplan \<Rightarrow> pplan \<Rightarrow> pplan res" where
  "with_child (FilterExec _ e) c = Inr (FilterExec c e)"
| "with_child (ProjectExec _ es s) c = Inr (ProjectExec c es s)"
| "with_child (HashAggregateExec _ gs as s part t) c = Inr (HashAggregateExec c gs as s part t)"
| "with_child (SortExec _ es asc s t) c = Inr (SortExec c es asc s t)"
| "with_child _ c = Inl NotImplementedError"

definition close_stage :: "pplan \<Rightarrow> nat \<Rightarrow> stage list \<Rightarrow> stage list" where
  "close_stage p n sts = sts @ [\<lparr>stage_id = length sts, stage_plan = p, stage_partitions = n\<rparr>]"

definition split_child ::
    "pplan \<Rightarrow> pplan \<Rightarrow> (pplan \<times> nat \<times> stage list) res \<Rightarrow> (pplan \<times> nat \<times> stage list) res" where
  "split_child p c r =
     rbind r (\<lambda>(cf, n, sts).
       if cf = c then Inr (p, n, sts) else rbind (with_child p cf) (\<lambda>p'. Inr (p', n, sts)))"

fun split :: "pplan \<Rightarrow> stage list \<Rightarrow> (pplan \<times> nat \<times> stage list) res" where
  "split (ScanExec d name) sts = Inr (ScanExec d name, num_partitions d, sts)"
| "split (ExchangeExec c n es broadcast bounds) sts =
     rbind (split c sts) (\<lambda>(cf, k, sts1).
       let sts2 = close_stage (ShuffleWriteExec cf n es bounds) k sts1
       in Inr (ShuffleReadExec (length sts2 - 1) (pschema (ExchangeExec c n es broadcast bounds)) broadcast,
               n, sts2))"
| "split (HashJoinExec l r lkeys rkeys on s) sts =
     rbind (split l sts) (\<lambda>(lf, n, sts1). rbind (split r sts1) (\<lambda>(rf, _, sts2).
       if lf = l \<and> rf = r then Inr (HashJoinExec l r lkeys rkeys on s, n, sts2)
       else Inr (HashJoinExec lf rf lkeys rkeys on s, n, sts2)))"
| "split (FilterExec c e) sts = split_child (FilterExec c e) c (split c sts)"
| "split (ProjectExec c es s) sts = split_child (ProjectExec c es s) c (split c sts)"
| "split (HashAggregateExec c gs as s part t) sts =
     split_child (HashAggregateExec c gs as s part t) c (split c sts)"
| "split (SortExec c es asc s t) sts = split_child (SortExec c es asc s t) c (split c sts)"
| "split (ShuffleWriteExec c n es bounds) sts =
     split_child (ShuffleWriteExec c n es bounds) c (split c sts)"
| "split (ShuffleReadExec i s broadcast) sts = Inl NotImplementedError"

definition build_stages :: "pplan \<Rightarrow> stage list res" where
  "build_stages p = rbind (split p []) (\<lambda>(final, n, sts). Inr (close_stage final n sts))"

section \<open>What the planner hands over\<close>

text \<open>A plan no part of which has been split yet.\<close>

fun unsplit :: "pplan \<Rightarrow> bool" where
  "unsplit (ScanExec _ _) = True"
| "unsplit (FilterExec c _) = unsplit c"
| "unsplit (ProjectExec c _ _) = unsplit c"
| "unsplit (HashAggregateExec c _ _ _ _ _) = unsplit c"
| "unsplit (ExchangeExec c _ _ _ _) = unsplit c"
| "unsplit (HashJoinExec l r _ _ _ _) = (unsplit l \<and> unsplit r)"
| "unsplit (SortExec c _ _ _ _) = unsplit c"
| "unsplit _ = False"

text \<open>The number of partitions a plan's output has.\<close>

fun plan_partitions :: "pplan \<Rightarrow> nat" where
  "plan_partitions (ScanExec d _) = num_partitions d"
| "plan_partitions (ExchangeExec _ n _ _ _) = n"
| "plan_partitions (HashJoinExec l _ _ _ _ _) = plan_partitions l"
| "plan_partitions (FilterExec c _) = plan_partitions c"
| "plan_partitions (ProjectExec c _ _) = plan_partitions c"
| "plan_partitions (HashAggregateExec c _ _ _ _ _) = plan_partitions c"
| "plan_partitions (SortExec c _ _ _ _) = plan_partitions c"
| "plan_partitions (ShuffleWriteExec c _ _ _) = plan_partitions c"
| "plan_partitions (ShuffleReadExec _ _ _) = 0"

fun exchange_count :: "pplan \<Rightarrow> nat" where
  "exchange_count (ExchangeExec c _ _ _ _) = Suc (exchange_count c)"
| "exchange_count (HashJoinExec l r _ _ _ _) = exchange_count l + exchange_count r"
| "exchange_count (FilterExec c _) = exchange_count c"
| "exchange_count (ProjectExec c _ _) = exchange_count c"
| "exchange_count (HashAggregateExec c _ _ _ _ _) = exchange_count c"
| "exchange_count (SortExec c _ _ _ _) = exchange_count c"
| "exchange_count _ = 0"

section \<open>What a stage looks like\<close>

text \<open>
  A fragment may read only from stages before \<open>k\<close>, with the schema that stage writes, and holds no
  exchange and no write.
\<close>

fun fragment_ok :: "stage list \<Rightarrow> nat \<Rightarrow> pplan \<Rightarrow> bool" where
  "fragment_ok sts k (ScanExec _ _) = True"
| "fragment_ok sts k (FilterExec c _) = fragment_ok sts k c"
| "fragment_ok sts k (ProjectExec c _ _) = fragment_ok sts k c"
| "fragment_ok sts k (HashAggregateExec c _ _ _ _ _) = fragment_ok sts k c"
| "fragment_ok sts k (HashJoinExec l r _ _ _ _) = (fragment_ok sts k l \<and> fragment_ok sts k r)"
| "fragment_ok sts k (SortExec c _ _ _ _) = fragment_ok sts k c"
| "fragment_ok sts k (ShuffleReadExec j s _) = (j < k \<and> s = pschema (stage_plan (sts ! j)))"
| "fragment_ok sts k _ = False"

text \<open>The operators a write stage runs before it writes.\<close>

fun written :: "pplan \<Rightarrow> pplan" where
  "written (ShuffleWriteExec c _ _ _) = c"
| "written p = p"

fun is_write :: "pplan \<Rightarrow> bool" where
  "is_write (ShuffleWriteExec _ _ _ _) = True"
| "is_write _ = False"

definition stages_ok :: "stage list \<Rightarrow> bool" where
  "stages_ok sts \<longleftrightarrow> (\<forall>i < length sts. stage_id (sts ! i) = i \<and> is_write (stage_plan (sts ! i))
     \<and> fragment_ok sts i (written (stage_plan (sts ! i))))"

text \<open>Putting the stages back together: a read stands for the exchange it came from.\<close>

fun rejoin :: "pplan list \<Rightarrow> pplan \<Rightarrow> pplan" where
  "rejoin ds (ScanExec d name) = ScanExec d name"
| "rejoin ds (FilterExec c e) = FilterExec (rejoin ds c) e"
| "rejoin ds (ProjectExec c es s) = ProjectExec (rejoin ds c) es s"
| "rejoin ds (HashAggregateExec c gs as s part t) = HashAggregateExec (rejoin ds c) gs as s part t"
| "rejoin ds (ExchangeExec c n es b bounds) = ExchangeExec (rejoin ds c) n es b bounds"
| "rejoin ds (ShuffleWriteExec c n es bounds) = ShuffleWriteExec (rejoin ds c) n es bounds"
| "rejoin ds (HashJoinExec l r lk rk on s) = HashJoinExec (rejoin ds l) (rejoin ds r) lk rk on s"
| "rejoin ds (SortExec c es asc s t) = SortExec (rejoin ds c) es asc s t"
| "rejoin ds (ShuffleReadExec i s b) =
     (case ds ! i of ShuffleWriteExec c n es bounds \<Rightarrow> ExchangeExec c n es b bounds
      | p \<Rightarrow> ShuffleReadExec i s b)"

definition rejoin_stages :: "stage list \<Rightarrow> pplan list" where
  "rejoin_stages sts = foldl (\<lambda>ds st. ds @ [rejoin ds (stage_plan st)]) [] sts"

text \<open>
  The exchanges of a plan in the order in which splitting closes their stages, as the writes that
  they become, each over the plan it was cut from; and the stages that a fragment reads.
\<close>

fun writes :: "pplan \<Rightarrow> pplan list" where
  "writes (ExchangeExec c n es _ bounds) = writes c @ [ShuffleWriteExec c n es bounds]"
| "writes (HashJoinExec l r _ _ _ _) = writes l @ writes r"
| "writes (FilterExec c _) = writes c"
| "writes (ProjectExec c _ _) = writes c"
| "writes (HashAggregateExec c _ _ _ _ _) = writes c"
| "writes (SortExec c _ _ _ _) = writes c"
| "writes _ = []"

fun read_ids :: "pplan \<Rightarrow> nat list" where
  "read_ids (ShuffleReadExec j _ _) = [j]"
| "read_ids (ExchangeExec c _ _ _ _) = read_ids c"
| "read_ids (ShuffleWriteExec c _ _ _) = read_ids c"
| "read_ids (HashJoinExec l r _ _ _ _) = read_ids l @ read_ids r"
| "read_ids (FilterExec c _) = read_ids c"
| "read_ids (ProjectExec c _ _) = read_ids c"
| "read_ids (HashAggregateExec c _ _ _ _ _) = read_ids c"
| "read_ids (SortExec c _ _ _ _) = read_ids c"
| "read_ids (ScanExec _ _) = []"

lemma length_writes [simp]: "length (writes p) = exchange_count p"
  by (induction p) auto

section \<open>Growing the list of stages\<close>

lemma rejoin_stages_snoc [simp]:
  "rejoin_stages (sts @ [st]) = rejoin_stages sts @ [rejoin (rejoin_stages sts) (stage_plan st)]"
  by (simp add: rejoin_stages_def)

lemma rejoin_stages_Nil [simp]: "rejoin_stages [] = []"
  by (simp add: rejoin_stages_def)

lemma length_rejoin_stages [simp]: "length (rejoin_stages sts) = length sts"
  by (induction sts rule: rev_induct) auto

lemma rejoin_stages_append: "\<exists>ys. rejoin_stages (sts @ xs) = rejoin_stages sts @ ys"
proof (induction xs rule: rev_induct)
  case (snoc x xs)
  then obtain ys where "rejoin_stages (sts @ xs) = rejoin_stages sts @ ys" by blast
  then have "rejoin_stages ((sts @ xs) @ [x])
      = rejoin_stages sts @ ys @ [rejoin (rejoin_stages (sts @ xs)) (stage_plan x)]"
    by (simp del: append_assoc)
  then show ?case by auto
qed simp

lemma fragment_ok_extend:
  "fragment_ok sts k p \<Longrightarrow> k \<le> length sts \<Longrightarrow> k \<le> m \<Longrightarrow> fragment_ok (sts @ xs) m p"
  by (induction sts k p rule: fragment_ok.induct) (auto simp: nth_append)

lemma rejoin_extend:
  "fragment_ok sts k p \<Longrightarrow> k \<le> length ds \<Longrightarrow> rejoin (ds @ xs) p = rejoin ds p"
  by (induction sts k p rule: fragment_ok.induct) (auto simp: nth_append)

lemma stages_ok_append:
  assumes "stages_ok sts" and "stage_id st = length sts" "is_write (stage_plan st)"
    "fragment_ok sts (length sts) (written (stage_plan st))"
  shows "stages_ok (sts @ [st])"
proof -
  have "fragment_ok (sts @ [st]) i (written (stage_plan ((sts @ [st]) ! i)))" if "i < Suc (length sts)" for i
    using assms that fragment_ok_extend [of sts i "written (stage_plan (sts ! i))" i "[st]"]
      fragment_ok_extend [of sts "length sts" "written (stage_plan st)" "length sts" "[st]"]
    by (cases "i = length sts") (auto simp: stages_ok_def nth_append less_Suc_eq)
  then show ?thesis using assms by (auto simp: stages_ok_def nth_append less_Suc_eq)
qed

section \<open>What splitting does\<close>

text \<open>The node is rebuilt around the fragment of its child, whatever the identity test says.\<close>

lemma split_child_eq:
  assumes "with_child p c = Inr p"
  shows "split_child p c r = rbind r (\<lambda>(cf, n, sts). rbind (with_child p cf) (\<lambda>p'. Inr (p', n, sts)))"
  using assms by (cases r) (auto simp: split_child_def)

definition split_ok :: "pplan \<Rightarrow> stage list \<Rightarrow> (pplan \<times> nat \<times> stage list) res \<Rightarrow> bool" where
  "split_ok p sts r \<longleftrightarrow> (\<exists>f new. r = Inr (f, plan_partitions p, sts @ new)
     \<and> length new = exchange_count p \<and> stages_ok (sts @ new)
     \<and> fragment_ok (sts @ new) (length (sts @ new)) f \<and> pschema f = pschema p
     \<and> rejoin (rejoin_stages (sts @ new)) f = p
     \<and> rejoin_stages (sts @ new) = rejoin_stages sts @ writes p
     \<and> map stage_partitions new = map plan_partitions (writes p)
     \<and> set (read_ids f) \<subseteq> {length sts ..< length (sts @ new)} \<and> distinct (read_ids f)
     \<and> (\<forall>st \<in> set new. distinct (read_ids (stage_plan st))))"

lemma split_okE:
  assumes "split_ok p sts r"
  obtains f new where "r = Inr (f, plan_partitions p, sts @ new)"
    "length new = exchange_count p" "stages_ok (sts @ new)"
    "fragment_ok (sts @ new) (length (sts @ new)) f" "pschema f = pschema p"
    "rejoin (rejoin_stages (sts @ new)) f = p"
    "rejoin_stages (sts @ new) = rejoin_stages sts @ writes p"
    "map stage_partitions new = map plan_partitions (writes p)"
    "set (read_ids f) \<subseteq> {length sts ..< length (sts @ new)}" "distinct (read_ids f)"
    "\<forall>st \<in> set new. distinct (read_ids (stage_plan st))"
  using assms unfolding split_ok_def by blast

lemma split_correct: "unsplit p \<Longrightarrow> stages_ok sts \<Longrightarrow> split_ok p sts (split p sts)"
proof (induction p arbitrary: sts)
  case (ExchangeExec c n es b bounds)
  then have "split_ok c sts (split c sts)" by simp
  then obtain f new where f: "split c sts = Inr (f, plan_partitions c, sts @ new)"
      "length new = exchange_count c" "stages_ok (sts @ new)"
      "fragment_ok (sts @ new) (length (sts @ new)) f" "pschema f = pschema c"
      "rejoin (rejoin_stages (sts @ new)) f = c"
      "rejoin_stages (sts @ new) = rejoin_stages sts @ writes c"
      "map stage_partitions new = map plan_partitions (writes c)"
      "set (read_ids f) \<subseteq> {length sts ..< length (sts @ new)}" "distinct (read_ids f)"
      "\<forall>st \<in> set new. distinct (read_ids (stage_plan st))"
    by (rule split_okE)
  let ?st = "\<lparr>stage_id = length (sts @ new), stage_plan = ShuffleWriteExec f n es bounds,
               stage_partitions = plan_partitions c\<rparr>"
  have "stages_ok ((sts @ new) @ [?st])"
    by (rule stages_ok_append [OF f(3)]) (use f in auto)
  moreover have "rejoin (rejoin_stages ((sts @ new) @ [?st]))
      (ShuffleReadExec (length (sts @ new)) (pschema c) b) = ExchangeExec c n es b bounds"
    unfolding rejoin_stages_snoc by (simp add: nth_append f(6) del: append_assoc)
  moreover have "rejoin_stages ((sts @ new) @ [?st]) = rejoin_stages sts @ writes (ExchangeExec c n es b bounds)"
    unfolding rejoin_stages_snoc using f(6,7) by simp
  moreover have "split (ExchangeExec c n es b bounds) sts
      = Inr (ShuffleReadExec (length (sts @ new)) (pschema c) b, n, (sts @ new) @ [?st])"
    using f(1) by (simp add: close_stage_def)
  ultimately show ?case
    using f by (auto simp: split_ok_def nth_append intro!: exI [of _ "new @ [?st]"])
next
  case (HashJoinExec l r lk rk on s)
  then have "split_ok l sts (split l sts)" by simp
  then obtain lf new where l: "split l sts = Inr (lf, plan_partitions l, sts @ new)"
      "length new = exchange_count l" "stages_ok (sts @ new)"
      "fragment_ok (sts @ new) (length (sts @ new)) lf" "rejoin (rejoin_stages (sts @ new)) lf = l"
      "rejoin_stages (sts @ new) = rejoin_stages sts @ writes l"
      "map stage_partitions new = map plan_partitions (writes l)"
      "set (read_ids lf) \<subseteq> {length sts ..< length (sts @ new)}" "distinct (read_ids lf)"
      "\<forall>st \<in> set new. distinct (read_ids (stage_plan st))"
    by (rule split_okE)
  from HashJoinExec.IH(2) [OF _ l(3)] HashJoinExec.prems
  have "split_ok r (sts @ new) (split r (sts @ new))" by simp
  then obtain rf new' where
      r: "split r (sts @ new) = Inr (rf, plan_partitions r, (sts @ new) @ new')"
      "length new' = exchange_count r" "stages_ok ((sts @ new) @ new')"
      "fragment_ok ((sts @ new) @ new') (length ((sts @ new) @ new')) rf"
      "rejoin (rejoin_stages ((sts @ new) @ new')) rf = r"
      "rejoin_stages ((sts @ new) @ new') = rejoin_stages (sts @ new) @ writes r"
      "map stage_partitions new' = map plan_partitions (writes r)"
      "set (read_ids rf) \<subseteq> {length (sts @ new) ..< length ((sts @ new) @ new')}" "distinct (read_ids rf)"
      "\<forall>st \<in> set new'. distinct (read_ids (stage_plan st))"
    by (rule split_okE)
  obtain ys where ys: "rejoin_stages ((sts @ new) @ new') = rejoin_stages (sts @ new) @ ys"
    using rejoin_stages_append by blast
  have "rejoin (rejoin_stages ((sts @ new) @ new')) lf = l"
    unfolding ys by (subst rejoin_extend [OF l(4)]) (use l(5) in auto)
  moreover have "fragment_ok ((sts @ new) @ new') (length ((sts @ new) @ new')) lf"
    by (rule fragment_ok_extend [OF l(4)]) auto
  moreover have "set (read_ids lf) \<inter> set (read_ids rf) = {}"
    using l(8) r(8) by fastforce
  moreover have "split (HashJoinExec l r lk rk on s) sts
      = Inr (HashJoinExec lf rf lk rk on s, plan_partitions l, sts @ new @ new')"
    using l(1) r(1) by simp
  moreover have "set (read_ids lf) \<union> set (read_ids rf) \<subseteq> {length sts ..< length (sts @ new @ new')}"
    using l(8) r(8) by fastforce
  ultimately show ?case
    unfolding split_ok_def using l r
    by (intro exI [of _ "HashJoinExec lf rf lk rk on s"] exI [of _ "new @ new'"]) auto
qed (fastforce simp: split_ok_def split_child_eq)+

lemma unsplit_written: "unsplit p \<Longrightarrow> fragment_ok sts k f \<Longrightarrow> written f = f"
  by (cases f) auto

text \<open>
  The identity tests of the source: a node comes back unchanged exactly when there is no exchange
  below it.
\<close>

lemma fragment_no_exchange: "fragment_ok sts k f \<Longrightarrow> \<not> has_exchange f"
  by (induction sts k f rule: fragment_ok.induct) auto

lemma split_no_exchange:
  "unsplit p \<Longrightarrow> \<not> has_exchange p \<Longrightarrow> split p sts = Inr (p, plan_partitions p, sts)"
  by (induction p arbitrary: sts) (auto simp: split_child_def)

lemma split_unchanged:
  assumes "unsplit p" "stages_ok sts" "split p sts = Inr (f, n, sts')"
  shows "f = p \<longleftrightarrow> \<not> has_exchange p"
  using split_correct [OF assms(1,2)] assms(3) fragment_no_exchange split_no_exchange [OF assms(1), of sts]
  by (auto simp: split_ok_def)

text \<open>
  C22: Splitting never fails on a planner's plan, and its stages are well formed: there is one more
  than the plan has exchanges, stage \<open>i\<close> has id \<open>i\<close>, only the last does not end in a shuffle write,
  no exchange is left, every shuffle read refers to an earlier stage and has the schema of what
  that stage writes, and the last stage has as many partitions as the plan's output.
\<close>

theorem build_stages_wf:
  assumes "unsplit p"
  shows "\<exists>sts f. build_stages p
      = Inr (sts @ [\<lparr>stage_id = exchange_count p, stage_plan = f, stage_partitions = plan_partitions p\<rparr>])
    \<and> length sts = exchange_count p
    \<and> (\<forall>i < length sts. stage_id (sts ! i) = i \<and> is_write (stage_plan (sts ! i))
         \<and> fragment_ok sts i (written (stage_plan (sts ! i))))
    \<and> fragment_ok sts (length sts) f \<and> pschema f = pschema p"
proof -
  have "stages_ok []" by (simp add: stages_ok_def)
  from split_correct [OF assms this] obtain f sts where
    "split p [] = Inr (f, plan_partitions p, sts)" "length sts = exchange_count p" "stages_ok sts"
    "fragment_ok sts (length sts) f" "pschema f = pschema p"
    by (auto simp: split_ok_def)
  then show ?thesis by (auto simp: build_stages_def close_stage_def stages_ok_def)
qed

definition sample_shuffle_plan :: pplan where
  "sample_shuffle_plan =
     HashJoinExec (ExchangeExec (FilterExec (ScanExec sample_dataset ''t'') (IsNotNull (Column ''a''))) 2 [Column ''a''] False None)
       (ExchangeExec (ScanExec sample_dataset ''u'') 2 [Column ''a''] False None)
       [Column ''a''] [Column ''a''] [''a''] (ds_schema sample_dataset)"

theorem build_stages_wf_witness:
  "\<exists>sts f. build_stages sample_shuffle_plan
      = Inr (sts @ [\<lparr>stage_id = exchange_count sample_shuffle_plan, stage_plan = f,
                     stage_partitions = plan_partitions sample_shuffle_plan\<rparr>])
    \<and> length sts = 2 \<and> fragment_ok sts 2 f"
proof -
  have "unsplit sample_shuffle_plan" "exchange_count sample_shuffle_plan = 2"
    by (simp_all add: sample_shuffle_plan_def)
  with build_stages_wf [OF this(1)] show ?thesis by metis
qed

text \<open>
  C23: Splitting loses nothing: putting the last stage's plan back together, with the exchange of
  the stage it came from in place of every shuffle read, gives the plan that was split.
\<close>

theorem build_stages_round_trip:
  assumes "unsplit p"
  shows "\<exists>sts. build_stages p = Inr sts \<and> last (rejoin_stages sts) = p"
proof -
  have "stages_ok []" by (simp add: stages_ok_def)
  from split_correct [OF assms this] obtain f sts where
    "split p [] = Inr (f, plan_partitions p, sts)" "rejoin (rejoin_stages sts) f = p"
    by (auto simp: split_ok_def)
  then show ?thesis by (auto simp: build_stages_def close_stage_def)
qed

theorem build_stages_round_trip_witness:
  "\<exists>sts. build_stages sample_shuffle_plan = Inr sts \<and> last (rejoin_stages sts) = sample_shuffle_plan"
  by (rule build_stages_round_trip) (simp add: sample_shuffle_plan_def)

end
