(* ===== verification/Worker.thy ===== *)
theory Worker
  imports Operators
begin

text \<open>
  Tasks (\<^verbatim>\<open>execution/tasks.py\<close>), what a worker does with one (\<^verbatim>\<open>execution/worker.py\<close>), and the
  metrics of a stage (\<^verbatim>\<open>execution/metrics.py\<close>).  Clock and CPU readings are left out of the metrics;
  the resident memory that \<^verbatim>\<open>psutil\<close> reports, when it is installed, is a parameter.
\<close>

section \<open>Tasks and their results\<close>

record task =
  task_id :: nat
  task_stage_id :: nat
  task_partition_id :: nat
  task_plan :: pplan
  shuffle_root_dir :: "string option"
  shuffle_blocks :: blocks_by_stage

datatype task_state = PENDING | RUNNING | SUCCESS | FAILED | RETRYING | CANCELLED

record task_metrics =
  input_records :: "nat option"
  output_records :: nat
  output_bytes :: nat
  shuffle_bytes :: nat
  peak_memory_bytes :: "nat option"

definition default_metrics :: task_metrics where
  "default_metrics = \<lparr>input_records = None, output_records = 0, output_bytes = 0, shuffle_bytes = 0,
     peak_memory_bytes = None\<rparr>"

record task_result =
  result_task_id :: nat
  result_state :: task_state
  result_rows :: "row list"
  result_metrics :: task_metrics
  result_error :: "py_error option"
  result_blocks :: "block_meta list"
  missing_shuffle_stage_id :: "nat option"

section \<open>Counting a task's input\<close>

definition leaf_record_count :: "pplan \<Rightarrow> task \<Rightarrow> nat option res" where
  "leaf_record_count leaf t =
     (case leaf of
        ScanExec d _ \<Rightarrow> rbind (ds_partition d (task_partition_id t)) (\<lambda>p. Inr (part_row_count p))
      | ShuffleReadExec stage _ _ \<Rightarrow>
          Inr (case shuffle_blocks t of
                 None \<Rightarrow> None
               | Some m \<Rightarrow> map_option (\<lambda>bs. sum_list (map record_count bs)) (m stage))
      | _ \<Rightarrow> Inr None)"

text \<open>\<^verbatim>\<open>sum(known) if known else None\<close>\<close>

definition sum_known_int :: "nat option list \<Rightarrow> nat option" where
  "sum_known_int values =
     (let known = map the (filter (\<lambda>v. v \<noteq> None) values)
      in if known = [] then None else Some (sum_list known))"

definition max_known :: "nat option list \<Rightarrow> nat option" where
  "max_known values =
     (let known = map the (filter (\<lambda>v. v \<noteq> None) values)
      in if known = [] then None else Some (Max (set known)))"

definition input_record_count :: "task \<Rightarrow> nat option res" where
  "input_record_count t =
     rbind (rmap (\<lambda>leaf. leaf_record_count leaf t) (leaves (task_plan t))) (\<lambda>counts. Inr (sum_known_int counts))"

definition leaf_read_bytes :: "(nat \<Rightarrow> block_meta list option) \<Rightarrow> pplan \<Rightarrow> nat" where
  "leaf_read_bytes m leaf =
     (case leaf of
        ShuffleReadExec stage _ _ \<Rightarrow>
          (case m stage of Some bs \<Rightarrow> sum_list (map byte_length bs) | None \<Rightarrow> 0)
      | _ \<Rightarrow> 0)"

definition shuffle_read_bytes :: "task \<Rightarrow> nat" where
  "shuffle_read_bytes t =
     (case shuffle_blocks t of
        None \<Rightarrow> 0
      | Some m \<Rightarrow> sum_list (map (leaf_read_bytes m) (leaves (task_plan t))))"

definition estimate_bytes :: "(pval \<Rightarrow> nat) \<Rightarrow> row list \<Rightarrow> nat" where
  "estimate_bytes sz rows = sum_list (map (\<lambda>r. sum_list (map sz (row_values r))) rows)"

section \<open>Executing a task\<close>

definition success_result ::
    "task \<Rightarrow> row list \<Rightarrow> block_meta list \<Rightarrow> nat option \<Rightarrow> nat \<Rightarrow> nat \<Rightarrow> nat \<Rightarrow> task_result" where
  "success_result t rows blocks n_in n_out out_bytes shuffled =
     \<lparr>result_task_id = task_id t, result_state = SUCCESS, result_rows = rows,
      result_metrics = \<lparr>input_records = n_in, output_records = n_out, output_bytes = out_bytes,
        shuffle_bytes = shuffled, peak_memory_bytes = None\<rparr>,
      result_error = None, result_blocks = blocks, missing_shuffle_stage_id = None\<rparr>"

definition execute_normal_task :: "'b env \<Rightarrow> task \<Rightarrow> task_result res" where
  "execute_normal_task env t =
     rbind (execute_partition env (task_plan t) (task_partition_id t) (shuffle_blocks t)) (\<lambda>p.
     rbind (part_to_list p) (\<lambda>rows.
     rbind (input_record_count t) (\<lambda>n.
       Inr (success_result t rows [] n (length rows) (estimate_bytes (env_getsizeof env) rows)
              (shuffle_read_bytes t)))))"

text \<open>
  The key function and the partitioner of a write: a range exchange has exactly one partition
  expression and its partitioner compares that scalar; a hash exchange hashes the tuple.
\<close>

definition write_key_fn :: "expr list \<Rightarrow> pval list option \<Rightarrow> (row \<Rightarrow> pval res) res" where
  "write_key_fn es bounds =
     (case bounds of
        Some _ \<Rightarrow> (case es of [e] \<Rightarrow> Inr (eval e) | _ \<Rightarrow> Inl ValueError)
      | None \<Rightarrow> Inr (\<lambda>r. rbind (tuple_key es r) (\<lambda>k. Inr (VTuple k))))"

definition write_partitioner :: "nat \<Rightarrow> pval list option \<Rightarrow> partitioner res" where
  "write_partitioner n bounds =
     (case bounds of Some bs \<Rightarrow> mk_range_partitioner n bs | None \<Rightarrow> mk_hash_partitioner n)"

definition execute_shuffle_write_task ::
    "'b env \<Rightarrow> task \<Rightarrow> pplan \<Rightarrow> nat \<Rightarrow> expr list \<Rightarrow> pval list option \<Rightarrow> 'b files \<times> task_result res" where
  "execute_shuffle_write_task env t c n es bounds =
     (case rbind (case shuffle_root_dir t of None \<Rightarrow> Inl ValueError | Some rdir \<Rightarrow> Inr rdir) (\<lambda>rdir.
           rbind (execute_partition env c (task_partition_id t) (shuffle_blocks t)) (\<lambda>parent.
           rbind (part_to_list parent) (\<lambda>rows.
           rbind (write_key_fn es bounds) (\<lambda>key_fn.
           rbind (write_partitioner n bounds) (\<lambda>p. Inr (rdir, rows, key_fn, p)))))) of
        Inl e \<Rightarrow> (env_disk env, Inl e)
      | Inr (rdir, rows, key_fn, p) \<Rightarrow>
          (case write_shuffle_partition (env_codec env) rdir (task_stage_id t) (task_id t) rows key_fn
                  (env_md5 env) p (env_disk env) of
             (disk, m) \<Rightarrow> (disk, rbind m (\<lambda>blocks. rbind (input_record_count t) (\<lambda>n_in.
               Inr (success_result t [] blocks n_in 0 0 (sum_list (map byte_length blocks))))))))"

definition failed_result :: "task \<Rightarrow> py_error \<Rightarrow> nat option \<Rightarrow> nat option \<Rightarrow> task_result" where
  "failed_result t e missing rss =
     \<lparr>result_task_id = task_id t, result_state = FAILED, result_rows = [],
      result_metrics = default_metrics\<lparr>peak_memory_bytes := rss\<rparr>, result_error = Some e,
      result_blocks = [], missing_shuffle_stage_id = missing\<rparr>"

text \<open>Exceptions end as failed results; only missing shuffle data names the stage it misses.\<close>

definition report :: "task \<Rightarrow> nat option \<Rightarrow> task_result res \<Rightarrow> task_result" where
  "report t rss m =
     (case m of
        Inr r \<Rightarrow> r\<lparr>result_metrics := (result_metrics r)\<lparr>peak_memory_bytes := rss\<rparr>\<rparr>
      | Inl (MissingShuffleDataError stage target) \<Rightarrow>
          failed_result t (MissingShuffleDataError stage target) (Some stage) rss
      | Inl e \<Rightarrow> failed_result t e None rss)"

definition execute_task :: "'b env \<Rightarrow> nat option \<Rightarrow> task \<Rightarrow> nat \<Rightarrow> 'b files \<Rightarrow> 'b files \<times> task_result" where
  "execute_task env rss t attempt disk =
     (let env' = env\<lparr>env_disk := disk\<rparr>
      in case task_plan t of
           ShuffleWriteExec c n es bounds \<Rightarrow>
             (case execute_shuffle_write_task env' t c n es bounds of
                (disk', m) \<Rightarrow> (disk', report t rss m))
         | _ \<Rightarrow> (disk, report t rss (execute_normal_task env' t)))"

section \<open>Stage metrics\<close>

record stage_metrics =
  sm_stage_id :: nat
  sm_num_tasks :: nat
  sm_retried_tasks :: nat
  sm_recomputed :: bool
  total_input_records :: "nat option"
  total_output_records :: nat
  total_output_bytes :: nat
  total_shuffle_bytes :: nat
  max_peak_memory_bytes :: "nat option"

definition from_task_metrics :: "nat \<Rightarrow> task_metrics list \<Rightarrow> nat \<Rightarrow> bool \<Rightarrow> stage_metrics" where
  "from_task_metrics stage ms retried recomputed =
     \<lparr>sm_stage_id = stage, sm_num_tasks = length ms, sm_retried_tasks = retried,
      sm_recomputed = recomputed,
      total_input_records = sum_known_int (map input_records ms),
      total_output_records = sum_list (map output_records ms),
      total_output_bytes = sum_list (map output_bytes ms),
      total_shuffle_bytes = sum_list (map shuffle_bytes ms),
      max_peak_memory_bytes = max_known (map peak_memory_bytes ms)\<rparr>"

section \<open>Lemmas\<close>

lemma report_state: "result_state (report t rss (Inr r)) = result_state r"
  by (simp add: report_def)

lemma report_failed [simp]: "result_state (report t rss (Inl e)) = FAILED"
  by (auto simp: report_def failed_result_def split: py_error.splits)

lemma success_result_simps [simp]:
  "result_state (success_result t rows bs a b c d) = SUCCESS"
  "result_rows (success_result t rows bs a b c d) = rows"
  "result_blocks (success_result t rows bs a b c d) = bs"
  "result_task_id (success_result t rows bs a b c d) = task_id t"
  by (simp_all add: success_result_def)

end
