(* ===== verification/Scheduler.thy ===== *)
theory Scheduler
  imports Stages Worker
begin

text \<open>
  The scheduler (\<^verbatim>\<open>execution/scheduler.py\<close>): a stage's tasks are run in batches until each has
  succeeded or used up its retries; a task whose shuffle input is missing triggers one recomputation
  of the stage that wrote it.

  The function that runs a task is a parameter, as it is of \<^verbatim>\<open>LocalScheduler\<close>; it acts on a world
  \<open>'w\<close> (the disk, and whatever else a fault may change).  Batches are run task by task, which is
  what \<^verbatim>\<open>num_workers == 1\<close> does; WorkerPool shows that a pool of workers does the same.  The recursion of \<^verbatim>\<open>_run_stage\<close> through the recovery back to itself,
  and the \<^verbatim>\<open>while\<close> loop, are bounded by fuel; \<open>None\<close> means that it ran out, and
  \<open>run_plan_terminates\<close> shows that \<open>plan_fuel\<close> is always enough.
\<close>

type_synonym 'w run_task = "task \<Rightarrow> nat \<Rightarrow> 'w \<Rightarrow> 'w \<times> task_result"

record 'w sched =
  sc_manager :: shuffle_manager
  sc_next_id :: nat
  sc_recomputed :: "nat list"
  sc_metrics :: "stage_metrics list"
  sc_world :: 'w

text \<open>A computation of the scheduler: out of fuel, or the state it leaves and its result.\<close>

type_synonym ('w, 'a) run = "('w sched \<times> 'a res) option"

definition run_bind :: "('w, 'a) run \<Rightarrow> ('w sched \<Rightarrow> 'a \<Rightarrow> ('w, 'b) run) \<Rightarrow> ('w, 'b) run" where
  "run_bind m f =
     (case m of
        None \<Rightarrow> None
      | Some (sc, Inl e) \<Rightarrow> Some (sc, Inl e)
      | Some (sc, Inr x) \<Rightarrow> f sc x)"

lemma run_bind_simps [simp]:
  "run_bind None f = None"
  "run_bind (Some (sc, Inl e)) f = Some (sc, Inl e)"
  "run_bind (Some (sc, Inr x)) f = f sc x"
  by (simp_all add: run_bind_def)

lemma run_bind_Some_iff:
  "run_bind m f = Some (sc, r) \<longleftrightarrow>
     (\<exists>e. m = Some (sc, Inl e) \<and> r = Inl e) \<or> (\<exists>sc1 x. m = Some (sc1, Inr x) \<and> f sc1 x = Some (sc, r))"
  by (auto simp: run_bind_def split: option.splits sum.splits)

section \<open>Resolving shuffle input\<close>

definition read_leaves :: "pplan \<Rightarrow> pplan list" where
  "read_leaves p = filter (\<lambda>l. case l of ShuffleReadExec _ _ _ \<Rightarrow> True | _ \<Rightarrow> False) (leaves p)"

definition resolve_leaf ::
    "nat \<Rightarrow> shuffle_manager \<Rightarrow> (nat \<Rightarrow> block_meta list option) \<Rightarrow> pplan \<Rightarrow> (nat \<Rightarrow> block_meta list option)" where
  "resolve_leaf pid m d leaf =
     (case leaf of
        ShuffleReadExec stage _ broadcast \<Rightarrow> d(stage \<mapsto> blocks_for m stage (if broadcast then 0 else pid))
      | _ \<Rightarrow> d)"

definition resolve_shuffle_blocks :: "pplan \<Rightarrow> nat \<Rightarrow> shuffle_manager \<Rightarrow> blocks_by_stage" where
  "resolve_shuffle_blocks p pid m =
     (if read_leaves p = [] then None
      else Some (foldl (resolve_leaf pid m) (\<lambda>_. None) (read_leaves p)))"

section \<open>Running a batch\<close>

fun run_batch :: "'w run_task \<Rightarrow> (task \<times> nat) list \<Rightarrow> 'w \<Rightarrow> 'w \<times> task_result list" where
  "run_batch run [] w = (w, [])"
| "run_batch run ((t, attempt) # batch) w =
     (let (w1, r) = run t attempt w; (w2, rs) = run_batch run batch w1 in (w2, r # rs))"

lemma run_batch_length: "run_batch run batch w = (w', rs) \<Longrightarrow> length rs = length batch"
proof (induction batch arbitrary: w w' rs)
  case (Cons ta batch)
  then show ?case by (cases ta) (auto split: prod.splits)
qed simp

definition make_tasks :: "stage \<Rightarrow> 'w sched \<Rightarrow> task list \<times> 'w sched" where
  "make_tasks st sc =
     (map (\<lambda>pid. \<lparr>task_id = sc_next_id sc + pid, task_stage_id = stage_id st, task_partition_id = pid,
                  task_plan = stage_plan st, shuffle_root_dir = Some (root_dir (sc_manager sc)),
                  shuffle_blocks = resolve_shuffle_blocks (stage_plan st) pid (sc_manager sc)\<rparr>)
        [0..<stage_partitions st],
      sc\<lparr>sc_next_id := sc_next_id sc + stage_partitions st\<rparr>)"

section \<open>Recovery and retries\<close>

text \<open>
  \<^verbatim>\<open>_try_recover_missing_shuffle\<close>; \<open>rerun\<close> is \<^verbatim>\<open>_run_stage(..., recomputed=True)\<close>.
\<close>

definition try_recover ::
    "(stage \<Rightarrow> 'w sched \<Rightarrow> ('w, task_result list) run) \<Rightarrow> (nat \<Rightarrow> stage option) \<Rightarrow> task \<Rightarrow> nat \<Rightarrow> 'w sched
     \<Rightarrow> ('w, task option) run" where
  "try_recover rerun stages_by_id t missing sc =
     (if missing \<in> set (sc_recomputed sc) then Some (sc, Inr None)
      else case stages_by_id missing of
             None \<Rightarrow> Some (sc, Inr None)
           | Some st \<Rightarrow>
               run_bind (rerun st (sc\<lparr>sc_recomputed := missing # sc_recomputed sc\<rparr>)) (\<lambda>sc' _.
                 Some (sc', Inr (Some (t\<lparr>shuffle_blocks :=
                   resolve_shuffle_blocks (task_plan t) (task_partition_id t) (sc_manager sc')\<rparr>)))))"

record loop_state =
  ls_pending :: "(task \<times> nat) list"
  ls_done :: "(nat \<times> task_result) list"
  ls_retried :: "nat list"

text \<open>What the loop does with a result that it does not recover from.\<close>

definition retry_or_finish :: "nat \<Rightarrow> task \<Rightarrow> nat \<Rightarrow> task_result \<Rightarrow> loop_state \<Rightarrow> loop_state" where
  "retry_or_finish max_retries t attempt r ls =
     (if result_state r = FAILED \<and> attempt < max_retries then
        ls\<lparr>ls_pending := ls_pending ls @ [(t, attempt + 1)],
           ls_retried := (if task_id t \<in> set (ls_retried ls) then ls_retried ls
                          else task_id t # ls_retried ls)\<rparr>
      else ls\<lparr>ls_done := (task_id t, r) # ls_done ls\<rparr>)"

definition settle ::
    "(stage \<Rightarrow> 'w sched \<Rightarrow> ('w, task_result list) run) \<Rightarrow> (nat \<Rightarrow> stage option) \<Rightarrow> nat
     \<Rightarrow> task \<Rightarrow> nat \<Rightarrow> task_result \<Rightarrow> loop_state \<Rightarrow> 'w sched \<Rightarrow> ('w, loop_state) run" where
  "settle rerun stages_by_id max_retries t attempt r ls sc =
     (case (result_state r, missing_shuffle_stage_id r) of
        (FAILED, Some missing) \<Rightarrow>
          run_bind (try_recover rerun stages_by_id t missing sc) (\<lambda>sc' recovered.
            Some (sc', Inr (case recovered of
                Some t' \<Rightarrow> ls\<lparr>ls_pending := ls_pending ls @ [(t', attempt)]\<rparr>
              | None \<Rightarrow> retry_or_finish max_retries t attempt r ls)))
      | _ \<Rightarrow> Some (sc, Inr (retry_or_finish max_retries t attempt r ls)))"

fun settle_all ::
    "(stage \<Rightarrow> 'w sched \<Rightarrow> ('w, task_result list) run) \<Rightarrow> (nat \<Rightarrow> stage option) \<Rightarrow> nat
     \<Rightarrow> ((task \<times> nat) \<times> task_result) list \<Rightarrow> loop_state \<Rightarrow> 'w sched \<Rightarrow> ('w, loop_state) run" where
  "settle_all rerun stages_by_id max_retries [] ls sc = Some (sc, Inr ls)"
| "settle_all rerun stages_by_id max_retries (((t, attempt), r) # xs) ls sc =
     run_bind (settle rerun stages_by_id max_retries t attempt r ls sc) (\<lambda>sc' ls'.
       settle_all rerun stages_by_id max_retries xs ls' sc')"

section \<open>Running a stage\<close>

text \<open>
  What follows the loop: the results in task order, or \<^verbatim>\<open>TaskExecutionError\<close> with the number of
  failed tasks.
\<close>

definition collect_results :: "task list \<Rightarrow> (nat \<times> task_result) list \<Rightarrow> task_result list" where
  "collect_results tasks done = map (\<lambda>t. the (map_of done (task_id t))) tasks"

definition check_failed :: "task_result list \<Rightarrow> task_result list res" where
  "check_failed results =
     (let failed = filter (\<lambda>r. result_state r = FAILED) results
      in if failed \<noteq> [] then Inl (TaskExecutionError (length failed)) else Inr results)"

definition stage_finished ::
    "stage \<Rightarrow> bool \<Rightarrow> nat \<Rightarrow> task_result list \<Rightarrow> 'w sched \<Rightarrow> 'w sched" where
  "stage_finished st recomputed retried results sc =
     (let sc1 = sc\<lparr>sc_metrics := sc_metrics sc
            @ [from_task_metrics (stage_id st) (map result_metrics results) retried recomputed]\<rparr>
      in if is_write (stage_plan st)
         then sc1\<lparr>sc_manager := register_blocks (sc_manager sc1) (stage_id st)
                                   (concat (map result_blocks results))\<rparr>
         else sc1)"

text \<open>\<^verbatim>\<open>_run_stage\<close> around the loop of \<^verbatim>\<open>_run_to_completion\<close>\<close>

definition run_stage_with ::
    "(loop_state \<Rightarrow> 'w sched \<Rightarrow> ('w, loop_state) run) \<Rightarrow> stage \<Rightarrow> bool \<Rightarrow> 'w sched
     \<Rightarrow> ('w, task_result list) run" where
  "run_stage_with loop st recomputed sc =
     (let (tasks, sc1) = make_tasks st sc
      in run_bind (loop \<lparr>ls_pending = map (\<lambda>t. (t, 0)) tasks, ls_done = [], ls_retried = []\<rparr> sc1) (\<lambda>sc2 ls.
           case check_failed (collect_results tasks (ls_done ls)) of
             Inl e \<Rightarrow> Some (sc2, Inl e)
           | Inr results \<Rightarrow>
               Some (stage_finished st recomputed (length (ls_retried ls)) results sc2, Inr results)))"

fun loop ::
    "'w run_task \<Rightarrow> nat \<Rightarrow> (nat \<Rightarrow> stage option) \<Rightarrow> nat \<Rightarrow> loop_state \<Rightarrow> 'w sched \<Rightarrow> ('w, loop_state) run" where
  "loop run max_retries stages_by_id 0 ls sc = None"
| "loop run max_retries stages_by_id (Suc fuel) ls sc =
     (if ls_pending ls = [] then Some (sc, Inr ls)
      else let (w, results) = run_batch run (ls_pending ls) (sc_world sc)
           in run_bind
                (settle_all (\<lambda>st. run_stage_with (loop run max_retries stages_by_id fuel) st True)
                   stages_by_id max_retries (zip (ls_pending ls) results) (ls\<lparr>ls_pending := []\<rparr>)
                   (sc\<lparr>sc_world := w\<rparr>))
                (\<lambda>sc' ls'. loop run max_retries stages_by_id fuel ls' sc'))"

definition run_stage ::
    "'w run_task \<Rightarrow> nat \<Rightarrow> (nat \<Rightarrow> stage option) \<Rightarrow> nat \<Rightarrow> stage \<Rightarrow> bool \<Rightarrow> 'w sched
     \<Rightarrow> ('w, task_result list) run" where
  "run_stage run max_retries stages_by_id fuel =
     run_stage_with (loop run max_retries stages_by_id fuel)"

section \<open>Running a plan\<close>

definition result_partition :: "schema \<Rightarrow> nat \<Rightarrow> task_result \<Rightarrow> partition" where
  "result_partition s i r =
     \<lparr>partition_id = i, part_schema = s, records = gen_of (result_rows r),
      metadata = counted_meta (Some (output_records (result_metrics r)))\<rparr>"

definition results_to_dataset :: "schema \<Rightarrow> task_result list \<Rightarrow> dataset" where
  "results_to_dataset s results =
     \<lparr>ds_schema = s, ds_partitions = map2 (result_partition s) [0..<length results] results\<rparr>"

fun run_stages ::
    "'w run_task \<Rightarrow> nat \<Rightarrow> (nat \<Rightarrow> stage option) \<Rightarrow> nat \<Rightarrow> stage list \<Rightarrow> dataset option \<Rightarrow> 'w sched
     \<Rightarrow> ('w, dataset option) run" where
  "run_stages run max_retries stages_by_id fuel [] final sc = Some (sc, Inr final)"
| "run_stages run max_retries stages_by_id fuel (st # sts) final sc =
     run_bind (run_stage run max_retries stages_by_id fuel st False sc) (\<lambda>sc' results.
       run_stages run max_retries stages_by_id fuel sts
         (if is_write (stage_plan st) then final
          else Some (results_to_dataset (pschema (stage_plan st)) results)) sc')"

definition stages_dict :: "stage list \<Rightarrow> nat \<Rightarrow> stage option" where
  "stages_dict sts = map_of (rev (map (\<lambda>st. (stage_id st, st)) sts))"

text \<open>
  \<open>rdir\<close> is the fresh directory of the new \<^verbatim>\<open>ShuffleManager\<close>.  \<^verbatim>\<open>last_metrics\<close> is the \<open>sc_metrics\<close> of
  the state that is returned, on an error too.
\<close>

definition sched_start :: "string \<Rightarrow> 'w \<Rightarrow> 'w sched" where
  "sched_start rdir w = \<lparr>sc_manager = new_manager rdir, sc_next_id = 0, sc_recomputed = [],
     sc_metrics = [], sc_world = w\<rparr>"

definition run_plan ::
    "'w run_task \<Rightarrow> nat \<Rightarrow> nat \<Rightarrow> string \<Rightarrow> 'w \<Rightarrow> stage list \<Rightarrow> ('w, dataset) run" where
  "run_plan run max_retries fuel rdir w sts =
     run_bind (run_stages run max_retries (stages_dict sts) fuel sts None (sched_start rdir w)) (\<lambda>sc final.
       case final of None \<Rightarrow> Some (sc, Inl AssertionError) | Some d \<Rightarrow> Some (sc, Inr d))"

definition plan_fuel :: "nat \<Rightarrow> stage list \<Rightarrow> nat" where
  "plan_fuel max_retries sts = (length sts + 1) * (max_retries + 2)"

end
