(* ===== verification/SchedulerTermination.thy ===== *)
theory SchedulerTermination
  imports Scheduler
begin

text \<open>
  Termination of the scheduler: the fuel \<open>plan_fuel\<close> is enough for every task function, every list
  of stages and every pattern of failures, because a recovery uses up one of the stages that have
  not been recomputed and every other round uses up one attempt of each pending task.
\<close>

definition recoverable :: "(nat \<Rightarrow> stage option) \<Rightarrow> 'w sched \<Rightarrow> nat" where
  "recoverable stages_by_id sc = card (dom stages_by_id - set (sc_recomputed sc))"

lemma recoverable_antimono:
  "finite (dom d) \<Longrightarrow> set (sc_recomputed sc) \<subseteq> set (sc_recomputed sc') \<Longrightarrow> recoverable d sc' \<le> recoverable d sc"
  unfolding recoverable_def by (intro card_mono) auto

lemma recoverable_add:
  assumes "finite (dom d)" "d i = Some st" "i \<notin> set (sc_recomputed sc)"
    "insert i (set (sc_recomputed sc)) \<subseteq> set (sc_recomputed sc')"
  shows "recoverable d sc' < recoverable d sc"
  unfolding recoverable_def by (rule psubset_card_mono) (use assms in auto)

definition grows :: "'w sched \<Rightarrow> ('w, 'a) run \<Rightarrow> bool" where
  "grows sc m \<longleftrightarrow> (\<forall>sc' r. m = Some (sc', r) \<longrightarrow> set (sc_recomputed sc) \<subseteq> set (sc_recomputed sc'))"

lemma grows_Some [simp]: "grows sc (Some (sc', r)) \<longleftrightarrow> set (sc_recomputed sc) \<subseteq> set (sc_recomputed sc')"
  by (auto simp: grows_def)

lemma grows_trans:
  "grows sc m \<Longrightarrow> (\<And>sc1 x. m = Some (sc1, Inr x) \<Longrightarrow> grows sc1 (f sc1 x)) \<Longrightarrow> grows sc (run_bind m f)"
  unfolding grows_def run_bind_Some_iff by blast

lemma grows_weaken: "grows sc1 m \<Longrightarrow> set (sc_recomputed sc) \<subseteq> set (sc_recomputed sc1) \<Longrightarrow> grows sc m"
  unfolding grows_def by blast

section \<open>Recomputed stages are only added\<close>

lemma try_recover_grows:
  assumes "\<And>st sc. grows sc (rerun st sc)"
  shows "grows sc (try_recover rerun d t missing sc)"
proof -
  have "grows sc (rerun st (sc\<lparr>sc_recomputed := missing # sc_recomputed sc\<rparr>))" for st
    by (rule grows_weaken [OF assms]) auto
  then show ?thesis
    by (auto simp: try_recover_def intro!: grows_trans split: option.splits)
qed

lemma settle_grows:
  assumes "\<And>st sc. grows sc (rerun st sc)"
  shows "grows sc (settle rerun d m t attempt r ls sc)"
  unfolding settle_def
  by (auto intro!: grows_trans try_recover_grows [OF assms] split: task_state.splits option.splits)

lemma settle_all_grows:
  assumes "\<And>st sc. grows sc (rerun st sc)"
  shows "grows sc (settle_all rerun d m xs ls sc)"
proof (induction xs arbitrary: ls sc)
  case (Cons x xs)
  obtain t attempt r where "x = ((t, attempt), r)" by (cases x) auto
  then show ?case using Cons by (auto intro!: grows_trans settle_grows [OF assms])
qed simp

lemma stage_finished_simps [simp]:
  "sc_recomputed (stage_finished st rec n rs sc) = sc_recomputed sc"
  "sc_next_id (stage_finished st rec n rs sc) = sc_next_id sc"
  "sc_world (stage_finished st rec n rs sc) = sc_world sc"
  by (simp_all add: stage_finished_def Let_def)

lemma make_tasks_simps:
  "make_tasks st sc = (ts, sc1) \<Longrightarrow> sc_recomputed sc1 = sc_recomputed sc \<and> sc_metrics sc1 = sc_metrics sc
     \<and> sc_manager sc1 = sc_manager sc \<and> sc_world sc1 = sc_world sc"
  by (auto simp: make_tasks_def)

lemma run_stage_with_grows:
  assumes "\<And>ls sc. grows sc (lp ls sc)"
  shows "grows sc (run_stage_with lp st rec sc)"
proof -
  obtain ts sc1 where mk: "make_tasks st sc = (ts, sc1)" by (cases "make_tasks st sc")
  have "grows sc (lp ls sc1)" for ls
    by (rule grows_weaken [OF assms]) (simp add: make_tasks_simps [OF mk])
  then show ?thesis
    by (auto simp: run_stage_with_def mk intro!: grows_trans split: sum.splits)
qed

lemma loop_grows: "grows sc (loop run m d fuel ls sc)"
proof (induction fuel arbitrary: ls sc)
  case 0
  then show ?case by (simp add: grows_def)
next
  case (Suc fuel)
  obtain w rs where batch: "run_batch run (ls_pending ls) (sc_world sc) = (w, rs)" by (meson surj_pair)
  have "grows sc (settle_all (\<lambda>st. run_stage_with (loop run m d fuel) st True) d m
      (zip (ls_pending ls) rs) (ls\<lparr>ls_pending := []\<rparr>) (sc\<lparr>sc_world := w\<rparr>))"
    by (rule grows_weaken [OF settle_all_grows]) (auto intro!: run_stage_with_grows Suc)
  then show ?case using Suc by (auto simp: batch intro!: grows_trans)
qed

section \<open>One round\<close>

text \<open>What may be pending after a round: the tasks with one more attempt, or a recovery happened.\<close>

definition round_ok ::
    "(nat \<Rightarrow> stage option) \<Rightarrow> nat \<Rightarrow> nat \<Rightarrow> 'w sched \<Rightarrow> (task \<times> nat) list \<Rightarrow> 'w sched \<Rightarrow> bool" where
  "round_ok d m left sc pending sc' \<longleftrightarrow>
     (\<forall>(t, a) \<in> set pending. a \<le> m \<and> (m + 1 - a < left \<or> recoverable d sc' < recoverable d sc))"

lemma settle_round:
  assumes "finite (dom d)" and "\<And>st sc. grows sc (rerun st sc)"
    and total: "\<And>st sc1. recoverable d sc1 < recoverable d sc \<Longrightarrow> rerun st sc1 \<noteq> None"
    and "a \<le> m" "m + 1 - a \<le> left"
  shows "settle rerun d m t a r ls sc \<noteq> None"
    and "settle rerun d m t a r ls sc = Some (sc', Inr ls') \<Longrightarrow>
      \<exists>new. ls_pending ls' = ls_pending ls @ new \<and> round_ok d m left sc new sc'"
proof -
  have plain: "\<exists>new. ls_pending (retry_or_finish m t a r ls) = ls_pending ls @ new \<and> round_ok d m left sc new sc'" for sc'
    using assms(4,5) by (auto simp: retry_or_finish_def round_ok_def)
  have rec: "recoverable d (sc\<lparr>sc_recomputed := i # sc_recomputed sc\<rparr>) < recoverable d sc"
    if "i \<notin> set (sc_recomputed sc)" "d i = Some st" for i st
    by (rule recoverable_add [OF assms(1) that(2,1)]) simp
  have tried: "try_recover rerun d t i sc \<noteq> None" for i
  proof (cases "i \<in> set (sc_recomputed sc)")
    case False
    show ?thesis
    proof (cases "d i")
      case (Some st)
      with total [OF rec [OF False Some], of st] False show ?thesis
        by (auto simp: try_recover_def run_bind_def split: sum.splits)
    qed (use False in \<open>simp add: try_recover_def\<close>)
  qed (simp add: try_recover_def)
  have recovered: "recoverable d sc' < recoverable d sc"
    if "try_recover rerun d t i sc = Some (sc', Inr (Some t'))" for i sc' t'
  proof -
    obtain st x where st: "i \<notin> set (sc_recomputed sc)" "d i = Some st"
        "rerun st (sc\<lparr>sc_recomputed := i # sc_recomputed sc\<rparr>) = Some (sc', Inr x)"
      using \<open>try_recover rerun d t i sc = Some (sc', Inr (Some t'))\<close>
      by (auto simp: try_recover_def run_bind_Some_iff split: if_splits option.splits)
    have "set (i # sc_recomputed sc) \<subseteq> set (sc_recomputed sc')"
      using assms(2) [of "sc\<lparr>sc_recomputed := i # sc_recomputed sc\<rparr>" st] st(3) by (simp add: grows_def)
    then show ?thesis by (intro recoverable_add [OF assms(1) st(2,1)]) simp
  qed
  show "settle rerun d m t a r ls sc \<noteq> None"
  proof
    assume "settle rerun d m t a r ls sc = None"
    then obtain i where "try_recover rerun d t i sc = None"
      by (auto simp: settle_def run_bind_def split: option.splits sum.splits task_state.splits)
    with tried [of i] show False by simp
  qed
  show "\<exists>new. ls_pending ls' = ls_pending ls @ new \<and> round_ok d m left sc new sc'"
    if "settle rerun d m t a r ls sc = Some (sc', Inr ls')"
  proof (cases "\<exists>i t'. result_state r = FAILED \<and> missing_shuffle_stage_id r = Some i
      \<and> try_recover rerun d t i sc = Some (sc', Inr (Some t'))")
    case True
    then obtain i t' where i: "result_state r = FAILED" "missing_shuffle_stage_id r = Some i"
      "try_recover rerun d t i sc = Some (sc', Inr (Some t'))" by blast
    with that have "ls_pending ls' = ls_pending ls @ [(t', a)]" by (auto simp: settle_def)
    with recovered [OF i(3)] assms(4) show ?thesis by (auto simp: round_ok_def)
  next
    case False
    with that have "ls' = retry_or_finish m t a r ls"
      by (auto simp: settle_def run_bind_Some_iff split: option.splits task_state.splits)
    with plain show ?thesis by simp
  qed
qed

lemma settle_all_round:
  assumes "finite (dom d)" and "\<And>st sc. grows sc (rerun st sc)"
    and "\<And>st sc1. recoverable d sc1 < recoverable d sc \<Longrightarrow> rerun st sc1 \<noteq> None"
    and "\<forall>((t, a), r) \<in> set xs. a \<le> m \<and> m + 1 - a \<le> left"
  shows "settle_all rerun d m xs ls sc \<noteq> None
    \<and> (\<forall>sc' ls'. settle_all rerun d m xs ls sc = Some (sc', Inr ls') \<longrightarrow>
        (\<exists>new. ls_pending ls' = ls_pending ls @ new \<and> round_ok d m left sc new sc'))"
  using assms(3,4)
proof (induction xs arbitrary: ls sc)
  case Nil
  then show ?case by (auto simp: round_ok_def)
next
  case (Cons x xs)
  obtain t a r where x: "x = ((t, a), r)" by (cases x) auto
  note one = settle_round [where rerun = rerun and d = d and sc = sc and a = a and m = m and left = left
      and t = t and r = r and ls = ls, OF assms(1,2) Cons.prems(1)]
  have a: "a \<le> m" "m + 1 - a \<le> left" using Cons.prems(2) x by auto
  show ?case
  proof (cases "settle rerun d m t a r ls sc")
    case None
    with one(1) a show ?thesis by simp
  next
    case (Some q)
    obtain sc1 y where q: "q = (sc1, y)" by (cases q)
    show ?thesis
    proof (cases y)
      case (Inl e)
      with Some q x show ?thesis by simp
    next
      case (Inr ls1)
      from one(2) [where sc' = sc1 and ls' = ls1] a Some q Inr obtain new where
        new: "ls_pending ls1 = ls_pending ls @ new" "round_ok d m left sc new sc1" by auto
      have le: "recoverable d sc1 \<le> recoverable d sc"
        using settle_grows [where rerun = rerun and sc = sc and d = d and m = m and t = t and attempt = a and r = r and ls = ls, OF assms(2)] Some q Inr
        by (intro recoverable_antimono [OF assms(1)]) simp
      have "\<And>st sc2. recoverable d sc2 < recoverable d sc1 \<Longrightarrow> rerun st sc2 \<noteq> None"
        using Cons.prems(1) le by (meson less_le_trans)
      note IH = Cons.IH [of sc1 ls1, OF this]
      have "round_ok d m left sc (new @ new') sc'" if "round_ok d m left sc1 new' sc'"
          "settle_all rerun d m xs ls1 sc1 = Some (sc', Inr ls')" for new' sc' ls'
      proof -
        have "recoverable d sc' \<le> recoverable d sc1"
          using settle_all_grows [where rerun = rerun and sc = sc1 and d = d and m = m and xs = xs and ls = ls1, OF assms(2)] that(2)
          by (intro recoverable_antimono [OF assms(1)]) simp
        with new(2) le that(1) show ?thesis by (fastforce simp: round_ok_def)
      qed
      with IH Cons.prems(2) new(1) show ?thesis
        by (fastforce simp: x Some q Inr)
    qed
  qed
qed

section \<open>Enough fuel\<close>

lemma make_tasks_recoverable [simp]: "make_tasks st sc = (ts, sc1) \<Longrightarrow> recoverable d sc1 = recoverable d sc"
  by (simp add: recoverable_def make_tasks_simps)

lemma run_stage_with_total:
  assumes "\<And>ls sc1. \<forall>(t, a) \<in> set (ls_pending ls). a \<le> m \<and> m + 1 - a \<le> m + 1 \<Longrightarrow>
      recoverable d sc1 \<le> recoverable d sc \<Longrightarrow> lp ls sc1 \<noteq> None"
  shows "run_stage_with lp st rec sc \<noteq> None"
proof -
  obtain ts sc1 where mk: "make_tasks st sc = (ts, sc1)" by (cases "make_tasks st sc")
  have "lp \<lparr>ls_pending = map (\<lambda>t. (t, 0)) ts, ls_done = [], ls_retried = []\<rparr> sc1 \<noteq> None"
    using mk by (intro assms) auto
  then show ?thesis
    by (auto simp: run_stage_with_def mk run_bind_def split: option.splits sum.splits)
qed

lemma loop_total:
  assumes "finite (dom d)"
    and "\<forall>(t, a) \<in> set (ls_pending ls). a \<le> m \<and> m + 1 - a \<le> left" "left \<le> m + 1"
    and "recoverable d sc * (m + 2) + left + 1 \<le> fuel"
  shows "loop run m d fuel ls sc \<noteq> None"
  using assms(2-)
proof (induction fuel arbitrary: ls sc left)
  case 0
  then show ?case by simp
next
  case (Suc fuel)
  show ?case
  proof (cases "ls_pending ls = []")
    case False
    then obtain t a where "(t, a) \<in> set (ls_pending ls)" by (cases "ls_pending ls") auto
    with Suc.prems(1) have left: "0 < left" by fastforce
    obtain w rs where batch: "run_batch run (ls_pending ls) (sc_world sc) = (w, rs)" by (meson surj_pair)
    let ?rerun = "\<lambda>st. run_stage_with (loop run m d fuel) st True"
    let ?xs = "zip (ls_pending ls) rs"
    have total: "?rerun st sc1 \<noteq> None" if "recoverable d sc1 < recoverable d (sc\<lparr>sc_world := w\<rparr>)" for st sc1
    proof (rule run_stage_with_total)
      fix ls2 :: loop_state and sc2 :: "'a sched"
      assume "\<forall>(t, a) \<in> set (ls_pending ls2). a \<le> m \<and> m + 1 - a \<le> m + 1"
        and "recoverable d sc2 \<le> recoverable d sc1"
      moreover have "recoverable d sc2 * (m + 2) + (m + 1) + 1 \<le> fuel"
        if "recoverable d sc2 \<le> recoverable d sc1"
      proof -
        have "Suc (recoverable d sc2) \<le> recoverable d sc"
          using that \<open>recoverable d sc1 < recoverable d (sc\<lparr>sc_world := w\<rparr>)\<close> by (simp add: recoverable_def)
        then have "Suc (recoverable d sc2) * (m + 2) \<le> recoverable d sc * (m + 2)" by (rule mult_le_mono1)
        with Suc.prems(3) left show ?thesis by simp
      qed
      ultimately show "loop run m d fuel ls2 sc2 \<noteq> None" by (intro Suc.IH [where left = "m + 1"]) auto
    qed
    have "\<forall>((t, a), r) \<in> set ?xs. a \<le> m \<and> m + 1 - a \<le> left"
      using Suc.prems(1) by (auto dest!: set_zip_leftD)
    note r = settle_all_round [where rerun = ?rerun and sc = "sc\<lparr>sc_world := w\<rparr>" and ls = "ls\<lparr>ls_pending := []\<rparr>",
        OF assms(1) run_stage_with_grows [OF loop_grows] total this]
    show ?thesis
    proof (cases "settle_all ?rerun d m ?xs (ls\<lparr>ls_pending := []\<rparr>) (sc\<lparr>sc_world := w\<rparr>)")
      case None
      with r show ?thesis by simp
    next
      case (Some q)
      obtain sc1 y where q: "q = (sc1, y)" by (cases q)
      show ?thesis
      proof (cases y)
        case (Inr ls1)
        then have ok: "round_ok d m left sc (ls_pending ls1) sc1"
          using r Some q by (simp add: round_ok_def recoverable_def)
        have le: "recoverable d sc1 \<le> recoverable d sc"
          using settle_all_grows [where rerun = ?rerun and sc = "sc\<lparr>sc_world := w\<rparr>" and d = d and m = m
              and xs = ?xs and ls = "ls\<lparr>ls_pending := []\<rparr>", OF run_stage_with_grows [OF loop_grows]] Some q
          by (intro recoverable_antimono [OF assms(1)]) simp
        have "loop run m d fuel ls1 sc1 \<noteq> None"
        proof (cases "recoverable d sc1 < recoverable d sc")
          case True
          then have "Suc (recoverable d sc1) * (m + 2) \<le> recoverable d sc * (m + 2)"
            by (intro mult_le_mono1) simp
          with Suc.prems(3) left ok show ?thesis
            by (intro Suc.IH [where left = "m + 1"]) (auto simp: round_ok_def)
        next
          case False
          with le have "recoverable d sc1 = recoverable d sc" by simp
          with Suc.prems(2,3) left ok show ?thesis
            by (intro Suc.IH [where left = "left - 1"]) (fastforce simp: round_ok_def)+
        qed
        with Some q Inr False batch show ?thesis by simp
      qed (use Some q False batch in simp)
    qed
  qed simp
qed

section \<open>A whole plan\<close>

lemma dom_stages_dict: "dom (stages_dict sts) = stage_id ` set sts"
  by (auto simp: stages_dict_def dom_map_of_conv_image_fst image_image)

lemma recoverable_le: "recoverable (stages_dict sts) sc \<le> length sts"
proof -
  have "recoverable (stages_dict sts) sc \<le> card (stage_id ` set sts)"
    unfolding recoverable_def by (intro card_mono) (auto simp: dom_stages_dict)
  also have "\<dots> \<le> card (set sts)" by (rule card_image_le) simp
  also have "\<dots> \<le> length sts" by (rule card_length)
  finally show ?thesis .
qed

lemma run_stage_total:
  assumes "plan_fuel m sts \<le> fuel"
  shows "run_stage run m (stages_dict sts) fuel st rec sc \<noteq> None"
  unfolding run_stage_def
proof (rule run_stage_with_total)
  fix ls :: loop_state and sc1 :: "'a sched"
  assume "\<forall>(t, a) \<in> set (ls_pending ls). a \<le> m \<and> m + 1 - a \<le> m + 1"
  moreover have "recoverable (stages_dict sts) sc1 * (m + 2) \<le> length sts * (m + 2)"
    using recoverable_le by (rule mult_le_mono1)
  ultimately show "loop run m (stages_dict sts) fuel ls sc1 \<noteq> None"
    using assms by (intro loop_total [where left = "m + 1"]) (auto simp: plan_fuel_def dom_stages_dict)
qed

lemma run_stages_total:
  assumes "plan_fuel m sts \<le> fuel"
  shows "run_stages run m (stages_dict sts) fuel todo final sc \<noteq> None"
proof (induction todo arbitrary: final sc)
  case (Cons st todo)
  show ?case
  proof (cases "run_stage run m (stages_dict sts) fuel st False sc")
    case None
    with run_stage_total [OF assms] show ?thesis by blast
  next
    case (Some q)
    then show ?thesis using Cons by (cases q; cases "snd q") auto
  qed
qed simp

lemma run_plan_total:
  assumes "plan_fuel max_retries sts \<le> fuel"
  obtains sc r where "run_plan run max_retries fuel rdir w sts = Some (sc, r)"
proof -
  from run_stages_total [OF assms, of run sts None "sched_start rdir w"] obtain sc x where
    "run_stages run max_retries (stages_dict sts) fuel sts None (sched_start rdir w) = Some (sc, x)"
    by auto
  then have "\<exists>sc r. run_plan run max_retries fuel rdir w sts = Some (sc, r)"
    by (cases x) (auto simp: run_plan_def split: option.splits)
  with that show ?thesis by blast
qed

text \<open>
  C9: The scheduler always comes to an end: whatever the tasks do, fail, lose their shuffle input
  or corrupt the disk, running any list of stages returns, with a dataset or an exception, and the
  loop and the chain of recomputations together go no deeper than \<open>plan_fuel\<close>.
\<close>

theorem run_plan_terminates:
  assumes "plan_fuel max_retries sts \<le> fuel"
  shows "\<exists>sc r. run_plan run max_retries fuel rdir w sts = Some (sc, r)"
  by (rule run_plan_total [OF assms]) blast

text \<open>A task function under which every task always misses the output of stage 0.\<close>

definition always_missing :: "unit run_task" where
  "always_missing t attempt w = (w, failed_result t (MissingShuffleDataError 0 0) (Some 0) None)"

definition sample_stages :: "stage list" where
  "sample_stages = [\<lparr>stage_id = 0, stage_plan = ShuffleWriteExec (ScanExec sample_dataset ''t'') 2 [Column ''x''] None,
                     stage_partitions = 2\<rparr>,
                    \<lparr>stage_id = 1, stage_plan = ShuffleReadExec 0 (ds_schema sample_dataset) False,
                     stage_partitions = 2\<rparr>]"

theorem run_plan_terminates_witness:
  "\<exists>sc r. run_plan always_missing 3 15 ''/tmp/s'' () sample_stages = Some (sc, r)"
  by (rule run_plan_terminates) (simp add: plan_fuel_def sample_stages_def)

end
