(* ===== verification/SchedulerRuns.thy ===== *)
theory SchedulerRuns
  imports SchedulerTermination
begin

text \<open>
  What holds between the scheduler's state before and after a run.  The locale \<open>run_relation\<close> is the
  contract of the scheduler's steps: a relation that every step respects, a recomputation as a
  bracket of three of them, holds across whole runs, with retries, recoveries and errors.
\<close>

section \<open>Relations that every run respects\<close>

locale run_relation =
  fixes rel :: "'w sched \<Rightarrow> 'w sched \<Rightarrow> bool"
    and by_id :: "nat \<Rightarrow> stage option"
  assumes rel_refl: "rel sc sc"
    and rel_trans: "rel sc sc1 \<Longrightarrow> rel sc1 sc2 \<Longrightarrow> rel sc sc2"
    and rel_world: "rel sc (sc\<lparr>sc_world := w\<rparr>)"
    and rel_ids: "sc_next_id sc \<le> n \<Longrightarrow> rel sc (sc\<lparr>sc_next_id := n\<rparr>)"
    and rel_finished: "rel sc (stage_finished st False n rs sc)"
    and rel_aborted: "i \<notin> set (sc_recomputed sc) \<Longrightarrow> by_id i = Some st \<Longrightarrow>
      rel (sc\<lparr>sc_recomputed := i # sc_recomputed sc\<rparr>) sc1 \<Longrightarrow> rel sc sc1"
    and rel_recomputed: "i \<notin> set (sc_recomputed sc) \<Longrightarrow> by_id i = Some st \<Longrightarrow>
      rel (sc\<lparr>sc_recomputed := i # sc_recomputed sc\<rparr>) sc1 \<Longrightarrow> rel sc (stage_finished st True n rs sc1)"
begin

definition keeps :: "'w sched \<Rightarrow> ('w, 'a) run \<Rightarrow> bool" where
  "keeps sc m \<longleftrightarrow> (\<forall>sc' r. m = Some (sc', r) \<longrightarrow> rel sc sc')"

lemma keeps_Some [simp]: "keeps sc (Some (sc', r)) \<longleftrightarrow> rel sc sc'"
  by (auto simp: keeps_def)

lemma keeps_bind:
  "keeps sc m \<Longrightarrow> (\<And>sc1 x. m = Some (sc1, Inr x) \<Longrightarrow> keeps sc1 (f sc1 x)) \<Longrightarrow> keeps sc (run_bind m f)"
  unfolding keeps_def run_bind_Some_iff by (blast intro: rel_trans)

lemma keeps_after: "rel sc sc1 \<Longrightarrow> keeps sc1 m \<Longrightarrow> keeps sc m"
  unfolding keeps_def by (blast intro: rel_trans)

text \<open>A recomputation, from the point where its stage is marked.\<close>

definition rerun_ok :: "(stage \<Rightarrow> 'w sched \<Rightarrow> ('w, task_result list) run) \<Rightarrow> bool" where
  "rerun_ok rerun \<longleftrightarrow> (\<forall>i st sc. i \<notin> set (sc_recomputed sc) \<longrightarrow> by_id i = Some st \<longrightarrow>
     keeps sc (rerun st (sc\<lparr>sc_recomputed := i # sc_recomputed sc\<rparr>)))"

lemma try_recover_keeps:
  "rerun_ok rerun \<Longrightarrow> keeps sc (try_recover rerun by_id t missing sc)"
  by (auto simp: try_recover_def rerun_ok_def rel_refl intro!: keeps_bind split: option.splits)

lemma settle_keeps:
  "rerun_ok rerun \<Longrightarrow> keeps sc (settle rerun by_id m t attempt r ls sc)"
  unfolding settle_def
  by (auto simp: rel_refl intro!: keeps_bind try_recover_keeps split: task_state.splits option.splits)

lemma settle_all_keeps:
  "rerun_ok rerun \<Longrightarrow> keeps sc (settle_all rerun by_id m xs ls sc)"
proof (induction xs arbitrary: ls sc)
  case (Cons x xs)
  obtain t attempt r where "x = ((t, attempt), r)" by (cases x) auto
  then show ?case using Cons by (auto intro!: keeps_bind settle_keeps)
qed (simp add: rel_refl)

lemma make_tasks_rel: "make_tasks st sc = (ts, sc1) \<Longrightarrow> rel sc sc1"
  by (auto simp: make_tasks_def intro: rel_ids)

lemma run_stage_with_keeps:
  assumes "\<And>ls sc. keeps sc (lp ls sc)"
  shows "keeps sc (run_stage_with lp st False sc)"
proof -
  obtain ts sc1 where mk: "make_tasks st sc = (ts, sc1)" by (cases "make_tasks st sc")
  have "keeps sc (lp ls sc1)" for ls
    by (rule keeps_after [OF make_tasks_rel [OF mk] assms])
  then show ?thesis
    by (auto simp: run_stage_with_def mk rel_refl intro!: keeps_bind rel_finished split: sum.splits)
qed

lemma recompute_keeps:
  assumes "\<And>ls sc. keeps sc (lp ls sc)"
  shows "rerun_ok (\<lambda>st. run_stage_with lp st True)"
  unfolding rerun_ok_def keeps_def
proof (intro allI impI)
  fix i st sc sc' r
  assume i: "i \<notin> set (sc_recomputed sc)" "by_id i = Some st"
    and run: "run_stage_with lp st True (sc\<lparr>sc_recomputed := i # sc_recomputed sc\<rparr>) = Some (sc', r)"
  let ?sc0 = "sc\<lparr>sc_recomputed := i # sc_recomputed sc\<rparr>"
  obtain ts sc1 where mk: "make_tasks st ?sc0 = (ts, sc1)" by (cases "make_tasks st ?sc0")
  have loop: "rel ?sc0 sc2" if "lp ls sc1 = Some (sc2, y)" for ls sc2 y
    using assms [of sc1 ls] that make_tasks_rel [OF mk] by (auto simp: keeps_def intro: rel_trans)
  let ?ls = "\<lparr>ls_pending = map (\<lambda>t. (t, 0)) ts, ls_done = [], ls_retried = []\<rparr>"
  obtain sc2 y where y: "lp ?ls sc1 = Some (sc2, y)"
    using run by (auto simp: run_stage_with_def mk run_bind_Some_iff)
  note stop = rel_aborted [OF i loop [OF y]] and finish = rel_recomputed [OF i loop [OF y]]
  show "rel sc sc'"
  proof (cases y)
    case (Inl e)
    with run y stop show ?thesis by (simp add: run_stage_with_def mk)
  next
    case (Inr ls)
    with run y stop finish show ?thesis
      by (cases "check_failed (collect_results ts (ls_done ls))") (auto simp: run_stage_with_def mk)
  qed
qed

lemma loop_keeps: "keeps sc (loop run m by_id fuel ls sc)"
proof (induction fuel arbitrary: ls sc)
  case 0
  then show ?case by (simp add: keeps_def)
next
  case (Suc fuel)
  obtain w rs where batch: "run_batch run (ls_pending ls) (sc_world sc) = (w, rs)" by (meson surj_pair)
  have "rerun_ok (\<lambda>st. run_stage_with (loop run m by_id fuel) st True)"
    by (rule recompute_keeps [OF Suc])
  then have "keeps (sc\<lparr>sc_world := w\<rparr>) (settle_all (\<lambda>st. run_stage_with (loop run m by_id fuel) st True) by_id m
      (zip (ls_pending ls) rs) (ls\<lparr>ls_pending := []\<rparr>) (sc\<lparr>sc_world := w\<rparr>))"
    by (rule settle_all_keeps)
  then have "keeps sc (settle_all (\<lambda>st. run_stage_with (loop run m by_id fuel) st True) by_id m
      (zip (ls_pending ls) rs) (ls\<lparr>ls_pending := []\<rparr>) (sc\<lparr>sc_world := w\<rparr>))"
    by (rule keeps_after [OF rel_world])
  then show ?case using Suc by (auto simp: batch rel_refl intro!: keeps_bind)
qed

lemma run_stages_keeps: "keeps sc (run_stages run m by_id fuel sts final sc)"
proof (induction sts arbitrary: final sc)
  case (Cons st sts)
  then show ?case
    by (auto simp: run_stage_def intro!: keeps_bind run_stage_with_keeps loop_keeps)
qed (simp add: rel_refl)

end

section \<open>Identifiers and the shuffle directory\<close>

definition ids_grow :: "'w sched \<Rightarrow> 'w sched \<Rightarrow> bool" where
  "ids_grow sc sc' \<longleftrightarrow> sc_next_id sc \<le> sc_next_id sc' \<and> root_dir (sc_manager sc') = root_dir (sc_manager sc)"

lemma stage_finished_root [simp]:
  "root_dir (sc_manager (stage_finished st rec n rs sc)) = root_dir (sc_manager sc)"
  by (simp add: stage_finished_def Let_def register_blocks_def)

interpretation ids: run_relation ids_grow by_id for by_id
  by unfold_locales (auto simp: ids_grow_def)

section \<open>At most one recomputation of a stage\<close>

definition recomputations :: "'w sched \<Rightarrow> nat \<Rightarrow> nat" where
  "recomputations sc i = length (filter (\<lambda>m. sm_recomputed m \<and> sm_stage_id m = i) (sc_metrics sc))"

lemma recomputations_simps [simp]:
  "recomputations (sc\<lparr>sc_world := w\<rparr>) i = recomputations sc i"
  "recomputations (sc\<lparr>sc_next_id := n\<rparr>) i = recomputations sc i"
  "recomputations (sc\<lparr>sc_recomputed := is\<rparr>) i = recomputations sc i"
  "recomputations (stage_finished st rec n rs sc) i
     = recomputations sc i + (if rec \<and> stage_id st = i then 1 else 0)"
  by (auto simp: recomputations_def stage_finished_def Let_def from_task_metrics_def)

text \<open>
  A stage that is marked is not recomputed any more, and a run of a state in which only marked
  stages were recomputed, once each, leaves such a state.
\<close>

definition marked_once :: "'w sched \<Rightarrow> bool" where
  "marked_once sc \<longleftrightarrow> (\<forall>i. recomputations sc i \<le> 1)
     \<and> (\<forall>i. i \<notin> set (sc_recomputed sc) \<longrightarrow> recomputations sc i = 0)"

definition recompute_rel :: "'w sched \<Rightarrow> 'w sched \<Rightarrow> bool" where
  "recompute_rel sc sc' \<longleftrightarrow> set (sc_recomputed sc) \<subseteq> set (sc_recomputed sc')
     \<and> (\<forall>i \<in> set (sc_recomputed sc). recomputations sc' i = recomputations sc i)
     \<and> (marked_once sc \<longrightarrow> marked_once sc')"

lemma marked_once_mark: "marked_once sc \<Longrightarrow> marked_once (sc\<lparr>sc_recomputed := i # sc_recomputed sc\<rparr>)"
  by (simp add: marked_once_def)

lemma stages_dict_id: "stages_dict sts i = Some st \<Longrightarrow> stage_id st = i"
  by (auto simp: stages_dict_def dest!: map_of_SomeD)

interpretation once: run_relation recompute_rel "stages_dict sts" for sts
proof unfold_locales
  fix sc sc1 sc2 :: "'w sched" and i st n rs w
  show "recompute_rel sc sc" by (simp add: recompute_rel_def)
  show "recompute_rel sc sc2" if "recompute_rel sc sc1" "recompute_rel sc1 sc2"
    using that unfolding recompute_rel_def by (metis subset_iff)
  show "recompute_rel sc (sc\<lparr>sc_world := w\<rparr>)" by (simp add: recompute_rel_def marked_once_def)
  show "recompute_rel sc (sc\<lparr>sc_next_id := n\<rparr>)" by (simp add: recompute_rel_def marked_once_def)
  show "recompute_rel sc (stage_finished st False n rs sc)" by (simp add: recompute_rel_def marked_once_def)
  assume i: "i \<notin> set (sc_recomputed sc)" and st: "stages_dict sts i = Some st"
    and run: "recompute_rel (sc\<lparr>sc_recomputed := i # sc_recomputed sc\<rparr>) sc1"
  show "recompute_rel sc sc1"
    using run marked_once_mark [of sc i] by (auto simp: recompute_rel_def)
  have "marked_once (stage_finished st True n rs sc1)" if "marked_once sc"
  proof -
    have "recomputations sc1 i = recomputations sc i" using run by (simp add: recompute_rel_def)
    moreover have "recomputations sc i = 0" using that i by (simp add: marked_once_def)
    moreover have "marked_once sc1" using run that marked_once_mark [of sc i] by (simp add: recompute_rel_def)
    moreover have "i \<in> set (sc_recomputed sc1)" using run by (simp add: recompute_rel_def)
    ultimately show ?thesis using stages_dict_id [OF st] by (auto simp: marked_once_def)
  qed
  moreover have "recomputations (stage_finished st True n rs sc1) j = recomputations sc j"
    if "j \<in> set (sc_recomputed sc)" for j
    using run that i stages_dict_id [OF st] by (auto simp: recompute_rel_def)
  ultimately show "recompute_rel sc (stage_finished st True n rs sc1)"
    using run by (auto simp: recompute_rel_def)
qed

text \<open>
  C16: In one run of a plan, however it ends, every stage is recomputed at most once (each
  recomputation that finishes leaves one entry in the query's metrics).
\<close>

theorem recomputed_at_most_once:
  assumes "run_plan run max_retries fuel rdir w sts = Some (sc, r)"
  shows "length (filter (\<lambda>m. sm_recomputed m \<and> sm_stage_id m = i) (sc_metrics sc)) \<le> 1"
proof -
  have "marked_once (sched_start rdir w)"
    by (simp add: marked_once_def recomputations_def sched_start_def)
  moreover obtain x where
    "run_stages run max_retries (stages_dict sts) fuel sts None (sched_start rdir w) = Some (sc, x)"
    using assms by (auto simp: run_plan_def run_bind_Some_iff split: option.splits)
  then have "recompute_rel (sched_start rdir w) sc"
    by (metis once.run_stages_keeps once.keeps_def)
  ultimately have "recomputations sc i \<le> 1"
    by (simp add: recompute_rel_def marked_once_def)
  then show ?thesis by (simp add: recomputations_def)
qed

section \<open>A lost block\<close>

text \<open>
  A fault: the block files that the first map task (task 0) wrote are lost, so that a reduce task
  succeeds only when none of the blocks it is given came from it.
\<close>

definition lossy_block :: "nat \<Rightarrow> nat \<Rightarrow> block_meta" where
  "lossy_block t target = \<lparr>bm_stage_id = 0, source_task_id = t, target_partition = target,
     path = block_path ''/tmp/s'' 0 target t, record_count = 1, byte_length = 8, checksum = ''c''\<rparr>"

definition lossy_task :: "unit run_task" where
  "lossy_task t attempt w =
     (w, if is_write (task_plan t) then success_result t [] [lossy_block (task_id t) 0, lossy_block (task_id t) 1] None 0 0 16
         else case shuffle_blocks t of
           Some m \<Rightarrow> (case m 0 of
               Some bs \<Rightarrow> if \<exists>b \<in> set bs. source_task_id b = 0
                          then failed_result t (MissingShuffleDataError 0 (task_partition_id t)) (Some 0) None
                          else success_result t [[(''x'', VInt 1)]] [] (Some 1) 1 28 8
             | None \<Rightarrow> failed_result t ValueError None None)
         | None \<Rightarrow> failed_result t ValueError None None)"

definition lossy_stages :: "nat \<Rightarrow> stage list" where
  "lossy_stages n = [\<lparr>stage_id = 0, stage_plan = ShuffleWriteExec (ScanExec sample_dataset ''t'') n [Column ''x''] None,
                      stage_partitions = 1\<rparr>,
                     \<lparr>stage_id = 1, stage_plan = ShuffleReadExec 0 [] False, stage_partitions = n\<rparr>]"

definition lossy_run :: "nat \<Rightarrow> (unit, dataset) run" where
  "lossy_run n = run_plan lossy_task 3 15 ''/tmp/s'' () (lossy_stages n)"

lemma lossy_run_1: "case lossy_run 1 of Some (sc, Inr d) \<Rightarrow> num_partitions d = 1
    \<and> sc_recomputed sc = [0] \<and> map sm_recomputed (sc_metrics sc) = [False, True, False] | _ \<Rightarrow> False"
  by code_simp

theorem recomputed_at_most_once_witness:
  "case lossy_run 1 of Some (sc, Inr d) \<Rightarrow> map sm_recomputed (sc_metrics sc) = [False, True, False]
     \<and> length (filter (\<lambda>m. sm_recomputed m \<and> sm_stage_id m = 0) (sc_metrics sc)) \<le> 1 | _ \<Rightarrow> False"
proof -
  have "\<exists>sc d. lossy_run 1 = Some (sc, Inr d) \<and> map sm_recomputed (sc_metrics sc) = [False, True, False]"
    using lossy_run_1 by (cases "lossy_run 1"; cases "snd (the (lossy_run 1))") (auto simp del: One_nat_def)
  then obtain sc d where run: "lossy_run 1 = Some (sc, Inr d)" "map sm_recomputed (sc_metrics sc) = [False, True, False]"
    by (elim exE conjE) (rule that)
  from recomputed_at_most_once [OF run(1) [unfolded lossy_run_def], of 0] run show ?thesis by simp
qed

end
