(* ===== verification/PlanExecution.thy ===== *)
theory PlanExecution
  imports SchedulerRuns
begin

text \<open>
  What a whole run computes.  \<open>direct\<close> is the meaning of a physical plan without stages, tasks,
  block files or a scheduler: an exchange evaluates every partition of its child and takes the rows
  of its target.  The theorem at the end relates the two: cutting a plan into stages, running their
  tasks, and shuffling through pickled files on the disk gives, partition by partition, the rows of
  the direct meaning.
\<close>

section \<open>The direct meaning of a physical plan\<close>

text \<open>The rows of all map partitions, in order, that an exchange sends to \<open>target\<close>.\<close>

definition route ::
    "md5_fn \<Rightarrow> nat \<Rightarrow> expr list \<Rightarrow> pval list option \<Rightarrow> row list list \<Rightarrow> nat \<Rightarrow> row list res" where
  "route md5 n es bounds parts target =
     rbind (write_key_fn es bounds) (\<lambda>key_fn. rbind (write_partitioner n bounds) (\<lambda>p.
       rbind (rmap (\<lambda>r. rbind (key_fn r) (partition_for md5 p)) (concat parts)) (\<lambda>targets.
         Inr (map fst (filter (\<lambda>(r, t). t = target) (zip (concat parts) targets))))))"

definition read_partition :: "nat \<Rightarrow> schema \<Rightarrow> row list \<Rightarrow> partition" where
  "read_partition pid s rows =
     \<lparr>partition_id = pid, part_schema = s, records = gen_of rows,
      metadata = counted_meta (Some (length rows))\<rparr>"

fun direct :: "'b env \<Rightarrow> pplan \<Rightarrow> nat \<Rightarrow> partition res" where
  "direct env (ScanExec d _) pid = ds_partition d pid"
| "direct env (FilterExec c e) pid = rbind (direct env c pid) (\<lambda>p. Inr (filter_partition e p))"
| "direct env (ProjectExec c es s) pid = rbind (direct env c pid) (\<lambda>p. Inr (project_partition es s p))"
| "direct env (HashAggregateExec c gs as s is_partial threshold) pid =
     rbind (direct env c pid) (aggregate_partition env gs as s is_partial threshold pid)"
| "direct env (HashJoinExec l r lkeys rkeys on s) pid =
     rbind (direct env l pid) (\<lambda>lp. rbind (direct env r pid) (\<lambda>rp.
       join_partition lkeys rkeys on s pid lp rp))"
| "direct env (SortExec c es asc s threshold) pid =
     rbind (direct env c pid) (sort_partition env es asc s threshold pid)"
| "direct env (ExchangeExec c n es broadcast bounds) pid =
     rbind (rmap (\<lambda>j. rbind (direct env c j) part_to_list) [0..<plan_partitions c]) (\<lambda>parts.
     rbind (route (env_md5 env) n es bounds parts (if broadcast then 0 else pid)) (\<lambda>rows.
       Inr (read_partition pid (pschema c) rows)))"
| "direct env _ pid = Inl NotImplementedError"

text \<open>The map side of an exchange evaluates: its rows, and the target of each.\<close>

definition write_rows :: "'b env \<Rightarrow> pplan \<Rightarrow> row list list res" where
  "write_rows env c = rmap (\<lambda>j. rbind (direct env c j) part_to_list) [0..<plan_partitions c]"

fun write_ok :: "'b env \<Rightarrow> pplan \<Rightarrow> bool" where
  "write_ok env (ShuffleWriteExec c n es bounds) =
     (\<exists>parts rows. write_rows env c = Inr parts \<and> route (env_md5 env) n es bounds parts 0 = Inr rows)"
| "write_ok env p = False"

fun written_rows :: "'b env \<Rightarrow> pplan \<Rightarrow> nat \<Rightarrow> row list res" where
  "written_rows env (ShuffleWriteExec c n es bounds) t =
     rbind (write_rows env c) (\<lambda>parts. route (env_md5 env) n es bounds parts t)"
| "written_rows env p t = Inl NotImplementedError"

lemma route_Inr_iff:
  "(\<exists>rows. route md5 n es bounds parts t = Inr rows) \<longleftrightarrow>
     (\<exists>key_fn p. write_key_fn es bounds = Inr key_fn \<and> write_partitioner n bounds = Inr p
        \<and> (\<forall>r \<in> set (concat parts). \<exists>k. rbind (key_fn r) (partition_for md5 p) = Inr k))"
proof -
  have total: "(\<exists>ys. rmap f xs = Inr ys) \<longleftrightarrow> (\<forall>x \<in> set xs. \<exists>y. f x = Inr y)"
    for f :: "row \<Rightarrow> nat res" and xs
  proof (induction xs)
    case (Cons x xs)
    then show ?case by (auto simp: rbind_Inr_iff)
  qed simp
  show ?thesis
    by (simp only: total [symmetric]) (auto simp: route_def rbind_Inr_iff)
qed

lemma route_any_target:
  "route md5 n es bounds parts t = Inr rows \<Longrightarrow> \<exists>rows'. route md5 n es bounds parts t' = Inr rows'"
  using route_Inr_iff by metis

lemma route_eq:
  assumes "write_key_fn es bounds = Inr key_fn" "write_partitioner n bounds = Inr p"
    and "\<forall>r \<in> set (concat parts). rbind (key_fn r) (partition_for md5 p) = Inr (tgt r)"
  shows "route md5 n es bounds parts t = Inr (rows_for tgt t (concat parts))"
proof -
  have "rmap (\<lambda>r. rbind (key_fn r) (partition_for md5 p)) (concat parts) = Inr (map tgt (concat parts))"
    using assms(3) by (intro rmap_Inr_fun) auto
  moreover have "map fst (filter (\<lambda>(r, u). u = t) (zip xs (map tgt xs))) = rows_for tgt t xs" for xs
    by (induction xs) (auto simp: rows_for_def)
  ultimately show ?thesis by (simp add: route_def assms(1,2))
qed

section \<open>One fragment\<close>

lemma env_disk_irrelevant [simp]:
  "aggregate_partition (env\<lparr>env_disk := disk\<rparr>) = aggregate_partition env"
  "sort_partition (env\<lparr>env_disk := disk\<rparr>) = sort_partition env"
  by (intro ext; simp add: aggregate_partition_def agg_step_def [abs_def] sort_partition_def sort_step_def [abs_def] Let_def cong: if_cong option.case_cong)+

text \<open>The blocks that a task has been given for a read of stage \<open>j\<close>.\<close>

definition given :: "blocks_by_stage \<Rightarrow> nat \<Rightarrow> block_meta list \<Rightarrow> bool" where
  "given bs j blocks \<longleftrightarrow> (\<exists>m. bs = Some m \<and> m j = Some blocks)"

fun reads_given :: "shuffle_manager \<Rightarrow> nat \<Rightarrow> blocks_by_stage \<Rightarrow> pplan \<Rightarrow> bool" where
  "reads_given sm pid bs (ShuffleReadExec j _ broadcast) =
     given bs j (blocks_for sm j (if broadcast then 0 else pid))"
| "reads_given sm pid bs (FilterExec c _) = reads_given sm pid bs c"
| "reads_given sm pid bs (ProjectExec c _ _) = reads_given sm pid bs c"
| "reads_given sm pid bs (HashAggregateExec c _ _ _ _ _) = reads_given sm pid bs c"
| "reads_given sm pid bs (HashJoinExec l r _ _ _ _) = (reads_given sm pid bs l \<and> reads_given sm pid bs r)"
| "reads_given sm pid bs (SortExec c _ _ _ _) = reads_given sm pid bs c"
| "reads_given sm pid bs _ = True"

text \<open>The blocks of stage \<open>j\<close> on the disk hold, for every target, the rows of its write.\<close>

definition stored :: "'b env \<Rightarrow> shuffle_manager \<Rightarrow> 'b files \<Rightarrow> nat \<Rightarrow> pplan \<Rightarrow> bool" where
  "stored env sm disk j w \<longleftrightarrow> (\<forall>t rows. written_rows env w t = Inr rows \<longrightarrow>
     gen_list (read_shuffle_blocks (env_codec env) disk True (blocks_for sm j t)) = Inr rows)"

lemma execute_fragment:
  assumes "fragment_ok sts k f" "reads_given sm pid bs f" "length sts \<le> length ds"
    and "\<forall>j < k. stored env sm disk j (ds ! j) \<and> write_ok env (ds ! j) \<and> pschema (ds ! j) = pschema (stage_plan (sts ! j))"
  shows "execute_partition (env\<lparr>env_disk := disk\<rparr>) f pid bs = direct env (rejoin ds f) pid"
  using assms
proof (induction f)
  case (ShuffleReadExec j s b)
  then have j: "j < k" "s = pschema (ds ! j)" by auto
  with ShuffleReadExec.prems(4) have st: "stored env sm disk j (ds ! j)" and ok: "write_ok env (ds ! j)" by auto
  from ok obtain c n es bounds where w: "ds ! j = ShuffleWriteExec c n es bounds"
    by (cases "ds ! j") auto
  from ok w obtain parts where parts: "write_rows env c = Inr parts" by auto
  from ok w parts obtain rows0 where "route (env_md5 env) n es bounds parts 0 = Inr rows0" by auto
  from route_any_target [OF this]
  have "\<exists>rows. route (env_md5 env) n es bounds parts (if b then 0 else pid) = Inr rows" .
  then obtain rows where rows: "route (env_md5 env) n es bounds parts (if b then 0 else pid) = Inr rows" ..
  with st w parts have "gen_list (read_shuffle_blocks (env_codec env) disk True
      (blocks_for sm j (if b then 0 else pid))) = Inr rows"
    by (simp add: stored_def)
  moreover obtain m where "bs = Some m" "m j = Some (blocks_for sm j (if b then 0 else pid))"
    using ShuffleReadExec.prems(2) by (auto simp: given_def)
  ultimately show ?case
    using w parts rows j(2)
    by (simp add: shuffle_read_partition_def write_rows_def read_partition_def)
qed auto

section \<open>Counting input never fails where execution does not\<close>

lemma rmap_all_ok: "(\<And>x. x \<in> set xs \<Longrightarrow> \<exists>y. f x = Inr y) \<Longrightarrow> \<exists>ys. rmap f xs = Inr ys"
proof (induction xs)
  case (Cons x xs)
  then obtain y ys where "f x = Inr y" "rmap f xs = Inr ys" by (metis list.set_intros)
  then show ?case by simp
qed simp

lemma leaf_counts:
  "execute_partition env f pid bs = Inr part \<Longrightarrow> fragment_ok sts k f \<Longrightarrow> leaf \<in> set (leaves f) \<Longrightarrow>
   task_partition_id t = pid \<Longrightarrow> \<exists>c. leaf_record_count leaf t = Inr c"
  by (induction f arbitrary: part) (auto simp: leaf_record_count_def rbind_Inr_iff)

lemma input_count_total:
  assumes "execute_partition env f (task_partition_id t) bs = Inr part" "fragment_ok sts k f"
    and "leaves (task_plan t) = leaves f"
  shows "\<exists>c. input_record_count t = Inr c"
proof -
  have "\<exists>cs. rmap (\<lambda>leaf. leaf_record_count leaf t) (leaves (task_plan t)) = Inr cs"
    using leaf_counts [OF assms(1,2)] assms(3) by (intro rmap_all_ok) auto
  then show ?thesis by (auto simp: input_record_count_def)
qed

section \<open>The input of a task\<close>

lemma resolve_leaf_read [simp]:
  "resolve_leaf pid sm m (ShuffleReadExec j s b) = m(j \<mapsto> blocks_for sm j (if b then 0 else pid))"
  by (simp add: resolve_leaf_def)

lemma resolve_foldl:
  assumes "distinct (concat (map read_ids ls))" "ShuffleReadExec j s b \<in> set ls"
    and "\<forall>l \<in> set ls. \<exists>j s b. l = ShuffleReadExec j s b"
  shows "foldl (resolve_leaf pid sm) m ls j = Some (blocks_for sm j (if b then 0 else pid))"
proof -
  have other: "foldl (resolve_leaf pid sm) m ls j = m j"
    if "j \<notin> set (concat (map read_ids ls))" "\<forall>l \<in> set ls. \<exists>j s b. l = ShuffleReadExec j s b" for m ls
    using that by (induction ls arbitrary: m) auto
  show ?thesis
    using assms
  proof (induction ls arbitrary: m)
    case (Cons l ls)
    then show ?case
      using other [of ls "resolve_leaf pid sm m l"] by auto
  qed simp
qed

lemma read_leaves_ids: "fragment_ok sts k f \<Longrightarrow> concat (map read_ids (read_leaves f)) = read_ids f"
  by (induction f) (auto simp: read_leaves_def)

lemma reads_givenI:
  "(\<And>j s b. ShuffleReadExec j s b \<in> set (leaves f) \<Longrightarrow> given bs j (blocks_for sm j (if b then 0 else pid))) \<Longrightarrow>
   reads_given sm pid bs f"
  by (induction f) auto

lemma resolve_given:
  assumes "fragment_ok sts k f" "distinct (read_ids f)" "leaves p = leaves f"
  shows "reads_given sm pid (resolve_shuffle_blocks p pid sm) f"
proof (rule reads_givenI)
  fix j s b
  assume "ShuffleReadExec j s b \<in> set (leaves f)"
  then have leaf: "ShuffleReadExec j s b \<in> set (read_leaves p)"
    by (simp add: read_leaves_def assms(3))
  moreover have "\<forall>l \<in> set (read_leaves p). \<exists>j s b. l = ShuffleReadExec j s b"
    by (auto simp: read_leaves_def split: pplan.splits)
  moreover have "read_leaves p = read_leaves f" by (simp add: read_leaves_def assms(3))
  ultimately show "given (resolve_shuffle_blocks p pid sm) j (blocks_for sm j (if b then 0 else pid))"
    using resolve_foldl [of "read_leaves p" j s b pid sm "\<lambda>_. None"] read_leaves_ids [OF assms(1)] assms(2)
    by (auto simp: given_def resolve_shuffle_blocks_def)
qed

section \<open>A stage without failures\<close>

lemma settle_all_success:
  assumes "length rs = length ts" "\<forall>r \<in> set rs. result_state r = SUCCESS"
  shows "settle_all rerun d m (zip (map (\<lambda>t. (t, 0)) ts) rs) ls sc
    = Some (sc, Inr (ls\<lparr>ls_done := rev (zip (map task_id ts) rs) @ ls_done ls\<rparr>))"
  using assms
proof (induction rs ts arbitrary: ls rule: list_induct2)
  case (Cons r rs t ts)
  then show ?case by (simp add: settle_def retry_or_finish_def)
qed simp

lemma collect_results_zip:
  assumes "length rs = length ts" "distinct (map task_id ts)"
  shows "collect_results ts (rev (zip (map task_id ts) rs)) = rs"
proof (rule nth_equalityI)
  show "length (collect_results ts (rev (zip (map task_id ts) rs))) = length rs"
    by (simp add: collect_results_def assms(1))
next
  fix i assume "i < length (collect_results ts (rev (zip (map task_id ts) rs)))"
  then have i: "i < length ts" by (simp add: collect_results_def)
  have "(task_id (ts ! i), rs ! i) \<in> set (rev (zip (map task_id ts) rs))"
    using i assms(1) by (auto simp: set_zip intro!: exI [of _ i])
  moreover have "distinct (map fst (rev (zip (map task_id ts) rs)))"
    using assms by (simp flip: rev_map)
  ultimately have "map_of (rev (zip (map task_id ts) rs)) (task_id (ts ! i)) = Some (rs ! i)"
    by (simp del: set_rev)
  then show "collect_results ts (rev (zip (map task_id ts) rs)) ! i = rs ! i"
    using i by (simp add: collect_results_def)
qed

lemma make_tasks_ids: "make_tasks st sc = (ts, sc1) \<Longrightarrow> distinct (map task_id ts) \<and> length ts = stage_partitions st"
  by (auto simp: make_tasks_def comp_def distinct_map inj_on_def)

lemma run_stage_success:
  assumes mk: "make_tasks st sc = (ts, sc1)"
    and batch: "run_batch run (map (\<lambda>t. (t, 0)) ts) (sc_world sc1) = (w, rs)"
    and ok: "\<forall>r \<in> set rs. result_state r = SUCCESS"
  shows "run_stage run m d (Suc (Suc fuel)) st rec sc
    = Some (stage_finished st rec 0 rs (sc1\<lparr>sc_world := w\<rparr>), Inr rs)"
proof -
  have len: "length rs = length ts" using run_batch_length [OF batch] by simp
  have failed: "check_failed rs = Inr rs"
    using ok by (auto simp: check_failed_def filter_empty_conv)
  show ?thesis
  proof (cases "ts = []")
    case True
    with batch have "w = sc_world sc1" "rs = []" by auto
    moreover have "sc1\<lparr>sc_world := sc_world sc1\<rparr> = sc1" by simp
    ultimately show ?thesis
      using True failed by (simp add: run_stage_def run_stage_with_def mk collect_results_def)
  next
    case False
    then show ?thesis
      using batch failed collect_results_zip [OF len] make_tasks_ids [OF mk]
      by (simp add: run_stage_def run_stage_with_def mk settle_all_success [OF len ok])
  qed
qed

section \<open>A map stage\<close>

definition same_elsewhere :: "string \<Rightarrow> nat \<Rightarrow> 'b files \<Rightarrow> 'b files \<Rightarrow> bool" where
  "same_elsewhere rdir i d d' \<longleftrightarrow> (\<forall>q. (\<forall>t k. q \<noteq> block_path rdir i t k) \<longrightarrow> d' q = d q)"

definition agrees :: "string \<Rightarrow> nat \<Rightarrow> 'b files \<Rightarrow> 'b files \<Rightarrow> bool" where
  "agrees rdir j d d' \<longleftrightarrow> (\<forall>t k. d' (block_path rdir j t k) = d (block_path rdir j t k))"

lemma same_elsewhere_agrees: "same_elsewhere rdir i d d' \<Longrightarrow> j \<noteq> i \<Longrightarrow> agrees rdir j d d'"
  by (auto simp: same_elsewhere_def agrees_def)

lemma agrees_trans: "agrees rdir j d d1 \<Longrightarrow> agrees rdir j d1 d2 \<Longrightarrow> agrees rdir j d d2"
  by (simp add: agrees_def)

lemma write_batch:
  assumes plan: "\<forall>t \<in> set ts. task_plan t = ShuffleWriteExec c n es bounds \<and> task_stage_id t = i
      \<and> shuffle_root_dir t = Some rdir"
    and wr: "write_key_fn es bounds = Inr kf" "write_partitioner n bounds = Inr p"
    and exec: "\<forall>t \<in> set ts. \<forall>d. same_elsewhere rdir i disk0 d \<longrightarrow>
      (\<exists>part. execute_partition (env\<lparr>env_disk := d\<rparr>) c (task_partition_id t) (shuffle_blocks t) = Inr part
         \<and> part_to_list part = Inr (rows_of t))"
    and tgt: "\<forall>t \<in> set ts. \<forall>r \<in> set (rows_of t). rbind (kf r) (partition_for (env_md5 env) p) = Inr (tgt r)"
    and counts: "\<forall>t \<in> set ts. \<exists>k. input_record_count t = Inr k"
    and here: "same_elsewhere rdir i disk0 disk"
  shows "\<exists>disk' rs. run_batch (execute_task env rss) (map (\<lambda>t. (t, 0)) ts) disk = (disk', rs)
    \<and> (\<forall>r \<in> set rs. result_state r = SUCCESS)
    \<and> run_map_tasks (env_codec env) rdir i kf (env_md5 env) p (map (\<lambda>t. (task_id t, rows_of t)) ts) disk
        = (disk', Inr (concat (map result_blocks rs)))"
  using plan exec tgt counts here
proof (induction ts arbitrary: disk)
  case Nil
  then show ?case by simp
next
  case (Cons t ts)
  obtain part where part: "execute_partition (env\<lparr>env_disk := disk\<rparr>) c (task_partition_id t) (shuffle_blocks t) = Inr part"
      "part_to_list part = Inr (rows_of t)"
    using Cons.prems(2,5) by auto
  obtain k where k: "input_record_count t = Inr k" using Cons.prems(4) by auto
  let ?bs = "map (block_of (env_codec env) rdir i (task_id t) tgt (rows_of t)) (uniq (map tgt (rows_of t)))"
  obtain disk1 where disk1: "write_shuffle_partition (env_codec env) rdir i (task_id t) (rows_of t) kf
        (env_md5 env) p disk = (disk1, Inr ?bs)"
      "\<forall>q. q \<notin> (\<lambda>u. block_path rdir i u (task_id t)) ` tgt ` set (rows_of t) \<longrightarrow> disk1 q = disk q"
    using write_shuffle_partition_spec [of "rows_of t" kf "env_md5 env" p tgt "env_codec env" rdir i "task_id t" disk]
      Cons.prems(3) by auto
  have "same_elsewhere rdir i disk0 disk1"
    using Cons.prems(5) disk1(2) by (fastforce simp: same_elsewhere_def image_iff)
  from Cons.IH [OF _ _ _ _ this] Cons.prems obtain disk' rs where
      rs: "run_batch (execute_task env rss) (map (\<lambda>t. (t, 0)) ts) disk1 = (disk', rs)"
      "\<forall>r \<in> set rs. result_state r = SUCCESS"
      "run_map_tasks (env_codec env) rdir i kf (env_md5 env) p (map (\<lambda>t. (task_id t, rows_of t)) ts) disk1
        = (disk', Inr (concat (map result_blocks rs)))"
    by auto
  have "\<exists>r. execute_task env rss t 0 disk = (disk1, r) \<and> result_state r = SUCCESS \<and> result_blocks r = ?bs"
    using Cons.prems(1) part wr disk1(1) k
    by (simp add: execute_task_def execute_shuffle_write_task_def report_def)
  then show ?case using rs disk1(1) by auto
qed

text \<open>
  What the scheduler's state holds once the stages before \<open>k\<close> have run: their blocks, and no later
  write to another stage's directory can change what they hold.
\<close>

definition progress :: "'b env \<Rightarrow> string \<Rightarrow> pplan list \<Rightarrow> nat \<Rightarrow> 'b files sched \<Rightarrow> bool" where
  "progress env rdir ds k sc \<longleftrightarrow> root_dir (sc_manager sc) = rdir
     \<and> (\<forall>j < k. \<forall>d. agrees rdir j (sc_world sc) d \<longrightarrow> stored env (sc_manager sc) d j (ds ! j))"

text \<open>What is known of the stages, in the terms of the plan they were cut from.\<close>

definition cut_from :: "'b env \<Rightarrow> stage list \<Rightarrow> pplan list \<Rightarrow> bool" where
  "cut_from env sts ds \<longleftrightarrow> length ds = length sts
     \<and> (\<forall>i < length sts. stage_id (sts ! i) = i \<and> write_ok env (ds ! i)
        \<and> stage_partitions (sts ! i) = plan_partitions (ds ! i)
        \<and> pschema (ds ! i) = pschema (stage_plan (sts ! i))
        \<and> (\<exists>c n es bounds. stage_plan (sts ! i) = ShuffleWriteExec c n es bounds
             \<and> ds ! i = ShuffleWriteExec (rejoin ds c) n es bounds
             \<and> fragment_ok sts i c \<and> distinct (read_ids c)))"

lemma cut_fromD:
  assumes "cut_from env sts ds" "i < length sts"
  obtains c n es bounds where "stage_plan (sts ! i) = ShuffleWriteExec c n es bounds" "stage_id (sts ! i) = i"
      "ds ! i = ShuffleWriteExec (rejoin ds c) n es bounds" "fragment_ok sts i c" "distinct (read_ids c)"
      "stage_partitions (sts ! i) = plan_partitions (rejoin ds c)" "write_ok env (ds ! i)"
proof -
  from assms have "\<exists>c n es bounds. stage_plan (sts ! i) = ShuffleWriteExec c n es bounds
             \<and> ds ! i = ShuffleWriteExec (rejoin ds c) n es bounds
             \<and> fragment_ok sts i c \<and> distinct (read_ids c)"
    and rest: "stage_id (sts ! i) = i" "write_ok env (ds ! i)"
      "stage_partitions (sts ! i) = plan_partitions (ds ! i)"
    unfolding cut_from_def by blast+
  then obtain c n es bounds where c: "stage_plan (sts ! i) = ShuffleWriteExec c n es bounds"
      "ds ! i = ShuffleWriteExec (rejoin ds c) n es bounds" "fragment_ok sts i c" "distinct (read_ids c)"
    by blast
  from that [OF c(1) rest(1) c(2,3,4) _ rest(2)] rest(3) show ?thesis by (simp add: c(2))
qed

lemma execute_in_progress:
  assumes cut: "cut_from env sts ds" and pr: "progress env rdir ds k sc" and "k \<le> length sts"
    and frag: "fragment_ok sts k f" "distinct (read_ids f)" "leaves p = leaves f"
    and d: "\<And>j. j < k \<Longrightarrow> agrees rdir j (sc_world sc) d"
  shows "execute_partition (env\<lparr>env_disk := d\<rparr>) f pid (resolve_shuffle_blocks p pid (sc_manager sc))
    = direct env (rejoin ds f) pid"
proof (rule execute_fragment [OF frag(1) resolve_given [OF frag]])
  show "length sts \<le> length ds" using cut by (simp add: cut_from_def)
  show "\<forall>j < k. stored env (sc_manager sc) d j (ds ! j) \<and> write_ok env (ds ! j)
      \<and> pschema (ds ! j) = pschema (stage_plan (sts ! j))"
    using assms by (auto simp: progress_def cut_from_def)
qed

lemma map_stage_tasks:
  assumes "make_tasks st sc = (ts, sc1)" "stage_partitions st = length parts"
  shows "t \<in> set ts \<Longrightarrow> task_plan t = stage_plan st \<and> task_stage_id t = stage_id st
      \<and> shuffle_root_dir t = Some (root_dir (sc_manager sc)) \<and> task_partition_id t < length parts
      \<and> shuffle_blocks t = resolve_shuffle_blocks (stage_plan st) (task_partition_id t) (sc_manager sc)"
    and "map (\<lambda>t. parts ! task_partition_id t) ts = parts"
proof -
  show "t \<in> set ts \<Longrightarrow> task_plan t = stage_plan st \<and> task_stage_id t = stage_id st
      \<and> shuffle_root_dir t = Some (root_dir (sc_manager sc)) \<and> task_partition_id t < length parts
      \<and> shuffle_blocks t = resolve_shuffle_blocks (stage_plan st) (task_partition_id t) (sc_manager sc)"
    using assms by (auto simp: make_tasks_def)
  have "map task_partition_id ts = [0..<length parts]"
    using assms by (auto simp: make_tasks_def comp_def)
  then have "map (\<lambda>j. parts ! j) (map task_partition_id ts) = parts" by (simp add: map_nth)
  then show "map (\<lambda>t. parts ! task_partition_id t) ts = parts" by (simp add: comp_def)
qed

lemma run_map_tasks_elsewhere:
  assumes "\<forall>(task, rows) \<in> set tasks. \<forall>r \<in> set rows. rbind (kf r) (partition_for md5 p) = Inr (tgt r)"
    and "distinct (map fst tasks)" "run_map_tasks c rdir i kf md5 p tasks disk = (disk', Inr blocks)"
  shows "same_elsewhere rdir i disk disk'"
  using run_map_tasks_spec [OF assms(1,2), of c rdir i disk] assms(3)
  by (auto simp: same_elsewhere_def)

lemma stored_after_write:
  assumes "pickle_ok (env_codec env)"
    and tasks: "\<forall>(task, rows) \<in> set tasks. \<forall>r \<in> set rows. rbind (kf r) (partition_for (env_md5 env) p) = Inr (tgt r)"
      "distinct (map fst tasks)" "map snd tasks = parts"
    and run: "run_map_tasks (env_codec env) rdir i kf (env_md5 env) p tasks disk = (disk', Inr blocks)"
    and wr: "write_key_fn es bounds = Inr kf" "write_partitioner n bounds = Inr p"
      "write_rows env c = Inr parts"
    and d: "agrees rdir i disk' d"
  shows "stored env (register_blocks sm i blocks) d i (ShuffleWriteExec c n es bounds)"
  unfolding stored_def
proof (intro allI impI)
  fix t rows
  assume rows: "written_rows env (ShuffleWriteExec c n es bounds) t = Inr rows"
  have "\<forall>r \<in> set (concat parts). rbind (kf r) (partition_for (env_md5 env) p) = Inr (tgt r)"
    using tasks(1) unfolding tasks(3) [symmetric] by fastforce
  from route_eq [OF wr(1,2) this, of t] rows have rows: "rows = rows_for tgt t (concat parts)"
    by (simp add: wr(3))
  have "shuffled_rows tgt t tasks = concat (map (rows_for tgt t) (map snd tasks))"
    by (simp add: shuffled_rows_def comp_def case_prod_unfold)
  then have shuffled: "shuffled_rows tgt t tasks = rows"
    unfolding tasks(3) rows by (simp add: rows_for_def [abs_def] filter_concat comp_def)
  from run_map_tasks_spec [OF tasks(1,2), of "env_codec env" rdir i disk] run
  have blocks: "blocks = concat (map (\<lambda>(task, rows).
              map (block_of (env_codec env) rdir i task tgt rows) (uniq (map tgt rows))) tasks)"
    and files: "\<forall>(task, rows) \<in> set tasks. \<forall>t \<in> tgt ` set rows.
         disk' (block_path rdir i t task) = Some (dump_all (env_codec env) (rows_for tgt t rows))"
    by auto
  have "\<forall>(task, rows) \<in> set tasks. \<forall>t \<in> tgt ` set rows.
         d (block_path rdir i t task) = Some (dump_all (env_codec env) (rows_for tgt t rows))"
    using files d by (simp add: agrees_def)
  from read_target [OF assms(1) this, where verify = True and t = t]
  show "gen_list (read_shuffle_blocks (env_codec env) d True (blocks_for (register_blocks sm i blocks) i t)) = Inr rows"
    by (simp add: blocks_for_def register_blocks_def blocks shuffled)
qed

lemma stored_other:
  "j \<noteq> i \<Longrightarrow> stored env (register_blocks sm i blocks) d j w = stored env sm d j w"
  by (simp add: stored_def blocks_for_def register_blocks_def)

lemma map_stage_progress:
  assumes cut: "cut_from env sts ds" and pr: "progress env rdir ds i sc" and i: "i < length sts"
    and pickle: "pickle_ok (env_codec env)"
  shows "\<exists>sc' rs. run_stage (execute_task env rss) m by_id (Suc (Suc fuel)) (sts ! i) False sc = Some (sc', Inr rs)
    \<and> progress env rdir ds (Suc i) sc'"
proof -
  obtain c n es bounds where st: "stage_plan (sts ! i) = ShuffleWriteExec c n es bounds" "stage_id (sts ! i) = i"
      "ds ! i = ShuffleWriteExec (rejoin ds c) n es bounds" "fragment_ok sts i c" "distinct (read_ids c)"
      "stage_partitions (sts ! i) = plan_partitions (rejoin ds c)" "write_ok env (ds ! i)"
    by (rule cut_fromD [OF cut i])
  obtain parts rows0 where parts: "write_rows env (rejoin ds c) = Inr parts"
      "route (env_md5 env) n es bounds parts 0 = Inr rows0"
    using st(3,7) by auto
  from iffD1 [OF route_Inr_iff, OF exI, OF parts(2)] obtain kf p where
    wr: "write_key_fn es bounds = Inr kf" "write_partitioner n bounds = Inr p"
      "\<forall>r \<in> set (concat parts). \<exists>k. rbind (kf r) (partition_for (env_md5 env) p) = Inr k"
    by blast
  from bchoice [OF wr(3)] obtain tgt where
    tgt: "\<forall>r \<in> set (concat parts). rbind (kf r) (partition_for (env_md5 env) p) = Inr (tgt r)" by blast
  obtain ts sc1 where mk: "make_tasks (sts ! i) sc = (ts, sc1)" by (cases "make_tasks (sts ! i) sc")
  note sc1 = make_tasks_simps [OF mk]
  let ?rows = "\<lambda>t. parts ! task_partition_id t"
  have len: "length parts = plan_partitions (rejoin ds c)"
    using rmap_length [OF parts(1) [unfolded write_rows_def]] by simp
  have part_ok: "\<exists>q. direct env (rejoin ds c) j = Inr q \<and> part_to_list q = Inr (parts ! j)"
    if "j < length parts" for j
    using parts(1) that by (auto simp: write_rows_def rmap_Inr_iff list_all2_conv_all_nth rbind_Inr_iff)
  note tasks = map_stage_tasks [OF mk, of parts, unfolded st(6) len, OF refl]
  have root_eq: "root_dir (sc_manager sc) = rdir" using pr by (simp add: progress_def)
  have exec: "execute_partition (env\<lparr>env_disk := d\<rparr>) c (task_partition_id t) (shuffle_blocks t)
      = direct env (rejoin ds c) (task_partition_id t)"
    if "t \<in> set ts" "same_elsewhere rdir i (sc_world sc) d" for t d
  proof -
    have "agrees rdir j (sc_world sc) d" if "j < i" for j
      by (rule same_elsewhere_agrees [OF \<open>same_elsewhere rdir i (sc_world sc) d\<close>]) (use that in simp)
    with execute_in_progress [OF cut pr _ st(4,5), of "ShuffleWriteExec c n es bounds" d "task_partition_id t"]
      tasks(1) [OF that(1)] i show ?thesis by (simp add: st(1))
  qed
  have here: "same_elsewhere rdir i (sc_world sc) (sc_world sc)" by (simp add: same_elsewhere_def)
  have counts: "\<forall>t \<in> set ts. \<exists>k. input_record_count t = Inr k"
  proof
    fix t assume t: "t \<in> set ts"
    obtain q where "direct env (rejoin ds c) (task_partition_id t) = Inr q"
      using part_ok tasks(1) [OF t] len by auto
    then have "execute_partition (env\<lparr>env_disk := sc_world sc\<rparr>) c (task_partition_id t) (shuffle_blocks t) = Inr q"
      using exec [OF t here] by simp
    from input_count_total [OF this st(4)] tasks(1) [OF t] show "\<exists>k. input_record_count t = Inr k"
      by (simp add: st(1))
  qed
  have plans: "\<forall>t \<in> set ts. task_plan t = ShuffleWriteExec c n es bounds \<and> task_stage_id t = i
        \<and> shuffle_root_dir t = Some rdir"
    using tasks(1) by (simp add: st(1,2) root_eq)
  have runs: "\<forall>t \<in> set ts. \<forall>d. same_elsewhere rdir i (sc_world sc) d \<longrightarrow>
      (\<exists>part. execute_partition (env\<lparr>env_disk := d\<rparr>) c (task_partition_id t) (shuffle_blocks t) = Inr part
         \<and> part_to_list part = Inr (?rows t))"
  proof (intro ballI allI impI)
    fix t d
    assume t: "t \<in> set ts" and d: "same_elsewhere rdir i (sc_world sc) d"
    have "task_partition_id t < length parts" using tasks(1) [OF t] len by simp
    from part_ok [OF this] exec [OF t d]
    show "\<exists>part. execute_partition (env\<lparr>env_disk := d\<rparr>) c (task_partition_id t) (shuffle_blocks t) = Inr part
         \<and> part_to_list part = Inr (?rows t)" by simp
  qed
  have tgts: "\<forall>t \<in> set ts. \<forall>r \<in> set (?rows t). rbind (kf r) (partition_for (env_md5 env) p) = Inr (tgt r)"
  proof (intro ballI)
    fix t r
    assume t: "t \<in> set ts" and r: "r \<in> set (?rows t)"
    have "task_partition_id t < length parts" using tasks(1) [OF t] len by simp
    with r have "r \<in> set (concat parts)" by (auto intro!: bexI [of _ "?rows t"])
    with tgt show "rbind (kf r) (partition_for (env_md5 env) p) = Inr (tgt r)" by blast
  qed
  from write_batch [OF plans wr(1,2) runs tgts counts here, of rss] obtain disk' rs where
    rs: "run_batch (execute_task env rss) (map (\<lambda>t. (t, 0)) ts) (sc_world sc) = (disk', rs)"
      "\<forall>r \<in> set rs. result_state r = SUCCESS"
      "run_map_tasks (env_codec env) rdir i kf (env_md5 env) p (map (\<lambda>t. (task_id t, ?rows t)) ts) (sc_world sc)
        = (disk', Inr (concat (map result_blocks rs)))"
    by blast
  let ?tasks = "map (\<lambda>t. (task_id t, ?rows t)) ts"
  let ?sc' = "stage_finished (sts ! i) False 0 rs (sc1\<lparr>sc_world := disk'\<rparr>)"
  have run: "run_stage (execute_task env rss) m by_id (Suc (Suc fuel)) (sts ! i) False sc = Some (?sc', Inr rs)"
    by (rule run_stage_success [OF mk _ rs(2)]) (simp add: sc1 rs(1))
  have tasks_ok: "\<forall>(task, rows) \<in> set ?tasks. \<forall>r \<in> set rows. rbind (kf r) (partition_for (env_md5 env) p) = Inr (tgt r)"
    using tgts by simp
  have ids: "distinct (map fst ?tasks)" using make_tasks_ids [OF mk] by (simp add: comp_def)
  have snds: "map snd ?tasks = parts" using tasks(2) by (simp add: comp_def)
  have manager: "sc_manager ?sc' = register_blocks (sc_manager sc) i (concat (map result_blocks rs))"
    by (simp add: stage_finished_def st(1,2) sc1 Let_def)
  note new = stored_after_write [OF pickle tasks_ok ids snds rs(3) wr(1,2) parts(1), of _ "sc_manager sc"]
  note rest = run_map_tasks_elsewhere [OF tasks_ok ids rs(3)]
  have old: "stored env (sc_manager ?sc') d j (ds ! j)" if "j < i" "agrees rdir j disk' d" for j d
  proof -
    have "agrees rdir j (sc_world sc) d"
      using agrees_trans [OF same_elsewhere_agrees [OF rest]] that by simp
    then have "stored env (sc_manager sc) d j (ds ! j)"
      using pr that(1) by (simp add: progress_def)
    then show ?thesis using that(1) by (simp add: manager stored_other)
  qed
  have "progress env rdir ds (Suc i) ?sc'"
    using new old by (auto simp: progress_def less_Suc_eq sc1 manager st(3) root_eq register_blocks_def)
  with run show ?thesis by blast
qed

section \<open>The stages of a plan\<close>

lemma fragment_ok_shrink:
  "fragment_ok (sts @ xs) k p \<Longrightarrow> k \<le> length sts \<Longrightarrow> fragment_ok sts k p"
  by (induction "sts @ xs" k p rule: fragment_ok.induct) (auto simp: nth_append)

lemma stages_ok_prefix: "stages_ok (sts @ [st]) \<Longrightarrow> stages_ok sts"
  unfolding stages_ok_def
proof (intro allI impI)
  fix i
  assume ok: "\<forall>i < length (sts @ [st]). stage_id ((sts @ [st]) ! i) = i \<and> is_write (stage_plan ((sts @ [st]) ! i))
      \<and> fragment_ok (sts @ [st]) i (written (stage_plan ((sts @ [st]) ! i)))" and i: "i < length sts"
  from ok [rule_format, of i] i fragment_ok_shrink [of sts "[st]" i "written (stage_plan (sts ! i))"]
  show "stage_id (sts ! i) = i \<and> is_write (stage_plan (sts ! i)) \<and> fragment_ok sts i (written (stage_plan (sts ! i)))"
    by (simp add: nth_append)
qed

lemma rejoin_write: "is_write p \<Longrightarrow> fragment_ok sts k (written p) \<Longrightarrow> k \<le> length ds \<Longrightarrow> rejoin (ds @ xs) p = rejoin ds p"
  by (cases p) (auto intro: rejoin_extend)

lemma rejoin_stages_nth:
  "stages_ok sts \<Longrightarrow> i < length sts \<Longrightarrow> rejoin_stages sts ! i = rejoin (rejoin_stages sts) (stage_plan (sts ! i))"
proof (induction sts rule: rev_induct)
  case (snoc st sts)
  have ok: "is_write (stage_plan ((sts @ [st]) ! i))" "fragment_ok (sts @ [st]) i (written (stage_plan ((sts @ [st]) ! i)))"
    using snoc.prems unfolding stages_ok_def by blast+
  have "rejoin (rejoin_stages (sts @ [st])) (stage_plan ((sts @ [st]) ! i))
      = rejoin (rejoin_stages sts) (stage_plan ((sts @ [st]) ! i))"
    unfolding rejoin_stages_snoc by (rule rejoin_write [OF ok]) (use snoc.prems(2) in simp)
  then show ?case
    using snoc.IH [OF stages_ok_prefix [OF snoc.prems(1)]] snoc.prems(2)
    by (cases "i = length sts") (simp_all add: nth_append)
qed simp

lemma rejoin_schema:
  "fragment_ok sts k f \<Longrightarrow> \<forall>j < k. is_write (ds ! j) \<and> pschema (ds ! j) = pschema (stage_plan (sts ! j)) \<Longrightarrow>
   pschema (rejoin ds f) = pschema f"
proof (induction f)
  case (ShuffleReadExec j s b)
  then show ?case by (cases "ds ! j") force+
qed auto

lemma cut_from_split:
  assumes "unsplit p" "split p [] = Inr (f, n, sts)" "\<forall>w \<in> set (writes p). write_ok env w"
  shows "cut_from env sts (writes p)" and "rejoin (writes p) f = p" and "fragment_ok sts (length sts) f"
    and "pschema f = pschema p" and "n = plan_partitions p" and "distinct (read_ids f)"
proof -
  have "stages_ok []" by (simp add: stages_ok_def)
  from split_correct [OF assms(1) this] obtain f' new where
    "split p [] = Inr (f', plan_partitions p, new)" "length new = exchange_count p" "stages_ok new"
    "fragment_ok new (length new) f'" "pschema f' = pschema p" "rejoin (rejoin_stages new) f' = p"
    "rejoin_stages new = writes p" "map stage_partitions new = map plan_partitions (writes p)"
    "distinct (read_ids f')" "\<forall>st \<in> set new. distinct (read_ids (stage_plan st))"
    by (rule split_okE) simp
  with assms(2) have ok: "stages_ok sts" "n = plan_partitions p" "fragment_ok sts (length sts) f"
      "pschema f = pschema p" "rejoin (writes p) f = p" "rejoin_stages sts = writes p"
      "map stage_partitions sts = map plan_partitions (writes p)" "distinct (read_ids f)"
      "\<forall>st \<in> set sts. distinct (read_ids (stage_plan st))"
    by auto
  have len: "length (writes p) = length sts" unfolding ok(6) [symmetric] by simp
  have plan: "\<exists>c n es bounds. stage_plan (sts ! i) = ShuffleWriteExec c n es bounds
      \<and> writes p ! i = ShuffleWriteExec (rejoin (writes p) c) n es bounds
      \<and> fragment_ok sts i c \<and> distinct (read_ids c)" if i: "i < length sts" for i
  proof -
    have "is_write (stage_plan (sts ! i))" "fragment_ok sts i (written (stage_plan (sts ! i)))"
      using ok(1) i by (simp_all add: stages_ok_def)
    then obtain c n es bounds where c: "stage_plan (sts ! i) = ShuffleWriteExec c n es bounds" "fragment_ok sts i c"
      by (cases "stage_plan (sts ! i)") auto
    moreover have "writes p ! i = rejoin (writes p) (stage_plan (sts ! i))"
      using rejoin_stages_nth [OF ok(1) i] ok(6) by simp
    moreover have "distinct (read_ids (stage_plan (sts ! i)))" using ok(9) i by simp
    ultimately show ?thesis by simp
  qed
  have schema: "pschema (writes p ! i) = pschema (stage_plan (sts ! i))" if "i < length sts" for i
    using that
  proof (induction i rule: less_induct)
    case (less i)
    from plan [OF less.prems] obtain c n es bounds where c: "stage_plan (sts ! i) = ShuffleWriteExec c n es bounds"
      "writes p ! i = ShuffleWriteExec (rejoin (writes p) c) n es bounds" "fragment_ok sts i c" by blast
    have "\<forall>j < i. is_write (writes p ! j) \<and> pschema (writes p ! j) = pschema (stage_plan (sts ! j))"
    proof (intro allI impI)
      fix j assume "j < i"
      with less plan [of j] show "is_write (writes p ! j) \<and> pschema (writes p ! j) = pschema (stage_plan (sts ! j))"
        by fastforce
    qed
    from rejoin_schema [OF c(3) this] show ?case by (simp add: c(1,2))
  qed
  have parts: "stage_partitions (sts ! i) = plan_partitions (writes p ! i)" if "i < length sts" for i
    using arg_cong [OF ok(7), of "\<lambda>xs. xs ! i"] that len by simp
  show "cut_from env sts (writes p)"
    unfolding cut_from_def
    using len ok(1) assms(3) schema parts plan by (simp add: stages_ok_def)
  show "rejoin (writes p) f = p" "fragment_ok sts (length sts) f" "pschema f = pschema p"
    "n = plan_partitions p" "distinct (read_ids f)"
    by (fact ok)+
qed

section \<open>A whole run\<close>

lemma run_map_stages:
  assumes cut: "cut_from env sts ds" and pickle: "pickle_ok (env_codec env)" and "i \<le> length sts"
    and "progress env rdir ds i sc"
  shows "\<exists>sc'. run_stages (execute_task env rss) m by_id (Suc (Suc fuel)) (drop i sts @ rest) final sc
      = run_stages (execute_task env rss) m by_id (Suc (Suc fuel)) rest final sc'
    \<and> progress env rdir ds (length sts) sc'"
  using assms(3,4)
proof (induction "length sts - i" arbitrary: i sc)
  case 0
  then show ?case by auto
next
  case (Suc k)
  then have i: "i < length sts" by simp
  obtain sc' rs where sc': "run_stage (execute_task env rss) m by_id (Suc (Suc fuel)) (sts ! i) False sc = Some (sc', Inr rs)"
      "progress env rdir ds (Suc i) sc'"
    using map_stage_progress [OF cut Suc.prems(2) i pickle] by blast
  have "is_write (stage_plan (sts ! i))" by (rule cut_fromD [OF cut i]) simp
  then have "run_stages (execute_task env rss) m by_id (Suc (Suc fuel)) (drop i sts @ rest) final sc
      = run_stages (execute_task env rss) m by_id (Suc (Suc fuel)) (drop (Suc i) sts @ rest) final sc'"
    using sc'(1) by (simp add: Cons_nth_drop_Suc [OF i, symmetric])
  with Suc.hyps(1) [of "Suc i" sc'] Suc.hyps(2) i sc'(2) show ?case by simp
qed

lemma read_batch:
  assumes "\<forall>t \<in> set ts. \<not> is_write (task_plan t)
      \<and> (\<exists>part. execute_partition (env\<lparr>env_disk := disk\<rparr>) (task_plan t) (task_partition_id t) (shuffle_blocks t) = Inr part
           \<and> part_to_list part = Inr (rows_of t))
      \<and> (\<exists>k. input_record_count t = Inr k)"
  shows "\<exists>rs. run_batch (execute_task env rss) (map (\<lambda>t. (t, 0)) ts) disk = (disk, rs)
    \<and> (\<forall>r \<in> set rs. result_state r = SUCCESS \<and> output_records (result_metrics r) = length (result_rows r))
    \<and> map result_rows rs = map rows_of ts"
  using assms
proof (induction ts)
  case (Cons t ts)
  have "execute_task env rss t 0 disk = (disk, report t rss (execute_normal_task (env\<lparr>env_disk := disk\<rparr>) t))"
    using Cons.prems by (auto simp: execute_task_def Let_def split: pplan.splits)
  moreover obtain k part where "input_record_count t = Inr k"
    "execute_partition (env\<lparr>env_disk := disk\<rparr>) (task_plan t) (task_partition_id t) (shuffle_blocks t) = Inr part"
    "part_to_list part = Inr (rows_of t)" using Cons.prems by auto
  ultimately have "\<exists>r. execute_task env rss t 0 disk = (disk, r) \<and> result_state r = SUCCESS
      \<and> output_records (result_metrics r) = length (result_rows r) \<and> result_rows r = rows_of t"
    by (simp add: execute_normal_task_def report_def success_result_def)
  with Cons show ?case by auto
qed simp

lemma run_plan_direct:
  assumes pickle: "pickle_ok (env_codec env)" and p: "unsplit p" "build_stages p = Inr sts"
    and writes: "\<forall>w \<in> set (writes p). write_ok env w"
    and out: "\<forall>pid < plan_partitions p. \<exists>part. direct env p pid = Inr part \<and> part_to_list part = Inr (out pid)"
  shows "\<exists>sc d. run_plan (execute_task env rss) m (Suc (Suc fuel)) rdir disk sts = Some (sc, Inr d)
    \<and> ds_schema d = pschema p
    \<and> map part_to_list (ds_partitions d) = map (\<lambda>pid. Inr (out pid)) [0..<plan_partitions p]
    \<and> (\<forall>q \<in> set (ds_partitions d). counts_ok q)"
proof -
  obtain f n maps where split: "split p [] = Inr (f, n, maps)"
    and sts: "sts = maps @ [\<lparr>stage_id = length maps, stage_plan = f, stage_partitions = n\<rparr>]"
    using p(2) by (auto simp: build_stages_def close_stage_def rbind_Inr_iff)
  note cut = cut_from_split [OF p(1) split writes]
  let ?st = "\<lparr>stage_id = length maps, stage_plan = f, stage_partitions = n\<rparr>"
  have "progress env rdir (writes p) 0 (sched_start rdir disk)"
    by (simp add: progress_def sched_start_def new_manager_def)
  from run_map_stages [OF cut(1) pickle _ this, of rss m "stages_dict sts" fuel "[?st]" None]
  obtain sc where sc: "run_stages (execute_task env rss) m (stages_dict sts) (Suc (Suc fuel)) sts None (sched_start rdir disk)
      = run_stages (execute_task env rss) m (stages_dict sts) (Suc (Suc fuel)) [?st] None sc"
      "progress env rdir (writes p) (length maps) sc"
    by (auto simp: sts)
  obtain ts sc1 where mk: "make_tasks ?st sc = (ts, sc1)" by (cases "make_tasks ?st sc")
  note sc1 = make_tasks_simps [OF mk]
  let ?parts = "map out [0..<plan_partitions p]"
  have parts: "stage_partitions ?st = length ?parts" using cut(5) by simp
  note tasks = map_stage_tasks [OF mk parts]
  have exec: "execute_partition (env\<lparr>env_disk := sc_world sc\<rparr>) f (task_partition_id t) (shuffle_blocks t)
      = direct env p (task_partition_id t)" if "t \<in> set ts" for t
    using execute_in_progress [OF cut(1) sc(2) order_refl cut(3,6) refl, of "sc_world sc"] tasks(1) [OF that]
    by (simp add: agrees_def cut(2))
  have ok: "\<forall>t \<in> set ts. \<not> is_write (task_plan t)
      \<and> (\<exists>part. execute_partition (env\<lparr>env_disk := sc_world sc\<rparr>) (task_plan t) (task_partition_id t) (shuffle_blocks t) = Inr part
           \<and> part_to_list part = Inr (out (task_partition_id t)))
      \<and> (\<exists>k. input_record_count t = Inr k)"
  proof
    fix t assume t: "t \<in> set ts"
    have pid: "task_partition_id t < plan_partitions p" using tasks(1) [OF t] by simp
    with out obtain part where part: "direct env p (task_partition_id t) = Inr part"
      "part_to_list part = Inr (out (task_partition_id t))" by blast
    have "\<not> is_write f" using cut(3) by (cases f) auto
    with part exec [OF t] tasks(1) [OF t] input_count_total [OF _ cut(3), of _ t] show "\<not> is_write (task_plan t)
      \<and> (\<exists>part. execute_partition (env\<lparr>env_disk := sc_world sc\<rparr>) (task_plan t) (task_partition_id t) (shuffle_blocks t) = Inr part
           \<and> part_to_list part = Inr (out (task_partition_id t)))
      \<and> (\<exists>k. input_record_count t = Inr k)"
      by simp
  qed
  from read_batch [OF ok, of rss] obtain rs where
    rs: "run_batch (execute_task env rss) (map (\<lambda>t. (t, 0)) ts) (sc_world sc) = (sc_world sc, rs)"
      "\<forall>r \<in> set rs. result_state r = SUCCESS" "map result_rows rs = map (\<lambda>t. out (task_partition_id t)) ts"
      "\<forall>r \<in> set rs. output_records (result_metrics r) = length (result_rows r)"
    by blast
  have run: "run_stage (execute_task env rss) m (stages_dict sts) (Suc (Suc fuel)) ?st False sc
      = Some (stage_finished ?st False 0 rs (sc1\<lparr>sc_world := sc_world sc\<rparr>), Inr rs)"
    by (rule run_stage_success [OF mk _ rs(2)]) (simp add: sc1 rs(1))
  have rows: "map result_rows rs = ?parts"
  proof -
    have "map (\<lambda>t. ?parts ! task_partition_id t) ts = map (\<lambda>t. out (task_partition_id t)) ts"
      using tasks(1) by (intro map_cong) auto
    with tasks(2) rs(3) show ?thesis by simp
  qed
  have "\<not> is_write f" using cut(3) by (cases f) auto
  moreover have "map part_to_list (ds_partitions (results_to_dataset s rs)) = map (\<lambda>r. Inr (result_rows r)) rs" for s
    by (auto simp: results_to_dataset_def result_partition_def part_to_list_def intro!: nth_equalityI)
  moreover have "map (\<lambda>r. Inr (result_rows r)) rs = map Inr (map result_rows rs)" by simp
  moreover have "\<forall>q \<in> set (ds_partitions (results_to_dataset s rs)). counts_ok q" for s
    using rs(4)
    by (auto simp: results_to_dataset_def result_partition_def counts_ok_def part_row_count_def counted_meta_def
        part_to_list_def set_zip)
  ultimately show ?thesis
    using run sc(1) cut(4) by (simp add: run_plan_def rows results_to_dataset_def comp_def)
qed

text \<open>
  C3: Running a plan on the engine computes the plan.  Cut a planner's plan into stages and let the
  scheduler run them with real workers: if the plan's direct meaning is defined, the run succeeds,
  and every partition of its dataset holds exactly the rows of that partition of the direct
  meaning, although on the way every exchange wrote its rows to pickled and checksummed block files
  and read them back in other tasks.
\<close>

theorem plan_execution_correct:
  assumes "pickle_ok (env_codec env)" "unsplit p" "build_stages p = Inr sts" "2 \<le> fuel"
    and "\<forall>w \<in> set (writes p). write_ok env w"
    and "\<forall>pid < plan_partitions p. \<exists>part. direct env p pid = Inr part \<and> part_to_list part = Inr (out pid)"
  shows "\<exists>sc d. run_plan (execute_task env rss) max_retries fuel rdir disk sts = Some (sc, Inr d)
    \<and> ds_schema d = pschema p
    \<and> map part_to_list (ds_partitions d) = map (\<lambda>pid. Inr (out pid)) [0..<plan_partitions p]"
proof -
  obtain k where k: "fuel = Suc (Suc k)" using assms(4) by (metis Suc_le_D numeral_2_eq_2 Suc_le_mono)
  from run_plan_direct [OF assms(1,2,3,5,6), of rss max_retries k rdir disk] show ?thesis
    unfolding k by blast
qed

definition sample_exchange_plan :: pplan where
  "sample_exchange_plan = FilterExec
     (ExchangeExec (ProjectExec (ScanExec sample_dataset ''t'') [Column ''a''] (ds_schema sample_dataset))
        2 [Column ''a''] False None)
     (IsNotNull (Column ''a''))"

lemma sample_exchange_direct:
  "map (\<lambda>i. rbind (direct sample_env sample_exchange_plan i) part_to_list) [0, 1]
   = [Inr [[(''a'', VInt 1)], [(''a'', VInt 2)], [(''a'', VInt 3)]], Inr []]"
  "list_all (\<lambda>w. case written_rows sample_env w 0 of Inl e \<Rightarrow> False | Inr rows \<Rightarrow> True) (writes sample_exchange_plan)"
  "list_all is_write (writes sample_exchange_plan)" "plan_partitions sample_exchange_plan = 2"
  "unsplit sample_exchange_plan"
  by code_simp+

lemma written_rows_ok: "is_write w \<Longrightarrow> written_rows env w 0 = Inr rows \<Longrightarrow> write_ok env w"
  by (cases w) (auto simp: rbind_Inr_iff)

theorem plan_execution_correct_witness:
  "\<exists>sts sc d. build_stages sample_exchange_plan = Inr sts
     \<and> run_plan (execute_task sample_env None) 3 100 ''/tmp/s'' (\<lambda>_. None) sts = Some (sc, Inr d)
     \<and> map part_to_list (ds_partitions d) = [Inr [[(''a'', VInt 1)], [(''a'', VInt 2)], [(''a'', VInt 3)]], Inr []]"
proof -
  let ?out = "\<lambda>i. if i = 0 then [[(''a'', VInt 1)], [(''a'', VInt 2)], [(''a'', VInt 3)]] else []"
  have ok: "\<forall>w \<in> set (writes sample_exchange_plan). write_ok sample_env w"
  proof
    fix w assume w: "w \<in> set (writes sample_exchange_plan)"
    then obtain rows where "written_rows sample_env w 0 = Inr rows"
      using sample_exchange_direct(2) by (cases "written_rows sample_env w 0") (auto simp: list_all_iff)
    then show "write_ok sample_env w"
      using sample_exchange_direct(3) w written_rows_ok by (auto simp: list_all_iff)
  qed
  have out: "\<forall>pid < plan_partitions sample_exchange_plan.
      \<exists>part. direct sample_env sample_exchange_plan pid = Inr part \<and> part_to_list part = Inr (?out pid)"
    unfolding sample_exchange_direct(4)
    using sample_exchange_direct(1) by (auto simp: rbind_Inr_iff less_2_cases_iff)
  have pickle: "pickle_ok (env_codec sample_env)" by (simp add: sample_env_def sample_codec_ok)
  obtain sts where sts: "build_stages sample_exchange_plan = Inr sts"
    using sample_exchange_direct(5) split_correct [of sample_exchange_plan "[]"]
    by (auto simp: build_stages_def split_ok_def stages_ok_def)
  from plan_execution_correct [OF pickle sample_exchange_direct(5) sts _ ok out, of 100 None 3 "''/tmp/s''" "\<lambda>_. None"]
  obtain sc d where "run_plan (execute_task sample_env None) 3 100 ''/tmp/s'' (\<lambda>_. None) sts = Some (sc, Inr d)"
    "map part_to_list (ds_partitions d) = map (\<lambda>pid. Inr (?out pid)) [0..<plan_partitions sample_exchange_plan]"
    by auto
  with sts show ?thesis by (simp add: sample_exchange_direct(4) upt_rec)
qed

end
