(* ===== verification/SchedulerResults.thy ===== *)
theory SchedulerResults
  imports SchedulerRuns
begin

text \<open>
  Where the rows of a query's dataset come from, whatever the tasks do: from one result per task of
  the last stage, none of them failed, each reported by the task function for that task.
\<close>

section \<open>Results that were reported\<close>

text \<open>
  A task as it was made, but for the blocks a recovery may have given it since.
\<close>

definition same_task :: "task \<Rightarrow> task \<Rightarrow> bool" where
  "same_task t t' \<longleftrightarrow> task_id t' = task_id t \<and> task_partition_id t' = task_partition_id t
     \<and> task_plan t' = task_plan t"

definition reported :: "'w run_task \<Rightarrow> nat \<Rightarrow> task \<Rightarrow> task_result \<Rightarrow> bool" where
  "reported run m t r \<longleftrightarrow> (\<exists>t' a w. same_task t t' \<and> a \<le> m \<and> r = snd (run t' a w))"

text \<open>
  The loop's state while \<open>xs\<close> is still to be settled: all results were reported, and every task is
  done, pending, or in \<open>xs\<close>.
\<close>

definition accounted ::
    "'w run_task \<Rightarrow> nat \<Rightarrow> task list \<Rightarrow> ((task \<times> nat) \<times> task_result) list \<Rightarrow> loop_state \<Rightarrow> bool" where
  "accounted run m tasks xs ls \<longleftrightarrow>
     (\<forall>(t, a) \<in> set (ls_pending ls). (\<exists>t0 \<in> set tasks. same_task t0 t) \<and> a \<le> m)
     \<and> (\<forall>((t, a), r) \<in> set xs. (\<exists>t0 \<in> set tasks. same_task t0 t \<and> reported run m t0 r) \<and> a \<le> m)
     \<and> (\<forall>(i, r) \<in> set (ls_done ls). \<exists>t0 \<in> set tasks. task_id t0 = i \<and> reported run m t0 r)
     \<and> (\<forall>t0 \<in> set tasks. task_id t0 \<in> fst ` set (ls_done ls)
          \<or> task_id t0 \<in> task_id ` fst ` set (ls_pending ls) \<or> task_id t0 \<in> task_id ` fst ` fst ` set xs)"

lemma same_task_refl [simp]: "same_task t t"
  by (simp add: same_task_def)

lemma retry_or_finish_accounted:
  assumes "accounted run m tasks (((t, a), r) # xs) ls"
  shows "accounted run m tasks xs (retry_or_finish m t a r ls)"
  using assms by (auto simp: accounted_def retry_or_finish_def same_task_def)

lemma settle_accounted:
  assumes "accounted run m tasks (((t, a), r) # xs) ls"
    and "settle rerun d m t a r ls sc = Some (sc', Inr ls')"
  shows "accounted run m tasks xs ls'"
proof (cases "ls' = retry_or_finish m t a r ls")
  case True
  with retry_or_finish_accounted [OF assms(1)] show ?thesis by simp
next
  case False
  then obtain bs where "ls' = ls\<lparr>ls_pending := ls_pending ls @ [(t\<lparr>shuffle_blocks := bs\<rparr>, a)]\<rparr>"
    using assms(2)
    by (auto simp: settle_def try_recover_def run_bind_Some_iff split: task_state.splits option.splits if_splits)
  with assms(1) show ?thesis by (auto simp: accounted_def same_task_def)
qed

lemma settle_all_accounted:
  "accounted run m tasks xs ls \<Longrightarrow> settle_all rerun d m xs ls sc = Some (sc', Inr ls') \<Longrightarrow>
   accounted run m tasks [] ls'"
proof (induction xs arbitrary: ls sc)
  case (Cons x xs)
  obtain t a r where x: "x = ((t, a), r)" by (cases x) auto
  obtain sc1 ls1 where "settle rerun d m t a r ls sc = Some (sc1, Inr ls1)"
    "settle_all rerun d m xs ls1 sc1 = Some (sc', Inr ls')"
    using Cons.prems(2) by (auto simp: x run_bind_Some_iff)
  with Cons.IH settle_accounted Cons.prems(1) x show ?case by blast
qed simp

lemma batch_reported:
  "run_batch run batch w = (w', rs) \<Longrightarrow> ((t, a), r) \<in> set (zip batch rs) \<Longrightarrow> \<exists>w. r = snd (run t a w)"
proof (induction batch arbitrary: w w' rs)
  case (Cons x batch)
  obtain t' a' where x: "x = (t', a')" by (cases x)
  obtain w1 r1 where r1: "run t' a' w = (w1, r1)" by (cases "run t' a' w")
  obtain w2 rs2 where rs2: "run_batch run batch w1 = (w2, rs2)" by (cases "run_batch run batch w1")
  from Cons.prems(1) have "rs = r1 # rs2" by (simp add: x r1 rs2)
  with Cons.prems(2) consider "t = t'" "a = a'" "r = r1" | "((t, a), r) \<in> set (zip batch rs2)"
    by (auto simp: x)
  then show ?case
  proof cases
    case 1
    then show ?thesis using r1 by (metis snd_conv)
  next
    case 2
    then show ?thesis using Cons.IH [OF rs2] by blast
  qed
qed simp

lemma loop_accounted:
  "accounted run m tasks [] ls \<Longrightarrow> loop run m d fuel ls sc = Some (sc', Inr ls') \<Longrightarrow>
   accounted run m tasks [] ls' \<and> ls_pending ls' = []"
proof (induction fuel arbitrary: ls sc)
  case (Suc fuel)
  show ?case
  proof (cases "ls_pending ls = []")
    case False
    obtain w rs where batch: "run_batch run (ls_pending ls) (sc_world sc) = (w, rs)" by (meson surj_pair)
    let ?rerun = "\<lambda>st. run_stage_with (loop run m d fuel) st True"
    obtain sc1 ls1 where s: "settle_all ?rerun d m (zip (ls_pending ls) rs) (ls\<lparr>ls_pending := []\<rparr>)
        (sc\<lparr>sc_world := w\<rparr>) = Some (sc1, Inr ls1)" "loop run m d fuel ls1 sc1 = Some (sc', Inr ls')"
      using Suc.prems(2) False by (auto simp: batch run_bind_Some_iff)
    have zipped: "fst ` set (zip (ls_pending ls) rs) = set (ls_pending ls)"
      using run_batch_length [OF batch] by (metis list.set_map map_fst_zip)
    have "accounted run m tasks (zip (ls_pending ls) rs) (ls\<lparr>ls_pending := []\<rparr>)"
    proof -
      have "(\<exists>t0 \<in> set tasks. same_task t0 t \<and> reported run m t0 r) \<and> a \<le> m"
        if "((t, a), r) \<in> set (zip (ls_pending ls) rs)" for t a r
      proof -
        have "(t, a) \<in> set (ls_pending ls)" using that by (rule set_zip_leftD)
        then obtain t0 where "t0 \<in> set tasks" "same_task t0 t" "a \<le> m"
          using Suc.prems(1) by (auto simp: accounted_def)
        with batch_reported [OF batch that] show ?thesis by (auto simp: reported_def)
      qed
      then show ?thesis using Suc.prems(1) zipped by (auto simp: accounted_def)
    qed
    from Suc.IH [OF settle_all_accounted [OF this s(1)] s(2)] show ?thesis .
  qed (use Suc.prems in simp)
qed simp

section \<open>The results of a stage\<close>

lemma run_stage_reported:
  assumes "run_stage run m d fuel st rec sc = Some (sc', Inr results)"
  shows "length results = stage_partitions st
    \<and> (\<forall>i < length results. result_state (results ! i) \<noteq> FAILED
        \<and> (\<exists>t. task_partition_id t = i \<and> task_plan t = stage_plan st \<and> reported run m t (results ! i)))"
proof -
  obtain ts sc1 where mk: "make_tasks st sc = (ts, sc1)" by (cases "make_tasks st sc")
  have ts: "length ts = stage_partitions st" "\<forall>i < length ts. task_partition_id (ts ! i) = i \<and> task_plan (ts ! i) = stage_plan st"
    "distinct (map task_id ts)"
    using mk by (auto simp: make_tasks_def comp_def distinct_map inj_on_def)
  let ?ls = "\<lparr>ls_pending = map (\<lambda>t. (t, 0)) ts, ls_done = [], ls_retried = []\<rparr>"
  obtain sc2 ls where ls1: "loop run m d fuel ?ls sc1 = Some (sc2, Inr ls)"
    "(case check_failed (collect_results ts (ls_done ls)) of Inl e \<Rightarrow> Some (sc2, Inl e)
      | Inr results \<Rightarrow> Some (stage_finished st rec (length (ls_retried ls)) results sc2, Inr results))
     = Some (sc', Inr results)"
    using assms by (auto simp: run_stage_def run_stage_with_def mk run_bind_Some_iff)
  then have ls: "loop run m d fuel ?ls sc1 = Some (sc2, Inr ls)"
    "check_failed (collect_results ts (ls_done ls)) = Inr results"
    by (cases "check_failed (collect_results ts (ls_done ls))"; simp)+
  have "accounted run m ts [] ?ls"
    by (auto simp: accounted_def image_image intro!: bexI [of _ _ "set ts"])
  from loop_accounted [OF this ls(1)] have acc: "accounted run m ts [] ls" "ls_pending ls = []" by auto
  have results: "results = collect_results ts (ls_done ls)" "\<forall>r \<in> set results. result_state r \<noteq> FAILED"
    using ls(2) by (auto simp: check_failed_def Let_def filter_empty_conv split: if_splits)
  have "reported run m (ts ! i) (results ! i)" if i: "i < length ts" for i
  proof -
    have "task_id (ts ! i) \<in> fst ` set (ls_done ls)"
      using acc i by (auto simp: accounted_def)
    then obtain r where r: "map_of (ls_done ls) (task_id (ts ! i)) = Some r"
      by (meson map_of_eq_None_iff not_None_eq)
    then obtain t0 where "t0 \<in> set ts" "task_id t0 = task_id (ts ! i)" "reported run m t0 r"
      using acc(1) map_of_SomeD [OF r] by (fastforce simp: accounted_def)
    moreover from this have "t0 = ts ! i"
      using ts(3) i by (metis in_set_conv_nth distinct_map inj_on_eq_iff nth_mem)
    ultimately show ?thesis using r i by (simp add: results(1) collect_results_def)
  qed
  moreover have "length results = length ts" by (simp add: results(1) collect_results_def)
  ultimately show ?thesis using ts results(2) by auto
qed

section \<open>The dataset of a query\<close>

definition from_results :: "'w run_task \<Rightarrow> nat \<Rightarrow> stage \<Rightarrow> dataset \<Rightarrow> bool" where
  "from_results run m st d \<longleftrightarrow> ds_schema d = pschema (stage_plan st) \<and> num_partitions d = stage_partitions st
     \<and> (\<forall>i < num_partitions d. \<exists>t a w. task_partition_id t = i \<and> task_plan t = stage_plan st \<and> a \<le> m
          \<and> result_state (snd (run t a w)) \<noteq> FAILED
          \<and> records (ds_partitions d ! i) = gen_of (result_rows (snd (run t a w))))"

lemma run_stages_reported:
  assumes "run_stages run m d fuel sts final sc = Some (sc', Inr (Some ds))"
    and "\<forall>ds. final = Some ds \<longrightarrow> (\<exists>st. \<not> is_write (stage_plan st) \<and> st \<in> set done \<and> from_results run m st ds)"
  shows "\<exists>st. \<not> is_write (stage_plan st) \<and> st \<in> set (done @ sts) \<and> from_results run m st ds"
  using assms
proof (induction sts arbitrary: final sc "done")
  case (Cons st sts)
  obtain sc1 results where run: "run_stage run m d fuel st False sc = Some (sc1, Inr results)"
    "run_stages run m d fuel sts (if is_write (stage_plan st) then final
        else Some (results_to_dataset (pschema (stage_plan st)) results)) sc1 = Some (sc', Inr (Some ds))"
    using Cons.prems(1) by (auto simp: run_bind_Some_iff)
  have "from_results run m st (results_to_dataset (pschema (stage_plan st)) results)"
    using run_stage_reported [OF run(1)]
    by (fastforce simp: from_results_def results_to_dataset_def num_partitions_def result_partition_def
        reported_def same_task_def)
  with Cons.prems(2) have "\<forall>ds. (if is_write (stage_plan st) then final
        else Some (results_to_dataset (pschema (stage_plan st)) results)) = Some ds \<longrightarrow>
      (\<exists>u. \<not> is_write (stage_plan u) \<and> u \<in> set (done @ [st]) \<and> from_results run m u ds)"
    by auto
  from Cons.IH [OF run(2) this] show ?case by simp
qed auto

text \<open>
  C17: A query never returns partial or failed data.  Whatever the tasks do, when a run ends with a
  dataset, it has one partition per task of a stage that ends in no shuffle write, and each
  partition is the rows of a result that the task function reported for that partition within its
  retry budget, and that had not failed.
\<close>

theorem run_plan_only_successes:
  assumes "run_plan run max_retries fuel rdir w sts = Some (sc, Inr d)"
  shows "\<exists>st \<in> set sts. \<not> is_write (stage_plan st) \<and> ds_schema d = pschema (stage_plan st)
    \<and> num_partitions d = stage_partitions st
    \<and> (\<forall>i < num_partitions d. \<exists>t a w. task_partition_id t = i \<and> task_plan t = stage_plan st
         \<and> a \<le> max_retries \<and> result_state (snd (run t a w)) \<noteq> FAILED
         \<and> records (ds_partitions d ! i) = gen_of (result_rows (snd (run t a w))))"
proof -
  have "run_stages run max_retries (stages_dict sts) fuel sts None (sched_start rdir w) = Some (sc, Inr (Some d))"
    using assms by (auto simp: run_plan_def run_bind_Some_iff split: option.splits)
  from run_stages_reported [OF this, of "[]"] show ?thesis by (auto simp: from_results_def)
qed

theorem run_plan_only_successes_witness:
  "\<exists>sc d. lossy_run 1 = Some (sc, Inr d) \<and> (\<exists>st \<in> set (lossy_stages 1). num_partitions d = stage_partitions st)"
proof -
  have "\<exists>sc d. lossy_run 1 = Some (sc, Inr d)"
    using lossy_run_1 by (cases "lossy_run 1"; cases "snd (the (lossy_run 1))") (auto simp del: One_nat_def)
  then obtain sc d where "lossy_run 1 = Some (sc, Inr d)" by (elim exE) (rule that)
  with run_plan_only_successes [OF this [unfolded lossy_run_def]] show ?thesis by blast
qed

end
