(* ===== verification/SchedulerStale.thy ===== *)
theory SchedulerStale
  imports SchedulerResults
begin

text \<open>
  What a recovery does not repair: of several tasks of a batch that miss blocks of the same stage, the
  first recomputes the stage, and only that one is given the fresh blocks.
\<close>

section \<open>A task that is not recovered\<close>

definition misses :: "nat \<Rightarrow> task_result \<Rightarrow> bool" where
  "misses j r \<longleftrightarrow> result_state r = FAILED \<and> missing_shuffle_stage_id r = Some j"

text \<open>No recovery from the loss of blocks of stage \<open>j\<close> will be tried any more.\<close>

definition beyond_recovery :: "(nat \<Rightarrow> stage option) \<Rightarrow> nat \<Rightarrow> 'w sched \<Rightarrow> bool" where
  "beyond_recovery by_id j sc \<longleftrightarrow> j \<in> set (sc_recomputed sc) \<or> by_id j = None"

lemma beyond_recovery_grows:
  "beyond_recovery by_id j sc \<Longrightarrow> grows sc run \<Longrightarrow> run = Some (sc', r) \<Longrightarrow> beyond_recovery by_id j sc'"
  by (auto simp: beyond_recovery_def)

lemma beyond_recovery_world [simp]: "beyond_recovery by_id j (sc\<lparr>sc_world := w\<rparr>) = beyond_recovery by_id j sc"
  by (simp add: beyond_recovery_def)

text \<open>After a miss is settled, whether by a recomputation or not, there is no recovery for the next one.\<close>

lemma settle_beyond:
  assumes "\<And>st sc. grows sc (rerun st sc)"
    and s: "settle rerun by_id m t a r ls sc = Some (sc', Inr ls')" and "misses j r"
  shows "beyond_recovery by_id j sc'"
proof -
  obtain rec where rec: "try_recover rerun by_id t j sc = Some (sc', Inr rec)"
    using s \<open>misses j r\<close> by (auto simp: settle_def misses_def run_bind_Some_iff)
  show ?thesis
  proof (cases "beyond_recovery by_id j sc")
    case True
    then show ?thesis
      by (rule beyond_recovery_grows [OF _ try_recover_grows [OF assms(1)] rec])
  next
    case False
    then obtain st where st: "j \<notin> set (sc_recomputed sc)" "by_id j = Some st"
      by (auto simp: beyond_recovery_def)
    let ?marked = "sc\<lparr>sc_recomputed := j # sc_recomputed sc\<rparr>"
    obtain x where "rerun st ?marked = Some (sc', x)"
      using rec st by (auto simp: try_recover_def run_bind_Some_iff)
    then show ?thesis
      by (rule beyond_recovery_grows [OF _ assms(1), rotated]) (simp add: beyond_recovery_def)
  qed
qed

section \<open>The loop never gets past it\<close>

text \<open>All that the loop knows of task \<open>t\<close> is \<open>t\<close> itself, with the blocks it had, and failures of it.\<close>

definition stuck :: "task \<Rightarrow> loop_state \<Rightarrow> bool" where
  "stuck t ls \<longleftrightarrow> (\<forall>(u, a) \<in> set (ls_pending ls). task_id u = task_id t \<longrightarrow> u = t)
     \<and> (\<forall>(i, r) \<in> set (ls_done ls). i = task_id t \<longrightarrow> result_state r = FAILED)"

text \<open>A result that keeps it so: one of another task, or a miss of \<open>t\<close> that no recovery follows.\<close>

definition hopeless :: "task \<Rightarrow> nat \<Rightarrow> task \<Rightarrow> task_result \<Rightarrow> bool" where
  "hopeless t j u r \<longleftrightarrow> (task_id u = task_id t \<longrightarrow> u = t \<and> misses j r)"

lemma retry_stuck: "stuck t ls \<Longrightarrow> hopeless t j u r \<Longrightarrow> stuck t (retry_or_finish m u a r ls)"
  by (auto simp: stuck_def hopeless_def misses_def retry_or_finish_def)

lemma settle_stuck:
  assumes s: "settle rerun by_id m u a r ls sc = Some (sc', Inr ls')" and "stuck t ls"
    and "hopeless t j u r" and beyond: "task_id u = task_id t \<longrightarrow> beyond_recovery by_id j sc"
  shows "stuck t ls'"
proof (cases "ls' = retry_or_finish m u a r ls")
  case True
  then show ?thesis using retry_stuck [OF assms(2,3)] by simp
next
  case False
  then obtain bs j' st where u': "ls' = ls\<lparr>ls_pending := ls_pending ls @ [(u\<lparr>shuffle_blocks := bs\<rparr>, a)]\<rparr>"
      "missing_shuffle_stage_id r = Some j'" "j' \<notin> set (sc_recomputed sc)" "by_id j' = Some st"
    using s
    by (auto simp: settle_def try_recover_def run_bind_Some_iff split: task_state.splits option.splits if_splits)
  then have "task_id u \<noteq> task_id t"
    using assms(3) beyond by (auto simp: hopeless_def misses_def beyond_recovery_def)
  with u'(1) \<open>stuck t ls\<close> show ?thesis by (auto simp: stuck_def)
qed

lemma settle_all_stuck:
  assumes "\<And>st sc. grows sc (rerun st sc)"
  shows "settle_all rerun by_id m xs ls sc = Some (sc', Inr ls') \<Longrightarrow> stuck t ls \<Longrightarrow>
    \<forall>((u, a), r) \<in> set xs. hopeless t j u r \<and> (task_id u = task_id t \<longrightarrow> beyond_recovery by_id j sc) \<Longrightarrow>
    stuck t ls'"
proof (induction xs arbitrary: ls sc)
  case (Cons x xs)
  obtain u a r where x: "x = ((u, a), r)" by (cases x) auto
  obtain sc1 ls1 where s: "settle rerun by_id m u a r ls sc = Some (sc1, Inr ls1)"
    "settle_all rerun by_id m xs ls1 sc1 = Some (sc', Inr ls')"
    using Cons.prems(1) by (auto simp: x run_bind_Some_iff)
  have "stuck t ls1" by (rule settle_stuck [OF s(1) Cons.prems(2)]) (use Cons.prems(3) x in auto)
  moreover have "beyond_recovery by_id j sc1" if "beyond_recovery by_id j sc"
    using that by (rule beyond_recovery_grows [OF _ settle_grows [OF assms] s(1)])
  moreover have "\<forall>((u, a), r) \<in> set xs. hopeless t j u r \<and> (task_id u = task_id t \<longrightarrow> beyond_recovery by_id j sc)"
    using Cons.prems(3) by simp
  ultimately show ?case by (intro Cons.IH [OF s(2)]) blast+
qed simp

lemma settle_all_append:
  "settle_all rerun by_id m (xs @ ys) ls sc =
     run_bind (settle_all rerun by_id m xs ls sc) (\<lambda>sc' ls'. settle_all rerun by_id m ys ls' sc')"
proof (induction xs arbitrary: ls sc)
  case (Cons x xs)
  obtain t a r where "x = ((t, a), r)" by (cases x) auto
  then show ?case by (auto simp: Cons run_bind_def split: option.splits sum.splits)
qed simp

text \<open>A batch in which a task before \<open>t\<close> misses blocks of stage \<open>j\<close>, and then \<open>t\<close> does.\<close>

lemma settle_all_second_miss:
  assumes g: "\<And>st sc. grows sc (rerun st sc)"
    and s: "settle_all rerun by_id m (xs @ ((u, b), r) # ys) ls sc = Some (sc', Inr ls')"
    and "stuck t ls" "misses j r"
    and before: "\<forall>((v, a), r) \<in> set xs. task_id v \<noteq> task_id t" and "task_id u \<noteq> task_id t"
    and after: "\<forall>((v, a), r) \<in> set ys. hopeless t j v r"
  shows "stuck t ls' \<and> beyond_recovery by_id j sc'"
proof -
  obtain sc1 ls1 sc2 ls2 where s1: "settle_all rerun by_id m xs ls sc = Some (sc1, Inr ls1)"
    and s2: "settle rerun by_id m u b r ls1 sc1 = Some (sc2, Inr ls2)"
    and s3: "settle_all rerun by_id m ys ls2 sc2 = Some (sc', Inr ls')"
    using s by (auto simp: settle_all_append run_bind_Some_iff)
  have "stuck t ls1"
    by (rule settle_all_stuck [OF g s1 \<open>stuck t ls\<close>, of j]) (use before in \<open>auto simp: hopeless_def\<close>)
  then have ls2: "stuck t ls2"
    by (rule settle_stuck [OF s2, of _ j]) (use \<open>task_id u \<noteq> task_id t\<close> in \<open>auto simp: hopeless_def\<close>)
  have sc2: "beyond_recovery by_id j sc2" by (rule settle_beyond [OF g s2 \<open>misses j r\<close>])
  have "stuck t ls'" by (rule settle_all_stuck [OF g s3 ls2, of j]) (use after sc2 in auto)
  moreover have "beyond_recovery by_id j sc'"
    using sc2 by (rule beyond_recovery_grows [OF _ settle_all_grows [OF g] s3])
  ultimately show ?thesis by simp
qed

lemma rerun_grows: "grows sc (run_stage_with (loop run m by_id fuel) st rec sc)"
  by (rule run_stage_with_grows [OF loop_grows])

lemma loop_stuck:
  assumes "\<And>a w. misses j (snd (run t a w))"
  shows "loop run m by_id fuel ls sc = Some (sc', Inr ls') \<Longrightarrow> stuck t ls \<Longrightarrow> beyond_recovery by_id j sc \<Longrightarrow>
    stuck t ls'"
proof (induction fuel arbitrary: ls sc)
  case (Suc fuel)
  show ?case
  proof (cases "ls_pending ls = []")
    case False
    obtain w rs where batch: "run_batch run (ls_pending ls) (sc_world sc) = (w, rs)" by (meson surj_pair)
    let ?rerun = "\<lambda>st. run_stage_with (loop run m by_id fuel) st True"
    obtain sc1 ls1 where s: "settle_all ?rerun by_id m (zip (ls_pending ls) rs) (ls\<lparr>ls_pending := []\<rparr>)
        (sc\<lparr>sc_world := w\<rparr>) = Some (sc1, Inr ls1)" "loop run m by_id fuel ls1 sc1 = Some (sc', Inr ls')"
      using Suc.prems(1) False by (auto simp: batch run_bind_Some_iff)
    have results: "hopeless t j u r" if x: "((u, a), r) \<in> set (zip (ls_pending ls) rs)" for u a r
      unfolding hopeless_def
    proof
      assume "task_id u = task_id t"
      moreover have "(u, a) \<in> set (ls_pending ls)" using x by (rule set_zip_leftD)
      ultimately have "u = t" using Suc.prems(2) by (auto simp: stuck_def)
      with batch_reported [OF batch x] assms show "u = t \<and> misses j r" by auto
    qed
    have "stuck t ls1"
      by (rule settle_all_stuck [OF rerun_grows s(1), of _ j])
        (use Suc.prems(2,3) results in \<open>auto simp: stuck_def\<close>)
    moreover have "beyond_recovery by_id j sc1"
      by (rule beyond_recovery_grows [OF _ settle_all_grows [OF rerun_grows] s(1)]) (simp add: Suc.prems(3))
    ultimately show ?thesis by (rule Suc.IH [OF s(2)])
  qed (use Suc.prems in simp)
qed simp

text \<open>The first batch of a stage, of which task \<open>i\<close> misses blocks that a later task \<open>k\<close> misses for good.\<close>

lemma first_batch_stuck:
  assumes run: "loop run m by_id fuel \<lparr>ls_pending = map (\<lambda>t. (t, 0)) ts, ls_done = [], ls_retried = []\<rparr> sc
      = Some (sc', Inr ls')"
    and ids: "distinct (map task_id ts)" and ik: "i < k" "k < length ts"
    and k: "\<And>a w. misses j (snd (run (ts ! k) a w))" and i: "\<And>w. misses j (snd (run (ts ! i) 0 w))"
  shows "stuck (ts ! k) ls'"
proof (cases fuel)
  case (Suc n)
  let ?pending = "map (\<lambda>t. (t, 0::nat)) ts"
  let ?ls = "\<lparr>ls_pending = [], ls_done = [], ls_retried = []\<rparr>"
  let ?rerun = "\<lambda>st. run_stage_with (loop run m by_id n) st True"
  obtain w rs where batch: "run_batch run ?pending (sc_world sc) = (w, rs)" by (meson surj_pair)
  obtain sc1 ls1 where s: "settle_all ?rerun by_id m (zip ?pending rs) ?ls (sc\<lparr>sc_world := w\<rparr>) = Some (sc1, Inr ls1)"
    "loop run m by_id n ls1 sc1 = Some (sc', Inr ls')"
    using run ik by (auto simp: Suc batch run_bind_Some_iff split: if_splits)
  let ?xs = "zip ?pending rs"
  have len: "length ?xs = length ts" using run_batch_length [OF batch] by simp
  have nth: "?xs ! n = ((ts ! n, 0), rs ! n)" if "n < length ts" for n
    using that run_batch_length [OF batch] by simp
  have split: "?xs = take i ?xs @ ((ts ! i, 0), rs ! i) # drop (Suc i) ?xs"
    using id_take_nth_drop [of i ?xs] len ik nth [of i] by simp
  have result: "\<exists>w. rs ! n = snd (run (ts ! n) 0 w)" if "n < length ts" for n
    using batch_reported [OF batch] nth_mem [of n ?xs] nth [OF that] len that by auto
  have other: "task_id (ts ! n) = task_id (ts ! k) \<longleftrightarrow> n = k" if "n < length ts" for n
    using ids ik that by (metis length_map nth_eq_iff_index_eq nth_map)
  have before: "\<forall>((v, a), r) \<in> set (take i ?xs). task_id v \<noteq> task_id (ts ! k)"
    using other nth len ik by (auto simp: in_set_conv_nth)
  have after: "\<forall>((v, a), r) \<in> set (drop (Suc i) ?xs). hopeless (ts ! k) j v r"
  proof -
    have "hopeless (ts ! k) j (ts ! n) (rs ! n)" if "n < length ts" for n
      using other [OF that] result [OF that] k by (auto simp: hopeless_def)
    then show ?thesis using nth len by (auto simp: in_set_conv_nth)
  qed
  have s': "settle_all ?rerun by_id m (take i ?xs @ ((ts ! i, 0), rs ! i) # drop (Suc i) ?xs) ?ls
      (sc\<lparr>sc_world := w\<rparr>) = Some (sc1, Inr ls1)"
    by (subst split [symmetric]) (use s(1) in simp)
  have "misses j (rs ! i)" "task_id (ts ! i) \<noteq> task_id (ts ! k)"
    using result [of i] i ik other [of i] by auto
  then have "stuck (ts ! k) ls1 \<and> beyond_recovery by_id j sc1"
    by (intro settle_all_second_miss [OF rerun_grows s' _ _ before _ after]) (simp_all add: stuck_def)
  then show ?thesis using loop_stuck [OF k s(2)] by blast
qed (use run in simp)

section \<open>How a stage fails\<close>

definition fails_only_tasks :: "('w, 'a) run \<Rightarrow> bool" where
  "fails_only_tasks x \<longleftrightarrow> (\<forall>sc e. x = Some (sc, Inl e) \<longrightarrow> (\<exists>n > 0. e = TaskExecutionError n))"

lemma fails_only_bind:
  "fails_only_tasks x \<Longrightarrow> (\<And>sc y. fails_only_tasks (f sc y)) \<Longrightarrow> fails_only_tasks (run_bind x f)"
  unfolding fails_only_tasks_def run_bind_Some_iff by blast

lemma fails_only_Inr [simp]: "fails_only_tasks (Some (sc, Inr x))" "fails_only_tasks None"
  by (simp_all add: fails_only_tasks_def)

lemma settle_all_fails:
  assumes "\<And>st sc. fails_only_tasks (rerun st sc)"
  shows "fails_only_tasks (settle_all rerun by_id m xs ls sc)"
proof (induction xs arbitrary: ls sc)
  case (Cons x xs)
  obtain t a r where x: "x = ((t, a), r)" by (cases x) auto
  have "fails_only_tasks (settle rerun by_id m t a r ls sc)"
    by (auto simp: settle_def try_recover_def intro!: fails_only_bind assms split: task_state.splits option.splits)
  then show ?case by (auto simp: x intro!: fails_only_bind Cons.IH)
qed simp

lemma run_stage_with_fails:
  assumes "\<And>ls sc. fails_only_tasks (lp ls sc)"
  shows "fails_only_tasks (run_stage_with lp st rec sc)"
proof -
  obtain ts sc1 where mk: "make_tasks st sc = (ts, sc1)" by (cases "make_tasks st sc")
  have "fails_only_tasks (case check_failed rs of Inl e \<Rightarrow> Some (sc, Inl e) | Inr x \<Rightarrow> Some (f x, Inr x))"
    for rs and sc :: "'a sched" and f
    by (auto simp: fails_only_tasks_def check_failed_def Let_def split: if_splits)
  then show ?thesis by (auto simp: run_stage_with_def mk intro!: fails_only_bind assms)
qed

lemma loop_fails: "fails_only_tasks (loop run m by_id fuel ls sc)"
proof (induction fuel arbitrary: ls sc)
  case (Suc fuel)
  obtain w rs where "run_batch run (ls_pending ls) (sc_world sc) = (w, rs)" by (meson surj_pair)
  then show ?case
    by (auto intro!: fails_only_bind settle_all_fails run_stage_with_fails Suc)
qed simp

lemma stuck_stage_fails:
  assumes mk: "make_tasks st sc = (ts, sc1)" and ik: "i < k" "k < length ts"
    and k: "\<And>a w. misses j (snd (run (ts ! k) a w))" and i: "\<And>w. misses j (snd (run (ts ! i) 0 w))"
  shows "run_stage run m by_id fuel st rec sc \<noteq> Some (sc', Inr results)"
proof
  assume assm: "run_stage run m by_id fuel st rec sc = Some (sc', Inr results)"
  have ts: "distinct (map task_id ts)" using mk by (auto simp: make_tasks_def comp_def distinct_map inj_on_def)
  let ?ls = "\<lparr>ls_pending = map (\<lambda>t. (t, 0)) ts, ls_done = [], ls_retried = []\<rparr>"
  obtain sc2 ls where ls: "loop run m by_id fuel ?ls sc1 = Some (sc2, Inr ls)"
    "(case check_failed (collect_results ts (ls_done ls)) of Inl e \<Rightarrow> Some (sc2, Inl e)
      | Inr results \<Rightarrow> Some (stage_finished st rec (length (ls_retried ls)) results sc2, Inr results))
     = Some (sc', Inr results)"
    using assm by (auto simp: run_stage_def run_stage_with_def mk run_bind_Some_iff)
  have stuck: "stuck (ts ! k) ls" by (rule first_batch_stuck [OF ls(1) ts ik k i])
  have "accounted run m ts [] ?ls" by (auto simp: accounted_def image_image intro!: bexI [of _ _ "set ts"])
  from loop_accounted [OF this ls(1)] have "task_id (ts ! k) \<in> fst ` set (ls_done ls)"
    using ik by (auto simp: accounted_def)
  then obtain r where r: "map_of (ls_done ls) (task_id (ts ! k)) = Some r"
    by (meson map_of_eq_None_iff not_None_eq)
  then have "result_state r = FAILED" using stuck map_of_SomeD [OF r] by (auto simp: stuck_def)
  moreover have "r \<in> set (collect_results ts (ls_done ls))"
    unfolding collect_results_def set_map
    by (rule image_eqI [of _ _ "ts ! k"]) (use r ik in simp_all)
  ultimately have "check_failed (collect_results ts (ls_done ls)) \<noteq> Inr results"
    by (auto simp: check_failed_def Let_def filter_empty_conv)
  then show False using ls(2) by (auto split: sum.splits)
qed

text \<open>
  C34: One recovery repairs one task.  If, of the tasks of a stage, task \<open>i\<close> and a later task \<open>k\<close>
  miss blocks of the same stage \<open>j\<close> - task \<open>k\<close> for as long as it is run with the blocks it was made
  with, whatever is on disk - then the stage fails: the run of the stage ends, with a
  \<^verbatim>\<open>TaskExecutionError\<close>, however many retries are allowed and although stage \<open>j\<close> may have been
  recomputed and its fresh blocks registered for task \<open>i\<close>.  (The fuel is that of
  \<open>run_plan_terminates\<close>.)
\<close>

theorem stale_blocks_fail_stage:
  assumes "make_tasks st sc = (ts, sc1)" "i < k" "k < length ts"
    and "\<And>a w. misses j (snd (run (ts ! k) a w))" and "\<And>w. misses j (snd (run (ts ! i) 0 w))"
    and "plan_fuel max_retries sts \<le> fuel"
  shows "\<exists>sc' n. n > 0 \<and>
    run_stage run max_retries (stages_dict sts) fuel st recomputed sc = Some (sc', Inl (TaskExecutionError n))"
proof -
  obtain sc' x where x: "run_stage run max_retries (stages_dict sts) fuel st recomputed sc = Some (sc', x)"
    using run_stage_total [OF assms(6), of run st recomputed sc] by auto
  have "x \<noteq> Inr results" for results
    using stuck_stage_fails [where run = run and j = j, OF assms(1-3) assms(4) assms(5)] x by blast
  then obtain e where e: "x = Inl e" by (cases x) blast+
  have "fails_only_tasks (run_stage run max_retries (stages_dict sts) fuel st recomputed sc)"
    unfolding run_stage_def by (rule run_stage_with_fails [OF loop_fails])
  with x e show ?thesis by (auto simp: fails_only_tasks_def)
qed

text \<open>
  The lossy tasks of \<open>lossy_task\<close>: the block that task 0 wrote is gone, whoever reads it.  A stage
  that reads it with one task is repaired; with two tasks the stage fails, after the fresh block of
  the recomputation, by task 3, was registered for both partitions.
\<close>

definition lossy_sched :: "unit sched" where
  "lossy_sched = (sched_start ''/tmp/s'' ())\<lparr>sc_next_id := 1,
     sc_manager := register_blocks (new_manager ''/tmp/s'') 0 [lossy_block 0 0, lossy_block 0 1]\<rparr>"

lemma lossy_runs:
  "case lossy_run 1 of Some (sc, Inr d) \<Rightarrow> num_partitions d = 1 | _ \<Rightarrow> False"
  "case lossy_run 2 of Some (sc, Inl e) \<Rightarrow> e = TaskExecutionError 1
     \<and> map source_task_id (blocks_for (sc_manager sc) 0 0) = [3]
     \<and> map source_task_id (blocks_for (sc_manager sc) 0 1) = [3] | _ \<Rightarrow> False"
  by code_simp+

theorem stale_blocks_fail_stage_witness:
  "\<exists>sc' n. n > 0 \<and> run_stage lossy_task 3 (stages_dict (lossy_stages 2)) 15 (lossy_stages 2 ! 1) False lossy_sched
     = Some (sc', Inl (TaskExecutionError n))"
proof -
  let ?ts = "fst (make_tasks (lossy_stages 2 ! 1) lossy_sched)"
  have ts: "length ?ts = 2" by (simp add: make_tasks_def lossy_stages_def)
  have "misses 0 (snd (lossy_task (?ts ! i) a w))" if "i < 2" for i a w
  proof -
    have "shuffle_blocks (?ts ! i) = Some [0 \<mapsto> [lossy_block 0 i]] \<and> \<not> is_write (task_plan (?ts ! i))"
      using less_2_cases [OF that]
      by (auto simp: make_tasks_def lossy_stages_def lossy_sched_def sched_start_def new_manager_def
          resolve_shuffle_blocks_def read_leaves_def resolve_leaf_def register_blocks_def blocks_for_def lossy_block_def)
    then show ?thesis by (simp add: lossy_task_def lossy_block_def misses_def failed_result_def)
  qed
  then have miss: "misses 0 (snd (lossy_task (?ts ! 1) a w))" "misses 0 (snd (lossy_task (?ts ! 0) a w))" for a w
    by simp_all
  show ?thesis
    by (rule stale_blocks_fail_stage [where run = lossy_task and ts = ?ts and i = 0 and k = 1 and j = 0, OF prod.collapse [symmetric]])
      (use ts miss in \<open>simp_all add: plan_fuel_def lossy_stages_def\<close>)
qed

end
