(* ===== verification/PyParse.thy ===== *)
theory PyParse
  imports PyRepr
begin

text \<open>
  Character classes of Python strings, and \<^verbatim>\<open>int(text)\<close> and \<^verbatim>\<open>float(text)\<close>: configuration, the SQL
  tokenizer and the CSV reader turn text into values with them.  Characters are those of Latin-1.
\<close>

section \<open>Character classes\<close>

definition code :: "char \<Rightarrow> nat" where
  "code c = of_char c"

definition is_space :: "char \<Rightarrow> bool" where
  "is_space c = (9 \<le> code c \<and> code c \<le> 13 \<or> 28 \<le> code c \<and> code c \<le> 32 \<or> code c = 0x85 \<or> code c = 0xA0)"

definition is_decimal :: "char \<Rightarrow> bool" where
  "is_decimal c = (48 \<le> code c \<and> code c \<le> 57)"

text \<open>\<^verbatim>\<open>isdigit\<close> is also true of the superscript digits, which \<^verbatim>\<open>int\<close> does not accept.\<close>

definition is_digit :: "char \<Rightarrow> bool" where
  "is_digit c = (is_decimal c \<or> code c \<in> {0xB2, 0xB3, 0xB9})"

definition is_alpha :: "char \<Rightarrow> bool" where
  "is_alpha c = (65 \<le> code c \<and> code c \<le> 90 \<or> 97 \<le> code c \<and> code c \<le> 122
     \<or> code c \<in> {0xAA, 0xB5, 0xBA} \<or> 0xC0 \<le> code c \<and> code c \<noteq> 0xD7 \<and> code c \<noteq> 0xF7)"

definition is_alnum :: "char \<Rightarrow> bool" where
  "is_alnum c = (is_alpha c \<or> is_digit c \<or> code c \<in> {0xBC, 0xBD, 0xBE})"

text \<open>\<^verbatim>\<open>upper()\<close> on the ASCII letters; no other letter becomes an ASCII one, but for the sharp s.\<close>

definition upper_char :: "char \<Rightarrow> char" where
  "upper_char c = (if 97 \<le> code c \<and> code c \<le> 122 then char_of (code c - 32) else c)"

definition upper_ascii :: "string \<Rightarrow> string" where
  "upper_ascii s = map upper_char s"

definition digit_val :: "char \<Rightarrow> nat" where
  "digit_val c = code c - 48"

definition strip :: "string \<Rightarrow> string" where
  "strip s = rev (dropWhile is_space (rev (dropWhile is_space s)))"

section \<open>Numerals\<close>

text \<open>
  A run of digits, single underscores between them allowed: its value, the number of digits, and
  what follows.
\<close>

fun digit_run :: "string \<Rightarrow> nat \<Rightarrow> nat \<Rightarrow> nat \<times> nat \<times> string" where
  "digit_run [] v k = (v, k, [])"
| "digit_run (c # cs) v k =
     (if is_decimal c then digit_run cs (10 * v + digit_val c) (Suc k)
      else if c = CHR ''_'' \<and> 0 < k \<and> cs \<noteq> [] \<and> is_decimal (hd cs) then digit_run cs v k
      else (v, k, c # cs))"

fun split_sign :: "string \<Rightarrow> bool \<times> string" where
  "split_sign [] = (False, [])"
| "split_sign (c # cs) =
     (if c = CHR ''-'' then (True, cs) else if c = CHR ''+'' then (False, cs) else (False, c # cs))"

text \<open>
  The interpreter's default limit on the digits of an integer's text (\<^verbatim>\<open>sys.get_int_max_str_digits()\<close>),
  beyond which \<^verbatim>\<open>int\<close> raises \<^verbatim>\<open>ValueError\<close>.
\<close>

definition INT_MAX_STR_DIGITS :: nat where
  "INT_MAX_STR_DIGITS = 4300"

definition py_int :: "string \<Rightarrow> int res" where
  "py_int text =
     (case split_sign (strip text) of (neg, s) \<Rightarrow>
       (case digit_run s 0 0 of (v, k, rest) \<Rightarrow>
          if 0 < k \<and> rest = [] \<and> k \<le> INT_MAX_STR_DIGITS then Inr (if neg then - int v else int v) else Inl ValueError))"

definition parse_exponent :: "string \<Rightarrow> int option" where
  "parse_exponent s =
     (case s of
        [] \<Rightarrow> Some 0
      | c # cs \<Rightarrow>
          if c = CHR ''e'' \<or> c = CHR ''E'' then
            (case split_sign cs of (neg, t) \<Rightarrow>
              (case digit_run t 0 0 of (v, k, rest) \<Rightarrow>
                 if 0 < k \<and> rest = [] then Some (if neg then - int v else int v) else None))
          else None)"

definition ten_power :: "int \<Rightarrow> rat" where
  "ten_power e = (if 0 \<le> e then 10 ^ nat e else 1 / 10 ^ nat (- e))"

definition parse_decimal :: "bool \<Rightarrow> string \<Rightarrow> pyfloat option" where
  "parse_decimal neg s =
     (case digit_run s 0 0 of (v, k, rest) \<Rightarrow>
       (case (if rest \<noteq> [] \<and> hd rest = CHR ''.'' then digit_run (tl rest) 0 0 else (0, 0, rest)) of
          (f, kf, rest') \<Rightarrow>
            if k + kf = 0 then None
            else map_option (\<lambda>e. mk_float neg ((of_nat v + of_nat f / 10 ^ kf) * ten_power e))
                   (parse_exponent rest')))"

definition py_float :: "string \<Rightarrow> pyfloat res" where
  "py_float text =
     (case split_sign (strip text) of (neg, s) \<Rightarrow>
        let u = upper_ascii s in
        if u = ''INF'' \<or> u = ''INFINITY'' then Inr (FInf neg)
        else if u = ''NAN'' then Inr FNan
        else case parse_decimal neg s of Some f \<Rightarrow> Inr f | None \<Rightarrow> Inl ValueError)"

section \<open>Reading back what is printed\<close>

lemma code_digit [simp]: "d < 10 \<Longrightarrow> code (digit d) = 48 + d"
  by (simp add: code_def of_char_digit)

lemma digit_run_append:
  "list_all is_decimal s \<Longrightarrow> digit_run (s @ t) v k = digit_run t (foldl (\<lambda>v c. 10 * v + digit_val c) v s) (k + length s)"
  by (induction s arbitrary: v k) auto

lemma nat_str_decimal: "list_all is_decimal (nat_str n)"
  using nat_str_digits by (auto simp: list_all_iff is_decimal_def code_def less_Suc_eq_le [of _ 57, simplified])

lemma str_nat_foldl: "foldl (\<lambda>v c. 10 * v + digit_val c) 0 s = str_nat s"
  by (simp add: str_nat_def digit_val_def code_def mult.commute)

lemma nat_str_nonempty [simp]: "nat_str n \<noteq> []"
  by (subst nat_str.simps) auto

lemma digit_run_nat_str:
  "t = [] \<or> (\<not> is_decimal (hd t) \<and> hd t \<noteq> CHR ''_'') \<Longrightarrow> digit_run (nat_str n @ t) 0 0 = (n, length (nat_str n), t)"
  using digit_run_append [OF nat_str_decimal, of n t 0 0]
  by (cases t) (auto simp: str_nat_foldl)

lemma decimal_not_space: "is_decimal c \<Longrightarrow> \<not> is_space c"
  by (auto simp: is_decimal_def is_space_def)

lemma strip_no_space: "list_all (\<lambda>c. \<not> is_space c) s \<Longrightarrow> strip s = s"
proof -
  assume s: "list_all (\<lambda>c. \<not> is_space c) s"
  then have "dropWhile is_space s = s" "dropWhile is_space (rev s) = rev s"
    by (auto simp: dropWhile_eq_self_iff list_all_iff hd_rev)
  then show ?thesis by (simp add: strip_def)
qed

lemma py_int_nat_str [simp]: "length (nat_str n) \<le> INT_MAX_STR_DIGITS \<Longrightarrow> py_int (nat_str n) = Inr (int n)"
proof -
  assume "length (nat_str n) \<le> INT_MAX_STR_DIGITS"
  moreover have "strip (nat_str n) = nat_str n"
    using nat_str_decimal [of n] decimal_not_space by (intro strip_no_space) (auto simp: list_all_iff)
  moreover have "split_sign (nat_str n) = (False, nat_str n)"
    using nat_str_decimal [of n] by (cases "nat_str n") (auto simp: is_decimal_def code_def)
  ultimately show ?thesis
    using digit_run_nat_str [of "[]" n] by (simp add: py_int_def)
qed

end
