(* ===== verification/Config.thy ===== *)
theory Config
  imports CoreData PyParse
begin

text \<open>The engine's configuration (\<^verbatim>\<open>config/config.py\<close>) with its two computed properties.\<close>

record engine_config =
  master :: string
  max_task_retries :: int

record execution_config =
  partition_size_mb :: int
  shuffle_compression :: bool
  shuffle_partitions :: nat

record memory_config =
  execution_limit_mb :: int
  spill_threshold :: pval

record optimizer_config =
  predicate_pushdown :: bool
  projection_pruning_on :: bool
  broadcast_join_threshold_mb :: int

record config =
  engine :: engine_config
  execution :: execution_config
  memory :: memory_config
  optimizer :: optimizer_config

definition default_config :: config where
  "default_config =
     \<lparr>engine = \<lparr>master = ''local[4]'', max_task_retries = 3\<rparr>,
      execution = \<lparr>partition_size_mb = 128, shuffle_compression = True, shuffle_partitions = 4\<rparr>,
      memory = \<lparr>execution_limit_mb = 4096, spill_threshold = VFloat (rat_to_float (8 / 10))\<rparr>,
      optimizer = \<lparr>predicate_pushdown = True, projection_pruning_on = True,
                   broadcast_join_threshold_mb = 50\<rparr>\<rparr>"

text \<open>\<^verbatim>\<open>EngineConfig.num_workers\<close>\<close>

definition num_workers :: "engine_config \<Rightarrow> int res" where
  "num_workers c =
     (if master c = ''local'' then Inr 1
      else if take 6 (master c) = ''local['' \<and> master c \<noteq> [] \<and> last (master c) = CHR '']''
      then py_int (butlast (drop 6 (master c)))
      else Inl ValueError)"

text \<open>\<^verbatim>\<open>int(x)\<close> of a number: towards zero\<close>

definition trunc :: "pval \<Rightarrow> int res" where
  "trunc v =
     (case as_num v of
        Some (NInt i) \<Rightarrow> Inr i
      | Some (NFlt (FFin q)) \<Rightarrow> Inr (if q < 0 then - \<lfloor>- q\<rfloor> else \<lfloor>q\<rfloor>)
      | Some (NFlt FNegZero) \<Rightarrow> Inr 0
      | Some (NFlt (FInf _)) \<Rightarrow> Inl OverflowError
      | Some (NFlt FNan) \<Rightarrow> Inl ValueError
      | None \<Rightarrow> Inl TypeError)"

definition spill_threshold_bytes :: "memory_config \<Rightarrow> int res" where
  "spill_threshold_bytes c =
     rbind (py_mul (VInt (execution_limit_mb c * 1024 * 1024)) (spill_threshold c)) trunc"

lemma num_workers_local:
  "length (nat_str n) \<le> INT_MAX_STR_DIGITS \<Longrightarrow> num_workers \<lparr>master = ''local['' @ nat_str n @ '']'', max_task_retries = m\<rparr> = Inr (int n)"
  by (simp add: num_workers_def)

end
