(* ===== verification/Optimizer.thy ===== *)
theory Optimizer
  imports Analyzer Config
begin

text \<open>
  The optimizer (\<^verbatim>\<open>optimizer/rules.py\<close>, \<^verbatim>\<open>optimizer/optimizer.py\<close>): its five rules, and the loop
  that applies them until the plan's printed form stops changing.  A rule may raise: folding
  evaluates literals at planning time, and a rule that looks at a child's schema builds it.
\<close>

section \<open>Rewriting the expressions of a plan\<close>

fun map_expressions :: "(expr \<Rightarrow> expr res) \<Rightarrow> lplan \<Rightarrow> lplan res" where
  "map_expressions fn (Scan d n s) = Inr (Scan d n s)"
| "map_expressions fn (Filter c e) =
     rbind (map_expressions fn c) (\<lambda>c'. rbind (fn e) (\<lambda>e'. Inr (Filter c' e')))"
| "map_expressions fn (Project c es) =
     rbind (map_expressions fn c) (\<lambda>c'. rbind (rmap fn es) (\<lambda>es'. Inr (Project c' es')))"
| "map_expressions fn (Aggregate c gs as) =
     rbind (map_expressions fn c) (\<lambda>c'. rbind (rmap fn gs) (\<lambda>gs'. rbind (rmap fn as) (\<lambda>as'.
       Inr (Aggregate c' gs' as'))))"
| "map_expressions fn (Join l r on how b) =
     rbind (map_expressions fn l) (\<lambda>l'. rbind (map_expressions fn r) (\<lambda>r'. Inr (Join l' r' on how b)))"
| "map_expressions fn (Sort c es asc) =
     rbind (map_expressions fn c) (\<lambda>c'. rbind (rmap fn es) (\<lambda>es'. mk_sort c' es' asc))"

section \<open>Constant folding\<close>

fun const_fold :: "expr \<Rightarrow> expr res" where
  "const_fold (Binary op l r) =
     rbind (const_fold l) (\<lambda>l'. rbind (const_fold r) (\<lambda>r'.
       case (l', r') of
         (Literal a, Literal b) \<Rightarrow> rbind (apply_binop op a b) (\<lambda>v. Inr (Literal v))
       | _ \<Rightarrow> Inr (Binary op l' r')))"
| "const_fold (Alias e n) = rbind (const_fold e) (\<lambda>e'. Inr (Alias e' n))"
| "const_fold (NotE e) =
     rbind (const_fold e) (\<lambda>e'. case e' of
       Literal v \<Rightarrow> Inr (Literal (not_value v)) | _ \<Rightarrow> Inr (NotE e'))"
| "const_fold (IsNull e) =
     rbind (const_fold e) (\<lambda>e'. case e' of
       Literal v \<Rightarrow> Inr (Literal (is_null_value v)) | _ \<Rightarrow> Inr (IsNull e'))"
| "const_fold (IsNotNull e) =
     rbind (const_fold e) (\<lambda>e'. case e' of
       Literal v \<Rightarrow> Inr (Literal (is_not_null_value v)) | _ \<Rightarrow> Inr (IsNotNull e'))"
| "const_fold e = Inr e"

definition constant_folding :: "lplan \<Rightarrow> lplan res" where
  "constant_folding = map_expressions const_fold"

section \<open>Filter simplification\<close>

definition simplify_and :: "expr \<Rightarrow> expr \<Rightarrow> expr" where
  "simplify_and l r =
     (case l of
        Literal v \<Rightarrow> if truthy v then r else Literal (VBool False)
      | _ \<Rightarrow> (case r of
          Literal v \<Rightarrow> if truthy v then l else Literal (VBool False)
        | _ \<Rightarrow> Binary And l r))"

definition simplify_or :: "expr \<Rightarrow> expr \<Rightarrow> expr" where
  "simplify_or l r =
     (case l of
        Literal v \<Rightarrow> if truthy v then Literal (VBool True) else r
      | _ \<Rightarrow> (case r of
          Literal v \<Rightarrow> if truthy v then Literal (VBool True) else l
        | _ \<Rightarrow> Binary Or l r))"

fun simplify_bool :: "expr \<Rightarrow> expr" where
  "simplify_bool (Binary And l r) = simplify_and (simplify_bool l) (simplify_bool r)"
| "simplify_bool (Binary Or l r) = simplify_or (simplify_bool l) (simplify_bool r)"
| "simplify_bool (NotE e) = (case simplify_bool e of NotE c \<Rightarrow> c | c \<Rightarrow> NotE c)"
| "simplify_bool (Binary op l r) = Binary op (simplify_bool l) (simplify_bool r)"
| "simplify_bool (Alias e n) = Alias (simplify_bool e) n"
| "simplify_bool e = e"

definition filter_simplification :: "lplan \<Rightarrow> lplan res" where
  "filter_simplification = map_expressions (\<lambda>e. Inr (simplify_bool e))"

section \<open>Predicate pushdown\<close>

definition push_filter :: "lplan \<Rightarrow> expr \<Rightarrow> lplan res" where
  "push_filter child e =
     (case child of
        Project c es \<Rightarrow>
          rbind (lschema c) (\<lambda>s.
            if referenced_columns e \<subseteq> set (field_names s) then Inr (Project (Filter c e) es)
            else Inr (Filter child e))
      | Join l r on how b \<Rightarrow>
          rbind (lschema l) (\<lambda>ls. rbind (lschema r) (\<lambda>rs.
            if referenced_columns e \<subseteq> set (field_names ls) then Inr (Join (Filter l e) r on how b)
            else if referenced_columns e \<subseteq> set (field_names rs) then Inr (Join l (Filter r e) on how b)
            else Inr (Filter child e)))
      | _ \<Rightarrow> Inr (Filter child e))"

fun pushdown :: "lplan \<Rightarrow> lplan res" where
  "pushdown (Scan d n s) = Inr (Scan d n s)"
| "pushdown (Project c es) = rbind (pushdown c) (\<lambda>c'. Inr (Project c' es))"
| "pushdown (Aggregate c gs as) = rbind (pushdown c) (\<lambda>c'. Inr (Aggregate c' gs as))"
| "pushdown (Join l r on how b) =
     rbind (pushdown l) (\<lambda>l'. rbind (pushdown r) (\<lambda>r'. Inr (Join l' r' on how b)))"
| "pushdown (Sort c es asc) = rbind (pushdown c) (\<lambda>c'. mk_sort c' es asc)"
| "pushdown (Filter c e) = rbind (pushdown c) (\<lambda>c'. push_filter c' e)"

section \<open>Projection pruning\<close>

text \<open>\<^verbatim>\<open>needed\<close> is \<^verbatim>\<open>None\<close> until a projection, an aggregate or a join above restricts the columns.\<close>

definition prune_scan :: "lplan \<Rightarrow> string list \<Rightarrow> string set option \<Rightarrow> lplan" where
  "prune_scan p cols needed =
     (case needed of
        None \<Rightarrow> p
      | Some N \<Rightarrow>
          if set cols - N \<noteq> {} then
            let keep = filter (\<lambda>c. c \<in> N) cols
            in if keep \<noteq> [] \<and> length keep < length cols then Project p (map Column keep) else p
          else p)"

definition also_needed :: "string set option \<Rightarrow> string set \<Rightarrow> string set option" where
  "also_needed needed cols = map_option (\<lambda>N. N \<union> cols) needed"

definition side_needed :: "string set option \<Rightarrow> string set \<Rightarrow> string list \<Rightarrow> string set" where
  "side_needed needed side on = (case needed of None \<Rightarrow> side | Some N \<Rightarrow> (N \<inter> side) \<union> set on)"

fun prune :: "lplan \<Rightarrow> string set option \<Rightarrow> lplan res" where
  "prune (Scan d n s) needed = Inr (prune_scan (Scan d n s) (field_names (ds_schema d)) needed)"
| "prune (Filter c e) needed =
     rbind (prune c (also_needed needed (referenced_columns e))) (\<lambda>c'. Inr (Filter c' e))"
| "prune (Project c es) needed = rbind (prune c (Some (columns_of es))) (\<lambda>c'. Inr (Project c' es))"
| "prune (Aggregate c gs as) needed =
     rbind (prune c (Some (columns_of gs \<union> columns_of as))) (\<lambda>c'. Inr (Aggregate c' gs as))"
| "prune (Join l r on how b) needed =
     rbind (lschema l) (\<lambda>ls. rbind (lschema r) (\<lambda>rs.
       rbind (prune l (Some (side_needed needed (set (field_names ls)) on))) (\<lambda>l'.
       rbind (prune r (Some (side_needed needed (set (field_names rs)) on))) (\<lambda>r'.
         Inr (Join l' r' on how b)))))"
| "prune (Sort c es asc) needed =
     rbind (prune c (also_needed needed (columns_of es))) (\<lambda>c'. mk_sort c' es asc)"

definition projection_pruning :: "lplan \<Rightarrow> lplan res" where
  "projection_pruning p = prune p None"

section \<open>Redundant projections\<close>

definition fuse_projection :: "lplan \<Rightarrow> expr list \<Rightarrow> lplan" where
  "fuse_projection child es =
     (case child of
        Project c es' \<Rightarrow> if list_all is_column es' then Project c es else Project child es
      | _ \<Rightarrow> Project child es)"

fun eliminate :: "lplan \<Rightarrow> lplan res" where
  "eliminate (Scan d n s) = Inr (Scan d n s)"
| "eliminate (Filter c e) = rbind (eliminate c) (\<lambda>c'. Inr (Filter c' e))"
| "eliminate (Aggregate c gs as) = rbind (eliminate c) (\<lambda>c'. Inr (Aggregate c' gs as))"
| "eliminate (Join l r on how b) =
     rbind (eliminate l) (\<lambda>l'. rbind (eliminate r) (\<lambda>r'. Inr (Join l' r' on how b)))"
| "eliminate (Sort c es asc) = rbind (eliminate c) (\<lambda>c'. mk_sort c' es asc)"
| "eliminate (Project c es) =
     rbind (eliminate c) (\<lambda>c'.
       if list_all is_column es
       then rbind (lschema c') (\<lambda>s.
              if map output_name es = field_names s then Inr c' else Inr (fuse_projection c' es))
       else Inr (fuse_projection c' es))"

section \<open>The optimizer\<close>

definition default_rules :: "optimizer_config \<Rightarrow> (lplan \<Rightarrow> lplan res) list" where
  "default_rules config =
     [constant_folding, filter_simplification]
     @ (if predicate_pushdown config then [pushdown] else [])
     @ (if projection_pruning_on config then [projection_pruning] else [])
     @ [eliminate]"

text \<open>\<^verbatim>\<open>Optimizer.optimize\<close>: at most \<open>n\<close> rounds, stopping after one that leaves the printed plan as it was.\<close>

fun optimize :: "(lplan \<Rightarrow> lplan res) list \<Rightarrow> nat \<Rightarrow> lplan \<Rightarrow> lplan res" where
  "optimize rules 0 p = Inr p"
| "optimize rules (Suc n) p =
     rbind (rfold (\<lambda>q rule. rule q) p rules) (\<lambda>q.
       if explain_string q = explain_string p then Inr q else optimize rules n q)"

definition DEFAULT_MAX_ITERATIONS :: nat where
  "DEFAULT_MAX_ITERATIONS = 10"

end
