(* ===== verification/PlanMeaning.thy ===== *)
theory PlanMeaning
  imports Optimizer JoinExecution
begin

text \<open>
  A reference meaning of logical plans: the list of rows a plan denotes.  Expressions are total here
  (an operation that raises has the value null), so that the meaning is an equation on every plan;
  where the evaluation of the code does not raise, the two agree (\<open>eval_tev\<close>, and
  \<open>execute_naive_meaning\<close> for the executor of \<^verbatim>\<open>execution/executor.py\<close>).  What the meaning does not show,
  that a rewrite makes an expression raise, is the subject of OptimizerRuns.
\<close>

section \<open>Total evaluation\<close>

definition or_null :: "pval res \<Rightarrow> pval" where
  "or_null m = (case m of Inr v \<Rightarrow> v | Inl _ \<Rightarrow> VNone)"

lemma or_null_simps [simp]: "or_null (Inr v) = v" "or_null (Inl e) = VNone"
  by (simp_all add: or_null_def)

fun tev :: "expr \<Rightarrow> row \<Rightarrow> pval" where
  "tev (Column n) r = or_null (row_get r n)"
| "tev (Literal v) r = v"
| "tev (Alias e _) r = tev e r"
| "tev (Binary op e f) r = or_null (apply_binop op (tev e r) (tev f r))"
| "tev (NotE e) r = not_value (tev e r)"
| "tev (IsNull e) r = is_null_value (tev e r)"
| "tev (IsNotNull e) r = is_not_null_value (tev e r)"
| "tev _ r = VNone"

lemma eval_tev: "eval e r = Inr v \<Longrightarrow> tev e r = v"
  by (induction e arbitrary: v) (auto simp: rbind_Inr_iff)

definition passes :: "expr \<Rightarrow> row \<Rightarrow> bool" where
  "passes e r = truthy (tev e r)"

lemma holds_passes: "holds e r = Inr b \<Longrightarrow> passes e r = b"
  by (auto simp: holds_def passes_def rbind_Inr_iff dest: eval_tev)

text \<open>Rows that agree on some columns are the same to the expressions over them.\<close>

definition agree_on :: "string set \<Rightarrow> row \<Rightarrow> row \<Rightarrow> bool" where
  "agree_on N r s \<longleftrightarrow> (\<forall>n \<in> N. map_of r n = map_of s n)"

lemma agree_on_subset: "agree_on N r s \<Longrightarrow> M \<subseteq> N \<Longrightarrow> agree_on M r s"
  by (auto simp: agree_on_def)

lemma tev_agree: "agree_on (referenced_columns e) r s \<Longrightarrow> tev e r = tev e s"
  by (induction e) (auto simp: agree_on_def row_get_def)

lemma passes_agree: "agree_on (referenced_columns e) r s \<Longrightarrow> passes e r = passes e s"
  by (simp add: passes_def tev_agree)

lemma eval_agree: "agree_on (referenced_columns e) r s \<Longrightarrow> eval e r = eval e s"
  by (rule eval_cong_columns) (simp add: agree_on_def)

section \<open>Projection, grouping and joining of row lists\<close>

definition project_to :: "expr list \<Rightarrow> row \<Rightarrow> row" where
  "project_to es r = map (\<lambda>e. (output_name e, tev e r)) es"

definition key_of :: "expr list \<Rightarrow> row \<Rightarrow> pval list" where
  "key_of es r = map (\<lambda>e. tev e r) es"

lemma length_key_of [simp]: "length (key_of es r) = length es"
  by (simp add: key_of_def)

definition add_to_group :: "(row \<Rightarrow> pval list) \<Rightarrow> row list kdict \<Rightarrow> row \<Rightarrow> row list kdict" where
  "add_to_group key d r =
     kset d (key r) ((case kget d (key r) of Some rs \<Rightarrow> rs | None \<Rightarrow> []) @ [r])"

definition grouped :: "(row \<Rightarrow> pval list) \<Rightarrow> row list \<Rightarrow> row list kdict" where
  "grouped key rows = foldl (add_to_group key) [] rows"

definition aggregate_value :: "expr \<Rightarrow> row list \<Rightarrow> pval" where
  "aggregate_value a rows =
     or_null (rbind (rfold (agg_update a) (init_state a) rows) (agg_finalize a))"

definition group_result :: "expr list \<Rightarrow> expr list \<Rightarrow> pval list \<times> row list \<Rightarrow> row" where
  "group_result gs as g =
     (case g of (key, rows) \<Rightarrow>
        zip (map output_name gs) key @ map (\<lambda>a. (output_name a, aggregate_value (unalias a) rows)) as)"

fun gen_rows :: "'a gen \<Rightarrow> 'a list" where
  "gen_rows Stop = []"
| "gen_rows (Raise _) = []"
| "gen_rows (Yield x g) = x # gen_rows g"

lemma gen_list_rows: "gen_list g = Inr xs \<Longrightarrow> gen_rows g = xs"
  by (induction g arbitrary: xs) (auto simp: rbind_Inr_iff)

definition scan_rows :: "dataset \<Rightarrow> row list" where
  "scan_rows d = concat (map (\<lambda>p. gen_rows (records p)) (ds_partitions d))"

fun meaning :: "lplan \<Rightarrow> row list" where
  "meaning (Scan d _ _) = scan_rows d"
| "meaning (Filter c e) = filter (passes e) (meaning c)"
| "meaning (Project c es) = map (project_to es) (meaning c)"
| "meaning (Aggregate c gs as) = map (group_result gs as) (grouped (key_of gs) (meaning c))"
| "meaning (Join l r on _ _) =
     nested_loop_join on (key_of (map Column on)) (key_of (map Column on)) (meaning l) (meaning r)"
| "meaning (Sort c es asc) = sort_key (row_key (zip es asc)) (meaning c)"

section \<open>Rows and their columns\<close>

text \<open>The rows of every scan have the columns of its schema, in that order.\<close>

fun scans_conform :: "lplan \<Rightarrow> bool" where
  "scans_conform (Scan d _ _) = (\<forall>r \<in> set (scan_rows d). map fst r = field_names (ds_schema d))"
| "scans_conform (Filter c _) = scans_conform c"
| "scans_conform (Project c _) = scans_conform c"
| "scans_conform (Aggregate c _ _) = scans_conform c"
| "scans_conform (Join l r _ _ _) = (scans_conform l \<and> scans_conform r)"
| "scans_conform (Sort c _ _) = scans_conform c"

lemma grouped_snoc [simp]:
  "grouped key [] = []" "grouped key (rows @ [r]) = add_to_group key (grouped key rows) r"
  by (simp_all add: grouped_def)

lemma kset_keys_length:
  "\<forall>(k, v) \<in> set d. length k = n \<Longrightarrow> length k = n \<Longrightarrow> \<forall>(k, v) \<in> set (kset d k v). length k = n"
  by (induction d k v rule: kset.induct) auto

lemma grouped_keys_length: "(k, rows') \<in> set (grouped (key_of gs) rows) \<Longrightarrow> length k = length gs"
proof -
  have "\<forall>(k, v) \<in> set (grouped (key_of gs) rows). length k = length gs"
  proof (induction rows rule: rev_induct)
    case (snoc r rows)
    then show ?case unfolding grouped_snoc add_to_group_def
      by (intro kset_keys_length [OF snoc]) simp
  qed simp
  then show "(k, rows') \<in> set (grouped (key_of gs) rows) \<Longrightarrow> length k = length gs" by auto
qed

lemma update_new: "k \<notin> fst ` set d \<Longrightarrow> AList.update k v d = d @ [(k, v)]"
  by (induction d) auto

lemma merge_rows_append:
  assumes "distinct (map fst r)" "fst ` set l \<inter> fst ` set r \<subseteq> set on"
  shows "merge_rows on l r = l @ filter (\<lambda>(n, v). n \<notin> set on) r"
proof -
  have "foldl (\<lambda>d (n, v). if n \<in> set on then d else AList.update n v d) l r = l @ filter (\<lambda>(n, v). n \<notin> set on) r"
    if "distinct (map fst r)" "fst ` set l \<inter> fst ` set r \<subseteq> set on" for l
    using that
  proof (induction r arbitrary: l)
    case (Cons x r)
    obtain n v where x: "x = (n, v)" by (cases x)
    show ?case
    proof (cases "n \<in> set on")
      case True
      with Cons show ?thesis by (auto simp: x)
    next
      case False
      with Cons.prems(2) have "n \<notin> fst ` set l" by (auto simp: x)
      then have "AList.update n v l = l @ [(n, v)]" by (rule update_new)
      moreover have "fst ` set (l @ [(n, v)]) \<inter> fst ` set r \<subseteq> set on"
        using Cons.prems by (auto simp: x)
      ultimately show ?thesis using Cons.IH [of "l @ [(n, v)]"] Cons.prems(1) False by (simp add: x)
    qed
  qed simp
  with assms show ?thesis by (simp add: merge_rows_def)
qed

lemma fst_filter_names: "map fst (filter (\<lambda>(n, v). P n) r) = filter P (map fst r)"
  by (induction r) auto

lemma meaning_columns:
  "wf_plan p \<Longrightarrow> scans_conform p \<Longrightarrow> r \<in> set (meaning p) \<Longrightarrow> map fst r = out_names p"
proof (induction p arbitrary: r)
  case (Project c es)
  then show ?case by (auto simp: project_to_def comp_def)
next
  case (Aggregate c gs as)
  then show ?case by (auto simp: group_result_def comp_def dest!: grouped_keys_length)
next
  case (Join a b on how bc)
  then obtain x y where xy: "x \<in> set (meaning a)" "y \<in> set (meaning b)" "r = merge_rows on x y"
    by (auto simp: nested_loop_join_def)
  with Join have names: "map fst x = out_names a" "map fst y = out_names b" by auto
  have "fst ` set x = set (out_names a)" "fst ` set y = set (out_names b)"
    using names by (metis set_map)+
  then have "merge_rows on x y = x @ filter (\<lambda>(n, v). n \<notin> set on) y"
    using Join.prems(1) names by (intro merge_rows_append) (auto simp: wf_out_names_distinct)
  then show ?case using xy names by (simp add: fst_filter_names)
qed auto

section \<open>The naive executor (\<open>execution/executor.py\<close>)\<close>

definition naive_filter :: "expr \<Rightarrow> dataset \<Rightarrow> dataset" where
  "naive_filter e d = \<lparr>ds_schema = ds_schema d, ds_partitions = map (filter_partition e) (ds_partitions d)\<rparr>"

definition naive_project :: "expr list \<Rightarrow> schema \<Rightarrow> dataset \<Rightarrow> dataset" where
  "naive_project es s d = \<lparr>ds_schema = s, ds_partitions = map (project_partition es s) (ds_partitions d)\<rparr>"

fun execute_naive :: "lplan \<Rightarrow> dataset res" where
  "execute_naive (Scan d _ _) = Inr d"
| "execute_naive (Filter c e) = rbind (execute_naive c) (\<lambda>d. Inr (naive_filter e d))"
| "execute_naive (Project c es) =
     rbind (execute_naive c) (\<lambda>d. rbind (lschema (Project c es)) (\<lambda>s. Inr (naive_project es s d)))"
| "execute_naive _ = Inl NotImplementedError"

lemma gen_filter_rows:
  "gen_list (gen_filter (holds e) g) = Inr rows \<Longrightarrow> \<exists>xs. gen_list g = Inr xs \<and> rows = filter (passes e) xs"
proof (induction g arbitrary: rows)
  case (Yield r g)
  then obtain b where b: "holds e r = Inr b" by (cases "holds e r") auto
  with Yield.prems obtain ys where "gen_list (gen_filter (holds e) g) = Inr ys"
    "rows = (if b then [r] else []) @ ys" by (auto simp: rbind_Inr_iff split: if_splits)
  with Yield.IH holds_passes [OF b] show ?case by fastforce
qed auto

lemma rmap2_values:
  "rmap2 (\<lambda>n e. rbind (eval e r) (\<lambda>v. Inr (n, v))) ns es = Inr kvs \<Longrightarrow>
   kvs = zip ns (map (\<lambda>e. tev e r) es) \<and> length ns = length es"
proof (induction ns arbitrary: es kvs)
  case Nil
  then show ?case by (cases es) auto
next
  case (Cons n ns)
  then obtain e es' where es: "es = e # es'" by (cases es) auto
  with Cons.prems obtain v kvs' where "eval e r = Inr v" "kvs = (n, v) # kvs'"
    "rmap2 (\<lambda>n e. rbind (eval e r) (\<lambda>v. Inr (n, v))) ns es' = Inr kvs'"
    by (auto simp: rbind_Inr_iff)
  with Cons.IH [of es' kvs'] es show ?case by (simp add: eval_tev)
qed

lemma project_row_to:
  assumes "project_row (map output_name es) es r = Inr q" "distinct (map output_name es)"
  shows "q = project_to es r"
proof -
  obtain kvs where kvs: "rmap2 (\<lambda>n e. rbind (eval e r) (\<lambda>v. Inr (n, v))) (map output_name es) es = Inr kvs"
    "q = dict_of kvs"
    using assms(1) by (auto simp: project_row_def rbind_Inr_iff)
  have "kvs = project_to es r"
    using rmap2_values [OF kvs(1)] by (simp add: project_to_def zip_map_map zip_same_conv_map)
  with kvs(2) assms(2) show ?thesis
    by (simp add: dict_of_distinct_id project_to_def comp_def)
qed

lemma gen_map_rows:
  assumes "\<And>r q. f r = Inr q \<Longrightarrow> q = h r" "gen_list (gen_map f g) = Inr rows"
  shows "\<exists>xs. gen_list g = Inr xs \<and> rows = map h xs"
  using assms(2)
proof (induction g arbitrary: rows)
  case (Yield r g)
  then obtain q where q: "f r = Inr q" by (cases "f r") auto
  with Yield show ?case using assms(1) [OF q] by (fastforce simp: rbind_Inr_iff)
qed auto

lemma iter_records_parts:
  "gen_list (iter_records d) = Inr rows \<longleftrightarrow>
     (\<exists>xss. list_all2 (\<lambda>p xs. gen_list (records p) = Inr xs) (ds_partitions d) xss \<and> rows = concat xss)"
proof -
  have "gen_list (gen_concat gs) = Inr rows \<longleftrightarrow>
     (\<exists>xss. list_all2 (\<lambda>g xs. gen_list g = Inr xs) gs xss \<and> rows = concat xss)" for gs :: "row gen list" and rows
  proof (induction gs arbitrary: rows)
    case (Cons g gs)
    then show ?case by (fastforce simp: gen_list_append rbind_Inr_iff list_all2_Cons1)
  qed auto
  then show ?thesis by (simp add: iter_records_def list_all2_map1)
qed

text \<open>Where the naive executor returns rows, they are the rows of the meaning.\<close>

lemma execute_naive_parts:
  "wf_plan p \<Longrightarrow> execute_naive p = Inr d \<Longrightarrow>
   list_all2 (\<lambda>q xs. gen_list (records q) = Inr xs) (ds_partitions d) xss \<Longrightarrow> concat xss = meaning p"
proof (induction p arbitrary: d xss)
  case (Scan d0 n s)
  then have "map (\<lambda>q. gen_rows (records q)) (ds_partitions d) = xss"
    by (intro nth_equalityI) (auto simp: list_all2_conv_all_nth dest!: gen_list_rows)
  with Scan show ?case by (simp add: scan_rows_def)
next
  case (Filter c e)
  then obtain d0 where d0: "execute_naive c = Inr d0" "d = naive_filter e d0"
    by (auto simp: rbind_Inr_iff)
  have "list_all2 (\<lambda>q xs. \<exists>ys. gen_list (records q) = Inr ys \<and> xs = filter (passes e) ys) (ds_partitions d0) xss"
    using Filter.prems(3) gen_filter_rows
    by (auto simp: d0(2) naive_filter_def list_all2_map1 filter_partition_def elim!: list_all2_mono)
  then obtain yss where "list_all2 (\<lambda>q xs. gen_list (records q) = Inr xs) (ds_partitions d0) yss"
    "xss = map (filter (passes e)) yss"
  proof (induction arbitrary: thesis rule: list_all2_induct)
    case (Cons q qs xs xss)
    from Cons.hyps(1) obtain ys where "gen_list (records q) = Inr ys" "xs = filter (passes e) ys" by blast
    moreover obtain yss where "list_all2 (\<lambda>q xs. gen_list (records q) = Inr xs) qs yss"
      "xss = map (filter (passes e)) yss" using Cons.IH by blast
    ultimately show ?case using Cons.prems [of "ys # yss"] by simp
  qed simp
  with Filter d0(1) show ?case by (simp add: filter_concat flip: Filter.IH)
next
  case (Project c es)
  then obtain d0 s where d0: "execute_naive c = Inr d0" "lschema (Project c es) = Inr s" "d = naive_project es s d0"
    by (auto simp: rbind_Inr_iff simp del: lschema.simps)
  have names: "field_names s = map output_name es" "distinct (map output_name es)"
    using lschema_Project [OF d0(2)] by auto
  have "\<exists>ys. gen_list g = Inr ys \<and> xs = map (project_to es) ys"
    if "gen_list (gen_map (project_row (field_names s) es) g) = Inr xs" for g xs
    using gen_map_rows [OF _ that] project_row_to names by metis
  then have "list_all2 (\<lambda>q xs. \<exists>ys. gen_list (records q) = Inr ys \<and> xs = map (project_to es) ys) (ds_partitions d0) xss"
    using Project.prems(3)
    by (auto simp: d0(3) naive_project_def list_all2_map1 project_partition_def elim!: list_all2_mono)
  then obtain yss where "list_all2 (\<lambda>q xs. gen_list (records q) = Inr xs) (ds_partitions d0) yss"
    "xss = map (map (project_to es)) yss"
  proof (induction arbitrary: thesis rule: list_all2_induct)
    case (Cons q qs xs xss)
    from Cons.hyps(1) obtain ys where "gen_list (records q) = Inr ys" "xs = map (project_to es) ys" by blast
    moreover obtain yss where "list_all2 (\<lambda>q xs. gen_list (records q) = Inr xs) qs yss"
      "xss = map (map (project_to es)) yss" using Cons.IH by blast
    ultimately show ?case using Cons.prems [of "ys # yss"] by simp
  qed simp
  with Project d0(1) show ?case by (simp add: map_concat flip: Project.IH)
qed auto

lemma execute_naive_meaning:
  assumes "wf_plan p" "execute_naive p = Inr d" "gen_list (iter_records d) = Inr rows"
  shows "rows = meaning p"
  using execute_naive_parts [OF assms(1,2)] assms(3) iter_records_parts by metis

end
