(* ===== verification/OptimizerRules.thy ===== *)
theory OptimizerRules
  imports PlanMeaning
begin

text \<open>
  The rules that rewrite expressions and move filters.  Each rule of the optimizer is an instance of the locale
  \<open>meaning_preserving\<close>: on a tidy plan it does not change the rows, the output columns, or tidiness.
  \<open>tidy\<close> says which plans this holds of; the conditions rule out what the rules really get wrong
  (see the counterexamples of OptimizerCorrect).
\<close>

section \<open>Tidy plans\<close>

text \<open>
  Simplification replaces \<^verbatim>\<open>x AND True\<close> by \<^verbatim>\<open>x\<close>, which has the same truth value but not the same
  value: in a value position it must find nothing to do.
\<close>

fun no_bool :: "expr \<Rightarrow> bool" where
  "no_bool (Binary op l r) = (op \<noteq> And \<and> op \<noteq> Or \<and> no_bool l \<and> no_bool r)"
| "no_bool (Alias e _) = no_bool e"
| "no_bool (NotE _) = False"
| "no_bool _ = True"

fun condition_ok :: "expr \<Rightarrow> bool" where
  "condition_ok (Binary op l r) =
     (if op = And \<or> op = Or then condition_ok l \<and> condition_ok r else no_bool l \<and> no_bool r)"
| "condition_ok (Alias e _) = condition_ok e"
| "condition_ok (NotE e) = condition_ok e"
| "condition_ok _ = True"

text \<open>
  Folding changes the name of an unaliased computed column, so those have names; and a name given to
  a column is not the name of another column below, which pushing filters would confuse it with.
\<close>

fun all_names :: "lplan \<Rightarrow> string set" where
  "all_names (Scan d _ _) = set (field_names (ds_schema d))"
| "all_names (Filter c _) = all_names c"
| "all_names (Project c es) = set (map output_name es) \<union> all_names c"
| "all_names (Aggregate c gs as) = set (map output_name gs) \<union> set (map output_name as) \<union> all_names c"
| "all_names (Join l r _ _ _) = all_names l \<union> all_names r"
| "all_names (Sort c _ _) = all_names c"

definition tidy_column :: "string set \<Rightarrow> expr \<Rightarrow> bool" where
  "tidy_column below e \<longleftrightarrow> is_column e \<or> (\<exists>f n. e = Alias f n \<and> no_bool f \<and> n \<notin> below)"

definition tidy_aggregate :: "expr \<Rightarrow> bool" where
  "tidy_aggregate a \<longleftrightarrow> is_aggregate a \<or> (\<exists>f n. a = Alias f n \<and> is_aggregate f)"

text \<open>
  Equal join keys are the same value: \<^verbatim>\<open>1 == 1.0 == True\<close> match in a join, and the joined row has the
  left one, so a filter on the right side's key could tell them apart.
\<close>

definition exact_keys :: "string list \<Rightarrow> row list \<Rightarrow> row list \<Rightarrow> bool" where
  "exact_keys on ls rs \<longleftrightarrow> (\<forall>x \<in> set ls. \<forall>y \<in> set rs.
     py_eq_list (key_of (map Column on) x) (key_of (map Column on) y) \<longrightarrow>
       key_of (map Column on) x = key_of (map Column on) y)"

fun tidy_outputs :: "lplan \<Rightarrow> bool" where
  "tidy_outputs (Scan _ _ _) = True"
| "tidy_outputs (Filter c e) = (tidy_outputs c \<and> condition_ok e)"
| "tidy_outputs (Project c es) = (tidy_outputs c \<and> list_all (tidy_column (all_names c)) es)"
| "tidy_outputs (Aggregate c gs as) = (tidy_outputs c \<and> list_all tidy_aggregate as)"
| "tidy_outputs (Join l r on _ _) =
     (tidy_outputs l \<and> tidy_outputs r \<and> exact_keys on (meaning l) (meaning r))"
| "tidy_outputs (Sort c es asc) = (tidy_outputs c \<and> length es = length asc)"

definition tidy :: "lplan \<Rightarrow> bool" where
  "tidy p \<longleftrightarrow> wf_plan p \<and> scans_conform p \<and> tidy_outputs p"

lemma tidy_simps [simp]:
  "tidy (Filter c e) \<longleftrightarrow> tidy c \<and> referenced_columns e \<subseteq> set (out_names c) \<and> condition_ok e"
  "tidy (Project c es) \<longleftrightarrow> tidy c \<and> columns_of es \<subseteq> set (out_names c) \<and> distinct (map output_name es)
     \<and> list_all (tidy_column (all_names c)) es"
  "tidy (Aggregate c gs as) \<longleftrightarrow> tidy c \<and> list_all is_column gs \<and> list_all (\<lambda>a. is_aggregate (unalias a)) as
      \<and> columns_of gs \<union> columns_of as \<subseteq> set (out_names c)
      \<and> distinct (map output_name gs @ map output_name as) \<and> list_all tidy_aggregate as"
  "tidy (Join l r on how b) \<longleftrightarrow> tidy l \<and> tidy r \<and> how = ''inner'' \<and> on \<noteq> []
      \<and> set on \<subseteq> set (out_names l) \<inter> set (out_names r) \<and> set (out_names l) \<inter> set (out_names r) \<subseteq> set on
      \<and> exact_keys on (meaning l) (meaning r)"
  "tidy (Sort c es asc) \<longleftrightarrow> tidy c \<and> list_all is_column es \<and> columns_of es \<subseteq> set (out_names c)
      \<and> length es = length asc"
  by (auto simp: tidy_def)

lemma tidy_wf: "tidy p \<Longrightarrow> wf_plan p"
  by (simp add: tidy_def)

lemma tidy_columns: "tidy p \<Longrightarrow> r \<in> set (meaning p) \<Longrightarrow> map fst r = out_names p"
  by (simp add: tidy_def meaning_columns)

lemma tidy_schema: "tidy p \<Longrightarrow> \<exists>s. lschema p = Inr s \<and> field_names s = out_names p"
  by (simp add: tidy_def wf_schema)

lemma tidy_distinct: "tidy p \<Longrightarrow> distinct (out_names p)"
  by (simp add: tidy_def wf_out_names_distinct)

lemma out_names_all: "set (out_names p) \<subseteq> all_names p"
  by (induction p) auto

lemma tidy_column_subset: "tidy_column A e \<Longrightarrow> B \<subseteq> A \<Longrightarrow> tidy_column B e"
  by (auto simp: tidy_column_def)

section \<open>The contract of a rule\<close>

definition preserves :: "lplan \<Rightarrow> lplan \<Rightarrow> bool" where
  "preserves p q \<longleftrightarrow> tidy q \<and> meaning q = meaning p \<and> out_names q = out_names p \<and> all_names q \<subseteq> all_names p"

lemma preserves_refl: "tidy p \<Longrightarrow> preserves p p"
  by (simp add: preserves_def)

lemma preserves_trans: "preserves p q \<Longrightarrow> preserves q r \<Longrightarrow> preserves p r"
  by (auto simp: preserves_def)

locale meaning_preserving =
  fixes rule :: "lplan \<Rightarrow> lplan res"
  assumes rule_preserves: "tidy p \<Longrightarrow> rule p = Inr q \<Longrightarrow> preserves p q"

text \<open>A node around children that were rewritten.\<close>

lemma preserves_Filter:
  "tidy (Filter c e) \<Longrightarrow> preserves c c' \<Longrightarrow> preserves (Filter c e) (Filter c' e)"
  by (auto simp: preserves_def)

lemma preserves_Project:
  "tidy (Project c es) \<Longrightarrow> preserves c c' \<Longrightarrow> preserves (Project c es) (Project c' es)"
  by (auto simp: preserves_def list_all_iff intro: tidy_column_subset)

lemma preserves_Aggregate:
  "tidy (Aggregate c gs as) \<Longrightarrow> preserves c c' \<Longrightarrow> preserves (Aggregate c gs as) (Aggregate c' gs as)"
  by (auto simp: preserves_def)

lemma preserves_Join:
  "tidy (Join l r on how b) \<Longrightarrow> preserves l l' \<Longrightarrow> preserves r r' \<Longrightarrow>
   preserves (Join l r on how b) (Join l' r' on how b)"
  by (auto simp: preserves_def)

lemma preserves_Sort:
  "tidy (Sort c es asc) \<Longrightarrow> preserves c c' \<Longrightarrow> preserves (Sort c es asc) (Sort c' es asc)"
  by (auto simp: preserves_def)

lemmas preserves_intros = preserves_Filter preserves_Project preserves_Aggregate preserves_Join preserves_Sort

lemma mk_sort_Inr_iff: "mk_sort c es asc = Inr q \<longleftrightarrow> length es = length asc \<and> q = Sort c es asc"
  by (auto simp: mk_sort_def)

section \<open>Rewriting expressions\<close>

text \<open>What a rewrite of expressions has to respect.\<close>

definition keeps_columns :: "(expr \<Rightarrow> expr res) \<Rightarrow> bool" where
  "keeps_columns fn \<longleftrightarrow>
     (\<forall>n. fn (Column n) = Inr (Column n)) \<and> (\<forall>a. is_aggregate a \<longrightarrow> fn a = Inr a)
     \<and> (\<forall>e n e'. fn (Alias e n) = Inr e' \<longrightarrow> (\<exists>f. fn e = Inr f \<and> e' = Alias f n))
     \<and> (\<forall>e e'. fn e = Inr e' \<longrightarrow> referenced_columns e' \<subseteq> referenced_columns e)
     \<and> (\<forall>e e'. condition_ok e \<longrightarrow> fn e = Inr e' \<longrightarrow> condition_ok e' \<and> (\<forall>r. passes e' r = passes e r))
     \<and> (\<forall>e e'. no_bool e \<longrightarrow> fn e = Inr e' \<longrightarrow> no_bool e' \<and> (\<forall>r. tev e' r = tev e r))"

lemma keeps_columns_list:
  assumes "keeps_columns fn" "rmap fn es = Inr es'"
  shows "list_all is_column es \<Longrightarrow> es' = es" and "list_all tidy_aggregate es \<Longrightarrow> es' = es"
    and "columns_of es' \<subseteq> columns_of es"
    and "list_all (tidy_column A) es \<Longrightarrow> list_all (tidy_column A) es' \<and> map output_name es' = map output_name es
      \<and> (\<forall>r. project_to es' r = project_to es r)"
proof -
  have all: "list_all2 (\<lambda>e e'. fn e = Inr e') es es'" using assms(2) by (simp add: rmap_Inr_iff)
  note fn = assms(1) [unfolded keeps_columns_def]
  show "es' = es" if "list_all is_column es"
    using all that fn by (induction rule: list_all2_induct) (auto elim!: is_column.elims)
  show "es' = es" if "list_all tidy_aggregate es"
  proof -
    have "fn a = Inr a' \<Longrightarrow> tidy_aggregate a \<Longrightarrow> a' = a" for a a'
      using fn unfolding tidy_aggregate_def by (metis Inr_inject)
    with all that show ?thesis by (induction rule: list_all2_induct) auto
  qed
  show "columns_of es' \<subseteq> columns_of es"
    using all fn by (induction rule: list_all2_induct) (auto, blast)
  have column: "tidy_column A e' \<and> output_name e' = output_name e \<and> (\<forall>r. tev e' r = tev e r)"
    if "fn e = Inr e'" "tidy_column A e" for e e'
  proof (cases "is_column e")
    case True
    then show ?thesis using that fn by (cases e) auto
  next
    case False
    with that(2) obtain f n where e: "e = Alias f n" "no_bool f" "n \<notin> A" by (auto simp: tidy_column_def)
    with that(1) fn obtain f' where f': "fn f = Inr f'" "e' = Alias f' n" by blast
    with e(2) fn have "no_bool f'" "\<forall>r. tev f' r = tev f r" by blast+
    with e f'(2) show ?thesis by (simp add: tidy_column_def)
  qed
  show "list_all (tidy_column A) es' \<and> map output_name es' = map output_name es
      \<and> (\<forall>r. project_to es' r = project_to es r)" if "list_all (tidy_column A) es"
    using all that
    by (induction rule: list_all2_induct) (auto simp: project_to_def dest: column)
qed

lemma map_expressions_preserves:
  assumes "keeps_columns fn"
  shows "tidy p \<Longrightarrow> map_expressions fn p = Inr q \<Longrightarrow> preserves p q"
proof (induction p arbitrary: q)
  case (Scan d n s)
  then show ?case by (simp add: preserves_refl)
next
  case (Filter c e)
  then obtain c' e' where q: "map_expressions fn c = Inr c'" "fn e = Inr e'" "q = Filter c' e'"
    by (auto simp: rbind_Inr_iff)
  with Filter have c': "preserves c c'" by simp
  have "condition_ok e'" "\<forall>r. passes e' r = passes e r" "referenced_columns e' \<subseteq> referenced_columns e"
    using assms q(2) Filter.prems(1) unfolding keeps_columns_def by auto
  moreover have "passes e' = passes e" using calculation(2) by auto
  ultimately show ?case using c' Filter.prems(1) by (auto simp: q(3) preserves_def)
next
  case (Project c es)
  then obtain c' es' where q: "map_expressions fn c = Inr c'" "rmap fn es = Inr es'" "q = Project c' es'"
    by (auto simp: rbind_Inr_iff)
  with Project have c': "preserves c c'" by simp
  have "list_all (tidy_column (all_names c')) es"
    using Project.prems(1) c' by (auto simp: preserves_def list_all_iff intro: tidy_column_subset)
  note es' = keeps_columns_list(4) [OF assms q(2) this] keeps_columns_list(3) [OF assms q(2)]
  moreover have "project_to es' = project_to es" using es'(1) by auto
  moreover have "set (map output_name es') = set (map output_name es)" using es'(1) by simp
  ultimately show ?case using c' Project.prems(1)
    by (auto simp: q(3) preserves_def simp del: set_map)
next
  case (Aggregate c gs as)
  then obtain c' gs' as' where q: "map_expressions fn c = Inr c'" "rmap fn gs = Inr gs'"
      "rmap fn as = Inr as'" "q = Aggregate c' gs' as'"
    by (auto simp: rbind_Inr_iff)
  with Aggregate have "preserves c c'" by simp
  moreover have "gs' = gs" "as' = as"
    using keeps_columns_list [OF assms q(2)] keeps_columns_list [OF assms q(3)] Aggregate.prems(1) by auto
  ultimately show ?case using Aggregate.prems(1) by (simp add: q(4) preserves_Aggregate del: tidy_simps)
next
  case (Join l r on how b)
  then obtain l' r' where q: "map_expressions fn l = Inr l'" "map_expressions fn r = Inr r'"
      "q = Join l' r' on how b"
    by (auto simp: rbind_Inr_iff)
  with Join show ?case by (simp add: q(3) preserves_Join)
next
  case (Sort c es asc)
  then obtain c' es' where q: "map_expressions fn c = Inr c'" "rmap fn es = Inr es'" "q = Sort c' es' asc"
    by (auto simp: rbind_Inr_iff mk_sort_Inr_iff)
  moreover have "es' = es" using keeps_columns_list [OF assms q(2)] Sort.prems(1) by auto
  ultimately show ?case using Sort by (simp add: preserves_Sort)
qed

subsection \<open>Constant folding\<close>

text \<open>A folded node is the node over its folded children, or a literal in its place.\<close>

lemma const_fold_Binary:
  assumes "const_fold (Binary op l r) = Inr e'"
  obtains l' r' where "const_fold l = Inr l'" "const_fold r = Inr r'"
    "e' = Binary op l' r' \<or> (\<exists>a b v. l' = Literal a \<and> r' = Literal b \<and> apply_binop op a b = Inr v \<and> e' = Literal v)"
proof -
  from assms obtain l' r' where lr: "const_fold l = Inr l'" "const_fold r = Inr r'"
    "(case (l', r') of (Literal a, Literal b) \<Rightarrow> rbind (apply_binop op a b) (\<lambda>v. Inr (Literal v))
       | _ \<Rightarrow> Inr (Binary op l' r')) = Inr e'"
    by (auto simp: rbind_Inr_iff)
  have "e' = Binary op l' r' \<or> (\<exists>a b v. l' = Literal a \<and> r' = Literal b \<and> apply_binop op a b = Inr v \<and> e' = Literal v)"
  proof (cases l')
    case l: (Literal a)
    show ?thesis
      using lr(3) l by (cases r') (auto simp: rbind_Inr_iff)
  qed (use lr(3) in simp_all)
  with that lr(1,2) show ?thesis by blast
qed

lemma const_fold_NotE:
  assumes "const_fold (NotE c) = Inr e'"
  obtains c' where "const_fold c = Inr c'" "e' = NotE c' \<or> (\<exists>v. c' = Literal v \<and> e' = Literal (not_value v))"
proof (cases "const_fold c")
  case (Inr c')
  with assms have "e' = NotE c' \<or> (\<exists>v. c' = Literal v \<and> e' = Literal (not_value v))"
    by (cases c') auto
  with Inr that show ?thesis by blast
qed (use assms in simp)

lemma const_fold_IsNull:
  assumes "const_fold (IsNull c) = Inr e'"
  obtains c' where "const_fold c = Inr c'" "e' = IsNull c' \<or> (\<exists>v. c' = Literal v \<and> e' = Literal (is_null_value v))"
proof (cases "const_fold c")
  case (Inr c')
  with assms have "e' = IsNull c' \<or> (\<exists>v. c' = Literal v \<and> e' = Literal (is_null_value v))"
    by (cases c') auto
  with Inr that show ?thesis by blast
qed (use assms in simp)

lemma const_fold_IsNotNull:
  assumes "const_fold (IsNotNull c) = Inr e'"
  obtains c' where "const_fold c = Inr c'"
    "e' = IsNotNull c' \<or> (\<exists>v. c' = Literal v \<and> e' = Literal (is_not_null_value v))"
proof (cases "const_fold c")
  case (Inr c')
  with assms have "e' = IsNotNull c' \<or> (\<exists>v. c' = Literal v \<and> e' = Literal (is_not_null_value v))"
    by (cases c') auto
  with Inr that show ?thesis by blast
qed (use assms in simp)

lemma const_fold_Alias:
  assumes "const_fold (Alias c n) = Inr e'"
  obtains c' where "const_fold c = Inr c'" "e' = Alias c' n"
  using assms by (auto simp: rbind_Inr_iff)

lemmas const_fold_elims = const_fold_Binary const_fold_NotE const_fold_IsNull const_fold_IsNotNull const_fold_Alias

lemma const_fold_facts:
  "const_fold e = Inr e' \<Longrightarrow> referenced_columns e' \<subseteq> referenced_columns e \<and> (\<forall>r. tev e' r = tev e r)
     \<and> (no_bool e \<longrightarrow> no_bool e') \<and> (condition_ok e \<longrightarrow> condition_ok e')"
proof (induction e arbitrary: e')
  case (Binary op l r)
  from Binary.prems obtain l' r' where lr: "const_fold l = Inr l'" "const_fold r = Inr r'"
    "e' = Binary op l' r' \<or> (\<exists>a b v. l' = Literal a \<and> r' = Literal b \<and> apply_binop op a b = Inr v \<and> e' = Literal v)"
    by (rule const_fold_Binary)
  note IH = Binary.IH(1) [OF lr(1)] Binary.IH(2) [OF lr(2)]
  have vals: "tev l' s = tev l s" "tev r' s = tev r s" for s using IH by auto
  have "tev (Binary op l r) s = tev (Binary op l' r') s" for s by (simp add: vals)
  with lr(3) IH show ?case by (elim disjE exE conjE) (auto split: if_splits)
next
  case (NotE e)
  from NotE.prems obtain c' where "const_fold e = Inr c'"
    "e' = NotE c' \<or> (\<exists>v. c' = Literal v \<and> e' = Literal (not_value v))" by (rule const_fold_NotE)
  with NotE.IH [of c'] show ?case by (elim disjE exE conjE) auto
next
  case (IsNull e)
  from IsNull.prems obtain c' where "const_fold e = Inr c'"
    "e' = IsNull c' \<or> (\<exists>v. c' = Literal v \<and> e' = Literal (is_null_value v))" by (rule const_fold_IsNull)
  with IsNull.IH [of c'] show ?case by (elim disjE exE conjE) auto
next
  case (IsNotNull e)
  from IsNotNull.prems obtain c' where "const_fold e = Inr c'"
    "e' = IsNotNull c' \<or> (\<exists>v. c' = Literal v \<and> e' = Literal (is_not_null_value v))" by (rule const_fold_IsNotNull)
  with IsNotNull.IH [of c'] show ?case by (elim disjE exE conjE) auto
next
  case (Alias e n)
  from Alias.prems obtain c' where "const_fold e = Inr c'" "e' = Alias c' n" by (rule const_fold_Alias)
  with Alias.IH [of c'] show ?case by auto
qed auto

lemma keeps_const_fold: "keeps_columns const_fold"
  unfolding keeps_columns_def passes_def
proof (intro conjI allI impI)
  fix a assume "is_aggregate a"
  then show "const_fold a = Inr a" by (cases a) auto
qed (auto dest: const_fold_facts elim!: const_fold_Alias simp del: const_fold.simps(2))

interpretation constant_folding: meaning_preserving constant_folding
  by unfold_locales (simp add: constant_folding_def map_expressions_preserves [OF keeps_const_fold])

subsection \<open>Filter simplification\<close>

lemma simplify_no_bool: "no_bool e \<Longrightarrow> simplify_bool e = e"
  by (induction e rule: simplify_bool.induct) auto

lemma simplify_and_simps:
  "truthy (tev (simplify_and l r) s) = (truthy (tev l s) \<and> truthy (tev r s))"
  "referenced_columns (simplify_and l r) \<subseteq> referenced_columns l \<union> referenced_columns r"
  "condition_ok l \<Longrightarrow> condition_ok r \<Longrightarrow> condition_ok (simplify_and l r)"
  by (auto simp: simplify_and_def split: expr.splits)

lemma simplify_or_simps:
  "truthy (tev (simplify_or l r) s) = (truthy (tev l s) \<or> truthy (tev r s))"
  "referenced_columns (simplify_or l r) \<subseteq> referenced_columns l \<union> referenced_columns r"
  "condition_ok l \<Longrightarrow> condition_ok r \<Longrightarrow> condition_ok (simplify_or l r)"
  by (auto simp: simplify_or_def split: expr.splits)

lemma simplify_columns: "referenced_columns (simplify_bool e) \<subseteq> referenced_columns e"
  using simplify_and_simps(2) simplify_or_simps(2)
  by (induction e rule: simplify_bool.induct) (fastforce split: expr.splits)+

lemma simplify_condition:
  "condition_ok e \<Longrightarrow> condition_ok (simplify_bool e) \<and> truthy (tev (simplify_bool e) r) = truthy (tev e r)"
proof (induction e rule: simplify_bool.induct)
  case (3 e)
  then show ?case by (auto split: expr.splits)
qed (auto simp: simplify_and_simps simplify_or_simps simplify_no_bool)

lemma keeps_simplify: "keeps_columns (\<lambda>e. Inr (simplify_bool e))"
  unfolding keeps_columns_def passes_def
  using simplify_columns simplify_condition simplify_no_bool
  by (auto elim!: is_aggregate.elims)

interpretation filter_simplification: meaning_preserving filter_simplification
  by unfold_locales (simp add: filter_simplification_def map_expressions_preserves [OF keeps_simplify])

section \<open>Predicate pushdown\<close>

lemma map_of_project:
  "distinct (map output_name es) \<Longrightarrow> e \<in> set es \<Longrightarrow> map_of (project_to es r) (output_name e) = Some (tev e r)"
  by (auto simp: project_to_def comp_def)

lemma row_get_column: "n \<in> fst ` set r \<Longrightarrow> map_of r n = Some (tev (Column n) r)"
proof -
  assume "n \<in> fst ` set r"
  then obtain v where "map_of r n = Some v" by (metis map_of_eq_None_iff not_None_eq)
  then show ?thesis by (simp add: row_get_def)
qed

lemma project_agree:
  assumes "distinct (map output_name es)" "list_all (tidy_column A) es" "N \<subseteq> set (map output_name es)"
    and "N \<subseteq> A" "N \<subseteq> fst ` set r"
  shows "agree_on N (project_to es r) r"
  unfolding agree_on_def
proof
  fix n assume n: "n \<in> N"
  then obtain e where e: "e \<in> set es" "output_name e = n" using assms(3) by auto
  have "tidy_column A e" using e(1) assms(2) by (simp add: list_all_iff)
  then have "e = Column n" using e(2) n assms(4) by (cases e) (auto simp: tidy_column_def)
  moreover have "n \<in> fst ` set r" using n assms(5) by blast
  then have "map_of r n = Some (tev (Column n) r)" by (rule row_get_column)
  ultimately show "map_of (project_to es r) n = map_of r n"
    using map_of_project [OF assms(1) e(1), of r] by simp
qed

text \<open>A joined row is the left row and the other columns of the right row.\<close>

lemma joined_row:
  assumes "tidy (Join l r on how b)" "x \<in> set (meaning l)" "y \<in> set (meaning r)"
  shows "merge_rows on x y = x @ filter (\<lambda>(n, v). n \<notin> set on) y"
proof -
  have names: "map fst x = out_names l" "map fst y = out_names r"
    using assms tidy_columns by auto
  have "fst ` set x = set (out_names l)" "fst ` set y = set (out_names r)"
    using names by (metis set_map)+
  with assms(1) names show ?thesis
    by (intro merge_rows_append) (auto simp: tidy_distinct)
qed

lemma map_of_joined:
  "map_of (x @ filter (\<lambda>(n, v). n \<notin> set on) y) n
     = (if n \<in> fst ` set x then map_of x n else if n \<in> set on then None else map_of y n)"
proof -
  have "map_of (filter (\<lambda>(n, v). n \<notin> set on) y) n = (if n \<in> set on then None else map_of y n)"
    by (induction y) auto
  moreover have "map_of x n = None \<longleftrightarrow> n \<notin> fst ` set x" by (rule map_of_eq_None_iff)
  ultimately show ?thesis by (cases "map_of x n") (auto simp: map_add_def)
qed

lemma nested_loop_filter_left:
  assumes "\<And>x y. x \<in> set ls \<Longrightarrow> y \<in> set rs \<Longrightarrow> P (merge_rows on x y) = P x"
  shows "filter P (nested_loop_join on lk rk ls rs) = nested_loop_join on lk rk (filter P ls) rs"
proof -
  have "filter P (map (\<lambda>l. merge_rows on l r) (filter (\<lambda>l. py_eq_list (lk l) (rk r)) ls))
      = map (\<lambda>l. merge_rows on l r) (filter (\<lambda>l. py_eq_list (lk l) (rk r)) (filter P ls))"
    if "r \<in> set rs" for r
    using assms that by (auto simp: filter_map comp_def intro!: arg_cong [of _ _ "map _"] filter_cong)
  then show ?thesis
    by (auto simp: nested_loop_join_def filter_concat comp_def intro!: arg_cong [of _ _ concat])
qed

lemma nested_loop_filter_right:
  assumes "\<And>x y. x \<in> set ls \<Longrightarrow> y \<in> set rs \<Longrightarrow> py_eq_list (lk x) (rk y) \<Longrightarrow> P (merge_rows on x y) = P y"
  shows "filter P (nested_loop_join on lk rk ls rs) = nested_loop_join on lk rk ls (filter P rs)"
  using assms
proof (induction rs)
  case (Cons y rs)
  have "filter P (map (\<lambda>l. merge_rows on l y) (filter (\<lambda>l. py_eq_list (lk l) (rk y)) ls))
      = (if P y then map (\<lambda>l. merge_rows on l y) (filter (\<lambda>l. py_eq_list (lk l) (rk y)) ls) else [])"
    using Cons.prems by (auto simp: filter_empty_conv intro!: filter_True)
  with Cons show ?case by (simp add: nested_loop_join_def)
qed (simp add: nested_loop_join_def)

lemma push_below_project:
  assumes "tidy (Filter (Project c es) e)" "referenced_columns e \<subseteq> set (out_names c)"
  shows "preserves (Filter (Project c es) e) (Project (Filter c e) es)"
proof -
  have "passes e (project_to es r) = passes e r" if "r \<in> set (meaning c)" for r
  proof (rule passes_agree, rule project_agree [where A = "all_names c"])
    show "referenced_columns e \<subseteq> all_names c" using assms(2) out_names_all by blast
    have "map fst r = out_names c" using tidy_columns that assms(1) by auto
    then show "referenced_columns e \<subseteq> fst ` set r" using assms(2) by (metis set_map)
  qed (use assms(1) in auto)
  then have "filter (passes e) (map (project_to es) (meaning c)) = map (project_to es) (filter (passes e) (meaning c))"
    by (auto simp: filter_map intro!: arg_cong [of _ _ "map _"] filter_cong)
  with assms show ?thesis by (auto simp: preserves_def)
qed

lemma exact_keys_subset: "exact_keys on ls rs \<Longrightarrow> set ls' \<subseteq> set ls \<Longrightarrow> set rs' \<subseteq> set rs \<Longrightarrow> exact_keys on ls' rs'"
  unfolding exact_keys_def by blast

lemma push_left:
  assumes "tidy (Filter (Join l r on how b) e)" "referenced_columns e \<subseteq> set (out_names l)"
  shows "preserves (Filter (Join l r on how b) e) (Join (Filter l e) r on how b)"
proof -
  have join: "tidy (Join l r on how b)" using assms(1) by simp
  have "passes e (merge_rows on x y) = passes e x" if "x \<in> set (meaning l)" "y \<in> set (meaning r)" for x y
  proof (rule passes_agree)
    have "map fst x = out_names l" using tidy_columns that assms(1) by auto
    then have "referenced_columns e \<subseteq> fst ` set x" using assms(2) by (metis set_map)
    then show "agree_on (referenced_columns e) (merge_rows on x y) x"
      unfolding joined_row [OF join that] agree_on_def map_of_joined by auto
  qed
  from nested_loop_filter_left [OF this] assms show ?thesis
    by (auto simp: preserves_def intro: exact_keys_subset)
qed

lemma push_right:
  assumes "tidy (Filter (Join l r on how b) e)" "referenced_columns e \<subseteq> set (out_names r)"
  shows "preserves (Filter (Join l r on how b) e) (Join l (Filter r e) on how b)"
proof -
  have join: "tidy (Join l r on how b)" using assms(1) by simp
  let ?k = "key_of (map Column on)"
  have "passes e (merge_rows on x y) = passes e y"
    if x: "x \<in> set (meaning l)" and y: "y \<in> set (meaning r)" and eq: "py_eq_list (?k x) (?k y)" for x y
  proof (rule passes_agree)
    have fst: "fst ` set x = set (out_names l)" "fst ` set y = set (out_names r)"
      using tidy_columns x y join by (metis set_map tidy_simps(4))+
    have "?k x = ?k y" using join x y eq by (auto simp: exact_keys_def)
    then have key: "tev (Column n) x = tev (Column n) y" if "n \<in> set on" for n
      using that by (auto simp: key_of_def)
    show "agree_on (referenced_columns e) (merge_rows on x y) y"
      unfolding joined_row [OF join x y] agree_on_def map_of_joined
    proof
      fix n assume n: "n \<in> referenced_columns e"
      then have ny: "n \<in> fst ` set y" using assms(2) fst by blast
      show "(if n \<in> fst ` set x then map_of x n else if n \<in> set on then None else map_of y n) = map_of y n"
      proof (cases "n \<in> fst ` set x")
        case True
        then have "n \<in> set on" using ny fst join by auto
        with key True ny show ?thesis by (simp add: row_get_column)
      next
        case False
        then have "n \<notin> set on" using fst join by auto
        with False show ?thesis by simp
      qed
    qed
  qed
  from nested_loop_filter_right [OF this] assms show ?thesis
    by (auto simp: preserves_def intro: exact_keys_subset)
qed

lemma push_filter_preserves:
  assumes "tidy (Filter c e)" "push_filter c e = Inr q"
  shows "preserves (Filter c e) q"
proof (cases c)
  case (Project c0 es)
  then obtain s where "lschema c0 = Inr s" "field_names s = out_names c0"
    using assms(1) tidy_schema [of c0] by auto
  with assms Project show ?thesis
    by (auto simp: push_filter_def preserves_refl push_below_project simp del: tidy_simps split: if_splits)
next
  case (Join l r on how b)
  then obtain ls rs where "lschema l = Inr ls" "field_names ls = out_names l"
    "lschema r = Inr rs" "field_names rs = out_names r"
    using assms(1) tidy_schema [of l] tidy_schema [of r] by auto
  with assms Join show ?thesis
    by (auto simp: push_filter_def preserves_refl push_left push_right simp del: tidy_simps split: if_splits)
qed (use assms in \<open>auto simp: push_filter_def preserves_refl simp del: tidy_simps\<close>)

lemma pushdown_preserves: "tidy p \<Longrightarrow> pushdown p = Inr q \<Longrightarrow> preserves p q"
proof (induction p arbitrary: q)
  case (Filter c e)
  then obtain c' where c': "pushdown c = Inr c'" "push_filter c' e = Inr q" by (auto simp: rbind_Inr_iff)
  have "preserves c c'" using Filter.prems(1) by (intro Filter.IH [OF _ c'(1)]) simp
  with Filter.prems(1) have pr: "preserves (Filter c e) (Filter c' e)" by (rule preserves_Filter)
  then have "tidy (Filter c' e)" unfolding preserves_def by (rule conjunct1)
  from preserves_trans [OF pr push_filter_preserves [OF this c'(2)]] show ?case .
next
  case (Project c es)
  then obtain c' where "pushdown c = Inr c'" "q = Project c' es" by (auto simp: rbind_Inr_iff)
  with Project show ?case by (simp add: preserves_Project)
next
  case (Aggregate c gs as)
  then obtain c' where "pushdown c = Inr c'" "q = Aggregate c' gs as" by (auto simp: rbind_Inr_iff)
  with Aggregate show ?case by (simp add: preserves_Aggregate)
next
  case (Join l r on how b)
  then obtain l' r' where "pushdown l = Inr l'" "pushdown r = Inr r'" "q = Join l' r' on how b"
    by (auto simp: rbind_Inr_iff)
  with Join show ?case by (simp add: preserves_Join)
next
  case (Sort c es asc)
  then obtain c' where "pushdown c = Inr c'" "q = Sort c' es asc" by (auto simp: rbind_Inr_iff mk_sort_Inr_iff)
  with Sort show ?case by (simp add: preserves_Sort)
qed (simp add: preserves_refl)

interpretation predicate_pushdown: meaning_preserving pushdown
  by unfold_locales (rule pushdown_preserves)

end
