(* ===== verification/ProjectionRules.thy ===== *)
theory ProjectionRules
  imports OptimizerRules
begin

text \<open>
  The two rules that change which columns a plan computes: pruning keeps of every row what is needed
  above it, and redundant projections are dropped or fused.
\<close>

section \<open>Projection pruning\<close>

text \<open>Pruning keeps some columns of every row: those in \<open>K\<close>, which has all that is needed above.\<close>

definition restrict_row :: "string set \<Rightarrow> row \<Rightarrow> row" where
  "restrict_row K r = filter (\<lambda>(n, v). n \<in> K) r"

definition prunes_to :: "string set \<Rightarrow> lplan \<Rightarrow> lplan \<Rightarrow> bool" where
  "prunes_to K p q \<longleftrightarrow> tidy q \<and> all_names q \<subseteq> all_names p
     \<and> out_names q = filter (\<lambda>n. n \<in> K) (out_names p) \<and> meaning q = map (restrict_row K) (meaning p)"

definition pruned :: "string set \<Rightarrow> lplan \<Rightarrow> lplan \<Rightarrow> bool" where
  "pruned N p q \<longleftrightarrow> (\<exists>K. N \<inter> set (out_names p) \<subseteq> K \<and> prunes_to K p q)"

definition wanted :: "string set option \<Rightarrow> string set" where
  "wanted needed = (case needed of None \<Rightarrow> UNIV | Some N \<Rightarrow> N)"

lemma wanted_simps [simp]:
  "wanted None = UNIV" "wanted (Some N) = N" "wanted (also_needed m C) = wanted m \<union> C"
  by (auto simp: wanted_def also_needed_def split: option.splits)

lemma side_needed_wanted: "set on \<subseteq> S \<Longrightarrow> side_needed m S on = wanted m \<inter> S \<union> set on"
  by (auto simp: wanted_def side_needed_def split: option.splits)

lemma map_of_restrict: "map_of (restrict_row K r) n = (if n \<in> K then map_of r n else None)"
  unfolding restrict_row_def by (induction r) auto

lemma restrict_agree: "M \<subseteq> K \<Longrightarrow> agree_on M (restrict_row K r) r"
  by (auto simp: agree_on_def map_of_restrict)

lemma restrict_all: "fst ` set r \<subseteq> K \<Longrightarrow> restrict_row K r = r"
  by (auto simp: restrict_row_def intro!: filter_True)

lemma restrict_cong: "(\<And>n. n \<in> fst ` set r \<Longrightarrow> n \<in> A \<longleftrightarrow> n \<in> B) \<Longrightarrow> restrict_row A r = restrict_row B r"
  unfolding restrict_row_def by (rule filter_cong) force+

lemma names_restrict: "map fst (restrict_row K r) = filter (\<lambda>n. n \<in> K) (map fst r)"
  by (simp add: restrict_row_def fst_filter_names)

lemma tev_restrict: "referenced_columns e \<subseteq> K \<Longrightarrow> tev e (restrict_row K r) = tev e r"
  by (intro tev_agree restrict_agree)

lemma columns_of_mono: "columns_of es \<subseteq> K \<Longrightarrow> e \<in> set es \<Longrightarrow> referenced_columns e \<subseteq> K"
  by (auto simp: columns_of_def)

lemma key_of_restrict: "columns_of gs \<subseteq> K \<Longrightarrow> key_of gs (restrict_row K r) = key_of gs r"
  by (auto simp: key_of_def intro!: tev_restrict dest: columns_of_mono)

lemma project_to_restrict: "columns_of es \<subseteq> K \<Longrightarrow> project_to es (restrict_row K r) = project_to es r"
  by (auto simp: project_to_def intro!: tev_restrict dest: columns_of_mono)

lemma row_names: "tidy p \<Longrightarrow> r \<in> set (meaning p) \<Longrightarrow> fst ` set r = set (out_names p)"
  using tidy_columns by (metis set_map)

lemma preserves_pruned: "preserves p q \<Longrightarrow> tidy p \<Longrightarrow> pruned N p q"
  unfolding pruned_def prunes_to_def preserves_def
  by (intro exI [of _ UNIV]) (auto simp: restrict_all intro!: map_idI [symmetric])

lemma pruned_UNIV:
  assumes "pruned UNIV p q" "tidy p"
  shows "preserves p q"
proof -
  obtain K where K: "set (out_names p) \<subseteq> K" "prunes_to K p q" using assms(1) by (auto simp: pruned_def)
  then have "map (restrict_row K) (meaning p) = meaning p"
    using row_names [OF assms(2)] by (intro map_idI restrict_all) auto
  moreover have "filter (\<lambda>n. n \<in> K) (out_names p) = out_names p" using K(1) by (auto intro!: filter_True)
  ultimately show ?thesis using K(2) by (simp add: prunes_to_def preserves_def)
qed

lemma prune_scan_pruned:
  assumes "tidy (Scan d n s)"
  shows "pruned (wanted m) (Scan d n s) (prune_scan (Scan d n s) (field_names (ds_schema d)) m)"
proof -
  let ?p = "Scan d n s" and ?cols = "field_names (ds_schema d)"
  show ?thesis
  proof (cases "prune_scan ?p ?cols m = ?p")
    case True
    with assms show ?thesis by (simp add: preserves_pruned preserves_refl)
  next
    case False
    then obtain N where m: "m = Some N" and
      q: "prune_scan ?p ?cols m = Project ?p (map Column (filter (\<lambda>c. c \<in> N) ?cols))"
      by (auto simp: prune_scan_def Let_def split: option.splits if_splits)
    let ?keep = "filter (\<lambda>c. c \<in> N) ?cols"
    have distinct: "distinct ?cols" using tidy_distinct [OF assms] by simp
    have names: "map output_name (map Column ?keep) = ?keep" by (simp add: comp_def)
    have cols: "columns_of (map Column ?keep) = set ?keep" by (auto simp: columns_of_def)
    have "project_to (map Column ?keep) r = restrict_row N r" if "r \<in> set (scan_rows d)" for r
    proof -
      have r: "map fst r = ?cols" using tidy_columns [OF assms] that by simp
      have "(n, v) \<in> set r \<Longrightarrow> tev (Column n) r = v" for n v
        using distinct by (simp add: row_get_def flip: r)
      then have "map (\<lambda>(n, v). (n, tev (Column n) r)) (restrict_row N r) = restrict_row N r"
        by (intro map_idI) (auto simp: restrict_row_def)
      then show ?thesis
        by (simp add: project_to_def comp_def case_prod_unfold flip: r names_restrict)
    qed
    then have "prunes_to N ?p (Project ?p (map Column ?keep))"
      using assms distinct names cols
      by (auto simp: prunes_to_def list_all_iff tidy_column_def)
    with m q show ?thesis by (auto simp: pruned_def)
  qed
qed

text \<open>Grouping rows that agree on the keys, and aggregating rows that agree on the arguments.\<close>

lemma kget_map_values: "kget (map (\<lambda>(k, v). (k, h v)) d) k = map_option h (kget d k)"
  by (induction d k rule: kget.induct) auto

lemma kset_map_values: "kset (map (\<lambda>(k, v). (k, h v)) d) k (h v) = map (\<lambda>(k, v). (k, h v)) (kset d k v)"
  by (induction d k v rule: kset.induct) auto

lemma grouped_map:
  assumes "\<And>r. key (h r) = key r"
  shows "grouped key (map h rows) = map (\<lambda>(k, rs). (k, map h rs)) (grouped key rows)"
proof (induction rows rule: rev_induct)
  case (snoc r rows)
  let ?old = "case kget (grouped key rows) (key r) of Some rs \<Rightarrow> rs | None \<Rightarrow> []"
  have "(case kget (map (\<lambda>(k, rs). (k, map h rs)) (grouped key rows)) (key r) of
      Some rs \<Rightarrow> rs | None \<Rightarrow> []) @ [h r] = map h (?old @ [r])"
    by (simp add: kget_map_values split: option.splits)
  with kset_map_values [of "map h" "grouped key rows" "key r" "?old @ [r]"]
  show ?case by (simp add: snoc add_to_group_def assms)
qed simp

lemma aggregate_value_map:
  assumes "\<And>r. agree_on (referenced_columns a) (h r) r"
  shows "aggregate_value a (map h rows) = aggregate_value a rows"
proof -
  have "agg_update a s (h r) = agg_update a s r" for s r
    using assms [of r] by (cases a) (simp_all add: eval_agree)
  then have "rfold (agg_update a) s (map h rows) = rfold (agg_update a) s rows" for s
    by (induction rows arbitrary: s) auto
  then show ?thesis by (simp add: aggregate_value_def)
qed

lemma aggregate_restrict:
  assumes "columns_of gs \<union> columns_of as \<subseteq> K"
  shows "map (group_result gs as) (grouped (key_of gs) (map (restrict_row K) rows))
       = map (group_result gs as) (grouped (key_of gs) rows)"
proof -
  have "aggregate_value (unalias a) (map (restrict_row K) rs) = aggregate_value (unalias a) rs"
    if "a \<in> set as" for a rs
  proof (rule aggregate_value_map, rule restrict_agree)
    have "referenced_columns (unalias a) = referenced_columns a" by (cases a) auto
    moreover have "columns_of as \<subseteq> K" using assms by simp
    ultimately show "referenced_columns (unalias a) \<subseteq> K" using columns_of_mono that by metis
  qed
  moreover have "grouped (key_of gs) (map (restrict_row K) rows)
      = map (\<lambda>(k, rs). (k, map (restrict_row K) rs)) (grouped (key_of gs) rows)"
    using assms by (intro grouped_map) (simp add: key_of_restrict)
  ultimately show ?thesis by (auto simp: group_result_def)
qed

lemma nested_loop_map:
  assumes "\<And>x. lk (f x) = lk x" "\<And>y. rk (g y) = rk y"
    and "\<And>x y. x \<in> set ls \<Longrightarrow> y \<in> set rs \<Longrightarrow> merge_rows on (f x) (g y) = h (merge_rows on x y)"
  shows "nested_loop_join on lk rk (map f ls) (map g rs) = map h (nested_loop_join on lk rk ls rs)"
  using assms(3)
proof (induction rs)
  case (Cons y rs)
  have "map (\<lambda>l. merge_rows on l (g y)) (filter (\<lambda>l. py_eq_list (lk l) (rk (g y))) (map f ls))
      = map h (map (\<lambda>l. merge_rows on l y) (filter (\<lambda>l. py_eq_list (lk l) (rk y)) ls))"
    using Cons.prems by (simp add: filter_map comp_def assms(1,2))
  moreover have "nested_loop_join on lk rk (map f ls) (map g rs) = map h (nested_loop_join on lk rk ls rs)"
    using Cons by simp
  ultimately show ?case by (simp add: nested_loop_join_def)
qed (simp add: nested_loop_join_def)

lemma join_pruned:
  assumes join: "tidy (Join l r on how b)"
    and l: "pruned (N \<inter> set (out_names l) \<union> set on) l l'" and r: "pruned (N \<inter> set (out_names r) \<union> set on) r r'"
  shows "pruned N (Join l r on how b) (Join l' r' on how b)"
proof -
  have on: "set on \<subseteq> set (out_names l)" "set on \<subseteq> set (out_names r)"
    "set (out_names l) \<inter> set (out_names r) \<subseteq> set on"
    using join by auto
  obtain A where A: "N \<inter> set (out_names l) \<union> set on \<subseteq> A" "prunes_to A l l'"
    using l on(1) by (auto simp: pruned_def Int_absorb1)
  obtain B where B: "N \<inter> set (out_names r) \<union> set on \<subseteq> B" "prunes_to B r r'"
    using r on(2) by (auto simp: pruned_def Int_absorb1)
  define K where "K = A \<inter> set (out_names l) \<union> B \<inter> (set (out_names r) - set on)"
  let ?k = "key_of (map Column on)"
  have keys: "?k (restrict_row A x) = ?k x" "?k (restrict_row B x) = ?k x" for x
    using A(1) B(1) by (auto intro!: key_of_restrict simp: columns_of_def)
  have merge: "merge_rows on (restrict_row A x) (restrict_row B y) = restrict_row K (merge_rows on x y)"
    if x: "x \<in> set (meaning l)" and y: "y \<in> set (meaning r)" for x y
  proof -
    have names: "fst ` set x = set (out_names l)" "map fst y = out_names r" "fst ` set y = set (out_names r)"
      using join x y row_names tidy_columns by auto
    have "merge_rows on (restrict_row A x) (restrict_row B y)
        = restrict_row A x @ filter (\<lambda>(n, v). n \<notin> set on) (restrict_row B y)"
    proof (rule merge_rows_append)
      show "distinct (map fst (restrict_row B y))"
        using join names(2) by (simp add: names_restrict tidy_distinct)
      have "fst ` set (restrict_row A x) \<subseteq> fst ` set x" "fst ` set (restrict_row B y) \<subseteq> fst ` set y"
        by (auto simp: restrict_row_def)
      then show "fst ` set (restrict_row A x) \<inter> fst ` set (restrict_row B y) \<subseteq> set on"
        using names(1,3) on(3) by blast
    qed
    moreover have "restrict_row A x = restrict_row K x"
      using on(3) by (intro restrict_cong) (auto simp: names(1) K_def)
    moreover have "filter (\<lambda>(n, v). n \<notin> set on) (restrict_row B y)
        = restrict_row K (filter (\<lambda>(n, v). n \<notin> set on) y)"
    proof -
      have "restrict_row B (filter (\<lambda>(n, v). n \<notin> set on) y) = restrict_row K (filter (\<lambda>(n, v). n \<notin> set on) y)"
      proof (rule restrict_cong)
        fix n assume "n \<in> fst ` set (filter (\<lambda>(n, v). n \<notin> set on) y)"
        then have "n \<in> fst ` set y" "n \<notin> set on" by auto
        then have "n \<in> set (out_names r)" "n \<notin> set on" by (simp_all add: names(3))
        with on(3) show "n \<in> B \<longleftrightarrow> n \<in> K" by (auto simp: K_def)
      qed
      then show ?thesis by (simp add: restrict_row_def conj_commute case_prod_unfold)
    qed
    ultimately show ?thesis by (simp add: joined_row [OF join x y] restrict_row_def)
  qed
  have "filter (\<lambda>n. n \<in> A) (out_names l) = filter (\<lambda>n. n \<in> K) (out_names l)"
    using on(3) by (auto simp: K_def intro!: filter_cong)
  moreover have "filter (\<lambda>n. n \<notin> set on) (filter (\<lambda>n. n \<in> B) (out_names r))
      = filter (\<lambda>n. n \<in> K) (filter (\<lambda>n. n \<notin> set on) (out_names r))"
    using on(3) by (auto simp: K_def intro!: filter_cong)
  ultimately have "out_names (Join l' r' on how b) = filter (\<lambda>n. n \<in> K) (out_names (Join l r on how b))"
    using A(2) B(2) by (simp add: prunes_to_def)
  moreover have "exact_keys on (meaning l') (meaning r')"
  proof -
    have "exact_keys on (meaning l) (meaning r)" using join by simp
    then have "exact_keys on (map (restrict_row A) (meaning l)) (map (restrict_row B) (meaning r))"
      by (simp add: exact_keys_def keys)
    with A(2) B(2) show ?thesis by (simp add: prunes_to_def)
  qed
  then have "tidy (Join l' r' on how b)"
    using join A B by (simp add: prunes_to_def) blast
  moreover have "meaning (Join l' r' on how b) = map (restrict_row K) (meaning (Join l r on how b))"
    using A(2) B(2)
      nested_loop_map [where f = "restrict_row A" and g = "restrict_row B" and h = "restrict_row K"
        and lk = ?k and rk = ?k and on = on, OF keys merge]
    by (simp add: prunes_to_def)
  moreover have "N \<inter> set (out_names (Join l r on how b)) \<subseteq> K"
    using A(1) B(1) unfolding K_def by auto
  moreover have "all_names (Join l' r' on how b) \<subseteq> all_names (Join l r on how b)"
    using A(2) B(2) unfolding prunes_to_def by auto
  ultimately show ?thesis unfolding pruned_def prunes_to_def by blast
qed

lemma prune_pruned: "tidy p \<Longrightarrow> prune p m = Inr q \<Longrightarrow> pruned (wanted m) p q"
proof (induction p arbitrary: m q)
  case (Scan d n s)
  with prune_scan_pruned [OF Scan.prems(1), of m] show ?case by simp
next
  case (Filter c e)
  then obtain c' where c': "prune c (also_needed m (referenced_columns e)) = Inr c'" "q = Filter c' e"
    by (auto simp: rbind_Inr_iff)
  with Filter have "pruned (wanted m \<union> referenced_columns e) c c'" by fastforce
  then obtain K where K: "(wanted m \<union> referenced_columns e) \<inter> set (out_names c) \<subseteq> K" "prunes_to K c c'"
    by (auto simp: pruned_def)
  then have e: "referenced_columns e \<subseteq> K" using Filter.prems(1) by auto
  then have "passes e (restrict_row K r) = passes e r" for r by (simp add: passes_def tev_restrict)
  then have "prunes_to K (Filter c e) q"
    using K(2) e Filter.prems(1) by (auto simp: c'(2) prunes_to_def filter_map comp_def)
  with K(1) show ?case by (auto simp: pruned_def)
next
  case (Project c es)
  then obtain c' where c': "prune c (Some (columns_of es)) = Inr c'" "q = Project c' es"
    by (auto simp: rbind_Inr_iff)
  with Project have "pruned (columns_of es) c c'" by fastforce
  then obtain K where K: "columns_of es \<inter> set (out_names c) \<subseteq> K" "prunes_to K c c'"
    by (auto simp: pruned_def)
  then have es: "columns_of es \<subseteq> K" using Project.prems(1) by auto
  then have "preserves (Project c es) q"
    using K(2) Project.prems(1)
    by (auto simp: c'(2) prunes_to_def preserves_def project_to_restrict list_all_iff intro: tidy_column_subset)
  with Project.prems(1) show ?case by (rule preserves_pruned [rotated])
next
  case (Aggregate c gs as)
  then obtain c' where c': "prune c (Some (columns_of gs \<union> columns_of as)) = Inr c'" "q = Aggregate c' gs as"
    by (auto simp: rbind_Inr_iff)
  with Aggregate have "pruned (columns_of gs \<union> columns_of as) c c'" by fastforce
  then obtain K where K: "(columns_of gs \<union> columns_of as) \<inter> set (out_names c) \<subseteq> K" "prunes_to K c c'"
    by (auto simp: pruned_def)
  then have "columns_of gs \<union> columns_of as \<subseteq> K" using Aggregate.prems(1) by auto
  from aggregate_restrict [OF this] this have "preserves (Aggregate c gs as) q"
    using K(2) Aggregate.prems(1) by (auto simp: c'(2) prunes_to_def preserves_def)
  with Aggregate.prems(1) show ?case by (rule preserves_pruned [rotated])
next
  case (Join l r on how b)
  obtain ls rs where s: "lschema l = Inr ls" "field_names ls = out_names l"
      "lschema r = Inr rs" "field_names rs = out_names r"
    using Join.prems(1) tidy_schema [of l] tidy_schema [of r] by auto
  with Join.prems(2) obtain l' r' where
    q: "prune l (Some (side_needed m (set (out_names l)) on)) = Inr l'"
       "prune r (Some (side_needed m (set (out_names r)) on)) = Inr r'" "q = Join l' r' on how b"
    by (auto simp: rbind_Inr_iff)
  have "set on \<subseteq> set (out_names l)" "set on \<subseteq> set (out_names r)" "tidy l" "tidy r"
    using Join.prems(1) by auto
  with Join.IH(1) [OF _ q(1)] Join.IH(2) [OF _ q(2)] show ?case
    unfolding q(3) by (intro join_pruned [OF Join.prems(1)]) (simp_all add: side_needed_wanted)
next
  case (Sort c es asc)
  then obtain c' where c': "prune c (also_needed m (columns_of es)) = Inr c'" "q = Sort c' es asc"
    by (auto simp: rbind_Inr_iff mk_sort_Inr_iff)
  with Sort have "pruned (wanted m \<union> columns_of es) c c'" by fastforce
  then obtain K where K: "(wanted m \<union> columns_of es) \<inter> set (out_names c) \<subseteq> K" "prunes_to K c c'"
    by (auto simp: pruned_def)
  then have es: "columns_of es \<subseteq> K" using Sort.prems(1) by auto
  have "value_at e (restrict_row K r) = value_at e r" if "e \<in> set es" for e r
    using that restrict_agree [of "referenced_columns e" K r] columns_of_mono [OF es]
    by (simp add: value_at_def eval_agree)
  then have "row_key (zip es asc) (restrict_row K r) = row_key (zip es asc) r" for r
    by (auto simp: row_key_def dest: set_zip_leftD)
  then have "row_key (zip es asc) \<circ> restrict_row K = row_key (zip es asc)" by auto
  with sort_key_map [of "restrict_row K" "row_key (zip es asc)" "meaning c"]
  have "prunes_to K (Sort c es asc) q"
    using K(2) es Sort.prems(1) by (auto simp: c'(2) prunes_to_def)
  with K(1) show ?case by (auto simp: pruned_def)
qed

interpretation projection_pruning: meaning_preserving projection_pruning
proof
  fix p q assume "tidy p" "projection_pruning p = Inr q"
  then have "pruned UNIV p q" using prune_pruned [of p None q] by (simp add: projection_pruning_def)
  then show "preserves p q" using \<open>tidy p\<close> by (rule pruned_UNIV)
qed

section \<open>Redundant projections\<close>

lemma identity_projection:
  assumes "map output_name es = map fst r" "list_all is_column es" "distinct (map fst r)"
  shows "project_to es r = r"
proof -
  have "es = map Column (map output_name es)"
    using assms(2) by (intro nth_equalityI) (auto simp: list_all_length elim!: is_column.elims)
  then have es: "es = map Column (map fst r)" by (simp only: assms(1))
  have "(n, v) \<in> set r \<Longrightarrow> tev (Column n) r = v" for n v
    using assms(3) by (simp add: row_get_def)
  then have "map (\<lambda>(n, v). (n, tev (Column n) r)) r = r" by (intro map_idI) auto
  then show ?thesis by (simp add: es project_to_def comp_def case_prod_unfold)
qed

lemma fused_agree:
  assumes "tidy (Project (Project c es') es)" "list_all is_column es'" "r \<in> set (meaning c)" "e \<in> set es"
  shows "agree_on (referenced_columns e) (project_to es' r) r"
proof (rule project_agree [where A = "referenced_columns e"])
  have "columns_of es \<subseteq> set (map output_name es')" using assms(1) by simp
  then show names: "referenced_columns e \<subseteq> set (map output_name es')" using assms(4) by (rule columns_of_mono)
  have "set (map output_name es') = columns_of es'"
    using assms(2) by (force simp: columns_of_def list_all_iff elim!: is_column.elims)
  also have "columns_of es' \<subseteq> fst ` set r" using assms(1,3) row_names [of c r] by simp
  finally show "referenced_columns e \<subseteq> fst ` set r" using names by blast
  show "list_all (tidy_column (referenced_columns e)) es'"
    using assms(2) by (auto simp: list_all_iff tidy_column_def)
qed (use assms(1) in simp_all)

lemma fuse_meaning:
  assumes "tidy (Project (Project c es') es)" "list_all is_column es'" "r \<in> set (meaning c)"
  shows "project_to es (project_to es' r) = project_to es r"
  using fused_agree [OF assms] by (auto simp: project_to_def intro!: tev_agree)

lemma fuse_preserves:
  assumes "tidy (Project c es)"
  shows "preserves (Project c es) (fuse_projection c es)"
proof (cases "\<exists>c0 es'. c = Project c0 es' \<and> list_all is_column es'")
  case True
  then obtain c0 es' where c: "c = Project c0 es'" "list_all is_column es'" by blast
  have names: "set (map output_name es') = columns_of es'"
    using c(2) by (force simp: columns_of_def list_all_iff elim!: is_column.elims)
  have "columns_of es \<subseteq> set (out_names c0)" using assms names by (auto simp: c(1))
  then have "tidy (Project c0 es)"
    using assms by (auto simp: c(1) list_all_iff intro: tidy_column_subset)
  moreover have "map (project_to es) (map (project_to es') (meaning c0)) = map (project_to es) (meaning c0)"
    using fuse_meaning [OF assms [unfolded c(1)] c(2)] by simp
  ultimately show ?thesis by (auto simp: c preserves_def fuse_projection_def)
next
  case False
  then have "fuse_projection c es = Project c es" by (cases c) (auto simp: fuse_projection_def)
  with assms show ?thesis by (simp add: preserves_refl)
qed

lemma eliminate_preserves: "tidy p \<Longrightarrow> eliminate p = Inr q \<Longrightarrow> preserves p q"
proof (induction p arbitrary: q)
  case (Project c es)
  then obtain c' where c': "eliminate c = Inr c'" by (auto simp: rbind_Inr_iff)
  have "preserves c c'" using Project.prems(1) by (intro Project.IH [OF _ c']) simp
  with Project.prems(1) have pr: "preserves (Project c es) (Project c' es)" by (rule preserves_Project)
  then have tidy: "tidy (Project c' es)" unfolding preserves_def by (rule conjunct1)
  then obtain s where s: "lschema c' = Inr s" "field_names s = out_names c'"
    using tidy_schema [of c'] by auto
  show ?case
  proof (cases "list_all is_column es \<and> map output_name es = field_names s")
    case True
    then have q: "q = c'" using Project.prems(2) c' s by simp
    have "project_to es r = r" if "r \<in> set (meaning c')" for r
    proof (rule identity_projection)
      have "map fst r = out_names c'" using tidy_columns that tidy by simp
      then show "map output_name es = map fst r" "distinct (map fst r)"
        using True s(2) tidy by (simp_all add: tidy_distinct)
    qed (use True in simp)
    then have "map (project_to es) (meaning c') = meaning c'" by (intro map_idI)
    then have "preserves (Project c' es) q" using True s(2) tidy by (auto simp: q preserves_def)
    with pr show ?thesis by (rule preserves_trans)
  next
    case False
    then have "q = fuse_projection c' es" using Project.prems(2) c' s by (auto split: if_splits)
    with preserves_trans [OF pr fuse_preserves [OF tidy]] show ?thesis by simp
  qed
next
  case (Filter c e)
  then obtain c' where c': "eliminate c = Inr c'" "q = Filter c' e" by (auto simp: rbind_Inr_iff)
  have "preserves c c'" using Filter.prems(1) by (intro Filter.IH [OF _ c'(1)]) simp
  with Filter.prems(1) show ?case unfolding c'(2) by (rule preserves_Filter)
next
  case (Aggregate c gs as)
  then obtain c' where c': "eliminate c = Inr c'" "q = Aggregate c' gs as" by (auto simp: rbind_Inr_iff)
  have "preserves c c'" using Aggregate.prems(1) by (intro Aggregate.IH [OF _ c'(1)]) simp
  with Aggregate.prems(1) show ?case unfolding c'(2) by (rule preserves_Aggregate)
next
  case (Join l r on how b)
  then obtain l' r' where "eliminate l = Inr l'" "eliminate r = Inr r'" "q = Join l' r' on how b"
    by (auto simp: rbind_Inr_iff)
  with Join show ?case by (simp add: preserves_Join)
next
  case (Sort c es asc)
  then obtain c' where "eliminate c = Inr c'" "q = Sort c' es asc" by (auto simp: rbind_Inr_iff mk_sort_Inr_iff)
  with Sort show ?case by (simp add: preserves_Sort)
qed (simp add: preserves_refl)

interpretation redundant_projection: meaning_preserving eliminate
  by unfold_locales (rule eliminate_preserves)

end
