(* ===== verification/OptimizerCorrect.thy ===== *)
theory OptimizerCorrect
  imports ProjectionRules
begin

text \<open>
  The optimizer preserves the meaning of tidy plans, and raises only where folding does: the rules
  are put together from their contracts.  Sample runs show it at work, and that the conditions of
  \<open>tidy\<close> are needed.
\<close>

section \<open>The optimizer\<close>

context meaning_preserving
begin

lemma rule_then:
  assumes "preserves p q" "rule q = Inr q'"
  shows "preserves p q'"
proof -
  have "tidy q" using assms(1) by (simp only: preserves_def)
  from preserves_trans [OF assms(1) rule_preserves [OF this assms(2)]] show ?thesis .
qed

end

lemmas rules_then = constant_folding.rule_then filter_simplification.rule_then predicate_pushdown.rule_then
  projection_pruning.rule_then redundant_projection.rule_then

lemma default_rules_then:
  assumes "rule \<in> set (default_rules config)" "preserves p q" "rule q = Inr q'"
  shows "preserves p q'"
  using assms(1) rules_then [OF assms(2)] assms(3) by (auto simp: default_rules_def split: if_splits)

lemma optimize_preserves:
  assumes "preserves p q" "optimize (default_rules config) n q = Inr q'"
  shows "preserves p q'"
  using assms
proof (induction n arbitrary: q)
  case (Suc n)
  from Suc.prems(2) obtain r where r: "rfold (\<lambda>q rule. rule q) q (default_rules config) = Inr r"
    "(if explain_string r = explain_string q then Inr r else optimize (default_rules config) n r) = Inr q'"
    by (auto simp: rbind_Inr_iff)
  have "preserves p r" by (rule rfold_invariant [where P = "preserves p", OF r(1) Suc.prems(1)]) (rule default_rules_then)
  with r(2) Suc.IH show ?case by (auto split: if_splits)
qed simp

text \<open>Only folding raises: it evaluates literals that the query might never have reached.\<close>

lemma map_expressions_total: "tidy p \<Longrightarrow> \<exists>q. map_expressions (\<lambda>e. Inr (f e)) p = Inr q"
proof -
  have "rmap (\<lambda>e. Inr (f e)) es = Inr (map f es)" for es :: "expr list"
    by (simp add: rmap_Inr_iff list_all2_conv_all_nth)
  then show "tidy p \<Longrightarrow> \<exists>q. map_expressions (\<lambda>e. Inr (f e)) p = Inr q"
    by (induction p) (auto simp: mk_sort_def)
qed

lemma push_filter_total: "tidy (Filter c e) \<Longrightarrow> \<exists>q. push_filter c e = Inr q"
proof (cases c)
  case (Project c0 es)
  assume "tidy (Filter c e)"
  then obtain s where "lschema c0 = Inr s" using tidy_schema [of c0] by (auto simp: Project)
  then show ?thesis by (simp add: Project push_filter_def)
next
  case (Join l r on how b)
  assume "tidy (Filter c e)"
  then obtain s t where "lschema l = Inr s" "lschema r = Inr t"
    using tidy_schema [of l] tidy_schema [of r] by (auto simp: Join)
  then show ?thesis by (simp add: Join push_filter_def)
qed (simp_all add: push_filter_def)

lemma pushdown_total: "tidy p \<Longrightarrow> \<exists>q. pushdown p = Inr q"
proof (induction p)
  case (Filter c e)
  then obtain c' where c': "pushdown c = Inr c'" by auto
  have "preserves c c'" using Filter.prems by (intro pushdown_preserves [OF _ c']) simp
  with Filter.prems have "preserves (Filter c e) (Filter c' e)" by (rule preserves_Filter)
  then have "tidy (Filter c' e)" unfolding preserves_def by (rule conjunct1)
  from push_filter_total [OF this] c' show ?case by auto
qed (auto simp: mk_sort_def)

lemma prune_total: "tidy p \<Longrightarrow> \<exists>q. prune p m = Inr q"
proof (induction p arbitrary: m)
  case (Join l r on how b)
  then obtain s t where "lschema l = Inr s" "lschema r = Inr t"
    using tidy_schema [of l] tidy_schema [of r] by auto
  moreover obtain l' where "prune l (Some (side_needed m (set (field_names s)) on)) = Inr l'"
    using Join by (metis tidy_simps(4))
  moreover obtain r' where "prune r (Some (side_needed m (set (field_names t)) on)) = Inr r'"
    using Join by (metis tidy_simps(4))
  ultimately show ?case by simp
next
  case (Project c es)
  then obtain c' where "prune c (Some (columns_of es)) = Inr c'" by (metis tidy_simps(2))
  then show ?case by simp
next
  case (Aggregate c gs as)
  then obtain c' where "prune c (Some (columns_of gs \<union> columns_of as)) = Inr c'" by (metis tidy_simps(3))
  then show ?case by simp
next
  case (Filter c e)
  then obtain c' where "prune c (also_needed m (referenced_columns e)) = Inr c'" by (metis tidy_simps(1))
  then show ?case by simp
next
  case (Sort c es asc)
  then obtain c' where "prune c (also_needed m (columns_of es)) = Inr c'" by (metis tidy_simps(5))
  with Sort show ?case by (simp add: mk_sort_def)
qed simp

lemma eliminate_total: "tidy p \<Longrightarrow> \<exists>q. eliminate p = Inr q"
proof (induction p)
  case (Project c es)
  then obtain c' where c': "eliminate c = Inr c'" by auto
  have "preserves c c'" using Project.prems by (intro eliminate_preserves [OF _ c']) simp
  then obtain s where "lschema c' = Inr s" using tidy_schema [of c'] by (auto simp: preserves_def)
  with c' show ?case by simp
qed (auto simp: mk_sort_def)

lemma other_rules_total:
  assumes "rule \<in> set (tl (default_rules config))" "tidy q"
  shows "\<exists>q'. rule q = Inr q'"
  using assms(1) map_expressions_total [OF assms(2), of simplify_bool] pushdown_total [OF assms(2)]
    prune_total [OF assms(2), of None] eliminate_total [OF assms(2)]
  by (auto simp: default_rules_def filter_simplification_def projection_pruning_def split: if_splits)

lemma rules_total:
  "\<lbrakk>set rules \<subseteq> set (tl (default_rules config)); tidy q\<rbrakk> \<Longrightarrow> \<exists>q'. rfold (\<lambda>q rule. rule q) q rules = Inr q'"
proof (induction rules arbitrary: q)
  case (Cons rule rules)
  then obtain q' where q': "rule q = Inr q'" using other_rules_total [of rule config q] by auto
  have "rule \<in> set (default_rules config)" using Cons.prems(1) by (auto simp: default_rules_def)
  then have "preserves q q'" using preserves_refl [OF Cons.prems(2)] q' by (rule default_rules_then)
  then have "tidy q'" by (simp only: preserves_def)
  with Cons q' show ?case by simp
qed simp

lemma round_errors:
  assumes "rfold (\<lambda>q rule. rule q) q (default_rules config) = Inl err" "tidy q"
  shows "constant_folding q = Inl err"
proof (rule ccontr)
  have rules: "default_rules config = constant_folding # tl (default_rules config)" by (simp add: default_rules_def)
  assume "constant_folding q \<noteq> Inl err"
  then obtain q' where q': "constant_folding q = Inr q'"
    using assms(1) rules by (cases "constant_folding q") (auto simp: default_rules_def)
  have "tidy q'" using constant_folding.rule_preserves [OF assms(2) q'] by (simp only: preserves_def)
  from rules_total [OF subset_refl this, of config] q' rules assms(1) show False
    by (metis rfold.simps(2) rbind.simps(2) sum.distinct(1))
qed

text \<open>The plan at the start of a round.\<close>

fun rounds :: "(lplan \<Rightarrow> lplan res) list \<Rightarrow> nat \<Rightarrow> lplan \<Rightarrow> lplan res" where
  "rounds rules 0 p = Inr p"
| "rounds rules (Suc k) p = rbind (rounds rules k p) (\<lambda>q. rfold (\<lambda>q rule. rule q) q rules)"

lemma rounds_front:
  "rfold (\<lambda>q rule. rule q) p rules = Inr r \<Longrightarrow> rounds rules (Suc k) p = rounds rules k r"
  by (induction k) auto

lemma rounds_preserve: "tidy p \<Longrightarrow> rounds (default_rules config) k p = Inr q \<Longrightarrow> preserves p q"
proof (induction k arbitrary: q)
  case (Suc k)
  then obtain r where r: "rounds (default_rules config) k p = Inr r"
    "rfold (\<lambda>q rule. rule q) r (default_rules config) = Inr q" by (auto simp: rbind_Inr_iff)
  show ?case
    by (rule rfold_invariant [where P = "preserves p", OF r(2) Suc.IH [OF Suc.prems(1) r(1)]]) (rule default_rules_then)
qed (simp add: preserves_refl)

lemma optimize_round_error:
  "optimize rules n p = Inl err \<Longrightarrow>
     \<exists>k < n. \<exists>q. rounds rules k p = Inr q \<and> rfold (\<lambda>q rule. rule q) q rules = Inl err"
proof (induction n arbitrary: p)
  case (Suc n)
  show ?case
  proof (cases "rfold (\<lambda>q rule. rule q) p rules")
    case (Inl e)
    with Suc.prems have "rounds rules 0 p = Inr p \<and> rfold (\<lambda>q rule. rule q) p rules = Inl err" by simp
    then show ?thesis by blast
  next
    case (Inr r)
    with Suc.prems have "optimize rules n r = Inl err" by (simp split: if_splits)
    from Suc.IH [OF this] obtain k q where "k < n" "rounds rules k r = Inr q"
      "rfold (\<lambda>q rule. rule q) q rules = Inl err" by blast
    then show ?thesis using rounds_front [OF Inr, of k] by (intro exI [of _ "Suc k"]) auto
  qed
qed simp

text \<open>The expressions of a plan; a rewrite of all of them raises what it raises on one.\<close>

fun plan_expressions :: "lplan \<Rightarrow> expr list" where
  "plan_expressions (Scan _ _ _) = []"
| "plan_expressions (Filter c e) = e # plan_expressions c"
| "plan_expressions (Project c es) = es @ plan_expressions c"
| "plan_expressions (Aggregate c gs as) = gs @ as @ plan_expressions c"
| "plan_expressions (Join l r _ _ _) = plan_expressions l @ plan_expressions r"
| "plan_expressions (Sort c es _) = es @ plan_expressions c"

lemma rmap_error: "rmap f xs = Inl err \<Longrightarrow> \<exists>x \<in> set xs. f x = Inl err"
  by (induction xs) (auto simp: rbind_Inl_iff)

lemma map_expressions_error:
  "tidy p \<Longrightarrow> map_expressions fn p = Inl err \<Longrightarrow> \<exists>e \<in> set (plan_expressions p). fn e = Inl err"
proof (induction p)
  case (Sort c es asc)
  have "length es' = length asc" if "rmap fn es = Inr es'" for es'
    using rmap_length [OF that] Sort.prems(1) by simp
  with Sort show ?case by (auto simp: rbind_Inl_iff mk_sort_def dest!: rmap_error)
qed (auto simp: rbind_Inl_iff dest!: rmap_error)

section \<open>A sample query\<close>

text \<open>Bool-valued forms that evaluate.\<close>

lemma tidy_column_code [code]:
  "tidy_column below e = (case e of Alias f n \<Rightarrow> no_bool f \<and> n \<notin> below | _ \<Rightarrow> is_column e)"
  by (cases e) (auto simp: tidy_column_def)

lemma tidy_aggregate_code [code]:
  "tidy_aggregate a = (is_aggregate a \<or> (case a of Alias f _ \<Rightarrow> is_aggregate f | _ \<Rightarrow> False))"
  by (cases a) (auto simp: tidy_aggregate_def)

definition accounts :: lplan where
  "accounts =
     (let s = [\<lparr>fname = ''k'', data_type = IntType, nullable = False\<rparr>,
               \<lparr>fname = ''v'', data_type = IntType, nullable = True\<rparr>,
               \<lparr>fname = ''c'', data_type = StringType, nullable = True\<rparr>];
          r = (\<lambda>k v c. [(''k'', VInt k), (''v'', v), (''c'', VStr c)])
      in Scan \<lparr>ds_schema = s,
           ds_partitions = [bucket_partition s 0 [r 1 (VInt 10) ''x'', r 3 (VInt 5) ''y''],
                            bucket_partition s 1 [r 4 (VInt 20) ''x'']]\<rparr> ''accounts'' None)"

definition account_report :: lplan where
  "account_report = Project (Filter (Project accounts [Column ''k'', Alias (Binary Add (Column ''v'') (Column ''k'')) ''w''])
      (Binary And (Binary GreaterThan (Column ''k'') (Binary Add (Literal (VInt 1)) (Literal (VInt 1))))
        (Literal (VBool True)))) [Column ''w'']"

definition all_rules :: "(lplan \<Rightarrow> lplan res) list" where
  "all_rules = default_rules \<lparr>predicate_pushdown = True, projection_pruning_on = True, broadcast_join_threshold_mb = 50\<rparr>"

lemma report_tidy: "tidy account_report"
  unfolding tidy_def by code_simp

text \<open>
  The report is folded, simplified, its filter pushed below the projection, its scan pruned; the two
  projections at the top stay, since the lower one computes a column.
\<close>

lemma report_optimized:
  "map_sum id explain_string (optimize all_rules DEFAULT_MAX_ITERATIONS account_report) =
     Inr (join_str [CHR 0x0A]
       [''Project[w]'', ''  Project[k, w]'',
        ''    Filter[GreaterThan(Column('' @ [CHR 0x27] @ ''k'' @ [CHR 0x27] @ ''), Literal(2))]'',
        ''      Project[k, v]'', ''        Scan[accounts] (k, v, c)''])"
  by code_simp

lemma report_rows: "meaning account_report = [[(''w'', VInt 8)], [(''w'', VInt 24)]]"
  by code_simp

section \<open>Where the conditions are needed\<close>

text \<open>A filter on a column that a projection renamed is pushed below it, where the name is another column's.\<close>

lemma pushdown_confuses_renamed_column:
  "let p = Filter (Project accounts [Alias (Column ''k'') ''v'']) (Binary GreaterThan (Column ''v'') (Literal (VInt 5)))
   in wf_plan p \<and> meaning p = []
      \<and> map_sum id meaning (optimize all_rules DEFAULT_MAX_ITERATIONS p) = Inr [[(''v'', VInt 1)], [(''v'', VInt 4)]]"
  by code_simp

text \<open>The same where no filter is written above a renaming to an existing name: fusing projections makes one.\<close>

lemma fusion_exposes_renamed_column:
  "let p = Filter (Project (Project accounts [Column ''k'']) [Alias (Column ''k'') ''v''])
             (Binary GreaterThan (Column ''v'') (Literal (VInt 5)))
   in wf_plan p \<and> meaning p = []
      \<and> map_sum id meaning (optimize all_rules DEFAULT_MAX_ITERATIONS p) = Inr [[(''v'', VInt 1)], [(''v'', VInt 4)]]"
  by code_simp

text \<open>Simplification gives a selected condition the value of its operand.\<close>

lemma simplification_changes_value:
  "let p = Project accounts [Alias (Binary And (Column ''k'') (Literal (VBool True))) ''b'']
   in meaning p = [[(''b'', VBool True)], [(''b'', VBool True)], [(''b'', VBool True)]]
      \<and> map_sum id meaning (optimize all_rules DEFAULT_MAX_ITERATIONS p)
        = Inr [[(''b'', VInt 1)], [(''b'', VInt 3)], [(''b'', VInt 4)]]"
  by code_simp

text \<open>Folding renames a column that has no alias, and raises where the query has no row to raise on.\<close>

lemma folding_renames_column:
  "let p = Project accounts [Binary Add (Literal (VInt 1)) (Literal (VInt 1))]
   in out_names p = [''Add(Literal(1), Literal(1))'']
      \<and> map_sum id out_names (optimize all_rules DEFAULT_MAX_ITERATIONS p) = Inr [''Literal(2)'']"
  by code_simp

lemma folding_raises:
  "let p = Project (Filter accounts (Literal (VBool False))) [Alias (Binary Divide (Literal (VInt 1)) (Literal (VInt 0))) ''x'']
   in tidy p \<and> meaning p = []
      \<and> map_sum id out_names (optimize all_rules DEFAULT_MAX_ITERATIONS p) = Inl ZeroDivisionError"
  unfolding tidy_def by code_simp

end
