(* ===== verification/Statistics.thy ===== *)
theory Statistics
  imports CoreData
begin

text \<open>
  Table and column statistics (\<^verbatim>\<open>optimizer/statistics.py\<close>), which the planner takes the range of a
  sort column from.  The set of distinct values is a list without (Python-) equal elements.
\<close>

record column_statistics =
  null_count :: nat
  distinct_count :: nat
  min_value :: pval
  max_value :: pval

record table_statistics =
  ts_row_count :: nat
  ts_estimated_size_bytes :: nat
  ts_columns :: "(string \<times> column_statistics) list"

text \<open>The entries of the four dictionaries for one column.\<close>

record column_acc =
  ca_nulls :: nat
  ca_distinct :: "pval list"
  ca_min :: pval
  ca_max :: pval

definition column_start :: column_acc where
  "column_start = \<lparr>ca_nulls = 0, ca_distinct = [], ca_min = VNone, ca_max = VNone\<rparr>"

definition set_add :: "pval list \<Rightarrow> pval \<Rightarrow> pval list" where
  "set_add vs v = (if list_ex (\<lambda>u. py_eq u v) vs then vs else vs @ [v])"

definition see_value :: "column_acc \<Rightarrow> pval \<Rightarrow> column_acc res" where
  "see_value acc v =
     (if v = VNone then Inr (acc\<lparr>ca_nulls := ca_nulls acc + 1\<rparr>)
      else
        rbind (if ca_min acc = VNone then Inr True else py_lt v (ca_min acc)) (\<lambda>lower.
        rbind (if ca_max acc = VNone then Inr True else py_cmp CGt v (ca_max acc)) (\<lambda>higher.
          Inr (acc\<lparr>ca_distinct := set_add (ca_distinct acc) v,
                   ca_min := (if lower then v else ca_min acc),
                   ca_max := (if higher then v else ca_max acc)\<rparr>))))"

definition record_get :: "row \<Rightarrow> string \<Rightarrow> pval" where
  "record_get r n = (case map_of r n of Some v \<Rightarrow> v | None \<Rightarrow> VNone)"

definition column_of :: "(string \<times> column_acc) list \<Rightarrow> string \<Rightarrow> column_acc" where
  "column_of accs n = (case map_of accs n of Some a \<Rightarrow> a | None \<Rightarrow> column_start)"

definition see_record ::
    "string list \<Rightarrow> (pval \<Rightarrow> nat) \<Rightarrow> nat \<times> nat \<times> (string \<times> column_acc) list \<Rightarrow> row
     \<Rightarrow> (nat \<times> nat \<times> (string \<times> column_acc) list) res" where
  "see_record targets sz s r =
     (case s of (rows, bytes, accs) \<Rightarrow>
        rbind (rfold (\<lambda>accs n. rbind (see_value (column_of accs n) (record_get r n))
                                 (\<lambda>a. Inr (AList.update n a accs))) accs targets) (\<lambda>accs'.
          Inr (rows + 1, bytes + sum_list (map sz (row_values r)), accs')))"

definition column_result :: "column_acc \<Rightarrow> column_statistics" where
  "column_result a = \<lparr>null_count = ca_nulls a, distinct_count = length (ca_distinct a),
     min_value = ca_min a, max_value = ca_max a\<rparr>"

definition compute_statistics ::
    "(pval \<Rightarrow> nat) \<Rightarrow> dataset \<Rightarrow> string list option \<Rightarrow> table_statistics res" where
  "compute_statistics sz d columns =
     (let targets = (case columns of Some cs \<Rightarrow> cs | None \<Rightarrow> field_names (ds_schema d));
          start = map (\<lambda>n. (n, column_start)) (uniq targets)
      in rbind (gen_fold (see_record targets sz) (0, 0, start) (iter_records d)) (\<lambda>(rows, bytes, accs).
           Inr \<lparr>ts_row_count = rows, ts_estimated_size_bytes = bytes,
                ts_columns = map (\<lambda>n. (n, column_result (column_of accs n))) (uniq targets)\<rparr>))"

end
