(* ===== verification/Planner.thy ===== *)
theory Planner
  imports Statistics Operators
begin

text \<open>
  The physical planner (\<^verbatim>\<open>physical/planner.py\<close>): the pass that re-reads scans with column and filter
  hints, and the translation of logical nodes into physical ones, with the shuffles that aggregates,
  joins and sorts need.  Python's identity tests (\<^verbatim>\<open>new_child is plan.child\<close>) only avoid rebuilding a
  node that would be equal.
\<close>

section \<open>Re-reading scans\<close>

definition reread_scan :: "lplan \<Rightarrow> string set option \<Rightarrow> expr option \<Rightarrow> lplan res" where
  "reread_scan p columns filter_expr =
     (case p of
        Scan d name (Some src) \<Rightarrow>
          let columns' = (case (columns, filter_expr) of
                            (Some C, Some f) \<Rightarrow> Some (C \<union> referenced_columns f) | _ \<Rightarrow> columns);
              column_list = map_option sorted_list_of_set columns'
          in rbind (src column_list filter_expr) (\<lambda>d'. Inr (Scan d' name (Some src)))
      | _ \<Rightarrow> Inl AssertionError)"

definition add_condition :: "expr option \<Rightarrow> expr \<Rightarrow> expr" where
  "add_condition filter_expr e = (case filter_expr of None \<Rightarrow> e | Some f \<Rightarrow> Binary And f e)"

fun walk_for_pushdown :: "lplan \<Rightarrow> string set option \<Rightarrow> expr option \<Rightarrow> lplan res" where
  "walk_for_pushdown (Scan d name src) columns filter_expr =
     (if src = None \<or> columns = None \<and> filter_expr = None then Inr (Scan d name src)
      else reread_scan (Scan d name src) columns filter_expr)"
| "walk_for_pushdown (Filter c e) columns filter_expr =
     rbind (walk_for_pushdown c (map_option (\<lambda>C. C \<union> referenced_columns e) columns)
              (Some (add_condition filter_expr e))) (\<lambda>c'. Inr (Filter c' e))"
| "walk_for_pushdown (Project c es) columns filter_expr =
     rbind (walk_for_pushdown c (Some (columns_of es)) None) (\<lambda>c'. Inr (Project c' es))"
| "walk_for_pushdown (Aggregate c gs as) columns filter_expr =
     rbind (walk_for_pushdown c None None) (\<lambda>c'. Inr (Aggregate c' gs as))"
| "walk_for_pushdown (Join l r on how b) columns filter_expr =
     rbind (walk_for_pushdown l None None) (\<lambda>l'. rbind (walk_for_pushdown r None None) (\<lambda>r'.
       Inr (Join l' r' on how b)))"
| "walk_for_pushdown (Sort c es asc) columns filter_expr =
     rbind (walk_for_pushdown c None None) (\<lambda>c'. mk_sort c' es asc)"

definition pushdown_scan_reads :: "lplan \<Rightarrow> lplan res" where
  "pushdown_scan_reads p = walk_for_pushdown p None None"

section \<open>Translation\<close>

definition column_type :: "expr \<Rightarrow> schema \<Rightarrow> dtype res" where
  "column_type e s =
     (case e of
        Column n \<Rightarrow> if has_field s n then rbind (get_field s n) (\<lambda>f. Inr (data_type f)) else Inr StringType
      | _ \<Rightarrow> Inr StringType)"

definition partial_aggregate_schema :: "expr list \<Rightarrow> expr list \<Rightarrow> schema \<Rightarrow> schema res" where
  "partial_aggregate_schema gs as child_schema =
     rbind (rmap (\<lambda>g. rbind (column_type g child_schema) (\<lambda>t.
              Inr \<lparr>fname = output_name g, data_type = t, nullable = True\<rparr>)) gs) (\<lambda>group_fields.
       mk_schema (group_fields
         @ map (\<lambda>i. \<lparr>fname = agg_state_name i, data_type = StringType, nullable = True\<rparr>) [0..<length as]))"

fun is_oracle_executable :: "pplan \<Rightarrow> bool" where
  "is_oracle_executable (ScanExec _ _) = True"
| "is_oracle_executable (FilterExec c _) = is_oracle_executable c"
| "is_oracle_executable (ProjectExec c _ _) = is_oracle_executable c"
| "is_oracle_executable _ = False"

text \<open>\<^verbatim>\<open>sorted([a, b])\<close>\<close>

definition sorted_pair :: "pval \<Rightarrow> pval \<Rightarrow> (pval \<times> pval) res" where
  "sorted_pair a b = rbind (py_lt b a) (\<lambda>less. Inr (if less then (b, a) else (a, b)))"

definition even_boundaries :: "pval \<Rightarrow> pval \<Rightarrow> nat \<Rightarrow> pval list res" where
  "even_boundaries lo hi n =
     rbind (py_sub hi lo) (\<lambda>width. rbind (py_truediv width (VInt (int n))) (\<lambda>step.
       rmap (\<lambda>i. rbind (py_mul step (VInt (int i))) (\<lambda>d. py_add lo d)) [1..<n]))"

definition signed_boundaries :: "pval \<Rightarrow> pval \<Rightarrow> bool \<Rightarrow> nat \<Rightarrow> pval list res" where
  "signed_boundaries lo hi ascending n =
     (let sign = (if ascending then 1 else - 1)
      in rbind (py_mul (VInt sign) lo) (\<lambda>a. rbind (py_mul (VInt sign) hi) (\<lambda>b.
         rbind (sorted_pair a b) (\<lambda>(slo, shi).
           if py_eq slo shi then Inr (replicate (n - 1) shi) else even_boundaries slo shi n))))"

definition numeric_type :: "dtype option \<Rightarrow> bool" where
  "numeric_type t = (t = Some IntType \<or> t = Some FloatType)"

definition column_range :: "(pval \<Rightarrow> nat) \<Rightarrow> pplan \<Rightarrow> string \<Rightarrow> (pval \<times> pval) res" where
  "column_range sz child key_name =
     rbind (execute child) (\<lambda>d. rbind (compute_statistics sz d (Some [key_name])) (\<lambda>stats.
       case map_of (ts_columns stats) key_name of
         None \<Rightarrow> Inl (KeyError key_name)
       | Some c \<Rightarrow> Inr (min_value c, max_value c)))"

definition sort_range_boundaries ::
    "(pval \<Rightarrow> nat) \<Rightarrow> pplan \<Rightarrow> string \<Rightarrow> bool \<Rightarrow> schema \<Rightarrow> nat \<Rightarrow> (pval list option \<times> nat \<times> expr) res" where
  "sort_range_boundaries sz child key_name ascending child_schema n =
     rbind (if has_field child_schema key_name
            then rbind (get_field child_schema key_name) (\<lambda>f. Inr (Some (data_type f))) else Inr None) (\<lambda>key_type.
       if n \<le> 1 \<or> \<not> numeric_type key_type \<or> \<not> is_oracle_executable child
       then Inr (None, 1, Column key_name)
       else rbind (column_range sz child key_name) (\<lambda>(lo, hi).
         if lo = VNone \<or> hi = VNone then Inr (None, 1, Column key_name)
         else rbind (signed_boundaries lo hi ascending n) (\<lambda>bs.
           Inr (Some bs, n, if ascending then Column key_name
                            else Binary Multiply (Column key_name) (Literal (VInt (- 1)))))))"

definition plan_join :: "pplan \<Rightarrow> pplan \<Rightarrow> string list \<Rightarrow> bool \<Rightarrow> schema \<Rightarrow> nat \<Rightarrow> pplan" where
  "plan_join l r on broadcast s n =
     (let keys = map Column on
      in if broadcast then HashJoinExec l (ExchangeExec r 1 keys True None) keys keys on s
         else HashJoinExec (ExchangeExec l n keys False None) (ExchangeExec r n keys False None)
                keys keys on s)"

definition plan_aggregate ::
    "pplan \<Rightarrow> expr list \<Rightarrow> expr list \<Rightarrow> schema \<Rightarrow> schema \<Rightarrow> nat \<Rightarrow> int \<Rightarrow> pplan" where
  "plan_aggregate c gs as partial_schema s n threshold =
     HashAggregateExec
       (ExchangeExec (HashAggregateExec c gs as partial_schema True threshold) n gs False None)
       gs as s False threshold"

definition plan_sort ::
    "(pval \<Rightarrow> nat) \<Rightarrow> pplan \<Rightarrow> expr list \<Rightarrow> bool list \<Rightarrow> schema res \<Rightarrow> nat \<Rightarrow> int \<Rightarrow> pplan res" where
  "plan_sort sz c es asc child_schema n threshold =
     (case (es, asc) of
        (e # _, a # _) \<Rightarrow>
          (case e of
             Column key_name \<Rightarrow>
               rbind child_schema (\<lambda>s. rbind (sort_range_boundaries sz c key_name a s n) (\<lambda>(bounds, k, key).
                 Inr (SortExec (ExchangeExec (SortExec c es asc s threshold) k [key] False bounds)
                        es asc s threshold)))
           | _ \<Rightarrow> Inl AssertionError)
      | _ \<Rightarrow> Inl IndexError)"

fun translate :: "(pval \<Rightarrow> nat) \<Rightarrow> nat \<Rightarrow> int \<Rightarrow> lplan \<Rightarrow> pplan res" where
  "translate sz n threshold (Scan d name _) = Inr (ScanExec d name)"
| "translate sz n threshold (Filter c e) =
     rbind (translate sz n threshold c) (\<lambda>c'. Inr (FilterExec c' e))"
| "translate sz n threshold (Project c es) =
     rbind (translate sz n threshold c) (\<lambda>c'. rbind (lschema (Project c es)) (\<lambda>s.
       Inr (ProjectExec c' es s)))"
| "translate sz n threshold (Aggregate c gs as) =
     rbind (translate sz n threshold c) (\<lambda>c'. rbind (lschema c) (\<lambda>cs.
       rbind (partial_aggregate_schema gs as cs) (\<lambda>ps. rbind (lschema (Aggregate c gs as)) (\<lambda>s.
         Inr (plan_aggregate c' gs as ps s n threshold)))))"
| "translate sz n threshold (Join l r on how b) =
     rbind (translate sz n threshold l) (\<lambda>l'. rbind (translate sz n threshold r) (\<lambda>r'.
       rbind (lschema (Join l r on how b)) (\<lambda>s. Inr (plan_join l' r' on b s n))))"
| "translate sz n threshold (Sort c es asc) =
     rbind (translate sz n threshold c) (\<lambda>c'. plan_sort sz c' es asc (lschema c) n threshold)"

definition DEFAULT_SHUFFLE_PARTITIONS :: nat where
  "DEFAULT_SHUFFLE_PARTITIONS = 4"

definition plan_physical :: "(pval \<Rightarrow> nat) \<Rightarrow> nat \<Rightarrow> int \<Rightarrow> lplan \<Rightarrow> pplan res" where
  "plan_physical sz n threshold p =
     rbind (pushdown_scan_reads p) (translate sz n threshold)"

end
