(* ===== verification/PhysicalMeaning.thy ===== *)
theory PhysicalMeaning
  imports Planner PlanExecution PlanMeaning
begin

text \<open>
  What the physical nodes the planner builds compute, partition by partition, when nothing they
  evaluate raises: filters, projections, exchanges, joins, the two phases of an aggregation, sorts.
\<close>

section \<open>The partitions of a physical plan\<close>

text \<open>\<open>outputs env q parts\<close>: \<open>q\<close> can be run, and its partitions have the rows \<open>parts\<close>.\<close>

definition outputs :: "'b env \<Rightarrow> pplan \<Rightarrow> row list list \<Rightarrow> bool" where
  "outputs env q parts \<longleftrightarrow>
     unsplit q \<and> (\<forall>w \<in> set (writes q). write_ok env w) \<and> write_rows env q = Inr parts"

lemma write_rows_iff:
  "write_rows env q = Inr parts \<longleftrightarrow> length parts = plan_partitions q
    \<and> (\<forall>j < plan_partitions q. \<exists>p. direct env q j = Inr p \<and> records p = gen_of (parts ! j))"
  by (auto simp: write_rows_def rmap_Inr_iff list_all2_conv_all_nth rbind_Inr_iff part_to_list_def gen_list_Inr_iff)

lemma outputs_partition:
  "outputs env q parts \<Longrightarrow> j < plan_partitions q \<Longrightarrow> \<exists>p. direct env q j = Inr p \<and> records p = gen_of (parts ! j)"
  by (simp add: outputs_def write_rows_iff)

lemma outputs_length: "outputs env q parts \<Longrightarrow> length parts = plan_partitions q"
  by (simp add: outputs_def write_rows_iff)

text \<open>A node that maps every partition of its child.\<close>

lemma outputs_map:
  assumes "outputs env q parts" "unsplit q' = unsplit q" "writes q' = writes q" "plan_partitions q' = plan_partitions q"
    and "\<And>j p. j < length parts \<Longrightarrow> direct env q j = Inr p \<Longrightarrow> records p = gen_of (parts ! j) \<Longrightarrow>
      \<exists>p'. direct env q' j = Inr p' \<and> records p' = gen_of (f (parts ! j))"
  shows "outputs env q' (map f parts)"
  using assms unfolding outputs_def write_rows_iff by (metis length_map nth_map)

text \<open>Every expression has a value on every row.\<close>

definition evaluates :: "expr list \<Rightarrow> row list \<Rightarrow> bool" where
  "evaluates es rows = (\<forall>r \<in> set rows. \<forall>e \<in> set es. \<not> isl (eval e r))"

lemma evaluates_tev: "evaluates es rows \<Longrightarrow> r \<in> set rows \<Longrightarrow> e \<in> set es \<Longrightarrow> eval e r = Inr (tev e r)"
  unfolding evaluates_def by (cases "eval e r") (fastforce dest: eval_tev)+

lemma evaluates_subset: "evaluates es rows \<Longrightarrow> set rows' \<subseteq> set rows \<Longrightarrow> evaluates es rows'"
  by (auto simp: evaluates_def)

lemma evaluates_key: "evaluates es rows \<Longrightarrow> r \<in> set rows \<Longrightarrow> tuple_key es r = Inr (key_of es r)"
  unfolding tuple_key_def key_of_def by (intro rmap_Inr_fun) (auto simp: evaluates_tev)

lemma rfilter_holds: "evaluates [e] rows \<Longrightarrow> rfilter (holds e) rows = Inr (filter (passes e) rows)"
proof (induction rows)
  case (Cons r rows)
  then have "eval e r = Inr (tev e r)" "evaluates [e] rows"
    by (auto intro: evaluates_tev evaluates_subset)
  then show ?case using Cons.IH by (simp add: holds_def passes_def)
qed simp

lemma project_row_eq:
  assumes "\<forall>e \<in> set es. eval e r = Inr (tev e r)" "distinct (map output_name es)"
  shows "project_row (map output_name es) es r = Inr (project_to es r)"
proof -
  have "rmap2 (\<lambda>n e. rbind (eval e r) (\<lambda>v. Inr (n, v))) (map output_name es) es = Inr (project_to es r)"
    using assms(1) by (induction es) (auto simp: project_to_def)
  moreover have "dict_of (project_to es r) = project_to es r"
    using assms(2) by (simp add: dict_of_distinct_id project_to_def comp_def)
  ultimately show ?thesis by (simp add: project_row_def)
qed

lemma concat_subset: "j < length parts \<Longrightarrow> set (parts ! j) \<subseteq> set (concat parts)"
  by (metis UN_upper nth_mem set_concat)

lemma outputs_filter:
  assumes "outputs env q parts" "evaluates [e] (concat parts)"
  shows "outputs env (FilterExec q e) (map (filter (passes e)) parts)"
proof (rule outputs_map [OF assms(1)])
  fix j p
  assume j: "j < length parts" and p: "direct env q j = Inr p" "records p = gen_of (parts ! j)"
  have "gen_list (gen_filter (holds e) (gen_of (parts ! j))) = Inr (filter (passes e) (parts ! j))"
    using rfilter_holds [OF evaluates_subset [OF assms(2) concat_subset [OF j]]] by (simp add: gen_list_filter)
  then show "\<exists>p'. direct env (FilterExec q e) j = Inr p' \<and> records p' = gen_of (filter (passes e) (parts ! j))"
    using p by (simp add: filter_partition_def gen_list_Inr_iff)
qed simp_all

lemma outputs_project:
  assumes "outputs env q parts" "evaluates es (concat parts)" "field_names s = map output_name es"
    "distinct (map output_name es)"
  shows "outputs env (ProjectExec q es s) (map (map (project_to es)) parts)"
proof (rule outputs_map [OF assms(1)])
  fix j p
  assume j: "j < length parts" and p: "direct env q j = Inr p" "records p = gen_of (parts ! j)"
  have "rmap (project_row (map output_name es) es) (parts ! j) = Inr (map (project_to es) (parts ! j))"
    using evaluates_tev [OF evaluates_subset [OF assms(2) concat_subset [OF j]]] assms(4)
    by (intro rmap_Inr_fun project_row_eq) auto
  then have "gen_list (gen_map (project_row (map output_name es) es) (gen_of (parts ! j))) = Inr (map (project_to es) (parts ! j))"
    by (simp add: gen_list_map)
  then show "\<exists>p'. direct env (ProjectExec q es s) j = Inr p' \<and> records p' = gen_of (map (project_to es) (parts ! j))"
    using p assms(3) by (simp add: project_partition_def gen_list_Inr_iff)
qed simp_all

lemma outputs_scan:
  assumes "\<forall>p \<in> set (ds_partitions d). records p = gen_of (gen_rows (records p))"
  shows "outputs env (ScanExec d name) (map (\<lambda>p. gen_rows (records p)) (ds_partitions d))"
  using assms
  by (auto simp: outputs_def write_rows_iff num_partitions_def ds_partition_def)

section \<open>Exchanges\<close>

lemma outputs_exchange:
  assumes "outputs env q parts" "write_key_fn es bounds = Inr kf" "write_partitioner n bounds = Inr P"
    and "\<forall>r \<in> set (concat parts). rbind (kf r) (partition_for (env_md5 env) P) = Inr (tgt r)"
  shows "outputs env (ExchangeExec q n es b bounds)
    (map (\<lambda>t. rows_for tgt (if b then 0 else t) (concat parts)) [0..<n])"
proof -
  have q: "unsplit q" "\<forall>w \<in> set (writes q). write_ok env w" "write_rows env q = Inr parts"
    using assms(1) by (auto simp: outputs_def)
  note route = route_eq [OF assms(2-4)]
  have "direct env (ExchangeExec q n es b bounds) j
      = Inr (read_partition j (pschema q) (rows_for tgt (if b then 0 else j) (concat parts)))" for j
    using q(3) route by (simp add: write_rows_def)
  then have "write_rows env (ExchangeExec q n es b bounds)
      = Inr (map (\<lambda>t. rows_for tgt (if b then 0 else t) (concat parts)) [0..<n])"
    by (simp add: write_rows_iff read_partition_def del: direct.simps)
  moreover have "write_ok env (ShuffleWriteExec q n es bounds)" using q(3) route by simp
  ultimately show ?thesis using q(1,2) by (simp add: outputs_def)
qed

text \<open>A hash exchange sends every row to the target of its key.\<close>

definition hash_target :: "'b env \<Rightarrow> nat \<Rightarrow> expr list \<Rightarrow> row \<Rightarrow> nat" where
  "hash_target env n es r = stable_hash (env_md5 env) (VTuple (key_of es r)) mod n"

lemma hash_target_less [simp]: "1 \<le> n \<Longrightarrow> hash_target env n es r < n"
  by (simp add: hash_target_def)

lemma outputs_hash_exchange:
  assumes "outputs env q parts" "1 \<le> n" "evaluates es (concat parts)"
  shows "outputs env (ExchangeExec q n es b None)
    (map (\<lambda>t. rows_for (hash_target env n es) (if b then 0 else t) (concat parts)) [0..<n])"
proof (rule outputs_exchange [OF assms(1)])
  show "write_key_fn es None = Inr (\<lambda>r. rbind (tuple_key es r) (\<lambda>k. Inr (VTuple k)))"
    by (simp add: write_key_fn_def)
  show "write_partitioner n None = Inr (HashPartitioner n)"
    using assms(2) by (simp add: write_partitioner_def mk_hash_partitioner_def)
  show "\<forall>r \<in> set (concat parts). rbind (rbind (tuple_key es r) (\<lambda>k. Inr (VTuple k)))
      (partition_for (env_md5 env) (HashPartitioner n)) = Inr (hash_target env n es r)"
    using evaluates_key [OF assms(3)] by (simp add: hash_target_def)
qed

text \<open>All targets together have all the rows.\<close>

lemma concat_single: "concat (map (\<lambda>t. if t = k then [x] else []) [0..<n]) = (if k < n then [x] else [])"
  by (induction n) auto

lemma mset_targets:
  assumes "\<forall>r \<in> set rows. tgt r < n"
  shows "mset (concat (map (\<lambda>t. rows_for tgt t rows) [0..<n])) = mset rows"
  using assms
proof (induction rows)
  case Nil
  have "concat (map (\<lambda>t. rows_for tgt t []) [0..<n]) = []" by (simp add: rows_for_def concat_eq_Nil_conv)
  then show ?case by simp
next
  case (Cons r rows)
  have "mset (concat (map (\<lambda>t. rows_for tgt t (r # rows)) [0..<n]))
      = mset (concat (map (\<lambda>t. if t = tgt r then [r] else []) [0..<n])) + mset (concat (map (\<lambda>t. rows_for tgt t rows) [0..<n]))"
    by (simp add: rows_for_def mset_concat comp_def flip: sum_list_addf) (auto intro!: arg_cong [where f = sum_list])
  moreover have "concat (map (\<lambda>t. if t = tgt r then [r] else []) [0..<n]) = [r]"
    using Cons.prems by (simp add: concat_single)
  ultimately show ?case using Cons by simp
qed

section \<open>Joins\<close>

text \<open>The matches of one right row, as a multiset, and of all of them.\<close>

lemma mset_nested_loop_join:
  "mset (nested_loop_join on lk rk ls rs)
    = (\<Sum>r \<in># mset rs. image_mset (\<lambda>l. merge_rows on l r) (filter_mset (\<lambda>l. py_eq_list (lk l) (rk r)) (mset ls)))"
  by (induction rs) (simp_all add: nested_loop_join_def)

lemma join_perm:
  "mset ls = mset ls' \<Longrightarrow> mset rs = mset rs' \<Longrightarrow>
     mset (nested_loop_join on lk rk ls rs) = mset (nested_loop_join on lk rk ls' rs')"
  by (simp add: mset_nested_loop_join)

lemma nested_loop_join_left_concat:
  "mset (nested_loop_join on lk rk (concat lss) rs) = mset (concat (map (\<lambda>ls. nested_loop_join on lk rk ls rs) lss))"
proof (induction lss)
  case Nil
  show ?case by (induction rs) (simp_all add: nested_loop_join_def)
next
  case (Cons ls lss)
  have "mset (nested_loop_join on lk rk (xs @ ys) rs)
      = mset (nested_loop_join on lk rk xs rs) + mset (nested_loop_join on lk rk ys rs)" for xs ys
    by (induction rs) (simp_all add: nested_loop_join_def)
  with Cons show ?case by simp
qed

text \<open>Rows that match go to the same target, so joining target by target joins everything.\<close>

lemma join_by_target:
  assumes "\<forall>l \<in> set ls. tgl l < n" "\<forall>r \<in> set rs. tgr r < n"
    and "\<forall>l \<in> set ls. \<forall>r \<in> set rs. py_eq_list (lk l) (rk r) \<longrightarrow> tgl l = tgr r"
  shows "mset (concat (map (\<lambda>t. nested_loop_join on lk rk (rows_for tgl t ls) (rows_for tgr t rs)) [0..<n]))
    = mset (nested_loop_join on lk rk ls rs)"
  using assms(2,3)
proof (induction rs)
  case Nil
  have "concat (map (\<lambda>t. nested_loop_join on lk rk (rows_for tgl t ls) (rows_for tgr t [])) [0..<n]) = []"
    by (simp add: rows_for_def nested_loop_join_def concat_eq_Nil_conv)
  then show ?case by (simp add: nested_loop_join_def)
next
  case (Cons r rs)
  let ?m = "map (\<lambda>l. merge_rows on l r) (filter (\<lambda>l. py_eq_list (lk l) (rk r)) ls)"
  have same: "filter (\<lambda>l. py_eq_list (lk l) (rk r)) (rows_for tgl (tgr r) ls) = filter (\<lambda>l. py_eq_list (lk l) (rk r)) ls"
    using Cons.prems(2) by (auto simp: rows_for_def filter_filter intro!: filter_cong)
  have "nested_loop_join on lk rk (rows_for tgl t ls) (rows_for tgr t (r # rs))
      = (if t = tgr r then ?m else []) @ nested_loop_join on lk rk (rows_for tgl t ls) (rows_for tgr t rs)" for t
    using same by (auto simp: rows_for_def nested_loop_join_def)
  then have "mset (concat (map (\<lambda>t. nested_loop_join on lk rk (rows_for tgl t ls) (rows_for tgr t (r # rs))) [0..<n]))
      = mset (concat (map (\<lambda>t. if t = tgr r then ?m else []) [0..<n]))
        + mset (concat (map (\<lambda>t. nested_loop_join on lk rk (rows_for tgl t ls) (rows_for tgr t rs)) [0..<n]))"
    by (simp add: mset_concat comp_def flip: sum_list_addf)
  moreover have "concat (map (\<lambda>t. if t = tgr r then ?m else []) [0..<n]) = ?m"
  proof -
    have "concat (map (\<lambda>t. if t = k then xs else []) [0..<m]) = (if k < m then xs else [])" for k m and xs :: "row list"
      by (induction m) auto
    then show ?thesis using Cons.prems(1) by simp
  qed
  ultimately show ?case
    using Cons by (simp add: nested_loop_join_def)
qed

lemma outputs_join:
  assumes l: "outputs env ql lparts" and r: "unsplit qr" "\<forall>w \<in> set (writes qr). write_ok env w"
    and right: "\<And>j. j < length lparts \<Longrightarrow> \<exists>p. direct env qr j = Inr p \<and> records p = gen_of (rs j)"
    and keys: "evaluates lkeys (concat lparts)" "\<And>j. j < length lparts \<Longrightarrow> evaluates rkeys (rs j)"
  shows "outputs env (HashJoinExec ql qr lkeys rkeys on s)
    (map (\<lambda>j. nested_loop_join on (key_of lkeys) (key_of rkeys) (lparts ! j) (rs j)) [0..<length lparts])"
proof -
  have part: "\<exists>p. direct env (HashJoinExec ql qr lkeys rkeys on s) j = Inr p
      \<and> records p = gen_of (nested_loop_join on (key_of lkeys) (key_of rkeys) (lparts ! j) (rs j))"
    if j: "j < length lparts" for j
  proof -
    obtain lp where lp: "direct env ql j = Inr lp" "records lp = gen_of (lparts ! j)"
      using outputs_partition [OF l] outputs_length [OF l] j by auto
    obtain rp where rp: "direct env qr j = Inr rp" "records rp = gen_of (rs j)" using right [OF j] by blast
    have "\<forall>x \<in> set (lparts ! j). tuple_key lkeys x = Inr (key_of lkeys x)"
      using evaluates_key [OF evaluates_subset [OF keys(1) concat_subset [OF j]]] by blast
    moreover have "\<forall>x \<in> set (rs j). tuple_key rkeys x = Inr (key_of rkeys x)"
      using evaluates_key [OF keys(2) [OF j]] by blast
    ultimately obtain p where "join_partition lkeys rkeys on s j lp rp = Inr p"
      "part_to_list p = Inr (nested_loop_join on (key_of lkeys) (key_of rkeys) (lparts ! j) (rs j))"
      using join_partition_eq [OF lp(2) rp(2), of lkeys "key_of lkeys" rkeys "key_of rkeys" on s j] by blast
    then show ?thesis using lp(1) rp(1) by (simp add: part_to_list_def gen_list_Inr_iff)
  qed
  then show ?thesis
    using l r outputs_length [OF l] by (simp add: outputs_def write_rows_iff ball_Un del: direct.simps)
qed

text \<open>The join the planner builds, shuffled or broadcast.\<close>

lemma outputsD: "outputs env q parts \<Longrightarrow> unsplit q" "outputs env q parts \<Longrightarrow> \<forall>w \<in> set (writes q). write_ok env w"
  by (simp_all add: outputs_def)

lemma map_nth_upt: "map (\<lambda>j. f (xs ! j)) [0..<length xs] = map f xs"
  by (rule nth_equalityI) auto

lemma broadcast_output:
  assumes "outputs env q parts" "evaluates es (concat parts)"
  shows "\<exists>p. direct env (ExchangeExec q 1 es True None) j = Inr p \<and> records p = gen_of (concat parts)"
proof -
  have all: "rows_for (hash_target env 1 es) 0 (concat parts) = concat parts"
    by (simp add: rows_for_def hash_target_def)
  have "direct env (ExchangeExec q 1 es True None) j
      = rbind (direct env (ExchangeExec q 1 es True None) 0) (\<lambda>p. Inr (p\<lparr>partition_id := j\<rparr>))"
    by (auto simp: read_partition_def rbind_assoc intro!: rbind_cong)
  moreover obtain p where "direct env (ExchangeExec q 1 es True None) 0 = Inr p" "records p = gen_of (concat parts)"
    using outputs_partition [OF outputs_hash_exchange [OF assms(1) order_refl assms(2), of True], of 0] all by auto
  ultimately show ?thesis by simp
qed

lemma rows_for_subset: "set (rows_for tgt t rows) \<subseteq> set rows"
  by (auto simp: rows_for_def)

lemma outputs_plan_join:
  assumes l: "outputs env ql lparts" and r: "outputs env qr rparts" and n: "1 \<le> n"
    and keys: "evaluates (map Column on) (concat lparts)" "evaluates (map Column on) (concat rparts)"
    and same: "\<And>x y. \<not> b \<Longrightarrow> x \<in> set (concat lparts) \<Longrightarrow> y \<in> set (concat rparts) \<Longrightarrow>
      py_eq_list (key_of (map Column on) x) (key_of (map Column on) y) \<Longrightarrow>
      key_of (map Column on) x = key_of (map Column on) y"
  shows "\<exists>parts. outputs env (plan_join ql qr on b s n) parts
    \<and> mset (concat parts) = mset (nested_loop_join on (key_of (map Column on)) (key_of (map Column on)) (concat lparts) (concat rparts))"
proof (cases b)
  case True
  let ?keys = "map Column on" and ?rows = "concat rparts"
  note ex = outputs_hash_exchange [OF r order_refl keys(2), of True]
  have "outputs env (HashJoinExec ql (ExchangeExec qr 1 ?keys True None) ?keys ?keys on s)
      (map (\<lambda>j. nested_loop_join on (key_of ?keys) (key_of ?keys) (lparts ! j) ?rows) [0..<length lparts])"
    by (rule outputs_join [OF l outputsD [OF ex]]) (rule broadcast_output [OF r keys(2)] keys)+
  then have "outputs env (plan_join ql qr on b s n) (map (\<lambda>ls. nested_loop_join on (key_of ?keys) (key_of ?keys) ls ?rows) lparts)"
    unfolding plan_join_def Let_def using True
    by (simp add: map_nth_upt [where f = "\<lambda>ls. nested_loop_join on (key_of ?keys) (key_of ?keys) ls ?rows"])
  with nested_loop_join_left_concat [of on "key_of ?keys" "key_of ?keys" lparts ?rows] show ?thesis by metis
next
  case False
  let ?keys = "map Column on"
  let ?tg = "hash_target env n ?keys"
  let ?part = "\<lambda>rows. map (\<lambda>t. rows_for ?tg t rows) [0..<n]"
  have ex: "outputs env (ExchangeExec ql n ?keys False None) (?part (concat lparts))"
      "outputs env (ExchangeExec qr n ?keys False None) (?part (concat rparts))"
    using outputs_hash_exchange [OF l n keys(1), of False] outputs_hash_exchange [OF r n keys(2), of False] by simp_all
  have "outputs env (HashJoinExec (ExchangeExec ql n ?keys False None) (ExchangeExec qr n ?keys False None) ?keys ?keys on s)
      (map (\<lambda>j. nested_loop_join on (key_of ?keys) (key_of ?keys) (?part (concat lparts) ! j) (rows_for ?tg j (concat rparts)))
        [0..<length (?part (concat lparts))])"
  proof (rule outputs_join [OF ex(1) outputsD [OF ex(2)]])
    show "evaluates ?keys (concat (?part (concat lparts)))"
      by (rule evaluates_subset [OF keys(1)]) (use rows_for_subset in fastforce)
    fix j assume j: "j < length (?part (concat lparts))"
    show "evaluates ?keys (rows_for ?tg j (concat rparts))"
      by (rule evaluates_subset [OF keys(2) rows_for_subset])
    show "\<exists>p. direct env (ExchangeExec qr n ?keys False None) j = Inr p \<and> records p = gen_of (rows_for ?tg j (concat rparts))"
      using outputs_partition [OF ex(2), of j] j by simp
  qed
  moreover have "mset (concat (map (\<lambda>t. nested_loop_join on (key_of ?keys) (key_of ?keys)
        (rows_for ?tg t (concat lparts)) (rows_for ?tg t (concat rparts))) [0..<n]))
      = mset (nested_loop_join on (key_of ?keys) (key_of ?keys) (concat lparts) (concat rparts))"
  proof (rule join_by_target)
    show "\<forall>x \<in> set (concat lparts). \<forall>y \<in> set (concat rparts).
        py_eq_list (key_of ?keys x) (key_of ?keys y) \<longrightarrow> ?tg x = ?tg y"
    proof (intro ballI impI)
      fix x y
      assume "x \<in> set (concat lparts)" "y \<in> set (concat rparts)" "py_eq_list (key_of ?keys x) (key_of ?keys y)"
      from same [OF False this] show "?tg x = ?tg y" by (simp only: hash_target_def)
    qed
  qed (use n in simp_all)
  moreover have "map (\<lambda>j. nested_loop_join on (key_of ?keys) (key_of ?keys) (?part (concat lparts) ! j) (rows_for ?tg j (concat rparts)))
        [0..<length (?part (concat lparts))]
      = map (\<lambda>t. nested_loop_join on (key_of ?keys) (key_of ?keys)
        (rows_for ?tg t (concat lparts)) (rows_for ?tg t (concat rparts))) [0..<n]"
    by simp
  ultimately show ?thesis
    unfolding plan_join_def Let_def by (simp only: False if_False) blast
qed

end
