(* ===== verification/OptimizerRuns.thy ===== *)
theory OptimizerRuns
  imports OptimizerCorrect PhysicalMeaning
begin

text \<open>
  The optimizer adds no errors.  \<open>runs\<close> says of a logical plan that nothing raises while its rows are
  computed; every rule keeps this for tidy plans without a filter above a join.  The condition is
  needed: a filter that is pushed below a join is evaluated on rows that the join would have dropped.
\<close>

section \<open>Plans on whose rows nothing raises\<close>

text \<open>The aggregate has a value for each group of the rows.\<close>

definition aggregates :: "expr list \<Rightarrow> expr list \<Rightarrow> row list \<Rightarrow> bool" where
  "aggregates gs as rows \<longleftrightarrow> evaluates gs rows \<and>
     (\<forall>(k, rs) \<in> set (grouped (key_of gs) rows). \<forall>a \<in> set as.
        \<not> isl (rbind (rfold (agg_update (unalias a)) (init_state (unalias a)) rs) (agg_finalize (unalias a))))"

fun runs :: "lplan \<Rightarrow> bool" where
  "runs (Scan d _ _) = (\<forall>q \<in> set (ds_partitions d). \<not> isl (gen_list (records q)))"
| "runs (Filter c e) = (runs c \<and> evaluates [e] (meaning c))"
| "runs (Project c es) = (runs c \<and> evaluates es (meaning c))"
| "runs (Aggregate c gs as) = (runs c \<and> aggregates gs as (meaning c))"
| "runs (Join l r _ _ _) = (runs l \<and> runs r)"
| "runs (Sort c es asc) = (runs c \<and> sortable es (meaning c))"

fun over_join :: "lplan \<Rightarrow> bool" where
  "over_join (Join _ _ _ _ _) = True"
| "over_join (Filter c _) = over_join c"
| "over_join (Project c _) = over_join c"
| "over_join _ = False"

fun filters_low :: "lplan \<Rightarrow> bool" where
  "filters_low (Scan _ _ _) = True"
| "filters_low (Filter c _) = (\<not> over_join c \<and> filters_low c)"
| "filters_low (Project c _) = filters_low c"
| "filters_low (Aggregate c _ _) = filters_low c"
| "filters_low (Join l r _ _ _) = (filters_low l \<and> filters_low r)"
| "filters_low (Sort c _ _) = filters_low c"

text \<open>The plans that the naive executor handles.\<close>

fun row_wise :: "lplan \<Rightarrow> bool" where
  "row_wise (Scan _ _ _) = True"
| "row_wise (Filter c _) = row_wise c"
| "row_wise (Project c _) = row_wise c"
| "row_wise _ = False"

lemma row_wise_low: "row_wise p \<Longrightarrow> filters_low p \<and> \<not> over_join p"
  by (induction p) auto

definition same_shape :: "lplan \<Rightarrow> lplan \<Rightarrow> bool" where
  "same_shape p q \<longleftrightarrow> (over_join q \<longrightarrow> over_join p) \<and> (filters_low p \<longrightarrow> filters_low q) \<and> (row_wise p \<longrightarrow> row_wise q)"

definition adds_no_errors :: "lplan \<Rightarrow> lplan \<Rightarrow> bool" where
  "adds_no_errors p q \<longleftrightarrow> same_shape p q \<and> (filters_low p \<longrightarrow> runs p \<longrightarrow> runs q)"

lemma adds_no_errors_refl: "adds_no_errors p p"
  by (simp add: adds_no_errors_def same_shape_def)

lemma adds_no_errors_trans: "adds_no_errors p q \<Longrightarrow> adds_no_errors q r \<Longrightarrow> adds_no_errors p r"
  by (auto simp: adds_no_errors_def same_shape_def)

text \<open>The second contract of a rule, beside \<open>meaning_preserving\<close>.\<close>

locale error_free = meaning_preserving +
  assumes rule_errors_free: "tidy p \<Longrightarrow> rule p = Inr q \<Longrightarrow> adds_no_errors p q"
begin

lemma rule_safe:
  assumes "preserves p q \<and> adds_no_errors p q" "rule q = Inr q'"
  shows "preserves p q' \<and> adds_no_errors p q'"
proof -
  have "tidy q" using assms(1) by (simp only: preserves_def)
  from rule_errors_free [OF this assms(2)] rule_preserves [OF this assms(2)] show ?thesis
    using assms(1) preserves_trans adds_no_errors_trans by blast
qed

end

section \<open>Rewriting expressions\<close>

definition keeps_values :: "(expr \<Rightarrow> expr res) \<Rightarrow> bool" where
  "keeps_values fn \<longleftrightarrow> (\<forall>e e' r. condition_ok e \<or> no_bool e \<longrightarrow> fn e = Inr e' \<longrightarrow>
     \<not> isl (eval e r) \<longrightarrow> \<not> isl (eval e' r))"

lemma evaluates_single: "evaluates [e] rows \<longleftrightarrow> (\<forall>r \<in> set rows. \<not> isl (eval e r))"
  by (simp add: evaluates_def)

lemma keeps_values_list:
  assumes "keeps_values fn" "rmap fn es = Inr es'" "list_all (tidy_column A) es" "evaluates es rows"
  shows "evaluates es' rows"
proof -
  have "list_all2 (\<lambda>e e'. fn e = Inr e') es es'" using assms(2) by (simp add: rmap_Inr_iff)
  then have "\<exists>e \<in> set es. fn e = Inr e'" if "e' \<in> set es'" for e'
    using that by (force simp: list_all2_conv_all_nth in_set_conv_nth)
  moreover have "no_bool e" if "e \<in> set es" for e
    using assms(3) that by (cases e) (auto simp: tidy_column_def list_all_iff)
  ultimately show ?thesis
    using assms(1,4) unfolding evaluates_def keeps_values_def by blast
qed

lemma map_expressions_shape:
  "map_expressions fn p = Inr q \<Longrightarrow> over_join q = over_join p \<and> filters_low q = filters_low p \<and> row_wise q = row_wise p"
  by (induction p arbitrary: q) (auto simp: rbind_Inr_iff mk_sort_Inr_iff)

lemma map_expressions_runs:
  assumes "keeps_columns fn" "keeps_values fn"
  shows "tidy p \<Longrightarrow> map_expressions fn p = Inr q \<Longrightarrow> runs p \<Longrightarrow> runs q"
proof (induction p arbitrary: q)
  case (Filter c e)
  then obtain c' e' where q: "map_expressions fn c = Inr c'" "fn e = Inr e'" "q = Filter c' e'"
    by (auto simp: rbind_Inr_iff)
  have "meaning c' = meaning c"
    using map_expressions_preserves [OF assms(1) _ q(1)] Filter.prems(1) by (simp add: preserves_def)
  moreover have "condition_ok e" "evaluates [e] (meaning c)" using Filter.prems(1,3) by simp_all
  then have "evaluates [e'] (meaning c)"
    using q(2) assms(2) unfolding evaluates_single keeps_values_def by blast
  ultimately show ?case using Filter q by simp
next
  case (Project c es)
  then obtain c' es' where q: "map_expressions fn c = Inr c'" "rmap fn es = Inr es'" "q = Project c' es'"
    by (auto simp: rbind_Inr_iff)
  have "meaning c' = meaning c"
    using map_expressions_preserves [OF assms(1) _ q(1)] Project.prems(1) by (simp add: preserves_def)
  then show ?case using Project q keeps_values_list [OF assms(2) q(2), of "all_names c"] by simp
next
  case (Aggregate c gs as)
  then obtain c' gs' as' where q: "map_expressions fn c = Inr c'" "rmap fn gs = Inr gs'"
      "rmap fn as = Inr as'" "q = Aggregate c' gs' as'"
    by (auto simp: rbind_Inr_iff)
  moreover have "gs' = gs" "as' = as"
    using keeps_columns_list [OF assms(1) q(2)] keeps_columns_list [OF assms(1) q(3)] Aggregate.prems(1) by auto
  moreover have "meaning c' = meaning c"
    using map_expressions_preserves [OF assms(1) _ q(1)] Aggregate.prems(1) by (simp add: preserves_def)
  ultimately show ?case using Aggregate by simp
next
  case (Join l r on how b)
  then show ?case by (auto simp: rbind_Inr_iff)
next
  case (Sort c es asc)
  then obtain c' es' where q: "map_expressions fn c = Inr c'" "rmap fn es = Inr es'" "q = Sort c' es' asc"
    by (auto simp: rbind_Inr_iff mk_sort_Inr_iff)
  moreover have "es' = es" using keeps_columns_list [OF assms(1) q(2)] Sort.prems(1) by auto
  moreover have "meaning c' = meaning c"
    using map_expressions_preserves [OF assms(1) _ q(1)] Sort.prems(1) by (simp add: preserves_def)
  ultimately show ?case using Sort by simp
qed simp

lemma map_expressions_errors:
  "keeps_columns fn \<Longrightarrow> keeps_values fn \<Longrightarrow> tidy p \<Longrightarrow> map_expressions fn p = Inr q \<Longrightarrow> adds_no_errors p q"
  using map_expressions_shape map_expressions_runs by (auto simp: adds_no_errors_def same_shape_def)

lemma const_fold_eval: "const_fold e = Inr e' \<Longrightarrow> eval e r = Inr v \<Longrightarrow> eval e' r = Inr v"
proof (induction e arbitrary: e' v)
  case (Binary op l f)
  from Binary.prems(1) obtain l' f' where lf: "const_fold l = Inr l'" "const_fold f = Inr f'"
    "e' = Binary op l' f' \<or> (\<exists>a b v. l' = Literal a \<and> f' = Literal b \<and> apply_binop op a b = Inr v \<and> e' = Literal v)"
    by (rule const_fold_Binary)
  obtain x y where "eval l r = Inr x" "eval f r = Inr y" "apply_binop op x y = Inr v"
    using Binary.prems(2) by (auto simp: rbind_Inr_iff)
  with Binary.IH(1) [OF lf(1)] Binary.IH(2) [OF lf(2)] lf(3) show ?case by auto
next
  case (NotE e)
  from NotE.prems(1) obtain c' where "const_fold e = Inr c'"
    "e' = NotE c' \<or> (\<exists>v. c' = Literal v \<and> e' = Literal (not_value v))" by (rule const_fold_NotE)
  with NotE.IH [of c'] NotE.prems(2) show ?case by (auto simp: rbind_Inr_iff)
next
  case (IsNull e)
  from IsNull.prems(1) obtain c' where "const_fold e = Inr c'"
    "e' = IsNull c' \<or> (\<exists>v. c' = Literal v \<and> e' = Literal (is_null_value v))" by (rule const_fold_IsNull)
  with IsNull.IH [of c'] IsNull.prems(2) show ?case by (auto simp: rbind_Inr_iff)
next
  case (IsNotNull e)
  from IsNotNull.prems(1) obtain c' where "const_fold e = Inr c'"
    "e' = IsNotNull c' \<or> (\<exists>v. c' = Literal v \<and> e' = Literal (is_not_null_value v))" by (rule const_fold_IsNotNull)
  with IsNotNull.IH [of c'] IsNotNull.prems(2) show ?case by (auto simp: rbind_Inr_iff)
next
  case (Alias e n)
  then show ?case by (auto simp: rbind_Inr_iff)
qed auto

interpretation constant_folding: error_free constant_folding
proof
  have "keeps_values const_fold"
    unfolding keeps_values_def
  proof (intro allI impI)
    fix e e' r assume "const_fold e = Inr e'" "\<not> isl (eval e r)"
    then show "\<not> isl (eval e' r)" using const_fold_eval [of e e' r] by (cases "eval e r") auto
  qed
  then show "tidy p \<Longrightarrow> constant_folding p = Inr q \<Longrightarrow> adds_no_errors p q" for p q
    unfolding constant_folding_def by (intro map_expressions_errors [OF keeps_const_fold])
qed

lemma binary_evaluates: "\<not> isl (eval (Binary op l f) r) \<Longrightarrow> \<not> isl (eval l r) \<and> \<not> isl (eval f r)"
  by (cases "eval l r"; cases "eval f r") auto

lemma isl_rbind: "isl (rbind m f) \<longleftrightarrow> isl m \<or> (\<exists>x. m = Inr x \<and> isl (f x))"
  by (cases m) auto

lemma simplify_and_eval: "\<not> isl (eval l r) \<Longrightarrow> \<not> isl (eval m r) \<Longrightarrow> \<not> isl (eval (simplify_and l m) r)"
  by (auto simp: simplify_and_def isl_rbind split: expr.splits)

lemma simplify_or_eval: "\<not> isl (eval l r) \<Longrightarrow> \<not> isl (eval m r) \<Longrightarrow> \<not> isl (eval (simplify_or l m) r)"
  by (auto simp: simplify_or_def isl_rbind split: expr.splits)

lemma simplify_bool_eval: "condition_ok e \<Longrightarrow> \<not> isl (eval e r) \<Longrightarrow> \<not> isl (eval (simplify_bool e) r)"
proof (induction e rule: simplify_bool.induct)
  case (1 l f)
  then show ?case using binary_evaluates [OF 1(4)] by (simp add: simplify_and_eval)
next
  case (2 l f)
  then show ?case using binary_evaluates [OF 2(4)] by (simp add: simplify_or_eval)
next
  case (3 e)
  then have "\<not> isl (eval (simplify_bool e) r)" by (simp add: isl_rbind)
  then show ?case by (cases "simplify_bool e") (simp_all add: isl_rbind)
qed (simp_all add: simplify_no_bool)

interpretation filter_simplification: error_free filter_simplification
proof
  have "keeps_values (\<lambda>e. Inr (simplify_bool e))"
    using simplify_bool_eval simplify_no_bool by (auto simp: keeps_values_def)
  then show "tidy p \<Longrightarrow> filter_simplification p = Inr q \<Longrightarrow> adds_no_errors p q" for p q
    unfolding filter_simplification_def by (intro map_expressions_errors [OF keeps_simplify])
qed

section \<open>Predicate pushdown\<close>

text \<open>Expressions evaluate alike on rows that agree on their columns.\<close>

lemma evaluates_map:
  assumes "\<And>r e. r \<in> set rows \<Longrightarrow> e \<in> set es \<Longrightarrow> agree_on (referenced_columns e) (h r) r"
  shows "evaluates es (map h rows) \<longleftrightarrow> evaluates es rows"
  using assms eval_agree by (fastforce simp: evaluates_def)

lemma projected_condition:
  assumes "tidy (Filter (Project c es) e)" "referenced_columns e \<subseteq> set (out_names c)" "r \<in> set (meaning c)"
  shows "agree_on (referenced_columns e) (project_to es r) r"
proof (rule project_agree [where A = "all_names c"])
  show "referenced_columns e \<subseteq> all_names c" using assms(2) out_names_all by blast
  have "map fst r = out_names c" using tidy_columns assms(1,3) by auto
  then show "referenced_columns e \<subseteq> fst ` set r" using assms(2) by (metis set_map)
qed (use assms(1) in auto)

lemma push_filter_errors:
  assumes "tidy (Filter c e)" "push_filter c e = Inr q" "\<not> over_join c"
  shows "adds_no_errors (Filter c e) q"
proof (cases c)
  case (Project c0 es)
  obtain s where s: "lschema c0 = Inr s" "field_names s = out_names c0"
    using assms(1) tidy_schema [of c0] by (auto simp: Project)
  show ?thesis
  proof (cases "referenced_columns e \<subseteq> set (out_names c0)")
    case True
    then have q: "q = Project (Filter c0 e) es" using assms(2) s by (simp add: Project push_filter_def)
    have "evaluates [e] (map (project_to es) (meaning c0)) = evaluates [e] (meaning c0)"
      using projected_condition [OF assms(1) [unfolded Project] True] by (intro evaluates_map) simp
    then show ?thesis
      using assms(3) by (auto simp: q Project adds_no_errors_def same_shape_def intro: evaluates_subset)
  next
    case False
    then have "q = Filter c e" using assms(2) s by (simp add: Project push_filter_def)
    then show ?thesis by (simp add: adds_no_errors_refl)
  qed
qed (use assms in \<open>auto simp: push_filter_def adds_no_errors_refl\<close>)

lemma pushdown_shape: "pushdown p = Inr q \<Longrightarrow> over_join q \<longrightarrow> over_join p"
proof (induction p arbitrary: q)
  case (Filter c e)
  then obtain c' where "pushdown c = Inr c'" "push_filter c' e = Inr q" by (auto simp: rbind_Inr_iff)
  with Filter.IH show ?case
    by (cases c') (auto simp: push_filter_def rbind_Inr_iff split: if_splits)
qed (auto simp: rbind_Inr_iff mk_sort_Inr_iff)

lemma same_shape_refl [simp]: "same_shape p p"
  by (simp add: same_shape_def)

lemma same_shape_nodes:
  "same_shape c c' \<Longrightarrow> same_shape (Filter c e) (Filter c' e)" "same_shape c c' \<Longrightarrow> same_shape (Project c es) (Project c' es)"
  "same_shape c c' \<Longrightarrow> same_shape (Aggregate c gs as) (Aggregate c' gs as)"
  "same_shape c c' \<Longrightarrow> same_shape (Sort c es asc) (Sort c' es asc)"
  "same_shape l l' \<Longrightarrow> same_shape r r' \<Longrightarrow> same_shape (Join l r on how b) (Join l' r' on how b)"
  by (auto simp: same_shape_def)

text \<open>A node around children that were rewritten.\<close>

lemma adds_no_errors_nodes:
  "preserves c c' \<Longrightarrow> adds_no_errors c c' \<Longrightarrow> adds_no_errors (Filter c e) (Filter c' e)"
  "preserves c c' \<Longrightarrow> adds_no_errors c c' \<Longrightarrow> adds_no_errors (Project c es) (Project c' es)"
  "preserves c c' \<Longrightarrow> adds_no_errors c c' \<Longrightarrow> adds_no_errors (Aggregate c gs as) (Aggregate c' gs as)"
  "preserves c c' \<Longrightarrow> adds_no_errors c c' \<Longrightarrow> adds_no_errors (Sort c es asc) (Sort c' es asc)"
  "adds_no_errors l l' \<Longrightarrow> adds_no_errors r r' \<Longrightarrow> adds_no_errors (Join l r on how b) (Join l' r' on how b)"
  by (auto simp: adds_no_errors_def preserves_def same_shape_nodes)

lemma pushdown_errors: "tidy p \<Longrightarrow> pushdown p = Inr q \<Longrightarrow> adds_no_errors p q"
proof (induction p arbitrary: q)
  case (Filter c e)
  then obtain c' where c': "pushdown c = Inr c'" "push_filter c' e = Inr q" by (auto simp: rbind_Inr_iff)
  have tidy: "tidy c" using Filter.prems(1) by simp
  note pr = pushdown_preserves [OF tidy c'(1)]
  have step: "adds_no_errors (Filter c e) (Filter c' e)"
    using Filter.IH [OF tidy c'(1)] by (rule adds_no_errors_nodes(1) [OF pr])
  have "tidy (Filter c' e)" using preserves_Filter [OF Filter.prems(1) pr] unfolding preserves_def by (rule conjunct1)
  show ?case
  proof (cases "over_join c")
    case True
    then have "\<not> filters_low (Filter c e)" "\<not> row_wise (Filter c e)" using row_wise_low [of c] by auto
    with True show ?thesis by (simp add: adds_no_errors_def same_shape_def)
  next
    case False
    then have "\<not> over_join c'" using pushdown_shape [OF c'(1)] by blast
    from push_filter_errors [OF \<open>tidy (Filter c' e)\<close> c'(2) this] show ?thesis
      by (rule adds_no_errors_trans [OF step])
  qed
next
  case (Project c es)
  then obtain c' where c': "pushdown c = Inr c'" "q = Project c' es" by (auto simp: rbind_Inr_iff)
  moreover have "tidy c" using Project.prems(1) by simp
  ultimately show ?case using Project.IH pushdown_preserves by (simp add: adds_no_errors_nodes)
next
  case (Aggregate c gs as)
  then obtain c' where c': "pushdown c = Inr c'" "q = Aggregate c' gs as" by (auto simp: rbind_Inr_iff)
  moreover have "tidy c" using Aggregate.prems(1) by simp
  ultimately show ?case using Aggregate.IH pushdown_preserves by (simp add: adds_no_errors_nodes)
next
  case (Join l r on how b)
  then obtain l' r' where "pushdown l = Inr l'" "pushdown r = Inr r'" "q = Join l' r' on how b"
    by (auto simp: rbind_Inr_iff)
  moreover have "tidy l" "tidy r" using Join.prems(1) by simp_all
  ultimately show ?case using Join.IH by (simp add: adds_no_errors_nodes)
next
  case (Sort c es asc)
  then obtain c' where c': "pushdown c = Inr c'" "q = Sort c' es asc" by (auto simp: rbind_Inr_iff mk_sort_Inr_iff)
  moreover have "tidy c" using Sort.prems(1) by simp
  ultimately show ?case using Sort.IH pushdown_preserves by (simp add: adds_no_errors_nodes)
qed (simp add: adds_no_errors_refl)

interpretation predicate_pushdown: error_free pushdown
  by unfold_locales (rule pushdown_errors)

section \<open>Projection pruning\<close>

lemma prune_scan_cases:
  obtains "prune_scan p cols m = p"
  | keep where "prune_scan p cols m = Project p (map Column keep)" "set keep \<subseteq> set cols"
proof (cases "prune_scan p cols m = p")
  case False
  then obtain N where "prune_scan p cols m = Project p (map Column (filter (\<lambda>c. c \<in> N) cols))"
    by (auto simp: prune_scan_def Let_def split: option.splits if_splits)
  then show ?thesis by (rule that(2)) auto
qed (rule that(1))

lemma prune_shape: "prune p m = Inr q \<Longrightarrow> same_shape p q"
proof (induction p arbitrary: m q)
  case (Scan d n s)
  then show ?case
    by (cases rule: prune_scan_cases [of "Scan d n s" "field_names (ds_schema d)" m]) (auto simp: same_shape_def)
qed (auto simp: rbind_Inr_iff mk_sort_Inr_iff same_shape_nodes)

lemma evaluates_restrict: "columns_of es \<subseteq> K \<Longrightarrow> evaluates es (map (restrict_row K) rows) \<longleftrightarrow> evaluates es rows"
  by (intro evaluates_map restrict_agree) (rule columns_of_mono)

lemma eval_restrict: "referenced_columns e \<subseteq> K \<Longrightarrow> eval e (restrict_row K r) = eval e r"
  by (intro eval_agree restrict_agree)

lemma value_at_restrict: "referenced_columns e \<subseteq> K \<Longrightarrow> value_at e (restrict_row K r) = value_at e r"
  using restrict_agree [of "referenced_columns e" K r] by (simp add: value_at_def eval_agree)

lemma sortable_restrict:
  assumes "columns_of es \<subseteq> K"
  shows "sortable es (map (restrict_row K) rows) \<longleftrightarrow> sortable es rows"
proof -
  have "map (value_at e \<circ> restrict_row K) rows = map (value_at e) rows" if "e \<in> set es" for e
    using columns_of_mono [OF assms that] by (simp add: value_at_restrict)
  moreover have "isl (eval e (restrict_row K r)) = isl (eval e r)" if "e \<in> set es" for e r
    using eval_agree [OF restrict_agree [OF columns_of_mono [OF assms that]]] by simp
  ultimately show ?thesis by (simp add: sortable_def del: map_eq_conv cong: ball_cong)
qed

lemma aggregate_update_restrict:
  assumes "referenced_columns a \<subseteq> K"
  shows "rfold (agg_update (unalias a)) s (map (restrict_row K) rs) = rfold (agg_update (unalias a)) s rs"
proof -
  have "referenced_columns (unalias a) \<subseteq> K" using assms by (cases a) auto
  then have "agg_update (unalias a) s (restrict_row K r) = agg_update (unalias a) s r" for s r
    by (cases "unalias a") (simp_all add: eval_restrict)
  then show ?thesis by (induction rs arbitrary: s) auto
qed

lemma aggregates_restrict:
  assumes "columns_of gs \<union> columns_of as \<subseteq> K"
  shows "aggregates gs as (map (restrict_row K) rows) \<longleftrightarrow> aggregates gs as rows"
proof -
  have "grouped (key_of gs) (map (restrict_row K) rows)
      = map (\<lambda>(k, rs). (k, map (restrict_row K) rs)) (grouped (key_of gs) rows)"
    using assms by (intro grouped_map) (simp add: key_of_restrict)
  moreover have "rfold (agg_update (unalias a)) s (map (restrict_row K) rs) = rfold (agg_update (unalias a)) s rs"
    if "a \<in> set as" for a s rs
    using columns_of_mono [of as K a] assms that by (intro aggregate_update_restrict) simp
  moreover have "evaluates gs (map (restrict_row K) rows) = evaluates gs rows"
    using assms by (intro evaluates_restrict) simp
  ultimately show ?thesis by (auto simp: aggregates_def)
qed

text \<open>What pruning leaves of the child's rows, when everything above is still there.\<close>

lemma prune_child:
  assumes "tidy c" "prune c m = Inr c'" "C \<subseteq> wanted m" "C \<subseteq> set (out_names c)"
  obtains K where "C \<subseteq> K" "meaning c' = map (restrict_row K) (meaning c)"
proof -
  obtain K where "wanted m \<inter> set (out_names c) \<subseteq> K" "prunes_to K c c'"
    using prune_pruned [OF assms(1,2)] by (auto simp: pruned_def)
  moreover from this assms(3,4) have "C \<subseteq> K" by blast
  ultimately show ?thesis using that by (simp add: prunes_to_def)
qed

lemma prune_runs: "tidy p \<Longrightarrow> prune p m = Inr q \<Longrightarrow> runs p \<Longrightarrow> runs q"
proof (induction p arbitrary: m q)
  case (Scan d n s)
  show ?case
  proof (cases "q = Scan d n s")
    case True
    then show ?thesis using Scan.prems(3) by simp
  next
    case False
    then obtain keep where q: "q = Project (Scan d n s) (map Column keep)" "set keep \<subseteq> set (field_names (ds_schema d))"
      using Scan.prems(2) by (cases rule: prune_scan_cases [of "Scan d n s" "field_names (ds_schema d)" m]) auto
    have "\<not> isl (eval (Column k) r)" if "r \<in> set (scan_rows d)" "k \<in> set keep" for k r
    proof -
      have "fst ` set r = set (field_names (ds_schema d))"
        using row_names [OF Scan.prems(1)] that(1) by simp
      then have "map_of r k \<noteq> None" using that(2) q(2) by (auto simp: map_of_eq_None_iff)
      then show ?thesis by (auto simp: row_get_def)
    qed
    then show ?thesis using Scan.prems(3) by (auto simp: q(1) evaluates_def)
  qed
next
  case (Filter c e)
  then obtain c' where c': "prune c (also_needed m (referenced_columns e)) = Inr c'" "q = Filter c' e"
    by (auto simp: rbind_Inr_iff)
  have tidy: "tidy c" "referenced_columns e \<subseteq> set (out_names c)" using Filter.prems(1) by simp_all
  obtain K where K: "referenced_columns e \<subseteq> K" "meaning c' = map (restrict_row K) (meaning c)"
    using tidy by (rule_tac prune_child [OF tidy(1) c'(1), of "referenced_columns e"]) auto
  then show ?case
    using Filter.IH [OF tidy(1) c'(1)] Filter.prems(3) evaluates_restrict [of "[e]" K]
    by (simp add: c'(2) columns_of_def)
next
  case (Project c es)
  then obtain c' where c': "prune c (Some (columns_of es)) = Inr c'" "q = Project c' es"
    by (auto simp: rbind_Inr_iff)
  have tidy: "tidy c" "columns_of es \<subseteq> set (out_names c)" using Project.prems(1) by simp_all
  obtain K where K: "columns_of es \<subseteq> K" "meaning c' = map (restrict_row K) (meaning c)"
    using tidy by (rule_tac prune_child [OF tidy(1) c'(1), of "columns_of es"]) auto
  then show ?case using Project.IH [OF tidy(1) c'(1)] Project.prems(3) by (simp add: c'(2) evaluates_restrict)
next
  case (Aggregate c gs as)
  then obtain c' where c': "prune c (Some (columns_of gs \<union> columns_of as)) = Inr c'" "q = Aggregate c' gs as"
    by (auto simp: rbind_Inr_iff)
  have tidy: "tidy c" "columns_of gs \<union> columns_of as \<subseteq> set (out_names c)" using Aggregate.prems(1) by simp_all
  obtain K where K: "columns_of gs \<union> columns_of as \<subseteq> K" "meaning c' = map (restrict_row K) (meaning c)"
    using tidy by (rule_tac prune_child [OF tidy(1) c'(1), of "columns_of gs \<union> columns_of as"]) auto
  then show ?case using Aggregate.IH [OF tidy(1) c'(1)] Aggregate.prems(3) by (simp add: c'(2) aggregates_restrict)
next
  case (Join l r on how b)
  then obtain s t l' r' where "prune l (Some (side_needed m s on)) = Inr l'" "prune r (Some (side_needed m t on)) = Inr r'"
      "q = Join l' r' on how b"
    by (auto simp: rbind_Inr_iff)
  with Join show ?case by simp
next
  case (Sort c es asc)
  then obtain c' where c': "prune c (also_needed m (columns_of es)) = Inr c'" "q = Sort c' es asc"
    by (auto simp: rbind_Inr_iff mk_sort_Inr_iff)
  have tidy: "tidy c" "columns_of es \<subseteq> set (out_names c)" using Sort.prems(1) by simp_all
  obtain K where K: "columns_of es \<subseteq> K" "meaning c' = map (restrict_row K) (meaning c)"
    using tidy by (rule_tac prune_child [OF tidy(1) c'(1), of "columns_of es"]) auto
  then show ?case using Sort.IH [OF tidy(1) c'(1)] Sort.prems(3) by (simp add: c'(2) sortable_restrict)
qed

interpretation projection_pruning: error_free projection_pruning
  by unfold_locales (auto simp: projection_pruning_def adds_no_errors_def dest: prune_shape prune_runs)

section \<open>Redundant projections\<close>

lemma eliminate_shape: "eliminate p = Inr q \<Longrightarrow> same_shape p q"
proof (induction p arbitrary: q)
  case (Project c es)
  then obtain c' where "eliminate c = Inr c'" "q = c' \<or> q = fuse_projection c' es"
    by (auto simp: rbind_Inr_iff split: if_splits)
  with Project.IH show ?case by (cases c') (auto simp: same_shape_def fuse_projection_def split: if_splits)
qed (auto simp: rbind_Inr_iff mk_sort_Inr_iff same_shape_nodes)

lemma fuse_runs:
  assumes "tidy (Project c es)" "runs (Project c es)"
  shows "runs (fuse_projection c es)"
proof (cases "\<exists>c0 es'. c = Project c0 es' \<and> list_all is_column es'")
  case True
  then obtain c0 es' where c: "c = Project c0 es'" "list_all is_column es'" by blast
  have "evaluates es (map (project_to es') (meaning c0)) = evaluates es (meaning c0)"
  proof (rule evaluates_map)
    fix r e assume r: "r \<in> set (meaning c0)" and e: "e \<in> set es"
    show "agree_on (referenced_columns e) (project_to es' r) r"
      by (rule fused_agree [OF assms(1) [unfolded c(1)] c(2) r e])
  qed
  then show ?thesis using assms(2) by (simp add: c fuse_projection_def)
next
  case False
  then have "fuse_projection c es = Project c es" by (cases c) (auto simp: fuse_projection_def)
  with assms show ?thesis by simp
qed

lemma eliminate_runs: "tidy p \<Longrightarrow> eliminate p = Inr q \<Longrightarrow> runs p \<Longrightarrow> runs q"
proof (induction p arbitrary: q)
  case (Project c es)
  then obtain c' where c': "eliminate c = Inr c'" "q = c' \<or> q = fuse_projection c' es"
    by (auto simp: rbind_Inr_iff split: if_splits)
  have tidy: "tidy c" using Project.prems(1) by simp
  note pr = eliminate_preserves [OF tidy c'(1)]
  have "tidy (Project c' es)"
    using preserves_Project [OF Project.prems(1) pr] unfolding preserves_def by (rule conjunct1)
  moreover have "runs (Project c' es)"
    using Project.IH [OF tidy c'(1)] Project.prems(3) pr by (simp add: preserves_def)
  ultimately show ?case using c'(2) fuse_runs by auto
next
  case (Filter c e)
  then obtain c' where c': "eliminate c = Inr c'" "q = Filter c' e" by (auto simp: rbind_Inr_iff)
  moreover have tidy: "tidy c" using Filter.prems(1) by simp
  ultimately show ?case
    using Filter.IH [OF tidy c'(1)] Filter.prems(3) eliminate_preserves [OF tidy c'(1)] by (simp add: preserves_def)
next
  case (Aggregate c gs as)
  then obtain c' where c': "eliminate c = Inr c'" "q = Aggregate c' gs as" by (auto simp: rbind_Inr_iff)
  moreover have tidy: "tidy c" using Aggregate.prems(1) by simp
  ultimately show ?case
    using Aggregate.IH [OF tidy c'(1)] Aggregate.prems(3) eliminate_preserves [OF tidy c'(1)] by (simp add: preserves_def)
next
  case (Join l r on how b)
  then show ?case by (auto simp: rbind_Inr_iff)
next
  case (Sort c es asc)
  then obtain c' where c': "eliminate c = Inr c'" "q = Sort c' es asc" by (auto simp: rbind_Inr_iff mk_sort_Inr_iff)
  moreover have tidy: "tidy c" using Sort.prems(1) by simp
  ultimately show ?case
    using Sort.IH [OF tidy c'(1)] Sort.prems(3) eliminate_preserves [OF tidy c'(1)] by (simp add: preserves_def)
qed simp

interpretation redundant_projection: error_free eliminate
  by unfold_locales (auto simp: adds_no_errors_def dest: eliminate_shape eliminate_runs)

section \<open>The optimizer\<close>

lemmas rules_safe = constant_folding.rule_safe filter_simplification.rule_safe predicate_pushdown.rule_safe
  projection_pruning.rule_safe redundant_projection.rule_safe

lemma default_rules_safe:
  assumes "rule \<in> set (default_rules config)" "preserves p q \<and> adds_no_errors p q" "rule q = Inr q'"
  shows "preserves p q' \<and> adds_no_errors p q'"
  using assms(1) rules_safe [OF assms(2)] assms(3) by (auto simp: default_rules_def split: if_splits)

lemma optimize_safe:
  assumes "preserves p q \<and> adds_no_errors p q" "optimize (default_rules config) n q = Inr q'"
  shows "preserves p q' \<and> adds_no_errors p q'"
  using assms
proof (induction n arbitrary: q)
  case (Suc n)
  from Suc.prems(2) obtain r where r: "rfold (\<lambda>q rule. rule q) q (default_rules config) = Inr r"
    "(if explain_string r = explain_string q then Inr r else optimize (default_rules config) n r) = Inr q'"
    by (auto simp: rbind_Inr_iff)
  have "preserves p r \<and> adds_no_errors p r"
    by (rule rfold_invariant [where P = "\<lambda>q. preserves p q \<and> adds_no_errors p q", OF r(1) Suc.prems(1)]) (rule default_rules_safe)
  with r(2) Suc.IH show ?case by (auto split: if_splits)
qed simp

lemma optimize_from:
  "tidy p \<Longrightarrow> optimize (default_rules config) n p = Inr q \<Longrightarrow> preserves p q \<and> adds_no_errors p q"
  using optimize_safe [of p p config n q] by (simp add: preserves_refl adds_no_errors_refl)

section \<open>The naive executor\<close>

text \<open>Where the naive executor returns rows, the plan runs; and it returns the rows of a plan that runs.\<close>

lemma gen_filter_total:
  "\<not> isl (gen_list (gen_filter (holds e) g)) \<longleftrightarrow>
     \<not> isl (gen_list g) \<and> (\<forall>r \<in> set (gen_rows g). \<not> isl (eval e r))"
proof (induction g)
  case (Yield r g)
  then show ?case by (cases "eval e r") (auto simp: holds_def isl_rbind)
qed simp_all

lemma gen_map_total:
  "\<not> isl (gen_list (gen_map f g)) \<longleftrightarrow> \<not> isl (gen_list g) \<and> (\<forall>r \<in> set (gen_rows g). \<not> isl (f r))"
proof (induction g)
  case (Yield r g)
  then show ?case by (cases "f r") (auto simp: isl_rbind)
qed simp_all

lemma gen_concat_total: "\<not> isl (gen_list (gen_concat gs)) \<longleftrightarrow> (\<forall>g \<in> set gs. \<not> isl (gen_list g))"
proof (induction gs)
  case (Cons g gs)
  then show ?case by (cases "gen_list g") (auto simp: gen_list_append isl_rbind)
qed simp

lemma project_row_total:
  "\<not> isl (project_row (map output_name es) es r) \<longleftrightarrow> (\<forall>e \<in> set es. \<not> isl (eval e r))"
proof -
  have "\<not> isl (rmap2 (\<lambda>n e. rbind (eval e r) (\<lambda>v. Inr (n, v))) (map output_name es) es)
      \<longleftrightarrow> (\<forall>e \<in> set es. \<not> isl (eval e r))"
  proof (induction es)
    case (Cons e es)
    then show ?case
      by (cases "eval e r"; cases "rmap2 (\<lambda>n e. rbind (eval e r) (\<lambda>v. Inr (n, v))) (map output_name es) es") auto
  qed simp
  then show ?thesis
    by (cases "rmap2 (\<lambda>n e. rbind (eval e r) (\<lambda>v. Inr (n, v))) (map output_name es) es")
       (simp_all add: project_row_def)
qed

definition readable_parts :: "dataset \<Rightarrow> bool" where
  "readable_parts d \<longleftrightarrow> (\<forall>q \<in> set (ds_partitions d). \<not> isl (gen_list (records q)))"

definition part_rows :: "dataset \<Rightarrow> row list" where
  "part_rows d = concat (map (\<lambda>q. gen_rows (records q)) (ds_partitions d))"

lemma set_part_rows: "set (part_rows d) = (\<Union>q \<in> set (ds_partitions d). set (gen_rows (records q)))"
  by (auto simp: part_rows_def)

lemma naive_part_rows:
  assumes "wf_plan p" "execute_naive p = Inr d" "readable_parts d"
  shows "part_rows d = meaning p"
  unfolding part_rows_def
proof (rule execute_naive_parts [OF assms(1,2)])
  show "list_all2 (\<lambda>q xs. gen_list (records q) = Inr xs) (ds_partitions d) (map (\<lambda>q. gen_rows (records q)) (ds_partitions d))"
    unfolding list_all2_map2
  proof (rule list.rel_refl_strong)
    fix q assume "q \<in> set (ds_partitions d)"
    with assms(3) obtain xs where "gen_list (records q) = Inr xs"
      by (cases "gen_list (records q)") (auto simp: readable_parts_def)
    then show "gen_list (records q) = Inr (gen_rows (records q))"
      using gen_list_rows [of "records q" xs] by simp
  qed
qed

lemma naive_readable: "wf_plan p \<Longrightarrow> execute_naive p = Inr d \<Longrightarrow> readable_parts d \<longleftrightarrow> runs p"
proof (induction p arbitrary: d)
  case (Filter c e)
  then obtain d0 where d0: "execute_naive c = Inr d0" "d = naive_filter e d0" by (auto simp: rbind_Inr_iff)
  have "readable_parts d \<longleftrightarrow> readable_parts d0 \<and> (\<forall>r \<in> set (part_rows d0). \<not> isl (eval e r))"
    by (auto simp: d0(2) readable_parts_def naive_filter_def filter_partition_def gen_filter_total set_part_rows)
  moreover have "readable_parts d0 \<Longrightarrow> part_rows d0 = meaning c"
    using Filter.prems(1) d0(1) by (intro naive_part_rows) simp_all
  ultimately show ?case using Filter.IH [OF _ d0(1)] Filter.prems(1) by (auto simp: evaluates_single)
next
  case (Project c es)
  then obtain d0 s where d0: "execute_naive c = Inr d0" "lschema (Project c es) = Inr s" "d = naive_project es s d0"
    by (auto simp: rbind_Inr_iff simp del: lschema.simps)
  have names: "field_names s = map output_name es" using lschema_Project [OF d0(2)] by simp
  have "readable_parts d \<longleftrightarrow> readable_parts d0 \<and> (\<forall>r \<in> set (part_rows d0). \<forall>e \<in> set es. \<not> isl (eval e r))"
    by (auto simp: d0(3) readable_parts_def naive_project_def project_partition_def names gen_map_total
        project_row_total set_part_rows)
  moreover have "readable_parts d0 \<Longrightarrow> part_rows d0 = meaning c"
    using Project.prems(1) d0(1) by (intro naive_part_rows) simp_all
  ultimately show ?case using Project.IH [OF _ d0(1)] Project.prems(1) by (auto simp: evaluates_def)
qed (simp_all add: readable_parts_def)

lemma execute_naive_total:
  "row_wise p \<Longrightarrow> wf_plan p \<Longrightarrow> \<exists>d. execute_naive p = Inr d"
proof (induction p)
  case (Project c es)
  then obtain d where "execute_naive c = Inr d" by auto
  moreover obtain s where "lschema (Project c es) = Inr s" using wf_schema [OF Project.prems(2)] by blast
  ultimately show ?case by simp
qed auto

lemma execute_naive_row_wise: "execute_naive p = Inr d \<Longrightarrow> row_wise p"
  by (induction p arbitrary: d) (auto simp: rbind_Inr_iff)

text \<open>What the naive executor returns for a plan, as one result\<close>

definition naive_rows :: "lplan \<Rightarrow> row list res" where
  "naive_rows p = rbind (execute_naive p) (\<lambda>d. gen_list (iter_records d))"

lemma naive_rows_iff:
  assumes "wf_plan p"
  shows "naive_rows p = Inr rows \<longleftrightarrow> row_wise p \<and> runs p \<and> rows = meaning p"
proof
  assume "naive_rows p = Inr rows"
  then obtain d where d: "execute_naive p = Inr d" "gen_list (iter_records d) = Inr rows"
    by (auto simp: naive_rows_def rbind_Inr_iff)
  from gen_concat_total [of "map records (ds_partitions d)"] d(2) have "readable_parts d"
    by (simp add: iter_records_def readable_parts_def)
  then show "row_wise p \<and> runs p \<and> rows = meaning p"
    using execute_naive_row_wise [OF d(1)] naive_readable [OF assms d(1)] execute_naive_meaning [OF assms d] by simp
next
  assume p: "row_wise p \<and> runs p \<and> rows = meaning p"
  then obtain d where d: "execute_naive p = Inr d" using execute_naive_total assms by blast
  then have "readable_parts d" using naive_readable [OF assms d] p by simp
  then obtain rows' where "gen_list (iter_records d) = Inr rows'"
    using gen_concat_total [of "map records (ds_partitions d)"]
    by (cases "gen_list (iter_records d)") (auto simp: iter_records_def readable_parts_def)
  with d p show "naive_rows p = Inr rows"
    using execute_naive_meaning [OF assms d] by (simp add: naive_rows_def)
qed

section \<open>Where a filter must not move\<close>

text \<open>
  A filter above a join, on a nullable column: the row with the null has no partner, so the query runs;
  the optimizer pushes the filter below the join, where it meets the null.
\<close>

definition staff :: lplan where
  "staff =
     (let s = [\<lparr>fname = ''k'', data_type = IntType, nullable = False\<rparr>,
               \<lparr>fname = ''v'', data_type = IntType, nullable = True\<rparr>]
      in Scan \<lparr>ds_schema = s, ds_partitions = [bucket_partition s 0
           [[(''k'', VInt 1), (''v'', VInt 10)], [(''k'', VInt 2), (''v'', VNone)]]]\<rparr> ''staff'' None)"

definition teams :: lplan where
  "teams =
     (let s = [\<lparr>fname = ''k'', data_type = IntType, nullable = False\<rparr>,
               \<lparr>fname = ''t'', data_type = StringType, nullable = False\<rparr>]
      in Scan \<lparr>ds_schema = s, ds_partitions = [bucket_partition s 0 [[(''k'', VInt 1), (''t'', VStr ''a'')]]]\<rparr> ''teams'' None)"

definition high_staff :: lplan where
  "high_staff = Filter (Join staff teams [''k''] ''inner'' False) (Binary GreaterThan (Column ''v'') (Literal (VInt 5)))"

lemma pushed_below_join_raises:
  "tidy high_staff" "runs high_staff" "\<not> filters_low high_staff"
  "map_sum id runs (optimize all_rules DEFAULT_MAX_ITERATIONS high_staff) = Inr False"
  "eval (Binary GreaterThan (Column ''v'') (Literal (VInt 5))) [(''k'', VInt 2), (''v'', VNone)] = Inl TypeError"
  unfolding tidy_def by code_simp+

section \<open>Correctness\<close>

text \<open>
  C2: The optimizer returns an equivalent plan. If the plan \<open>p\<close> is tidy, whatever the optimizer
  returns for it, with any of its rules on, has the rows of \<open>p\<close> in the same order, with the same
  output columns, and passes the analyzer. These are the rows of the reference meaning, in which an
  expression that raises is null; but no error is hidden by that: if nothing raises while \<open>p\<close>
  is evaluated, and \<open>p\<close> has no filter above a join, then nothing raises in the optimized plan either.
  Tidy means that \<open>p\<close> passes the analyzer, its scans' rows have their schema's columns, a computed
  column has an alias that is not a name below it and no \<^verbatim>\<open>AND\<close>, \<^verbatim>\<open>OR\<close> or \<^verbatim>\<open>NOT\<close> in it, \<^verbatim>\<open>AND\<close>, \<^verbatim>\<open>OR\<close> and
  \<^verbatim>\<open>NOT\<close> stand only in condition positions of filters, sorts have as many directions as columns,
  and equal join keys are the same value.
\<close>

theorem optimize_preserves_meaning:
  assumes "tidy p" "optimize (default_rules config) DEFAULT_MAX_ITERATIONS p = Inr q"
  shows "meaning q = meaning p \<and> out_names q = out_names p \<and> wf_plan q
    \<and> (filters_low p \<and> runs p \<longrightarrow> runs q)"
  using optimize_from [OF assms] by (simp add: preserves_def adds_no_errors_def tidy_wf)

theorem optimize_preserves_meaning_witness:
  "\<exists>q. optimize all_rules DEFAULT_MAX_ITERATIONS account_report = Inr q \<and> meaning q = [[(''w'', VInt 8)], [(''w'', VInt 24)]]
     \<and> out_names q = [''w''] \<and> wf_plan q \<and> runs q"
proof -
  obtain q where q: "optimize all_rules DEFAULT_MAX_ITERATIONS account_report = Inr q"
    using report_optimized by (cases "optimize all_rules DEFAULT_MAX_ITERATIONS account_report") auto
  moreover have "out_names account_report = [''w'']" "filters_low account_report" "runs account_report" by code_simp+
  ultimately show ?thesis
    using optimize_preserves_meaning [OF report_tidy q [unfolded all_rules_def]] report_rows by auto
qed

text \<open>
  C35: Only constant folding raises. If the optimizer raises on a tidy plan, it is in the folding step
  at the start of one of its ten rounds: folding raises just this error on an expression of the plan
  that the rounds before have made, which has the rows and the columns of the original. No other rule
  raises, however the rounds before have rewritten the plan.
\<close>

theorem optimize_only_folding_raises:
  assumes "tidy p" "optimize (default_rules config) DEFAULT_MAX_ITERATIONS p = Inl err"
  shows "\<exists>k < DEFAULT_MAX_ITERATIONS. \<exists>q. rounds (default_rules config) k p = Inr q
    \<and> constant_folding q = Inl err \<and> (\<exists>e \<in> set (plan_expressions q). const_fold e = Inl err)
    \<and> meaning q = meaning p \<and> out_names q = out_names p"
proof -
  obtain k q where q: "k < DEFAULT_MAX_ITERATIONS" "rounds (default_rules config) k p = Inr q"
    "rfold (\<lambda>q rule. rule q) q (default_rules config) = Inl err"
    using optimize_round_error [OF assms(2)] by blast
  have pr: "preserves p q" by (rule rounds_preserve [OF assms(1) q(2)])
  then have tidy: "tidy q" by (simp only: preserves_def)
  note fold = round_errors [OF q(3) tidy]
  from map_expressions_error [OF tidy, of const_fold] fold show ?thesis
    using q(1,2) pr by (auto simp: constant_folding_def preserves_def)
qed

theorem optimize_only_folding_raises_witness:
  "\<exists>k < 10. \<exists>q. rounds all_rules k (Project (Filter accounts (Literal (VBool False)))
        [Alias (Binary Divide (Literal (VInt 1)) (Literal (VInt 0))) ''x'']) = Inr q
     \<and> meaning q = [] \<and> constant_folding q = Inl ZeroDivisionError"
proof -
  let ?p = "Project (Filter accounts (Literal (VBool False)))
    [Alias (Binary Divide (Literal (VInt 1)) (Literal (VInt 0))) ''x'']"
  have p: "tidy ?p" "meaning ?p = []"
    "map_sum id out_names (optimize all_rules DEFAULT_MAX_ITERATIONS ?p) = Inl ZeroDivisionError"
    using folding_raises by (simp_all only: Let_def)
  then have "optimize all_rules DEFAULT_MAX_ITERATIONS ?p = Inl ZeroDivisionError"
    by (cases "optimize all_rules DEFAULT_MAX_ITERATIONS ?p") auto
  from optimize_only_folding_raises [OF p(1) this [unfolded all_rules_def]] p(2) show ?thesis
    by (auto simp: all_rules_def DEFAULT_MAX_ITERATIONS_def)
qed

text \<open>
  C36: Optimizing changes nothing that the naive executor shows. If it returns rows for a tidy plan,
  it returns the same rows, in the same order and without an error, for whatever plan the optimizer
  makes of it in any number of rounds. (Tidy as in \<open>optimize_preserves_meaning\<close>; the naive executor
  handles scans, filters and projections.)
\<close>

theorem optimized_naive_rows:
  assumes "tidy p" "optimize (default_rules config) n p = Inr q"
    and "rbind (execute_naive p) (\<lambda>d. gen_list (iter_records d)) = Inr rows"
  shows "rbind (execute_naive q) (\<lambda>d. gen_list (iter_records d)) = Inr rows"
proof -
  have q: "preserves p q" "adds_no_errors p q" using optimize_from [OF assms(1,2)] by simp_all
  have p: "row_wise p" "runs p" "rows = meaning p"
    using naive_rows_iff [OF tidy_wf [OF assms(1)], of rows] assms(3) unfolding naive_rows_def by blast+
  then have "row_wise q" "runs q" "meaning q = meaning p"
    using q row_wise_low [of p] by (simp_all add: adds_no_errors_def same_shape_def preserves_def)
  moreover have "wf_plan q" using q(1) by (simp add: preserves_def tidy_wf)
  ultimately show ?thesis using naive_rows_iff [of q rows] p(3) unfolding naive_rows_def by simp
qed

theorem optimized_naive_rows_witness:
  "rbind (optimize all_rules 10 account_report) (\<lambda>q. rbind (execute_naive q) (\<lambda>d. gen_list (iter_records d)))
     = Inr [[(''w'', VInt 8)], [(''w'', VInt 24)]]"
proof -
  have rows: "rbind (execute_naive account_report) (\<lambda>d. gen_list (iter_records d)) = Inr [[(''w'', VInt 8)], [(''w'', VInt 24)]]"
    by code_simp
  obtain q where q: "optimize all_rules 10 account_report = Inr q"
    using report_optimized by (cases "optimize all_rules 10 account_report") (auto simp: DEFAULT_MAX_ITERATIONS_def)
  from optimized_naive_rows [OF report_tidy q [unfolded all_rules_def] rows] q show ?thesis by simp
qed

end
