(* ===== verification/MemorySource.thy ===== *)
theory MemorySource
  imports LogicalPlan
begin

text \<open>
  The in-memory data source (\<^verbatim>\<open>storage/memory.py\<close>): rows are dealt to partitions in contiguous
  chunks; a read may ask for some of the columns, a filter hint is ignored.
\<close>

definition infer_schema :: "row list \<Rightarrow> schema res" where
  "infer_schema rows =
     (case rows of
        [] \<Rightarrow> Inl ValueError
      | r # _ \<Rightarrow> mk_schema (map (\<lambda>(k, v). \<lparr>fname = k, data_type = infer_type v, nullable = (v = VNone)\<rparr>) r))"

record memory_source =
  ms_records :: "row list"
  ms_schema :: schema
  ms_partitions :: nat

text \<open>\<^verbatim>\<open>schema or infer_schema(records)\<close>: an empty schema has length 0, so it is inferred as well.\<close>

definition mk_memory_source :: "row list \<Rightarrow> schema option \<Rightarrow> int \<Rightarrow> memory_source res" where
  "mk_memory_source rows s n =
     rbind (case s of Some (f # fs) \<Rightarrow> Inr (f # fs) | _ \<Rightarrow> infer_schema rows) (\<lambda>s'.
       Inr \<lparr>ms_records = rows, ms_schema = s',
            ms_partitions = nat (max 1 (min n (if rows = [] then 1 else int (length rows))))\<rparr>)"

definition project_columns :: "row list \<Rightarrow> string list option \<Rightarrow> row list res" where
  "project_columns rows columns =
     (case columns of
        None \<Rightarrow> Inr rows
      | Some cs \<Rightarrow> rmap (\<lambda>r. rbind (rmap (\<lambda>n. rbind (row_get r n) (\<lambda>v. Inr (n, v))) cs)
                             (\<lambda>kvs. Inr (dict_of kvs))) rows)"

text \<open>\<^verbatim>\<open>-(-total // n)\<close>\<close>

definition chunk_size :: "nat \<Rightarrow> nat \<Rightarrow> nat" where
  "chunk_size n_rows n = (if n = 0 then n_rows else (n_rows + n - 1) div n)"

text \<open>The rows \<^verbatim>\<open>records[start:end]\<close> of partition \<open>i\<close>, unless the loop skips it.\<close>

definition chunk_bounds :: "nat \<Rightarrow> nat \<Rightarrow> nat \<Rightarrow> (nat \<times> nat) option" where
  "chunk_bounds n_rows len i =
     (let start = i * len; stop = min ((i + 1) * len) n_rows
      in if stop \<le> start \<and> 0 < n_rows then None else Some (start, stop))"

text \<open>The ranges of the partitions, with their numbers.\<close>

definition chunk_ranges :: "nat \<Rightarrow> nat \<Rightarrow> nat \<Rightarrow> (nat \<times> nat \<times> nat) list" where
  "chunk_ranges n_rows len n =
     List.map_filter (\<lambda>i. map_option (\<lambda>(a, b). (i, a, b)) (chunk_bounds n_rows len i)) [0..<n]"

definition memory_partition ::
    "memory_source \<Rightarrow> schema \<Rightarrow> string list option \<Rightarrow> nat \<times> nat \<times> nat \<Rightarrow> partition res" where
  "memory_partition src s columns c =
     (case c of (i, start, stop) \<Rightarrow>
        rbind (project_columns (take (stop - start) (drop start (ms_records src))) columns) (\<lambda>rows.
          Inr (bucket_partition s i rows)))"

definition memory_read :: "memory_source \<Rightarrow> string list option \<Rightarrow> expr option \<Rightarrow> dataset res" where
  "memory_read src columns filt =
     rbind (case columns of Some cs \<Rightarrow> schema_select (ms_schema src) cs | None \<Rightarrow> Inr (ms_schema src)) (\<lambda>s.
       let n_rows = length (ms_records src); len = chunk_size n_rows (ms_partitions src);
           chunks = chunk_ranges n_rows len (ms_partitions src)
       in rbind (rmap (memory_partition src s columns) chunks) (\<lambda>ps.
            Inr \<lparr>ds_schema = s, ds_partitions = (if ps = [] then [bucket_partition s 0 []] else ps)\<rparr>))"

section \<open>The ranges cover the rows\<close>

lemma ceil_div_mult: "0 < n \<Longrightarrow> k \<le> n * ((k + n - 1) div n)" for n k :: nat
proof -
  assume n: "0 < n"
  have "(k + n - 1) mod n < n" using n by simp
  moreover have "(k + n - 1) div n * n + (k + n - 1) mod n = k + n - 1" by (rule div_mult_mod_eq)
  ultimately have "k \<le> (k + n - 1) div n * n" using n by linarith
  then show ?thesis by (simp add: mult.commute)
qed

lemma concat_chunks:
  "concat (map (\<lambda>i. take (min ((i + 1) * k) (length xs) - i * k) (drop (i * k) xs)) [0..<n]) = take (n * k) xs"
proof (induction n)
  case (Suc n)
  have "take (min ((n + 1) * k) (length xs) - n * k) (drop (n * k) xs) = take k (drop (n * k) xs)"
    by (simp add: min_def)
  moreover have "take (n * k) xs @ take k (drop (n * k) xs) = take (n * k + k) xs"
    by (simp only: take_add)
  ultimately show ?case using Suc by (simp add: add.commute)
qed simp

lemma concat_map_filter_skip:
  assumes "\<And>i. i \<in> set is \<Longrightarrow> g i = None \<Longrightarrow> f i = []"
  shows "concat (map (\<lambda>(i, a, b). h a b) (List.map_filter (\<lambda>i. map_option (\<lambda>(a, b). (i, a, b)) (g i)) is))
    = concat (map (\<lambda>i. case g i of None \<Rightarrow> f i | Some (a, b) \<Rightarrow> h a b) is)"
  using assms
  by (induction "is") (auto simp: map_filter_simps split: option.splits)

lemma chunk_ranges_cover:
  assumes "length xs \<le> n * k"
  shows "concat (map (\<lambda>(i, a, b). take (b - a) (drop a xs)) (chunk_ranges (length xs) k n)) = xs"
proof -
  let ?f = "\<lambda>i. take (min ((i + 1) * k) (length xs) - i * k) (drop (i * k) xs)"
  have skip: "?f i = []" if "chunk_bounds (length xs) k i = None" for i
    using that by (auto simp: chunk_bounds_def Let_def split: if_splits)
  have "concat (map (\<lambda>(i, a, b). take (b - a) (drop a xs)) (chunk_ranges (length xs) k n))
      = concat (map (\<lambda>i. case chunk_bounds (length xs) k i of None \<Rightarrow> ?f i
          | Some (a, b) \<Rightarrow> take (b - a) (drop a xs)) [0..<n])"
    unfolding chunk_ranges_def by (rule concat_map_filter_skip) (use skip in auto)
  also have "\<dots> = concat (map ?f [0..<n])"
    by (intro arg_cong [of _ _ concat] map_cong refl)
       (auto simp: chunk_bounds_def Let_def split: if_splits)
  also have "\<dots> = take (n * k) xs" by (rule concat_chunks)
  finally show ?thesis using assms by simp
qed

lemma chunk_ranges_bounds: "(i, a, b) \<in> set (chunk_ranges m k n) \<Longrightarrow> i < n \<and> a = i * k \<and> b \<le> m"
  by (auto simp: chunk_ranges_def map_filter_def chunk_bounds_def Let_def split: if_splits)

end
