(* ===== verification/ScanPushdown.thy ===== *)
theory ScanPushdown
  imports Planner MemorySource OptimizerRules
begin

text \<open>
  Scan pushdown keeps the meaning of a plan, whatever a source does with the hints within its
  contract (\<^verbatim>\<open>storage/datasource.py\<close>): it may leave out columns that were not asked for, and rows
  that the filter would drop.  The contract is the locale \<open>data_source\<close>; the in-memory source keeps it.
\<close>

section \<open>The contract of a data source\<close>

definition hinted_filter :: "expr option \<Rightarrow> row list \<Rightarrow> row list" where
  "hinted_filter f rows = (case f of None \<Rightarrow> rows | Some e \<Rightarrow> filter (passes e) rows)"

definition honours :: "dataset \<Rightarrow> string list option \<Rightarrow> expr option \<Rightarrow> dataset \<Rightarrow> bool" where
  "honours d columns f d' \<longleftrightarrow> (\<exists>rows.
     set rows \<subseteq> set (scan_rows d)
     \<and> hinted_filter f rows = hinted_filter f (scan_rows d)
     \<and> (case columns of
          None \<Rightarrow> scan_rows d' = rows \<and> field_names (ds_schema d') = field_names (ds_schema d)
        | Some cs \<Rightarrow> scan_rows d' = map (project_to (map Column cs)) rows \<and> field_names (ds_schema d') = cs))"

definition honest :: "(string list option \<Rightarrow> expr option \<Rightarrow> dataset res) \<Rightarrow> dataset \<Rightarrow> bool" where
  "honest src d \<longleftrightarrow> (\<forall>columns f d'. src columns f = Inr d' \<longrightarrow> honours d columns f d')"

locale data_source =
  fixes read :: "'s \<Rightarrow> string list option \<Rightarrow> expr option \<Rightarrow> dataset res"
    and rows :: "'s \<Rightarrow> row list" and names :: "'s \<Rightarrow> string list"
  assumes read_rows: "read s None f = Inr d \<Longrightarrow> scan_rows d = rows s"
    and read_columns: "read s (Some cs) f = Inr d \<Longrightarrow> scan_rows d = map (project_to (map Column cs)) (rows s)"
    and read_schema: "read s columns f = Inr d \<Longrightarrow>
      field_names (ds_schema d) = (case columns of None \<Rightarrow> names s | Some cs \<Rightarrow> cs)"
begin

lemma source_honest: "read s None None = Inr d \<Longrightarrow> honest (read s) d"
  unfolding honest_def honours_def
proof (intro allI impI exI conjI)
  fix columns f d'
  assume d: "read s None None = Inr d" and d': "read s columns f = Inr d'"
  have full: "scan_rows d = rows s" by (rule read_rows [OF d])
  show "hinted_filter f (rows s) = hinted_filter f (scan_rows d)" by (simp add: full)
  show "case columns of
      None \<Rightarrow> scan_rows d' = rows s \<and> field_names (ds_schema d') = field_names (ds_schema d)
    | Some cs \<Rightarrow> scan_rows d' = map (project_to (map Column cs)) (rows s) \<and> field_names (ds_schema d') = cs"
    using d' read_rows read_columns read_schema [OF d] read_schema [OF d'] by (auto split: option.split)
  show "set (rows s) \<subseteq> set (scan_rows d)" by (simp add: full)
qed

end

section \<open>The in-memory source\<close>

definition memory_chunks :: "memory_source \<Rightarrow> (nat \<times> nat \<times> nat) list" where
  "memory_chunks src =
     chunk_ranges (length (ms_records src)) (chunk_size (length (ms_records src)) (ms_partitions src)) (ms_partitions src)"

lemma memory_chunks_rows:
  assumes "0 < ms_partitions src"
  shows "concat (map (\<lambda>(i, a, b). take (b - a) (drop a (ms_records src))) (memory_chunks src)) = ms_records src"
proof -
  have "length (ms_records src) \<le> ms_partitions src * chunk_size (length (ms_records src)) (ms_partitions src)"
    using ceil_div_mult [OF assms] assms by (simp add: chunk_size_def)
  then show ?thesis unfolding memory_chunks_def by (rule chunk_ranges_cover)
qed

lemma scan_rows_buckets: "scan_rows \<lparr>ds_schema = s, ds_partitions = map (\<lambda>(i, rows). bucket_partition s i rows) xs\<rparr>
    = concat (map snd xs)"
proof -
  have "gen_rows (gen_of rows) = rows" for rows :: "row list" by (induction rows) auto
  then show ?thesis by (simp add: scan_rows_def bucket_partition_def comp_def case_prod_unfold)
qed

lemma memory_read_parts:
  assumes "memory_read src columns f = Inr d" "0 < ms_partitions src"
    and proj: "\<And>xs ys. project_columns xs columns = Inr ys \<Longrightarrow> ys = map g xs"
  shows "scan_rows d = map g (ms_records src)"
proof -
  let ?rows = "\<lambda>c. case c of (i :: nat, a, b) \<Rightarrow> take (b - a) (drop a (ms_records src))"
  obtain s ps where ps: "rmap (memory_partition src s columns) (memory_chunks src) = Inr ps"
    "d = \<lparr>ds_schema = s, ds_partitions = (if ps = [] then [bucket_partition s 0 []] else ps)\<rparr>"
    using assms(1) by (auto simp: memory_read_def memory_chunks_def Let_def rbind_Inr_iff)
  have "list_all2 (\<lambda>c p. p = bucket_partition s (fst c) (map g (?rows c))) (memory_chunks src) ps"
    using ps(1) proj unfolding rmap_Inr_iff
    by (auto simp: memory_partition_def rbind_Inr_iff elim!: list_all2_mono)
  then have "ps = map (\<lambda>(i, rows). bucket_partition s i rows) (map (\<lambda>c. (fst c, map g (?rows c))) (memory_chunks src))"
    by (induction rule: list_all2_induct) auto
  then have "scan_rows \<lparr>ds_schema = s, ds_partitions = ps\<rparr> = concat (map (\<lambda>c. map g (?rows c)) (memory_chunks src))"
    by (simp only: scan_rows_buckets) (simp add: comp_def)
  also have "\<dots> = map g (concat (map ?rows (memory_chunks src)))" by (simp add: map_concat comp_def)
  also have "\<dots> = map g (ms_records src)" by (simp only: memory_chunks_rows [OF assms(2)])
  finally have all: "scan_rows \<lparr>ds_schema = s, ds_partitions = ps\<rparr> = map g (ms_records src)" .
  show ?thesis
  proof (cases "ps = []")
    case True
    then have "map g (ms_records src) = []" using all by (simp add: scan_rows_def)
    then show ?thesis using True ps(2) by (simp add: scan_rows_def bucket_partition_def)
  qed (use all ps(2) in simp)
qed

lemma project_columns_to:
  assumes "project_columns xs (Some cs) = Inr ys" "distinct cs"
  shows "ys = map (project_to (map Column cs)) xs"
proof -
  have row: "dict_of kvs = project_to (map Column cs) r"
    if "rmap (\<lambda>n. rbind (row_get r n) (\<lambda>v. Inr (n, v))) cs = Inr kvs" for r kvs
  proof -
    have "list_all2 (\<lambda>n kv. rbind (row_get r n) (\<lambda>v. Inr (n, v)) = Inr kv) cs kvs"
      using that by (simp add: rmap_Inr_iff)
    then have "kvs = map (\<lambda>n. (n, tev (Column n) r)) cs"
      by (induction rule: list_all2_induct) (auto simp: rbind_Inr_iff)
    with assms(2) show ?thesis by (simp add: dict_of_distinct_id project_to_def comp_def)
  qed
  have "list_all2 (\<lambda>r y. y = project_to (map Column cs) r) xs ys"
    using assms(1) row by (auto simp: project_columns_def rmap_Inr_iff rbind_Inr_iff elim!: list_all2_mono)
  then show ?thesis by (induction rule: list_all2_induct) auto
qed

text \<open>A source with partitions, as its constructor makes it.\<close>

typedef memory_data = "{src :: memory_source. 0 < ms_partitions src}" morphisms memory_of Memory_data
  by (rule exI [of _ "\<lparr>ms_records = [], ms_schema = [], ms_partitions = 1\<rparr>"]) simp

lemma mk_memory_source_partitions: "mk_memory_source rows s n = Inr src \<Longrightarrow> 0 < ms_partitions src \<and> ms_records src = rows"
  by (auto simp: mk_memory_source_def rbind_Inr_iff)

interpretation memory: data_source "\<lambda>s. memory_read (memory_of s)" "\<lambda>s. ms_records (memory_of s)"
    "\<lambda>s. field_names (ms_schema (memory_of s))"
proof
  fix s f d assume "memory_read (memory_of s) None f = Inr d"
  from memory_read_parts [OF this, of "\<lambda>r. r"] show "scan_rows d = ms_records (memory_of s)"
    using memory_of [of s] by (simp add: project_columns_def)
next
  fix s cs f d assume d: "memory_read (memory_of s) (Some cs) f = Inr d"
  then have "distinct cs" by (auto simp: memory_read_def rbind_Inr_iff dest: schema_select_names)
  with memory_read_parts [OF d] memory_of [of s] project_columns_to
  show "scan_rows d = map (project_to (map Column cs)) (ms_records (memory_of s))" by auto
next
  fix s columns f d assume "memory_read (memory_of s) columns f = Inr d"
  then show "field_names (ds_schema d) =
      (case columns of None \<Rightarrow> field_names (ms_schema (memory_of s)) | Some cs \<Rightarrow> cs)"
    by (auto simp: memory_read_def Let_def rbind_Inr_iff dest: schema_select_names split: option.splits)
qed

lemma memory_source_honest:
  assumes "mk_memory_source rows s n = Inr src" "memory_read src None None = Inr d"
  shows "honest (memory_read src) d"
proof -
  have "memory_of (Memory_data src) = src"
    using mk_memory_source_partitions [OF assms(1)] by (intro Memory_data_inverse) simp
  with memory.source_honest [of "Memory_data src" d] assms(2) show ?thesis by simp
qed

section \<open>The pass over a plan\<close>

fun sources_honest :: "lplan \<Rightarrow> bool" where
  "sources_honest (Scan d _ src) = (\<forall>s. src = Some s \<longrightarrow> honest s d)"
| "sources_honest (Filter c _) = sources_honest c"
| "sources_honest (Project c _) = sources_honest c"
| "sources_honest (Aggregate c _ _) = sources_honest c"
| "sources_honest (Join l r _ _ _) = (sources_honest l \<and> sources_honest r)"
| "sources_honest (Sort c _ _) = sources_honest c"

text \<open>
  What the rows of a rewritten plan may differ in, below the hints: columns that were not asked for,
  and rows that do not pass the filters above.
\<close>

definition same_rows :: "string set option \<Rightarrow> row list \<Rightarrow> row list \<Rightarrow> bool" where
  "same_rows C rows rows' =
     (case C of None \<Rightarrow> rows' = rows | Some N \<Rightarrow> list_all2 (agree_on N) rows' rows)"

definition hints_ok :: "string set option \<Rightarrow> expr option \<Rightarrow> lplan \<Rightarrow> bool" where
  "hints_ok C f p \<longleftrightarrow> (\<forall>N. C = Some N \<longrightarrow> finite N \<and> N \<subseteq> set (out_names p)
     \<and> (\<forall>e. f = Some e \<longrightarrow> referenced_columns e \<subseteq> N))"

definition rereads :: "string set option \<Rightarrow> expr option \<Rightarrow> lplan \<Rightarrow> lplan \<Rightarrow> bool" where
  "rereads C f p q \<longleftrightarrow> wf_plan q \<and> scans_conform q
     \<and> (case C of None \<Rightarrow> out_names q = out_names p | Some N \<Rightarrow> N \<subseteq> set (out_names q))
     \<and> same_rows C (hinted_filter f (meaning p)) (hinted_filter f (meaning q))"

lemma agree_on_refl [simp]: "agree_on N r r"
  by (simp add: agree_on_def)

lemma same_rows_refl: "rows' = rows \<Longrightarrow> same_rows C rows rows'"
  by (simp add: same_rows_def list_all2_refl split: option.split)

lemma rereads_same:
  assumes "wf_plan q" "scans_conform q" "out_names q = out_names p" "meaning q = meaning p" "hints_ok C f p"
  shows "rereads C f p q"
  using assms by (auto simp: rereads_def hints_ok_def same_rows_refl split: option.split)

lemma passes_add_condition [simp]:
  "passes (add_condition None e) = passes e"
  "passes (add_condition (Some g) e) = (\<lambda>r. passes g r \<and> passes e r)"
  by (auto simp: passes_def add_condition_def)

lemma hinted_filter_simps [simp]:
  "hinted_filter None rows = rows"
  "hinted_filter f (filter (passes e) rows) = hinted_filter (Some (add_condition f e)) rows"
  by (cases f; auto simp: hinted_filter_def intro: filter_cong)+

lemma project_columns_agree: "N = set ns \<Longrightarrow> N \<subseteq> fst ` set r \<Longrightarrow> agree_on N (project_to (map Column ns) r) r"
proof -
  assume N: "N = set ns" "N \<subseteq> fst ` set r"
  have "map_of (project_to (map Column ns) r) n = Some (tev (Column n) r)" if "n \<in> set ns" for n
    using that by (induction ns) (auto simp: project_to_def)
  moreover have "map_of r n = Some (tev (Column n) r)" if "n \<in> set ns" for n
    using that N by (intro row_get_column) auto
  ultimately show ?thesis using N(1) by (simp add: agree_on_def)
qed

lemma reread_honoured:
  assumes src: "src (map_option sorted_list_of_set C) f = Inr d'" "honest src d"
    and conform: "\<forall>r \<in> set (scan_rows d). map fst r = field_names (ds_schema d)"
    and wf: "distinct (field_names (ds_schema d))" and ok: "hints_ok C f (Scan d name (Some src))"
  shows "rereads C f (Scan d name (Some src)) (Scan d' name (Some src))"
proof -
  have "honours d (map_option sorted_list_of_set C) f d'" using src by (simp add: honest_def)
  then obtain rows where rows: "set rows \<subseteq> set (scan_rows d)"
      "hinted_filter f rows = hinted_filter f (scan_rows d)"
    and cols: "case map_option sorted_list_of_set C of
        None \<Rightarrow> scan_rows d' = rows \<and> field_names (ds_schema d') = field_names (ds_schema d)
      | Some cs \<Rightarrow> scan_rows d' = map (project_to (map Column cs)) rows \<and> field_names (ds_schema d') = cs"
    unfolding honours_def by blast
  show ?thesis
  proof (cases C)
    case None
    with cols rows conform wf show ?thesis by (auto simp: rereads_def same_rows_def)
  next
    case (Some N)
    define ns where "ns = sorted_list_of_set N"
    have N: "set ns = N" "distinct ns" "N \<subseteq> set (field_names (ds_schema d))"
        "\<forall>e. f = Some e \<longrightarrow> referenced_columns e \<subseteq> N"
      using ok Some by (auto simp: hints_ok_def ns_def)
    have d': "scan_rows d' = map (project_to (map Column ns)) rows" "field_names (ds_schema d') = ns"
      using cols by (simp_all add: Some ns_def)
    have agree: "agree_on N (project_to (map Column ns) r) r" if "r \<in> set rows" for r
    proof (rule project_columns_agree)
      have "map fst r = field_names (ds_schema d)" using that rows(1) conform by blast
      then show "N \<subseteq> fst ` set r" using N(3) by (metis set_map)
    qed (simp add: N(1))
    have "hinted_filter f (scan_rows d') = map (project_to (map Column ns)) (hinted_filter f rows)"
    proof (cases f)
      case (Some e)
      have "passes e (project_to (map Column ns) r) = passes e r" if "r \<in> set rows" for r
        using N(4) Some by (intro passes_agree agree_on_subset [OF agree [OF that]]) simp
      then show ?thesis
        by (auto simp: hinted_filter_def Some d' filter_map comp_def intro!: arg_cong [of _ _ "map _"] filter_cong)
    qed (simp add: hinted_filter_def d')
    moreover have "set (hinted_filter f rows) \<subseteq> set rows" by (auto simp: hinted_filter_def split: option.splits)
    then have "list_all2 (agree_on N) (map (project_to (map Column ns)) (hinted_filter f rows)) (hinted_filter f rows)"
      using agree by (auto simp: list_all2_map1 list_all2_same)
    ultimately have same: "list_all2 (agree_on N) (hinted_filter f (scan_rows d')) (hinted_filter f (scan_rows d))"
      by (simp only: rows(2))
    have "map fst (project_to (map Column ns) r) = ns" for r
      by (simp add: project_to_def comp_def)
    then have "scans_conform (Scan d' name (Some src))" by (auto simp: d')
    with same N(1,2) d'(2) show ?thesis by (simp add: rereads_def same_rows_def Some)
  qed
qed

lemma walk_rereads:
  "\<lbrakk>wf_plan p; scans_conform p; sources_honest p; hints_ok C f p; walk_for_pushdown p C f = Inr q\<rbrakk> \<Longrightarrow>
   rereads C f p q"
proof (induction p arbitrary: C f q)
  case (Scan d name src)
  show ?case
  proof (cases "src = None \<or> C = None \<and> f = None")
    case True
    with Scan.prems show ?thesis by (auto intro!: rereads_same)
  next
    case False
    then obtain s where s: "src = Some s" by (cases src) auto
    have "(case (C, f) of (Some N, Some e) \<Rightarrow> Some (N \<union> referenced_columns e) | _ \<Rightarrow> C) = C"
      using Scan.prems(4) by (auto simp: hints_ok_def split: option.split)
    with Scan.prems(5) s False obtain d' where "s (map_option sorted_list_of_set C) f = Inr d'"
      "q = Scan d' name src"
      by (auto simp: reread_scan_def rbind_Inr_iff)
    with Scan.prems s show ?thesis by (auto intro!: reread_honoured)
  qed
next
  case (Filter c e)
  let ?C = "map_option (\<lambda>N. N \<union> referenced_columns e) C" and ?f = "Some (add_condition f e)"
  obtain c' where c': "walk_for_pushdown c ?C ?f = Inr c'" "q = Filter c' e"
    using Filter.prems(5) by (auto simp: rbind_Inr_iff)
  have "hints_ok ?C ?f c"
    using Filter.prems(1,4) by (auto simp: hints_ok_def add_condition_def split: option.splits)
  with Filter c'(1) have c: "rereads ?C ?f c c'" by simp
  have "agree_on (N \<union> M) r s \<Longrightarrow> agree_on N r s" for N M r s by (auto simp: agree_on_def)
  with c Filter.prems(1) show ?case
    by (auto simp: rereads_def same_rows_def c'(2) split: option.splits elim!: list_all2_mono)
next
  case (Project c es)
  obtain c' where c': "walk_for_pushdown c (Some (columns_of es)) None = Inr c'" "q = Project c' es"
    using Project.prems(5) by (auto simp: rbind_Inr_iff)
  have "hints_ok (Some (columns_of es)) None c"
    using Project.prems(1) by (auto simp: hints_ok_def columns_of_def finite_referenced_columns)
  with Project c'(1) have c: "rereads (Some (columns_of es)) None c c'" by simp
  then have "list_all2 (agree_on (columns_of es)) (meaning c') (meaning c)"
    by (simp add: rereads_def same_rows_def hinted_filter_def)
  moreover have "project_to es r = project_to es s" if "agree_on (columns_of es) r s" for r s
    using that by (auto simp: project_to_def columns_of_def intro!: tev_agree elim!: agree_on_subset)
  ultimately have "map (project_to es) (meaning c') = map (project_to es) (meaning c)"
    by (induction rule: list_all2_induct) auto
  with c Project.prems(1,4) show ?case
    unfolding c'(2) by (intro rereads_same) (auto simp: rereads_def)
next
  case (Aggregate c gs as)
  then obtain c' where c': "walk_for_pushdown c None None = Inr c'" "q = Aggregate c' gs as"
    by (auto simp: rbind_Inr_iff)
  with Aggregate have "rereads None None c c'" by (simp add: hints_ok_def)
  with Aggregate.prems(1,4) show ?case
    unfolding c'(2) by (intro rereads_same) (auto simp: rereads_def same_rows_def hinted_filter_def)
next
  case (Join l r on how b)
  then obtain l' r' where q: "walk_for_pushdown l None None = Inr l'"
    "walk_for_pushdown r None None = Inr r'" "q = Join l' r' on how b"
    by (auto simp: rbind_Inr_iff)
  with Join have "rereads None None l l'" "rereads None None r r'" by (simp_all add: hints_ok_def)
  with Join.prems(1,4) show ?case
    unfolding q(3) by (intro rereads_same) (auto simp: rereads_def same_rows_def hinted_filter_def)
next
  case (Sort c es asc)
  then obtain c' where c': "walk_for_pushdown c None None = Inr c'" "q = Sort c' es asc"
    by (auto simp: rbind_Inr_iff mk_sort_Inr_iff)
  with Sort have "rereads None None c c'" by (simp add: hints_ok_def)
  with Sort.prems(1,4) show ?case
    unfolding c'(2) by (intro rereads_same) (auto simp: rereads_def same_rows_def hinted_filter_def)
qed

text \<open>
  C8: Re-reading the scans of a plan with column and filter hints keeps its rows and its output
  columns, for sources that keep the contract of \<^verbatim>\<open>DataSource.read\<close>.
\<close>

theorem pushdown_scan_reads_correct:
  assumes "wf_plan p" "scans_conform p" "sources_honest p" "pushdown_scan_reads p = Inr q"
  shows "meaning q = meaning p \<and> out_names q = out_names p \<and> wf_plan q \<and> scans_conform q"
  using walk_rereads [OF assms(1-3), of None None q] assms(4)
  by (simp add: pushdown_scan_reads_def hints_ok_def rereads_def same_rows_def hinted_filter_def)

definition stock_source :: memory_source where
  "stock_source =
     \<lparr>ms_records = map (\<lambda>(i, q). [(''id'', VInt i), (''qty'', VInt q), (''bin'', VStr ''b'')]) [(1, 5), (2, 0), (3, 7)],
      ms_schema = [\<lparr>fname = ''id'', data_type = IntType, nullable = False\<rparr>,
        \<lparr>fname = ''qty'', data_type = IntType, nullable = False\<rparr>,
        \<lparr>fname = ''bin'', data_type = StringType, nullable = False\<rparr>],
      ms_partitions = 2\<rparr>"

definition stock_data :: dataset where
  "stock_data = (case memory_read stock_source None None of Inr d \<Rightarrow> d | Inl _ \<Rightarrow> \<lparr>ds_schema = [], ds_partitions = []\<rparr>)"

definition stock_query :: lplan where
  "stock_query = Project (Filter (Scan stock_data ''memory'' (Some (memory_read stock_source)))
     (Binary GreaterThan (Column ''qty'') (Literal (VInt 0)))) [Column ''id'']"

lemma stock_data_read: "memory_read stock_source None None = Inr stock_data"
proof -
  have "\<not> isl (memory_read stock_source None None)" by code_simp
  then show ?thesis by (cases "memory_read stock_source None None") (auto simp: stock_data_def)
qed

lemma stock_honest: "sources_honest stock_query"
proof -
  have "mk_memory_source (ms_records stock_source) (Some (ms_schema stock_source)) 2 = Inr stock_source"
    by (simp add: mk_memory_source_def stock_source_def)
  from memory_source_honest [OF this stock_data_read] show ?thesis by (simp add: stock_query_def)
qed

theorem pushdown_scan_reads_correct_witness:
  "map_sum id explain_string (pushdown_scan_reads stock_query) = Inr (join_str [CHR 0x0A]
     [''Project[id]'',
      ''  Filter[GreaterThan(Column('' @ [CHR 0x27] @ ''qty'' @ [CHR 0x27] @ ''), Literal(0))]'',
      ''    Scan[memory] (id, qty)''])
   \<and> (\<exists>q. pushdown_scan_reads stock_query = Inr q \<and> meaning q = [[(''id'', VInt 1)], [(''id'', VInt 3)]])"
proof
  show explain: "map_sum id explain_string (pushdown_scan_reads stock_query) = Inr (join_str [CHR 0x0A]
     [''Project[id]'',
      ''  Filter[GreaterThan(Column('' @ [CHR 0x27] @ ''qty'' @ [CHR 0x27] @ ''), Literal(0))]'',
      ''    Scan[memory] (id, qty)''])"
    by code_simp
  then obtain q where q: "pushdown_scan_reads stock_query = Inr q"
    by (cases "pushdown_scan_reads stock_query") auto
  have "wf_plan stock_query" "scans_conform stock_query" "meaning stock_query = [[(''id'', VInt 1)], [(''id'', VInt 3)]]"
    by code_simp+
  with pushdown_scan_reads_correct [OF _ _ stock_honest q] q
  show "\<exists>q. pushdown_scan_reads stock_query = Inr q \<and> meaning q = [[(''id'', VInt 1)], [(''id'', VInt 3)]]"
    by simp
qed

section \<open>What the in-memory source returns\<close>

lemma gen_rows_gen_of [simp]: "gen_rows (gen_of xs) = xs"
  by (induction xs) auto

lemma scan_rows_iter:
  assumes "\<forall>p \<in> set (ds_partitions d). \<exists>xs. records p = gen_of xs"
  shows "gen_list (iter_records d) = Inr (scan_rows d)"
proof -
  have "\<forall>p \<in> set ps. \<exists>xs. records p = gen_of xs \<Longrightarrow>
      gen_list (gen_concat (map records ps)) = Inr (concat (map (\<lambda>p. gen_rows (records p)) ps))" for ps :: "partition list"
  proof (induction ps)
    case (Cons p ps)
    then obtain xs where "records p = gen_of xs" by auto
    with Cons show ?case by (simp add: gen_list_append)
  qed simp
  with assms show ?thesis by (simp add: iter_records_def scan_rows_def)
qed

text \<open>
  C37: A dataset read from the in-memory source iterates over exactly the given rows, in order, or
  over their projections to the requested columns, with the schema of those columns.
\<close>

theorem memory_read_correct:
  assumes "mk_memory_source rows s n = Inr src" "memory_read src columns f = Inr d"
  shows "gen_list (iter_records d)
      = Inr (case columns of None \<Rightarrow> rows | Some cs \<Rightarrow> map (project_to (map Column cs)) rows)
    \<and> field_names (ds_schema d) = (case columns of None \<Rightarrow> field_names (ms_schema src) | Some cs \<Rightarrow> cs)"
proof -
  have src: "memory_of (Memory_data src) = src" "ms_records src = rows"
    using mk_memory_source_partitions [OF assms(1)] by (simp_all add: Memory_data_inverse)
  have rows: "scan_rows d = (case columns of None \<Rightarrow> rows | Some cs \<Rightarrow> map (project_to (map Column cs)) rows)"
    using memory.read_rows [of "Memory_data src" f d] memory.read_columns [of "Memory_data src" _ f d] assms(2) src
    by (auto split: option.split)
  obtain t cs ps where ps: "rmap (memory_partition src t columns) cs = Inr ps"
    "ds_partitions d = (if ps = [] then [bucket_partition t 0 []] else ps)"
    using assms(2) by (auto simp: memory_read_def Let_def rbind_Inr_iff)
  have bucket: "\<exists>xs. records (bucket_partition t i rows) = gen_of xs" for i rows
    by (auto simp: bucket_partition_def)
  have "\<exists>xs. records p = gen_of xs" if "p \<in> set (ds_partitions d)" for p
  proof (cases "ps = []")
    case True
    with that ps(2) bucket [of 0 "[]"] show ?thesis by simp
  next
    case False
    with that ps(2) have "p \<in> set ps" by simp
    with rmap_member [OF ps(1)] obtain c where "memory_partition src t columns c = Inr p" by blast
    with bucket show ?thesis by (auto simp: memory_partition_def rbind_Inr_iff split: prod.splits)
  qed
  then have "gen_list (iter_records d) = Inr (scan_rows d)" by (intro scan_rows_iter) blast
  with rows show ?thesis using memory.read_schema [of "Memory_data src" columns f d] assms(2) src(1)
    by (cases columns) simp_all
qed

theorem memory_read_correct_witness:
  "\<exists>d. memory_read stock_source (Some [''qty'', ''id'']) None = Inr d
     \<and> gen_list (iter_records d) = Inr (map (\<lambda>(i, q). [(''qty'', VInt q), (''id'', VInt i)]) [(1, 5), (2, 0), (3, 7)])"
proof -
  have "\<not> isl (memory_read stock_source (Some [''qty'', ''id'']) None)" by code_simp
  then obtain d where d: "memory_read stock_source (Some [''qty'', ''id'']) None = Inr d"
    by (cases "memory_read stock_source (Some [''qty'', ''id'']) None") auto
  have "mk_memory_source (ms_records stock_source) (Some (ms_schema stock_source)) 2 = Inr stock_source"
    by (simp add: mk_memory_source_def stock_source_def)
  from memory_read_correct [OF this d] d show ?thesis
    by (simp add: stock_source_def project_to_def row_get_def)
qed

end
