(* ===== verification/FloatOrder.thy ===== *)
theory FloatOrder
  imports PyValue
begin

text \<open>
  Rounding to a double is monotone, so that float arithmetic that is monotone on exact numbers stays
  so: range boundaries come out in order, and negated sort keys in reverse order.
\<close>

section \<open>The binary logarithm\<close>

lemma two_pow_powi: "two_pow k = 2 powi k"
  by (simp add: two_pow_def power_int_def power_one_over inverse_eq_divide)

lemma two_pow_nonneg [simp]: "0 \<le> two_pow k"
  using two_pow_pos [of k] by linarith

lemma bitlen_bounds: "0 < n \<Longrightarrow> 2 ^ (bitlen n - 1) \<le> n \<and> n < 2 ^ bitlen n \<and> 0 < bitlen n"
proof (induction n rule: bitlen.induct)
  case (1 n)
  show ?case
  proof (cases "n div 2 = 0")
    case True
    with 1(2) have "n = 1" by simp
    then show ?thesis by (simp add: bitlen.simps)
  next
    case False
    with 1 have IH: "2 ^ (bitlen (n div 2) - 1) \<le> n div 2" "n div 2 < 2 ^ bitlen (n div 2)" "0 < bitlen (n div 2)"
      by auto
    have eq: "bitlen n = Suc (bitlen (n div 2))" using 1(2) by (subst bitlen.simps) simp
    obtain m where m: "bitlen (n div 2) = Suc m" using IH(3) by (cases "bitlen (n div 2)") auto
    have "2 ^ Suc m \<le> n" using IH(1) by (simp add: m)
    moreover have "n < 2 ^ Suc (Suc m)" using IH(2) by (simp add: m)
    ultimately show ?thesis by (simp add: eq m)
  qed
qed

lemma flog2_bounds:
  assumes "0 < q"
  shows "two_pow (flog2 q) \<le> q \<and> q < two_pow (flog2 q + 1)"
proof -
  obtain n d where nd: "quotient_of q = (n, d)" by (cases "quotient_of q")
  have d: "0 < d" using nd quotient_of_denom_pos by blast
  have q: "q = of_int n / of_int d" using nd quotient_of_div by blast
  have n: "0 < n" using assms d by (simp add: q zero_less_divide_iff)
  define a b where "a = int (bitlen (nat n))" and "b = int (bitlen (nat d))"
  have bl: "2 ^ (bitlen (nat n) - 1) \<le> nat n" "nat n < 2 ^ bitlen (nat n)" "0 < bitlen (nat n)"
      "2 ^ (bitlen (nat d) - 1) \<le> nat d" "nat d < 2 ^ bitlen (nat d)" "0 < bitlen (nat d)"
    using bitlen_bounds [of "nat n"] bitlen_bounds [of "nat d"] n d by auto
  have cast: "(of_nat (nat n) :: rat) = of_int n" "(of_nat (nat d) :: rat) = of_int d"
    using n d by simp_all
  have powi: "(2 :: rat) ^ bitlen (nat n) = 2 powi a" "(2 :: rat) ^ (bitlen (nat n) - 1) = 2 powi (a - 1)"
      "(2 :: rat) ^ bitlen (nat d) = 2 powi b" "(2 :: rat) ^ (bitlen (nat d) - 1) = 2 powi (b - 1)"
    using bl(3,6) by (simp_all add: a_def b_def power_int_def nat_diff_distrib)
  have rn: "2 powi (a - 1) \<le> (of_int n :: rat)" "(of_int n :: rat) < 2 powi a"
      "2 powi (b - 1) \<le> (of_int d :: rat)" "(of_int d :: rat) < 2 powi b"
    unfolding powi [symmetric] cast [symmetric] using bl by (metis of_nat_le_iff of_nat_less_iff of_nat_numeral of_nat_power)+
  have pos: "(0 :: rat) < of_int d" using d by simp
  have upper: "q < (2 :: rat) powi (a - b + 1)"
  proof -
    have "(2 :: rat) powi a = 2 powi (a - b + 1) * 2 powi (b - 1)" by (simp flip: power_int_add)
    also have "\<dots> \<le> 2 powi (a - b + 1) * of_int d" using rn(3) by (intro mult_left_mono) auto
    finally have "of_int n < (2 :: rat) powi (a - b + 1) * of_int d" using rn(2) by linarith
    then show ?thesis using pos by (simp add: q divide_less_eq)
  qed
  have lower: "(2 :: rat) powi (a - b - 1) \<le> q"
  proof -
    have "2 powi (a - b - 1) * of_int d \<le> (2 :: rat) powi (a - b - 1) * 2 powi b"
      using rn(4) by (intro mult_left_mono) auto
    also have "\<dots> = 2 powi (a - 1)" by (simp flip: power_int_add)
    finally have "(2 :: rat) powi (a - b - 1) * of_int d \<le> of_int n" using rn(1) by linarith
    then show ?thesis using pos by (simp add: q le_divide_eq)
  qed
  have test: "(if 0 \<le> a - b then 2 ^ nat (a - b) * d \<le> n else d \<le> 2 ^ nat (- (a - b)) * n)
      \<longleftrightarrow> (2 :: rat) powi (a - b) \<le> q"
  proof (cases "0 \<le> a - b")
    case True
    have "2 ^ nat (a - b) * d \<le> n \<longleftrightarrow> (2 :: rat) ^ nat (a - b) * of_int d \<le> of_int n"
      using of_int_le_iff [where ?'a = rat, of "2 ^ nat (a - b) * d" n] by simp
    with True pos show ?thesis by (simp add: q le_divide_eq power_int_def)
  next
    case False
    have "d \<le> 2 ^ nat (- (a - b)) * n \<longleftrightarrow> of_int d \<le> (2 :: rat) ^ nat (- (a - b)) * of_int n"
      using of_int_le_iff [where ?'a = rat, of d "2 ^ nat (- (a - b)) * n"] by simp
    with False pos show ?thesis
      by (simp add: q le_divide_eq power_int_def power_inverse field_simps)
  qed
  have "flog2 q = (if 2 powi (a - b) \<le> q then a - b else a - b - 1)"
    unfolding flog2_def nd Let_def prod.case a_def [symmetric] b_def [symmetric] test by simp
  with upper lower show ?thesis by (auto simp: two_pow_powi not_le)
qed

section \<open>Rounding is monotone\<close>

lemma two_pow_mono: "j \<le> k \<Longrightarrow> two_pow j \<le> two_pow k"
  by (simp add: two_pow_powi power_int_increasing)

lemma two_pow_add: "two_pow (j + k) = two_pow j * two_pow k"
  by (simp add: two_pow_powi power_int_add)

lemma flog2_mono:
  assumes "0 < p" "p \<le> q"
  shows "flog2 p \<le> flog2 q"
proof (rule ccontr)
  assume "\<not> flog2 p \<le> flog2 q"
  then have "two_pow (flog2 q + 1) \<le> two_pow (flog2 p)" by (intro two_pow_mono) simp
  moreover have "two_pow (flog2 p) \<le> p" "q < two_pow (flog2 q + 1)"
    using flog2_bounds [of p] flog2_bounds [of q] assms by auto
  ultimately show False using assms(2) by linarith
qed

lemma round_half_even_mono: "p \<le> q \<Longrightarrow> round_half_even p \<le> round_half_even q"
proof -
  assume le: "p \<le> q"
  have between: "\<lfloor>x\<rfloor> \<le> round_half_even x \<and> round_half_even x \<le> \<lfloor>x\<rfloor> + 1" for x
    by (simp add: round_half_even_def Let_def)
  show ?thesis
  proof (cases "\<lfloor>p\<rfloor> = \<lfloor>q\<rfloor>")
    case True
    with le show ?thesis by (auto simp: round_half_even_def Let_def)
  next
    case False
    with le have "\<lfloor>p\<rfloor> + 1 \<le> \<lfloor>q\<rfloor>" using floor_mono [OF le] by linarith
    with between [of p] between [of q] show ?thesis by linarith
  qed
qed

lemma round_half_even_of_int [simp]: "round_half_even (of_int k) = k"
  by (simp add: round_half_even_def)

lemma round_bounds:
  "x \<le> two_pow 53 \<Longrightarrow> of_int (round_half_even x) \<le> two_pow 53"
  "two_pow 52 \<le> x \<Longrightarrow> two_pow 52 \<le> of_int (round_half_even x)"
proof -
  have eq: "two_pow 53 = of_int (2 ^ 53)" "two_pow 52 = of_int (2 ^ 52)" by (simp_all add: two_pow_def)
  show "of_int (round_half_even x) \<le> two_pow 53" if "x \<le> two_pow 53"
    using round_half_even_mono [OF that [unfolded eq]] by (simp only: eq round_half_even_of_int of_int_le_iff)
  show "two_pow 52 \<le> of_int (round_half_even x)" if "two_pow 52 \<le> x"
    using round_half_even_mono [OF that [unfolded eq]] by (simp only: eq round_half_even_of_int of_int_le_iff)
qed

text \<open>The exponent of the last bit, and the rounded number.\<close>

definition last_exp :: "rat \<Rightarrow> int" where
  "last_exp q = max (flog2 q - 52) (- 1074)"

definition rounded :: "rat \<Rightarrow> rat" where
  "rounded q = (if q = 0 then 0 else of_int (round_half_even (q / two_pow (last_exp q))) * two_pow (last_exp q))"

lemma round_mag_rounded: "round_mag q = (if q \<noteq> 0 \<and> two_pow 1024 \<le> rounded q then None else Some (rounded q))"
  by (simp add: round_mag_def rounded_def last_exp_def Let_def)

lemma rounded_nonneg: "0 \<le> q \<Longrightarrow> 0 \<le> rounded q"
  by (auto simp: rounded_def intro!: mult_nonneg_nonneg round_half_even_nonneg divide_nonneg_nonneg)

lemma rounded_mono:
  assumes "0 \<le> p" "p \<le> q"
  shows "rounded p \<le> rounded q"
proof (cases "p = 0")
  case True
  then show ?thesis using rounded_nonneg [of q] assms by (simp add: rounded_def)
next
  case False
  then have pos: "0 < p" "0 < q" using assms by auto
  let ?e = "last_exp p" and ?f = "last_exp q"
  have ef: "?e \<le> ?f" using flog2_mono [OF pos(1) assms(2)] by (simp add: last_exp_def)
  show ?thesis
  proof (cases "?e = ?f")
    case True
    have "p / two_pow ?f \<le> q / two_pow ?f"
      by (intro divide_right_mono assms(2) two_pow_nonneg)
    then have "of_int (round_half_even (p / two_pow ?f)) \<le> (of_int (round_half_even (q / two_pow ?f)) :: rat)"
      by (simp add: round_half_even_mono)
    then show ?thesis using pos True
      by (simp add: rounded_def mult_right_mono)
  next
    case False
    with ef have lt: "?e + 1 \<le> ?f" by simp
    then have f: "?f = flog2 q - 52" by (auto simp: last_exp_def)
    have "p \<le> two_pow (flog2 p + 1)" using flog2_bounds [OF pos(1)] by simp
    also have "\<dots> \<le> two_pow (53 + ?e)" by (rule two_pow_mono) (simp add: last_exp_def)
    finally have "p / two_pow ?e \<le> two_pow 53"
      by (simp only: two_pow_add divide_le_eq two_pow_pos if_True)
    from round_bounds(1) [OF this] have "rounded p \<le> two_pow 53 * two_pow ?e"
      using pos by (simp add: rounded_def mult_right_mono)
    also have "\<dots> \<le> two_pow 52 * two_pow ?f"
      unfolding two_pow_add [symmetric] using lt by (intro two_pow_mono) simp
    also have "\<dots> \<le> rounded q"
    proof -
      have "two_pow (52 + ?f) \<le> q" using flog2_bounds [OF pos(2)] by (simp add: f)
      then have "two_pow 52 \<le> q / two_pow ?f"
        by (simp only: two_pow_add le_divide_eq two_pow_pos if_True)
      from round_bounds(2) [OF this] show ?thesis using pos by (simp add: rounded_def mult_right_mono)
    qed
    finally show ?thesis .
  qed
qed

end
