(* ===== verification/SqlTokenizer.thy ===== *)
theory SqlTokenizer
  imports PyParse "HOL-Library.Sublist"
begin

text \<open>
  The SQL tokenizer (\<^verbatim>\<open>sql/tokenizer.py\<close>).  The index into the text is kept together with the text
  from that index on: the characters read and the positions reported are those of the source.
\<close>

section \<open>Tokens\<close>

datatype token_type = KEYWORD | IDENTIFIER | NUMBER | STRING | OPERATOR | PUNCTUATION | EOF

record token =
  tok_type :: token_type
  tok_value :: string
  tok_position :: nat

definition KEYWORDS :: "string list" where
  "KEYWORDS =
     [''SELECT'', ''FROM'', ''WHERE'', ''GROUP'', ''BY'', ''HAVING'', ''ORDER'', ''ASC'',
      ''DESC'', ''JOIN'', ''ON'', ''AS'', ''AND'', ''OR'', ''NOT'', ''NULL'', ''IS'', ''TRUE'',
      ''FALSE'']"

definition MULTI_CHAR_OPERATORS :: "string list" where
  "MULTI_CHAR_OPERATORS = [''<='', ''>='', ''!='', ''<>'']"

definition SINGLE_CHAR_OPERATORS :: string where
  "SINGLE_CHAR_OPERATORS = ''=<>+-*/''"

definition PUNCTUATION_CHARS :: string where
  "PUNCTUATION_CHARS = ''(),.''"

abbreviation quote :: char where
  "quote \<equiv> CHR 0x27"

abbreviation newline :: char where
  "newline \<equiv> CHR 0x0A"

definition Token :: "token_type \<Rightarrow> string \<Rightarrow> nat \<Rightarrow> token" where
  "Token t v i = \<lparr>tok_type = t, tok_value = v, tok_position = i\<rparr>"

lemma Token_sel [simp]:
  "tok_type (Token t v i) = t" "tok_value (Token t v i) = v" "tok_position (Token t v i) = i"
  "Token t v i = Token t' v' i' \<longleftrightarrow> t = t' \<and> v = v' \<and> i = i'"
  by (auto simp: Token_def)

section \<open>Reading one token\<close>

text \<open>
  The text after the opening quote: the value, the index after the closing quote and the text from
  there.  A doubled quote stands for one.
\<close>

fun read_string :: "nat \<Rightarrow> nat \<Rightarrow> string \<Rightarrow> (string \<times> nat \<times> string) res" where
  "read_string start i [] = Inl (SqlLexError start)"
| "read_string start i [c] = (if c = quote then Inr ([], i + 1, []) else Inl (SqlLexError start))"
| "read_string start i (c # d # cs) =
     (if c = quote then
        if d = quote then rbind (read_string start (i + 2) cs) (\<lambda>(v, r). Inr (quote # v, r))
        else Inr ([], i + 1, d # cs)
      else rbind (read_string start (i + 1) (d # cs)) (\<lambda>(v, r). Inr (c # v, r)))"

fun read_number :: "nat \<Rightarrow> bool \<Rightarrow> string \<Rightarrow> string \<times> nat \<times> string" where
  "read_number i saw_dot [] = ([], i, [])"
| "read_number i saw_dot (c # cs) =
     (if is_digit c \<or> c = CHR ''.'' \<and> \<not> saw_dot
      then (case read_number (i + 1) (saw_dot \<or> c = CHR ''.'') cs of (v, r) \<Rightarrow> (c # v, r))
      else ([], i, c # cs))"

definition identifier_char :: "char \<Rightarrow> bool" where
  "identifier_char c = (is_alnum c \<or> c = CHR ''_'')"

definition read_identifier :: "nat \<Rightarrow> string \<Rightarrow> string \<times> nat \<times> string" where
  "read_identifier i text =
     (let v = takeWhile identifier_char text in (v, i + length v, dropWhile identifier_char text))"

text \<open>\<^verbatim>\<open>tokens.append(...)\<close> in front of what the rest of the loop yields\<close>

definition then_tokens :: "token \<Rightarrow> token list res \<Rightarrow> token list res" where
  "then_tokens t r = rbind r (\<lambda>ts. Inr (t # ts))"

definition word_token :: "string \<Rightarrow> nat \<Rightarrow> token" where
  "word_token v i =
     (if upper_ascii v \<in> set KEYWORDS then Token KEYWORD (upper_ascii v) i else Token IDENTIFIER v i)"

definition starts_number :: "string \<Rightarrow> bool" where
  "starts_number text =
     (is_digit (hd text) \<or> hd text = CHR ''.'' \<and> tl text \<noteq> [] \<and> is_digit (hd (tl text)))"

lemma read_string_shorter: "read_string start i cs = Inr (v, j, r) \<Longrightarrow> length r < length cs"
  by (induction start i cs arbitrary: v j r rule: read_string.induct)
     (fastforce simp: rbind_Inr_iff split: if_splits prod.splits)+

lemma read_number_length: "read_number i d cs = (v, j, r) \<Longrightarrow> length r \<le> length cs"
  by (induction i d cs arbitrary: v j r rule: read_number.induct)
     (fastforce split: if_splits prod.splits)+

lemma read_number_shorter:
  "read_number i False cs = (v, j, r) \<Longrightarrow> cs \<noteq> [] \<Longrightarrow> starts_number cs \<Longrightarrow> length r < length cs"
  by (cases cs) (auto simp: starts_number_def split: prod.splits dest!: read_number_length)

lemma read_identifier_shorter:
  "read_identifier i (c # cs) = (v, j, r) \<Longrightarrow> identifier_char c \<Longrightarrow> length r < length (c # cs)"
  by (auto simp: read_identifier_def Let_def intro: le_imp_less_Suc length_dropWhile_le)

lemma alpha_identifier_char: "is_alpha c \<or> c = CHR ''_'' \<Longrightarrow> identifier_char c"
  by (auto simp: identifier_char_def is_alnum_def)

section \<open>The loop\<close>

text \<open>
  One turn of the loop on the text \<open>ch # rest\<close> at index \<open>i\<close>: the token it appends, if any, with the index
  and the text the next turn starts from.
\<close>

definition next_token :: "nat \<Rightarrow> char \<Rightarrow> string \<Rightarrow> (token option \<times> nat \<times> string) res" where
  "next_token i ch rest =
     (let text = ch # rest in
      if is_space ch then Inr (None, i + 1, rest)
      else if ch = CHR ''-'' \<and> rest \<noteq> [] \<and> hd rest = CHR ''-'' then
        (case dropWhile (\<lambda>c. c \<noteq> newline) text of
           [] \<Rightarrow> Inr (None, i + length text, [])
         | _ # rest' \<Rightarrow> Inr (None, i + (length text - length rest'), rest'))
      else if ch = quote then
        rbind (read_string i (i + 1) rest) (\<lambda>(v, j, rest'). Inr (Some (Token STRING v j), j, rest'))
      else if starts_number text then
        (case read_number i False text of (v, j, rest') \<Rightarrow> Inr (Some (Token NUMBER v j), j, rest'))
      else if is_alpha ch \<or> ch = CHR ''_'' then
        (case read_identifier i text of (v, j, rest') \<Rightarrow> Inr (Some (word_token v j), j, rest'))
      else if take 2 text \<in> set MULTI_CHAR_OPERATORS then
        Inr (Some (Token OPERATOR (take 2 text) i), i + 2, drop 2 text)
      else if ch \<in> set SINGLE_CHAR_OPERATORS then Inr (Some (Token OPERATOR [ch] i), i + 1, rest)
      else if ch \<in> set PUNCTUATION_CHARS then Inr (Some (Token PUNCTUATION [ch] i), i + 1, rest)
      else Inl (SqlLexError i))"

text \<open>What one turn can do: skip, read a string, a number or a word, or take one or two characters.\<close>

lemma next_token_cases [consumes 1, case_names skip string number word char]:
  assumes "next_token i ch rest = Inr (t, j, r)"
  obtains "t = None" "suffix r (ch # rest)" "length r \<le> length rest"
    | v where "read_string i (i + 1) rest = Inr (v, j, r)" "t = Some (Token STRING v j)"
    | v where "starts_number (ch # rest)" "read_number i False (ch # rest) = (v, j, r)" "t = Some (Token NUMBER v j)"
    | v where "identifier_char ch" "read_identifier i (ch # rest) = (v, j, r)" "t = Some (word_token v j)"
    | ty v where "ty = OPERATOR \<or> ty = PUNCTUATION" "t = Some (Token ty v i)" "suffix r rest" "length r \<le> length rest"
proof -
  let ?text = "ch # rest"
  note step = assms [unfolded next_token_def Let_def]
  consider (space) "is_space ch"
    | (comment) "\<not> is_space ch" "ch = CHR ''-'' \<and> rest \<noteq> [] \<and> hd rest = CHR ''-''"
    | (quoted) "\<not> is_space ch" "ch = quote"
    | (number) "\<not> is_space ch" "\<not> (ch = CHR ''-'' \<and> rest \<noteq> [] \<and> hd rest = CHR ''-'')" "ch \<noteq> quote" "starts_number ?text"
    | (word) "\<not> is_space ch" "\<not> (ch = CHR ''-'' \<and> rest \<noteq> [] \<and> hd rest = CHR ''-'')" "ch \<noteq> quote"
        "\<not> starts_number ?text" "is_alpha ch \<or> ch = CHR ''_''"
    | (other) "\<not> is_space ch" "\<not> (ch = CHR ''-'' \<and> rest \<noteq> [] \<and> hd rest = CHR ''-'')" "ch \<noteq> quote"
        "\<not> starts_number ?text" "\<not> (is_alpha ch \<or> ch = CHR ''_'')"
    by blast
  then show thesis
  proof cases
    case space
    then show ?thesis using step that(1) by (auto simp: suffix_ConsI)
  next
    case comment
    obtain D where D: "dropWhile (\<lambda>c. c \<noteq> newline) ?text = D" by blast
    have "length D \<le> length ?text" "suffix D ?text"
      unfolding D [symmetric] by (rule length_dropWhile_le, rule suffix_dropWhile)
    moreover have "t = None" "r = tl D"
      using comment step [unfolded D] by (auto split: list.splits)
    ultimately show ?thesis using that(1) by (cases D) (auto dest: suffix_ConsD)
  next
    case quoted
    then show ?thesis using step that(2) by (auto simp: rbind_Inr_iff)
  next
    case number
    then show ?thesis using step that(3) by (auto simp del: read_number.simps split: prod.splits)
  next
    case word
    then have "(case read_identifier i ?text of (v, j, r') \<Rightarrow> Inr (Some (word_token v j), j, r')) = (Inr (t, j, r) :: (token option \<times> nat \<times> string) res)"
      using step by (simp only: if_False if_True)
    then show ?thesis
      using that(4) alpha_identifier_char [OF word(5)] by (auto split: prod.splits)
  next
    case other
    then have step': "(if take 2 ?text \<in> set MULTI_CHAR_OPERATORS then
          Inr (Some (Token OPERATOR (take 2 ?text) i), i + 2, drop 2 ?text)
        else if ch \<in> set SINGLE_CHAR_OPERATORS then Inr (Some (Token OPERATOR [ch] i), i + 1, rest)
        else if ch \<in> set PUNCTUATION_CHARS then Inr (Some (Token PUNCTUATION [ch] i), i + 1, rest)
        else Inl (SqlLexError i)) = Inr (t, j, r)"
      using step by (simp only: if_False)
    have "suffix (drop (Suc 0) rest) rest" "length (drop (Suc 0) rest) \<le> length rest"
      by (simp_all add: suffix_drop)
    then show ?thesis
      using that(5) [of OPERATOR "take 2 ?text"] that(5) [of OPERATOR "[ch]"] that(5) [of PUNCTUATION "[ch]"] step'
      by (auto split: if_split_asm)
  qed
qed

lemma next_token_shorter: "next_token i ch rest = Inr (t, j, r) \<Longrightarrow> length r < length (ch # rest)"
  by (cases rule: next_token_cases, assumption)
     (auto simp del: read_number.simps dest: read_string_shorter read_number_shorter read_identifier_shorter)

function tokenize_from :: "nat \<Rightarrow> string \<Rightarrow> token list res" where
  "tokenize_from i [] = Inr [Token EOF [] i]"
| "tokenize_from i (ch # rest) =
     (case next_token i ch rest of
        Inl e \<Rightarrow> Inl e
      | Inr (None, j, rest') \<Rightarrow> tokenize_from j rest'
      | Inr (Some t, j, rest') \<Rightarrow> then_tokens t (tokenize_from j rest'))"
  by pat_completeness auto
termination
  by (relation "measure (length \<circ> snd)") (use next_token_shorter in fastforce)+

definition tokenize :: "string \<Rightarrow> token list res" where
  "tokenize text = tokenize_from 0 text"

end
