(* ===== verification/SqlParser.thy ===== *)
theory SqlParser
  imports SqlTokenizer LogicalPlan
begin

text \<open>
  The SQL parser (\<^verbatim>\<open>sql/parser.py\<close>): recursive descent from the tokens to a logical plan.  The state of
  \<^verbatim>\<open>_Parser\<close> is the list of tokens from \<^verbatim>\<open>self._pos\<close> on, which every method takes and returns.  The
  nested call of \<^verbatim>\<open>_parse_expr\<close> and the loops run on fuel, and \<open>None\<close> is running out of it.
\<close>

type_synonym 'a parse = "('a \<times> token list) res option"

section \<open>Token stream helpers\<close>

definition ok :: "'a \<Rightarrow> token list \<Rightarrow> 'a parse" where
  "ok x ts = Some (Inr (x, ts))"

definition fail :: "sql_problem \<Rightarrow> 'a parse" where
  "fail p = Some (Inl (SqlParseError p))"

definition lift_res :: "'a res \<Rightarrow> token list \<Rightarrow> 'a parse" where
  "lift_res r ts = Some (rbind r (\<lambda>x. Inr (x, ts)))"

definition pbind :: "'a parse \<Rightarrow> ('a \<Rightarrow> token list \<Rightarrow> 'b parse) \<Rightarrow> 'b parse" where
  "pbind m f =
     (case m of None \<Rightarrow> None | Some (Inl e) \<Rightarrow> Some (Inl e) | Some (Inr (x, ts)) \<Rightarrow> f x ts)"

text \<open>The list of tokens ends with the end-of-file token, past which nothing advances.\<close>

definition current :: "token list \<Rightarrow> token" where
  "current ts = (case ts of t # _ \<Rightarrow> t | [] \<Rightarrow> Token EOF [] 0)"

definition advance :: "token list \<Rightarrow> token list" where
  "advance ts = (if tok_type (current ts) = EOF then ts else tl ts)"

definition is_token :: "token_type \<Rightarrow> string \<Rightarrow> token \<Rightarrow> bool" where
  "is_token ty v t = (tok_type t = ty \<and> tok_value t = v)"

definition match_token :: "token_type \<Rightarrow> string \<Rightarrow> token list \<Rightarrow> token list option" where
  "match_token ty v ts = (if is_token ty v (current ts) then Some (advance ts) else None)"

definition match_keyword :: "string \<Rightarrow> token list \<Rightarrow> token list option" where
  "match_keyword = match_token KEYWORD"

definition match_punctuation :: "string \<Rightarrow> token list \<Rightarrow> token list option" where
  "match_punctuation = match_token PUNCTUATION"

definition match_operator :: "string \<Rightarrow> token list \<Rightarrow> token list option" where
  "match_operator = match_token OPERATOR"

definition expected :: "(string \<Rightarrow> token list \<Rightarrow> token list option) \<Rightarrow> string \<Rightarrow> token list \<Rightarrow> unit parse" where
  "expected matcher v ts =
     (case matcher v ts of
        Some ts' \<Rightarrow> ok () ts'
      | None \<Rightarrow> fail (ExpectedToken v (tok_position (current ts))))"

definition expect_keyword :: "string \<Rightarrow> token list \<Rightarrow> unit parse" where
  "expect_keyword = expected match_keyword"

definition expect_punctuation :: "string \<Rightarrow> token list \<Rightarrow> unit parse" where
  "expect_punctuation = expected match_punctuation"

definition expect_operator :: "string \<Rightarrow> token list \<Rightarrow> unit parse" where
  "expect_operator = expected match_operator"

definition expect_identifier :: "token list \<Rightarrow> string parse" where
  "expect_identifier ts =
     (if tok_type (current ts) \<noteq> IDENTIFIER then fail (ExpectedName (tok_position (current ts)))
      else ok (tok_value (current ts)) (advance ts))"

section \<open>Expressions\<close>

definition AGGREGATE_FUNCTION_NAMES :: "string list" where
  "AGGREGATE_FUNCTION_NAMES = [''COUNT'', ''SUM'', ''AVG'', ''MIN'', ''MAX'']"

definition COMPARISON_OPERATORS :: "(string \<times> binop) list" where
  "COMPARISON_OPERATORS =
     [(''='', Equal), (''!='', NotEqual), (''<>'', NotEqual),
      (''<'', LessThan), (''<='', LessEqual), (''>'', GreaterThan), (''>='', GreaterEqual)]"

text \<open>
  \<^verbatim>\<open>while <the current token is one of the operators>: left = Op(left, self._parse_<next level>())\<close>
\<close>

fun binary_loop ::
    "(token \<Rightarrow> binop option) \<Rightarrow> (token list \<Rightarrow> expr parse) \<Rightarrow> nat \<Rightarrow> expr \<Rightarrow> token list \<Rightarrow> expr parse" where
  "binary_loop ops operand 0 left ts = None"
| "binary_loop ops operand (Suc k) left ts =
     (case ops (current ts) of
        None \<Rightarrow> ok left ts
      | Some op \<Rightarrow> pbind (operand (advance ts)) (\<lambda>right. binary_loop ops operand k (Binary op left right)))"

definition or_op :: "token \<Rightarrow> binop option" where
  "or_op t = (if is_token KEYWORD ''OR'' t then Some Or else None)"

definition and_op :: "token \<Rightarrow> binop option" where
  "and_op t = (if is_token KEYWORD ''AND'' t then Some And else None)"

definition comparison_op :: "token \<Rightarrow> binop option" where
  "comparison_op t = (if tok_type t = OPERATOR then map_of COMPARISON_OPERATORS (tok_value t) else None)"

definition additive_op :: "token \<Rightarrow> binop option" where
  "additive_op t =
     (if is_token OPERATOR ''+'' t then Some Add
      else if is_token OPERATOR ''-'' t then Some Subtract else None)"

definition multiplicative_op :: "token \<Rightarrow> binop option" where
  "multiplicative_op t =
     (if is_token OPERATOR ''*'' t then Some Multiply
      else if is_token OPERATOR ''/'' t then Some Divide else None)"

definition parse_qualified_name :: "token list \<Rightarrow> string parse" where
  "parse_qualified_name ts =
     pbind (expect_identifier ts) (\<lambda>name ts.
       case match_punctuation ''.'' ts of Some ts \<Rightarrow> expect_identifier ts | None \<Rightarrow> ok name ts)"

definition aggregate_call :: "string \<Rightarrow> expr \<Rightarrow> expr" where
  "aggregate_call upper arg =
     (if upper = ''COUNT'' then Count arg
      else if upper = ''SUM'' then SumOf arg
      else if upper = ''AVG'' then Avg arg
      else if upper = ''MIN'' then MinOf arg
      else MaxOf arg)"

definition parse_function_call :: "(token list \<Rightarrow> expr parse) \<Rightarrow> string \<Rightarrow> token list \<Rightarrow> expr parse" where
  "parse_function_call nested name ts =
     pbind (expect_punctuation ''('' ts) (\<lambda>_ ts.
       let upper = upper_ascii name in
       if upper \<notin> set AGGREGATE_FUNCTION_NAMES then fail (UnknownFunction name)
       else case (if upper = ''COUNT'' then match_operator ''*'' ts else None) of
         Some ts \<Rightarrow> pbind (expect_punctuation '')'' ts) (\<lambda>_. ok CountStar)
       | None \<Rightarrow>
           pbind (nested ts) (\<lambda>arg ts.
             pbind (expect_punctuation '')'' ts) (\<lambda>_. ok (aggregate_call upper arg))))"

definition number_value :: "string \<Rightarrow> pval res" where
  "number_value s =
     (if CHR ''.'' \<in> set s then rbind (py_float s) (\<lambda>f. Inr (VFloat f))
      else rbind (py_int s) (\<lambda>i. Inr (VInt i)))"

text \<open>The literals \<^verbatim>\<open>TRUE\<close>, \<^verbatim>\<open>FALSE\<close> and \<^verbatim>\<open>NULL\<close>\<close>

definition keyword_literal :: "token \<Rightarrow> pval option" where
  "keyword_literal t =
     (if is_token KEYWORD ''TRUE'' t then Some (VBool True)
      else if is_token KEYWORD ''FALSE'' t then Some (VBool False)
      else if is_token KEYWORD ''NULL'' t then Some VNone
      else None)"

definition parse_name :: "(token list \<Rightarrow> expr parse) \<Rightarrow> string \<Rightarrow> token list \<Rightarrow> expr parse" where
  "parse_name nested name ts =
     (if is_token PUNCTUATION ''('' (current ts) then parse_function_call nested name ts
      else case match_punctuation ''.'' ts of
        Some ts \<Rightarrow> pbind (expect_identifier ts) (\<lambda>n. ok (Column n))
      | None \<Rightarrow> ok (Column name) ts)"

definition parse_primary :: "(token list \<Rightarrow> expr parse) \<Rightarrow> token list \<Rightarrow> expr parse" where
  "parse_primary nested ts =
     (let t = current ts in
      if tok_type t = NUMBER then
        lift_res (rbind (number_value (tok_value t)) (\<lambda>v. Inr (Literal v))) (advance ts)
      else if tok_type t = STRING then ok (Literal (VStr (tok_value t))) (advance ts)
      else case keyword_literal t of
        Some v \<Rightarrow> ok (Literal v) (advance ts)
      | None \<Rightarrow>
          (case match_punctuation ''('' ts of
             Some ts \<Rightarrow> pbind (nested ts) (\<lambda>e ts. pbind (expect_punctuation '')'' ts) (\<lambda>_. ok e))
           | None \<Rightarrow>
               if tok_type t = IDENTIFIER then parse_name nested (tok_value t) (advance ts)
               else fail (UnexpectedToken (tok_position t))))"

fun parse_unary :: "(token list \<Rightarrow> expr parse) \<Rightarrow> token list \<Rightarrow> expr parse" where
  "parse_unary nested [] = parse_primary nested []"
| "parse_unary nested (t # ts) =
     (if is_token OPERATOR ''-'' t
      then pbind (parse_unary nested ts) (\<lambda>e. ok (Binary Multiply (Literal (VInt (- 1))) e))
      else parse_primary nested (t # ts))"

definition parse_multiplicative :: "(token list \<Rightarrow> expr parse) \<Rightarrow> nat \<Rightarrow> token list \<Rightarrow> expr parse" where
  "parse_multiplicative nested k ts =
     pbind (parse_unary nested ts) (binary_loop multiplicative_op (parse_unary nested) k)"

definition parse_additive :: "(token list \<Rightarrow> expr parse) \<Rightarrow> nat \<Rightarrow> token list \<Rightarrow> expr parse" where
  "parse_additive nested k ts =
     pbind (parse_multiplicative nested k ts) (binary_loop additive_op (parse_multiplicative nested k) k)"

definition parse_comparison :: "(token list \<Rightarrow> expr parse) \<Rightarrow> nat \<Rightarrow> token list \<Rightarrow> expr parse" where
  "parse_comparison nested k ts =
     pbind (parse_additive nested k ts) (\<lambda>left ts.
       case comparison_op (current ts) of
         Some op \<Rightarrow> pbind (parse_additive nested k (advance ts)) (\<lambda>right. ok (Binary op left right))
       | None \<Rightarrow> ok left ts)"

definition parse_null_check :: "(token list \<Rightarrow> expr parse) \<Rightarrow> nat \<Rightarrow> token list \<Rightarrow> expr parse" where
  "parse_null_check nested k ts =
     pbind (parse_comparison nested k ts) (\<lambda>e ts.
       case match_keyword ''IS'' ts of
         None \<Rightarrow> ok e ts
       | Some ts \<Rightarrow>
           (case match_keyword ''NOT'' ts of
              Some ts \<Rightarrow> pbind (expect_keyword ''NULL'' ts) (\<lambda>_. ok (IsNotNull e))
            | None \<Rightarrow> pbind (expect_keyword ''NULL'' ts) (\<lambda>_. ok (IsNull e))))"

fun parse_not :: "(token list \<Rightarrow> expr parse) \<Rightarrow> nat \<Rightarrow> token list \<Rightarrow> expr parse" where
  "parse_not nested k [] = parse_null_check nested k []"
| "parse_not nested k (t # ts) =
     (if is_token KEYWORD ''NOT'' t then pbind (parse_not nested k ts) (\<lambda>e. ok (NotE e))
      else parse_null_check nested k (t # ts))"

definition parse_and :: "(token list \<Rightarrow> expr parse) \<Rightarrow> nat \<Rightarrow> token list \<Rightarrow> expr parse" where
  "parse_and nested k ts = pbind (parse_not nested k ts) (binary_loop and_op (parse_not nested k) k)"

definition parse_or :: "(token list \<Rightarrow> expr parse) \<Rightarrow> nat \<Rightarrow> token list \<Rightarrow> expr parse" where
  "parse_or nested k ts = pbind (parse_and nested k ts) (binary_loop or_op (parse_and nested k) k)"

fun parse_expr :: "nat \<Rightarrow> token list \<Rightarrow> expr parse" where
  "parse_expr 0 ts = None"
| "parse_expr (Suc k) ts = parse_or (parse_expr k) k ts"

section \<open>Select list, grouping and ordering\<close>

fun comma_loop :: "(token list \<Rightarrow> 'a parse) \<Rightarrow> nat \<Rightarrow> 'a list \<Rightarrow> token list \<Rightarrow> 'a list parse" where
  "comma_loop item 0 items ts = None"
| "comma_loop item (Suc k) items ts =
     (case match_punctuation '','' ts of
        None \<Rightarrow> ok items ts
      | Some ts \<Rightarrow> pbind (item ts) (\<lambda>x. comma_loop item k (items @ [x])))"

definition comma_list :: "(token list \<Rightarrow> 'a parse) \<Rightarrow> nat \<Rightarrow> token list \<Rightarrow> 'a list parse" where
  "comma_list item k ts = pbind (item ts) (\<lambda>x. comma_loop item k [x])"

definition parse_select_item :: "nat \<Rightarrow> token list \<Rightarrow> expr parse" where
  "parse_select_item k ts =
     pbind (parse_expr k ts) (\<lambda>e ts.
       case match_keyword ''AS'' ts of
         Some ts \<Rightarrow> pbind (expect_identifier ts) (\<lambda>n. ok (Alias e n))
       | None \<Rightarrow> ok e ts)"

text \<open>\<open>None\<close> is \<^verbatim>\<open>SELECT *\<close>.\<close>

definition parse_select_list :: "nat \<Rightarrow> token list \<Rightarrow> expr list option parse" where
  "parse_select_list k ts =
     (case match_operator ''*'' ts of
        Some ts \<Rightarrow> ok None ts
      | None \<Rightarrow> pbind (comma_list (parse_select_item k) k ts) (\<lambda>items. ok (Some items)))"

definition parse_group_by :: "nat \<Rightarrow> token list \<Rightarrow> expr list parse" where
  "parse_group_by k ts = pbind (expect_keyword ''BY'' ts) (\<lambda>_. comma_list (parse_expr k) k)"

definition parse_order_item :: "nat \<Rightarrow> token list \<Rightarrow> (expr \<times> bool) parse" where
  "parse_order_item k ts =
     pbind (parse_expr k ts) (\<lambda>e ts.
       case match_keyword ''DESC'' ts of
         Some ts \<Rightarrow> ok (e, False) ts
       | None \<Rightarrow>
           (case match_keyword ''ASC'' ts of Some ts \<Rightarrow> ok (e, True) ts | None \<Rightarrow> ok (e, True) ts))"

definition parse_order_by :: "nat \<Rightarrow> lplan \<Rightarrow> token list \<Rightarrow> lplan parse" where
  "parse_order_by k plan ts =
     pbind (expect_keyword ''BY'' ts) (\<lambda>_ ts.
       pbind (comma_list (parse_order_item k) k ts) (\<lambda>items.
         lift_res (mk_sort plan (map fst items) (map snd items))))"

fun contains_aggregate :: "expr \<Rightarrow> bool" where
  "contains_aggregate (Column _) = False"
| "contains_aggregate (Literal _) = False"
| "contains_aggregate (Alias e _) = contains_aggregate e"
| "contains_aggregate (Binary _ l r) = (contains_aggregate l \<or> contains_aggregate r)"
| "contains_aggregate (NotE e) = contains_aggregate e"
| "contains_aggregate (IsNull e) = contains_aggregate e"
| "contains_aggregate (IsNotNull e) = contains_aggregate e"
| "contains_aggregate _ = True"

definition plain_column_name :: "expr \<Rightarrow> string option" where
  "plain_column_name e = (case unalias e of Column n \<Rightarrow> Some n | _ \<Rightarrow> None)"

text \<open>The check of the plain items stops at the first that is no grouping column.\<close>

definition apply_select :: "lplan \<Rightarrow> expr list option \<Rightarrow> expr list \<Rightarrow> lplan res" where
  "apply_select plan select_items group_by =
     (case select_items of
        None \<Rightarrow> if group_by \<noteq> [] then Inl (SqlParseError StarWithGroupBy) else Inr plan
      | Some items \<Rightarrow>
          let aggregates = filter contains_aggregate items;
              plain_items = filter (\<lambda>e. \<not> contains_aggregate e) items
          in if group_by = [] \<and> aggregates = [] then Inr (Project plan items)
             else if group_by = [] \<and> aggregates \<noteq> [] \<and> plain_items \<noteq> []
             then Inl (SqlParseError MixedSelect)
             else
               let group_by_names = List.map_filter plain_column_name group_by
               in case find (\<lambda>e. case plain_column_name e of
                                   None \<Rightarrow> True | Some n \<Rightarrow> n \<notin> set group_by_names) plain_items of
                    Some item \<Rightarrow> Inl (SqlParseError (NotGrouped (expr_repr item)))
                  | None \<Rightarrow> Inr (Aggregate plan group_by aggregates))"

definition aggregate_column :: "expr list \<Rightarrow> expr \<Rightarrow> expr res" where
  "aggregate_column items e =
     (case find (\<lambda>item. expr_repr (unalias item) = expr_repr e) items of
        Some item \<Rightarrow> Inr (Column (output_name item))
      | None \<Rightarrow> Inl (SqlParseError (HavingNotSelected (expr_repr e))))"

fun substitute_aggregates :: "expr list \<Rightarrow> expr \<Rightarrow> expr res" where
  "substitute_aggregates items (Binary op l r) =
     rbind (substitute_aggregates items l) (\<lambda>l'. rbind (substitute_aggregates items r) (\<lambda>r'.
       Inr (Binary op l' r')))"
| "substitute_aggregates items (NotE e) = rbind (substitute_aggregates items e) (\<lambda>e'. Inr (NotE e'))"
| "substitute_aggregates items (IsNull e) = rbind (substitute_aggregates items e) (\<lambda>e'. Inr (IsNull e'))"
| "substitute_aggregates items (IsNotNull e) =
     rbind (substitute_aggregates items e) (\<lambda>e'. Inr (IsNotNull e'))"
| "substitute_aggregates items (Column n) = Inr (Column n)"
| "substitute_aggregates items (Literal v) = Inr (Literal v)"
| "substitute_aggregates items (Alias e n) = Inr (Alias e n)"
| "substitute_aggregates items e = aggregate_column items e"

definition having_filter :: "lplan \<Rightarrow> expr \<Rightarrow> lplan res" where
  "having_filter plan e =
     (case plan of
        Aggregate _ _ aggregates \<Rightarrow> rbind (substitute_aggregates aggregates e) (\<lambda>e'. Inr (Filter plan e'))
      | _ \<Rightarrow> Inr (Filter plan e))"

section \<open>The statement\<close>

type_synonym tables = "string \<rightharpoonup> lplan"

definition resolve_table :: "tables \<Rightarrow> string \<Rightarrow> lplan res" where
  "resolve_table tables name =
     (case tables name of Some p \<Rightarrow> Inr p | None \<Rightarrow> Inl (SqlParseError (UnknownTable name)))"

definition parse_join :: "tables \<Rightarrow> lplan \<Rightarrow> token list \<Rightarrow> lplan parse" where
  "parse_join tables left ts =
     pbind (expect_identifier ts) (\<lambda>right_name ts.
     pbind (lift_res (resolve_table tables right_name) ts) (\<lambda>right ts.
     pbind (expect_keyword ''ON'' ts) (\<lambda>_ ts.
     pbind (parse_qualified_name ts) (\<lambda>left_col ts.
     pbind (expect_operator ''='' ts) (\<lambda>_ ts.
     pbind (parse_qualified_name ts) (\<lambda>right_col ts.
       if left_col \<noteq> right_col then fail (DifferentJoinKeys left_col right_col)
       else ok (Join left right [left_col] ''inner'' False) ts))))))"

text \<open>\<^verbatim>\<open>if self._match_keyword(k): plan = ...\<close>\<close>

definition optional :: "string \<Rightarrow> (token list \<Rightarrow> 'a parse) \<Rightarrow> 'a \<Rightarrow> token list \<Rightarrow> 'a parse" where
  "optional k clause otherwise ts =
     (case match_keyword k ts of Some ts \<Rightarrow> clause ts | None \<Rightarrow> ok otherwise ts)"

definition parse_select_stmt :: "nat \<Rightarrow> tables \<Rightarrow> token list \<Rightarrow> lplan parse" where
  "parse_select_stmt k tables ts =
     pbind (expect_keyword ''SELECT'' ts) (\<lambda>_ ts.
     pbind (parse_select_list k ts) (\<lambda>select_items ts.
     pbind (expect_keyword ''FROM'' ts) (\<lambda>_ ts.
     pbind (expect_identifier ts) (\<lambda>name ts.
     pbind (lift_res (resolve_table tables name) ts) (\<lambda>plan ts.
     pbind (optional ''JOIN'' (parse_join tables plan) plan ts) (\<lambda>plan ts.
     pbind (optional ''WHERE'' (\<lambda>ts. pbind (parse_expr k ts) (\<lambda>e. ok (Filter plan e))) plan ts) (\<lambda>plan ts.
     pbind (optional ''GROUP'' (parse_group_by k) [] ts) (\<lambda>group_by ts.
     pbind (lift_res (apply_select plan select_items group_by) ts) (\<lambda>plan ts.
     pbind (optional ''HAVING'' (\<lambda>ts. pbind (parse_expr k ts) (\<lambda>e. lift_res (having_filter plan e))) plan ts)
       (\<lambda>plan ts.
     pbind (optional ''ORDER'' (parse_order_by k plan) plan ts) (\<lambda>plan ts.
       if tok_type (current ts) \<noteq> EOF then fail (UnexpectedToken (tok_position (current ts)))
       else ok plan ts)))))))))))"

text \<open>The fuel is one more than the number of tokens.\<close>

definition parse_sql :: "string \<Rightarrow> tables \<Rightarrow> lplan res option" where
  "parse_sql query tables =
     (case tokenize query of
        Inl e \<Rightarrow> Some (Inl e)
      | Inr ts \<Rightarrow> map_option (\<lambda>r. rbind r (\<lambda>(plan, _). Inr plan)) (parse_select_stmt (Suc (length ts)) tables ts))"

end
