(* ===== verification/SqlPrinter.thy ===== *)
theory SqlPrinter
  imports SqlParser
begin

text \<open>
  A printer for SQL statements, the inverse that the tokenizer and the parser are verified against:
  expressions with as few parentheses as the grammar of \<^verbatim>\<open>sql/parser.py\<close> allows, statements clause by
  clause, one space after every word; and the plan a statement stands for.
\<close>

section \<open>Words\<close>

text \<open>A token without its position.\<close>

type_synonym word = "token_type \<times> string"

definition spelling :: "token \<Rightarrow> word" where
  "spelling t = (tok_type t, tok_value t)"

definition escape :: "string \<Rightarrow> string" where
  "escape v = concat (map (\<lambda>c. if c = quote then [quote, quote] else [c]) v)"

definition render_word :: "word \<Rightarrow> string" where
  "render_word w = (case w of (ty, v) \<Rightarrow> if ty = STRING then quote # escape v @ [quote] else v)"

definition render :: "word list \<Rightarrow> string" where
  "render ws = concat (map (\<lambda>w. render_word w @ '' '') ws)"

definition plain_name :: "string \<Rightarrow> bool" where
  "plain_name v =
     (v \<noteq> [] \<and> (is_alpha (hd v) \<or> hd v = CHR ''_'') \<and> list_all identifier_char v
      \<and> upper_ascii v \<notin> set KEYWORDS)"

fun good_word :: "word \<Rightarrow> bool" where
  "good_word (KEYWORD, v) = (v \<in> set KEYWORDS)"
| "good_word (IDENTIFIER, v) = plain_name v"
| "good_word (NUMBER, v) = (v = nat_str (str_nat v))"
| "good_word (STRING, v) = True"
| "good_word (OPERATOR, v) = (v \<in> set MULTI_CHAR_OPERATORS \<or> v \<in> (\<lambda>c. [c]) ` set SINGLE_CHAR_OPERATORS)"
| "good_word (PUNCTUATION, v) = (v \<in> (\<lambda>c. [c]) ` set PUNCTUATION_CHARS)"
| "good_word (EOF, v) = False"

abbreviation kw :: "string \<Rightarrow> word" where "kw v \<equiv> (KEYWORD, v)"
abbreviation punct :: "string \<Rightarrow> word" where "punct v \<equiv> (PUNCTUATION, v)"
abbreviation oper :: "string \<Rightarrow> word" where "oper v \<equiv> (OPERATOR, v)"
abbreviation ident :: "string \<Rightarrow> word" where "ident v \<equiv> (IDENTIFIER, v)"

section \<open>Expressions\<close>

text \<open>
  The level of the grammar that derives an expression, from \<open>0\<close> for \<^verbatim>\<open>or_expr\<close> to \<open>8\<close> for \<^verbatim>\<open>primary\<close>;
  a product with the literal -1 on its left is what a unary minus stands for.
\<close>

definition op_level :: "binop \<Rightarrow> nat" where
  "op_level op =
     (case op of Or \<Rightarrow> 0 | And \<Rightarrow> 1 | Add \<Rightarrow> 5 | Subtract \<Rightarrow> 5 | Multiply \<Rightarrow> 6 | Divide \<Rightarrow> 6 | _ \<Rightarrow> 4)"

definition negation :: "binop \<Rightarrow> expr \<Rightarrow> bool" where
  "negation op l = (op = Multiply \<and> (case l of Literal (VInt i) \<Rightarrow> i = - 1 | _ \<Rightarrow> False))"

fun level :: "expr \<Rightarrow> nat" where
  "level (Binary op l r) = (if negation op l then 7 else op_level op)"
| "level (Alias e _) = level e"
| "level (NotE _) = 2"
| "level (IsNull _) = 3"
| "level (IsNotNull _) = 3"
| "level _ = 8"

definition op_word :: "binop \<Rightarrow> word" where
  "op_word op =
     (case op of
        Or \<Rightarrow> kw ''OR'' | And \<Rightarrow> kw ''AND''
      | GreaterThan \<Rightarrow> oper ''>'' | GreaterEqual \<Rightarrow> oper ''>='' | LessThan \<Rightarrow> oper ''<''
      | LessEqual \<Rightarrow> oper ''<='' | Equal \<Rightarrow> oper ''='' | NotEqual \<Rightarrow> oper ''!=''
      | Add \<Rightarrow> oper ''+'' | Subtract \<Rightarrow> oper ''-'' | Multiply \<Rightarrow> oper ''*'' | Divide \<Rightarrow> oper ''/'')"

text \<open>The levels of the operands: the loops associate to the left, comparisons do not associate.\<close>

definition left_level :: "binop \<Rightarrow> nat" where
  "left_level op = (if op_level op = 4 then 5 else op_level op)"

fun literal_word :: "pval \<Rightarrow> word" where
  "literal_word (VInt i) = (NUMBER, nat_str (nat i))"
| "literal_word (VStr s) = (STRING, s)"
| "literal_word (VBool True) = kw ''TRUE''"
| "literal_word (VBool False) = kw ''FALSE''"
| "literal_word _ = kw ''NULL''"

definition parens :: "bool \<Rightarrow> word list \<Rightarrow> word list" where
  "parens b ws = (if b then punct ''('' # ws @ [punct '')''] else ws)"

definition call :: "string \<Rightarrow> word list \<Rightarrow> word list" where
  "call f ws = ident f # punct ''('' # ws @ [punct '')'']"

fun words :: "expr \<Rightarrow> word list" where
  "words (Column n) = [ident n]"
| "words (Literal v) = [literal_word v]"
| "words (Alias e n) = words e"
| "words (Binary op l r) =
     (if negation op l then oper ''-'' # parens (level r < 7) (words r)
      else parens (level l < left_level op) (words l) @ op_word op # parens (level r \<le> op_level op) (words r))"
| "words (NotE e) = kw ''NOT'' # parens (level e < 2) (words e)"
| "words (IsNull e) = parens (level e < 4) (words e) @ [kw ''IS'', kw ''NULL'']"
| "words (IsNotNull e) = parens (level e < 4) (words e) @ [kw ''IS'', kw ''NOT'', kw ''NULL'']"
| "words CountStar = call ''COUNT'' [oper ''*'']"
| "words (Count e) = call ''COUNT'' (words e)"
| "words (SumOf e) = call ''SUM'' (words e)"
| "words (Avg e) = call ''AVG'' (words e)"
| "words (MinOf e) = call ''MIN'' (words e)"
| "words (MaxOf e) = call ''MAX'' (words e)"

definition words_at :: "nat \<Rightarrow> expr \<Rightarrow> word list" where
  "words_at p e = parens (level e < p) (words e)"

text \<open>
  The expressions the grammar can spell: no alias, no negative, floating-point or list literal, and no
  integer of more digits than \<^verbatim>\<open>int\<close> reads.
\<close>

fun literal_ok :: "pval \<Rightarrow> bool" where
  "literal_ok (VInt i) = (0 \<le> i \<and> length (nat_str (nat i)) \<le> INT_MAX_STR_DIGITS)"
| "literal_ok (VStr _) = True"
| "literal_ok (VBool _) = True"
| "literal_ok VNone = True"
| "literal_ok _ = False"

fun printable :: "expr \<Rightarrow> bool" where
  "printable (Column n) = plain_name n"
| "printable (Literal v) = literal_ok v"
| "printable (Alias _ _) = False"
| "printable (Binary op l r) = ((negation op l \<or> printable l) \<and> printable r)"
| "printable (NotE e) = printable e"
| "printable (IsNull e) = printable e"
| "printable (IsNotNull e) = printable e"
| "printable CountStar = True"
| "printable (Count e) = printable e"
| "printable (SumOf e) = printable e"
| "printable (Avg e) = printable e"
| "printable (MinOf e) = printable e"
| "printable (MaxOf e) = printable e"

section \<open>Statements\<close>

record select_stmt =
  sel_items :: "(expr \<times> string option) list option"
  sel_from :: string
  sel_join :: "(string \<times> string) option"
  sel_where :: "expr option"
  sel_group :: "expr list"
  sel_having :: "expr option"
  sel_order :: "(expr \<times> bool) list"

definition comma_words :: "('a \<Rightarrow> word list) \<Rightarrow> 'a list \<Rightarrow> word list" where
  "comma_words f xs = (case xs of [] \<Rightarrow> [] | x # xs \<Rightarrow> f x @ concat (map (\<lambda>y. punct '','' # f y) xs))"

definition item_words :: "expr \<times> string option \<Rightarrow> word list" where
  "item_words i = words (fst i) @ (case snd i of None \<Rightarrow> [] | Some n \<Rightarrow> [kw ''AS'', ident n])"

definition item_expr :: "expr \<times> string option \<Rightarrow> expr" where
  "item_expr i = (case snd i of None \<Rightarrow> fst i | Some n \<Rightarrow> Alias (fst i) n)"

definition order_words :: "expr \<times> bool \<Rightarrow> word list" where
  "order_words i = words (fst i) @ [if snd i then kw ''ASC'' else kw ''DESC'']"

definition clause :: "word list \<Rightarrow> ('a \<Rightarrow> word list) \<Rightarrow> 'a option \<Rightarrow> word list" where
  "clause ws f x = (case x of None \<Rightarrow> [] | Some y \<Rightarrow> ws @ f y)"

definition nonempty :: "'a list \<Rightarrow> 'a list option" where
  "nonempty xs = (if xs = [] then None else Some xs)"

definition stmt_words :: "select_stmt \<Rightarrow> word list" where
  "stmt_words s =
     kw ''SELECT'' # (case sel_items s of None \<Rightarrow> [oper ''*''] | Some is \<Rightarrow> comma_words item_words is)
     @ [kw ''FROM'', ident (sel_from s)]
     @ clause [kw ''JOIN''] (\<lambda>(t, c). [ident t, kw ''ON'', ident c, oper ''='', ident c]) (sel_join s)
     @ clause [kw ''WHERE''] words (sel_where s)
     @ clause [kw ''GROUP'', kw ''BY''] (comma_words words) (nonempty (sel_group s))
     @ clause [kw ''HAVING''] words (sel_having s)
     @ clause [kw ''ORDER'', kw ''BY''] (comma_words order_words) (nonempty (sel_order s))"

definition printable_stmt :: "select_stmt \<Rightarrow> bool" where
  "printable_stmt s =
     (plain_name (sel_from s)
      \<and> (\<forall>is. sel_items s = Some is \<longrightarrow>
           is \<noteq> [] \<and> (\<forall>i \<in> set is. printable (fst i) \<and> (\<forall>n. snd i = Some n \<longrightarrow> plain_name n)))
      \<and> (\<forall>t c. sel_join s = Some (t, c) \<longrightarrow> plain_name t \<and> plain_name c)
      \<and> (\<forall>e. sel_where s = Some e \<longrightarrow> printable e)
      \<and> (\<forall>e \<in> set (sel_group s). printable e)
      \<and> (\<forall>e. sel_having s = Some e \<longrightarrow> printable e)
      \<and> (\<forall>i \<in> set (sel_order s). printable (fst i)))"

text \<open>The plan of a statement, clause by clause.\<close>

definition joined_plan :: "tables \<Rightarrow> select_stmt \<Rightarrow> lplan \<Rightarrow> lplan res" where
  "joined_plan tables s p =
     (case sel_join s of
        None \<Rightarrow> Inr p
      | Some (t, c) \<Rightarrow> rbind (resolve_table tables t) (\<lambda>r. Inr (Join p r [c] ''inner'' False)))"

definition where_plan :: "select_stmt \<Rightarrow> lplan \<Rightarrow> lplan" where
  "where_plan s p = (case sel_where s of None \<Rightarrow> p | Some e \<Rightarrow> Filter p e)"

definition having_plan :: "select_stmt \<Rightarrow> lplan \<Rightarrow> lplan res" where
  "having_plan s p = (case sel_having s of None \<Rightarrow> Inr p | Some e \<Rightarrow> having_filter p e)"

definition ordered_plan :: "select_stmt \<Rightarrow> lplan \<Rightarrow> lplan" where
  "ordered_plan s p =
     (if sel_order s = [] then p else Sort p (map fst (sel_order s)) (map snd (sel_order s)))"

definition stmt_plan :: "tables \<Rightarrow> select_stmt \<Rightarrow> lplan res" where
  "stmt_plan tables s =
     rbind (resolve_table tables (sel_from s)) (\<lambda>p.
     rbind (joined_plan tables s p) (\<lambda>p.
     rbind (apply_select (where_plan s p) (map_option (map item_expr) (sel_items s)) (sel_group s)) (\<lambda>p.
     rbind (having_plan s p) (\<lambda>p. Inr (ordered_plan s p)))))"

end
