(* ===== verification/SqlTotality.thy ===== *)
theory SqlTotality
  imports SqlParser
begin

text \<open>
  The SQL parser always returns, and what it raises is a syntax error, unless a number has superscript
  or too many digits: weakest preconditions of the parsers, over a class of allowed errors.  Every parser consumes tokens, so the fuel, one more than
  the number of tokens, never runs out.
\<close>

section \<open>Weakest preconditions\<close>

text \<open>
  \<open>wp E m Q\<close>: the parser returned, an error it raised is one of \<open>E\<close>, and otherwise \<open>Q\<close> holds of the
  result and the remaining tokens.
\<close>

definition wp :: "(py_error \<Rightarrow> bool) \<Rightarrow> 'a parse \<Rightarrow> ('a \<Rightarrow> token list \<Rightarrow> bool) \<Rightarrow> bool" where
  "wp E m Q = (case m of None \<Rightarrow> False | Some (Inl e) \<Rightarrow> E e | Some (Inr (x, ts)) \<Rightarrow> Q x ts)"

definition numbers_ok :: "(py_error \<Rightarrow> bool) \<Rightarrow> token list \<Rightarrow> bool" where
  "numbers_ok E ts =
     (\<forall>t \<in> set ts. tok_type t = NUMBER \<longrightarrow>
        (case number_value (tok_value t) of Inl e \<Rightarrow> E e | Inr v \<Rightarrow> True))"

text \<open>What is left after \<open>d\<close> tokens or more.\<close>

definition rest_of :: "(py_error \<Rightarrow> bool) \<Rightarrow> nat \<Rightarrow> token list \<Rightarrow> token list \<Rightarrow> bool" where
  "rest_of E d ts us = (numbers_ok E us \<and> length us + d \<le> length ts)"

text \<open>On fewer than \<open>k\<close> tokens the parser returns, and a result consumes at least \<open>d\<close> tokens.\<close>

definition total_parser :: "(py_error \<Rightarrow> bool) \<Rightarrow> nat \<Rightarrow> nat \<Rightarrow> (token list \<Rightarrow> 'a parse) \<Rightarrow> bool" where
  "total_parser E k d p =
     (\<forall>ts. numbers_ok E ts \<longrightarrow> length ts < k \<longrightarrow> wp E (p ts) (\<lambda>x us. rest_of E d ts us))"

definition fewer :: "(py_error \<Rightarrow> bool) \<Rightarrow> nat \<Rightarrow> token list \<Rightarrow> bool" where
  "fewer E k ts = (numbers_ok E ts \<and> length ts < k)"

lemma wp_simps [simp]:
  "wp E (ok x ts) Q \<longleftrightarrow> Q x ts"
  "wp E (pbind m f) Q \<longleftrightarrow> wp E m (\<lambda>x us. wp E (f x us) Q)"
  "wp E (lift_res r ts) Q \<longleftrightarrow> (case r of Inl e \<Rightarrow> E e | Inr x \<Rightarrow> Q x ts)"
  by (auto simp: wp_def ok_def lift_res_def pbind_def split: option.splits sum.splits)

lemma wp_mono: "wp E m Q \<Longrightarrow> (\<And>x us. Q x us \<Longrightarrow> R x us) \<Longrightarrow> wp E m R"
  by (auto simp: wp_def split: option.splits sum.splits)

lemma total_parserD:
  "total_parser E k d p \<Longrightarrow> numbers_ok E ts \<Longrightarrow> length ts < k
    \<Longrightarrow> (\<And>x us. rest_of E d ts us \<Longrightarrow> Q x us) \<Longrightarrow> wp E (p ts) Q"
  unfolding total_parser_def by (blast intro: wp_mono)

lemma total_parser_weaken:
  "total_parser E k d p \<Longrightarrow> j \<le> k \<Longrightarrow> c \<le> d \<Longrightarrow> total_parser E j c p"
  by (auto simp: total_parser_def rest_of_def elim!: wp_mono)

lemma advance_suffix: "set (advance ts) \<subseteq> set ts" "length (advance ts) \<le> length ts"
  by (cases ts; auto simp: advance_def)+

lemma advance_shorter: "tok_type (current ts) \<noteq> EOF \<Longrightarrow> length (advance ts) + 1 \<le> length ts"
  by (cases ts) (auto simp: advance_def current_def)

lemma numbers_ok_advance: "numbers_ok E ts \<Longrightarrow> numbers_ok E (advance ts)"
  using advance_suffix by (auto simp: numbers_ok_def)

lemma rest_of_advance: "numbers_ok E ts \<Longrightarrow> tok_type (current ts) \<noteq> EOF \<Longrightarrow> rest_of E 1 ts (advance ts)"
  by (simp add: rest_of_def numbers_ok_advance advance_shorter [simplified])

lemma match_rest:
  assumes "numbers_ok E ts"
  shows "match_keyword v ts = Some us \<Longrightarrow> rest_of E 1 ts us"
    "match_punctuation v ts = Some us \<Longrightarrow> rest_of E 1 ts us"
    "match_operator v ts = Some us \<Longrightarrow> rest_of E 1 ts us"
  using rest_of_advance [OF assms]
  by (auto simp: match_keyword_def match_punctuation_def match_operator_def match_token_def is_token_def
      split: if_splits)

lemma rest_match:
  assumes "rest_of E 1 ts us"
  shows "match_keyword v us = Some vs \<Longrightarrow> rest_of E 1 ts vs"
    "match_punctuation v us = Some vs \<Longrightarrow> rest_of E 1 ts vs"
    "match_operator v us = Some vs \<Longrightarrow> rest_of E 1 ts vs"
  using match_rest [of E us v vs] assms by (auto simp: rest_of_def)

text \<open>Operators of one level are no end-of-file tokens.\<close>

definition operators :: "(token \<Rightarrow> binop option) \<Rightarrow> bool" where
  "operators ops = (\<forall>t. ops t \<noteq> None \<longrightarrow> tok_type t \<noteq> EOF)"

lemma operators_ops [simp]:
  "operators or_op" "operators and_op" "operators comparison_op" "operators additive_op"
  "operators multiplicative_op"
  by (auto simp: operators_def or_op_def and_op_def comparison_op_def additive_op_def
      multiplicative_op_def is_token_def split: if_splits)

lemma operator_rest:
  "operators ops \<Longrightarrow> ops (current ts) = Some op \<Longrightarrow> numbers_ok E ts \<Longrightarrow> rest_of E 1 ts (advance ts)"
  by (rule rest_of_advance) (auto simp: operators_def)

section \<open>Parsers over a class of errors\<close>

locale error_class =
  fixes E :: "py_error \<Rightarrow> bool"
  assumes parse_error [simp]: "E (SqlParseError p)"
begin

lemma wp_fail [simp]: "wp E (fail p) Q"
  by (simp add: wp_def fail_def)

lemma wp_expected:
  "(\<And>us. matcher v ts = Some us \<Longrightarrow> Q () us) \<Longrightarrow> wp E (expected matcher v ts) Q"
  by (auto simp: expected_def split: option.splits)

lemma wp_expects:
  assumes "numbers_ok E ts" "\<And>us. rest_of E 1 ts us \<Longrightarrow> Q () us"
  shows "wp E (expect_keyword v ts) Q" "wp E (expect_punctuation v ts) Q" "wp E (expect_operator v ts) Q"
  using match_rest [OF assms(1)] assms(2)
  by (auto simp: expect_keyword_def expect_punctuation_def expect_operator_def intro!: wp_expected)

lemma wp_identifier:
  "numbers_ok E ts \<Longrightarrow> (\<And>x us. rest_of E 1 ts us \<Longrightarrow> Q x us) \<Longrightarrow> wp E (expect_identifier ts) Q"
  using rest_of_advance [of E ts] by (auto simp: expect_identifier_def)

lemma wp_option:
  "(m = None \<Longrightarrow> wp E a Q) \<Longrightarrow> (\<And>us. m = Some us \<Longrightarrow> wp E (f us) Q)
    \<Longrightarrow> wp E (case m of None \<Rightarrow> a | Some us \<Rightarrow> f us) Q"
  by (cases m) auto

lemma wp_loop:
  assumes "operators ops" "total_parser E n d operand" "numbers_ok E ts" "length ts < k" "length ts < n"
    "\<And>x us. rest_of E 0 ts us \<Longrightarrow> Q x us"
  shows "wp E (binary_loop ops operand k left ts) Q"
  using assms(3-6)
proof (induction k arbitrary: ts left)
  case (Suc k)
  show ?case
  proof (cases "ops (current ts)")
    case None
    then show ?thesis using Suc.prems by (simp add: rest_of_def)
  next
    case (Some op)
    have adv: "rest_of E 1 ts (advance ts)" by (rule operator_rest [OF assms(1) Some Suc.prems(1)])
    have "wp E (operand (advance ts)) (\<lambda>x us. wp E (binary_loop ops operand k (Binary op left x) us) Q)"
    proof (rule total_parserD [OF assms(2)])
      fix x us
      assume us: "rest_of E d (advance ts) us"
      show "wp E (binary_loop ops operand k (Binary op left x) us) Q"
        by (rule Suc.IH) (use us adv Suc.prems in \<open>auto simp: rest_of_def\<close>)
    qed (use adv Suc.prems in \<open>auto simp: rest_of_def\<close>)
    then show ?thesis using Some by simp
  qed
qed simp

lemma total_loop:
  assumes "operators ops" "total_parser E (Suc k) 1 operand"
  shows "total_parser E (Suc k) 1 (\<lambda>ts. pbind (operand ts) (binary_loop ops operand k))"
  unfolding total_parser_def wp_simps
proof (intro allI impI)
  fix ts
  assume ts: "numbers_ok E ts" "length ts < Suc k"
  show "wp E (operand ts) (\<lambda>x us. wp E (binary_loop ops operand k x us) (\<lambda>x us. rest_of E 1 ts us))"
  proof (rule total_parserD [OF assms(2) ts])
    fix x us
    assume us: "rest_of E 1 ts us"
    show "wp E (binary_loop ops operand k x us) (\<lambda>x us. rest_of E 1 ts us)"
      by (rule wp_loop [OF assms]) (use us ts in \<open>auto simp: rest_of_def\<close>)
  qed
qed

lemma total_comma_loop:
  assumes "total_parser E n d item" "numbers_ok E ts" "length ts < k" "length ts < n"
    "\<And>x us. rest_of E 0 ts us \<Longrightarrow> Q x us"
  shows "wp E (comma_loop item k items ts) Q"
  using assms(2-5)
proof (induction k arbitrary: ts items)
  case (Suc k)
  show ?case
  proof (cases "match_punctuation '','' ts")
    case None
    then show ?thesis using Suc.prems by (simp add: rest_of_def)
  next
    case (Some vs)
    have adv: "rest_of E 1 ts vs" by (rule match_rest(2) [OF Suc.prems(1) Some])
    have "wp E (item vs) (\<lambda>x us. wp E (comma_loop item k (items @ [x]) us) Q)"
    proof (rule total_parserD [OF assms(1)])
      fix x us
      assume us: "rest_of E d vs us"
      show "wp E (comma_loop item k (items @ [x]) us) Q"
        by (rule Suc.IH) (use us adv Suc.prems in \<open>auto simp: rest_of_def\<close>)
    qed (use adv Suc.prems in \<open>auto simp: rest_of_def\<close>)
    then show ?thesis using Some by simp
  qed
qed simp

lemma total_comma_list:
  assumes "total_parser E n 1 item" "n \<le> Suc k"
  shows "total_parser E n 1 (comma_list item k)"
  unfolding total_parser_def comma_list_def wp_simps
proof (intro allI impI)
  fix ts
  assume ts: "numbers_ok E ts" "length ts < n"
  show "wp E (item ts) (\<lambda>x us. wp E (comma_loop item k [x] us) (\<lambda>x us. rest_of E 1 ts us))"
  proof (rule total_parserD [OF assms(1) ts])
    fix x us
    assume us: "rest_of E 1 ts us"
    show "wp E (comma_loop item k [x] us) (\<lambda>x us. rest_of E 1 ts us)"
      by (rule total_comma_loop [OF assms(1)]) (use us ts assms(2) in \<open>auto simp: rest_of_def\<close>)
  qed
qed

lemma total_qualified_name: "total_parser E k 1 parse_qualified_name"
  unfolding total_parser_def parse_qualified_name_def wp_simps
proof (intro allI impI, rule wp_identifier, assumption)
  fix ts x us
  assume us: "rest_of E 1 ts us"
  show "wp E (case match_punctuation ''.'' us of None \<Rightarrow> ok x us | Some vs \<Rightarrow> expect_identifier vs)
          (\<lambda>x us. rest_of E 1 ts us)"
  proof (rule wp_option)
    fix vs
    assume "match_punctuation ''.'' us = Some vs"
    with us have "rest_of E 1 ts vs" by (rule rest_match(2))
    then show "wp E (expect_identifier vs) (\<lambda>x us. rest_of E 1 ts us)"
      by (intro wp_identifier) (auto simp: rest_of_def)
  qed (use us in simp)
qed

lemma wp_closing:
  "total_parser E k 1 nested \<Longrightarrow> numbers_ok E ts \<Longrightarrow> length ts < k
    \<Longrightarrow> (\<And>x us. rest_of E 2 ts us \<Longrightarrow> Q x us)
    \<Longrightarrow> wp E (nested ts) (\<lambda>x us. wp E (expect_punctuation v us) (\<lambda>_. Q x))"
  by (rule total_parserD, assumption+, rule wp_expects(2)) (auto simp: rest_of_def)

lemma total_function_call:
  assumes "total_parser E k 1 nested"
  shows "total_parser E (Suc k) 1 (parse_function_call nested name)"
  unfolding total_parser_def parse_function_call_def wp_simps Let_def
proof (intro allI impI, rule wp_expects(2), assumption)
  fix ts us
  assume ts: "length ts < Suc k" and us: "rest_of E 1 ts us"
  have "wp E (case (if upper_ascii name = ''COUNT'' then match_operator ''*'' us else None) of
           None \<Rightarrow> pbind (nested us) (\<lambda>arg vs. pbind (expect_punctuation '')'' vs)
             (\<lambda>_. ok (aggregate_call (upper_ascii name) arg)))
         | Some vs \<Rightarrow> pbind (expect_punctuation '')'' vs) (\<lambda>_. ok CountStar)) (\<lambda>x us. rest_of E 1 ts us)"
  proof (rule wp_option)
    show "wp E (pbind (nested us) (\<lambda>arg vs. pbind (expect_punctuation '')'' vs)
        (\<lambda>_. ok (aggregate_call (upper_ascii name) arg)))) (\<lambda>x us. rest_of E 1 ts us)"
      unfolding wp_simps by (rule wp_closing [OF assms]) (use ts us in \<open>auto simp: rest_of_def\<close>)
  next
    fix vs
    assume "(if upper_ascii name = ''COUNT'' then match_operator ''*'' us else None) = Some vs"
    then have vs: "rest_of E 1 us vs"
      using match_rest(3) us by (auto simp: rest_of_def split: if_splits)
    show "wp E (pbind (expect_punctuation '')'' vs) (\<lambda>_. ok CountStar)) (\<lambda>x us. rest_of E 1 ts us)"
      unfolding wp_simps by (rule wp_expects(2)) (use us vs in \<open>auto simp: rest_of_def\<close>)
  qed
  then show "wp E (if upper_ascii name \<notin> set AGGREGATE_FUNCTION_NAMES then fail (UnknownFunction name)
      else case if upper_ascii name = ''COUNT'' then match_operator ''*'' us else None of
           None \<Rightarrow> pbind (nested us) (\<lambda>arg vs. pbind (expect_punctuation '')'' vs)
             (\<lambda>_. ok (aggregate_call (upper_ascii name) arg)))
         | Some vs \<Rightarrow> pbind (expect_punctuation '')'' vs) (\<lambda>_. ok CountStar)) (\<lambda>x us. rest_of E 1 ts us)"
    by simp
qed

lemma total_name:
  assumes "total_parser E k 1 nested"
  shows "total_parser E (Suc k) 0 (parse_name nested name)"
  unfolding total_parser_def
proof (intro allI impI)
  fix ts
  assume ts: "numbers_ok E ts" "length ts < Suc k"
  have "wp E (case match_punctuation ''.'' ts of None \<Rightarrow> ok (Column name) ts
         | Some us \<Rightarrow> pbind (expect_identifier us) (\<lambda>n. ok (Column n))) (\<lambda>x us. rest_of E 0 ts us)"
  proof (rule wp_option)
    fix us
    assume "match_punctuation ''.'' ts = Some us"
    then have us: "rest_of E 1 ts us" by (rule match_rest(2) [OF ts(1)])
    show "wp E (pbind (expect_identifier us) (\<lambda>n. ok (Column n))) (\<lambda>x us. rest_of E 0 ts us)"
      unfolding wp_simps by (rule wp_identifier) (use us in \<open>auto simp: rest_of_def\<close>)
  qed (use ts in \<open>simp add: rest_of_def\<close>)
  moreover have "wp E (parse_function_call nested name ts) (\<lambda>x us. rest_of E 0 ts us)"
    by (rule total_parserD [OF total_function_call [OF assms] ts]) (simp add: rest_of_def)
  ultimately show "wp E (parse_name nested name ts) (\<lambda>x us. rest_of E 0 ts us)"
    by (simp add: parse_name_def)
qed

lemma total_primary:
  assumes "total_parser E k 1 nested"
  shows "total_parser E (Suc k) 1 (parse_primary nested)"
  unfolding total_parser_def
proof (intro allI impI)
  fix ts
  assume ts: "numbers_ok E ts" "length ts < Suc k"
  let ?t = "current ts"
  let ?Q = "\<lambda>x us. rest_of E 1 ts us"
  have adv: "tok_type ?t \<noteq> EOF \<Longrightarrow> rest_of E 1 ts (advance ts)" by (rule rest_of_advance [OF ts(1)])
  have number: "wp E (lift_res (rbind (number_value (tok_value ?t)) (\<lambda>v. Inr (Literal v))) (advance ts)) ?Q"
    if "tok_type ?t = NUMBER"
    using ts(1) adv that
    by (cases ts) (auto simp: numbers_ok_def current_def split: sum.splits dest: bspec)
  have name: "wp E (parse_name nested (tok_value ?t) (advance ts)) ?Q" if "tok_type ?t = IDENTIFIER"
    by (rule total_parserD [OF total_name [OF assms]]) (use adv ts that in \<open>auto simp: rest_of_def\<close>)
  have paren: "wp E (case match_punctuation ''('' ts of
         Some us \<Rightarrow> pbind (nested us) (\<lambda>e us. pbind (expect_punctuation '')'' us) (\<lambda>_. ok e))
       | None \<Rightarrow> if tok_type ?t = IDENTIFIER then parse_name nested (tok_value ?t) (advance ts)
               else fail (UnexpectedToken (tok_position ?t))) ?Q"
  proof (rule wp_option)
    fix us
    assume "match_punctuation ''('' ts = Some us"
    then have us: "rest_of E 1 ts us" by (rule match_rest(2) [OF ts(1)])
    show "wp E (pbind (nested us) (\<lambda>e us. pbind (expect_punctuation '')'' us) (\<lambda>_. ok e))) ?Q"
      unfolding wp_simps by (rule wp_closing [OF assms]) (use us ts in \<open>auto simp: rest_of_def\<close>)
  qed (use name in simp)
  have "tok_type ?t \<noteq> EOF" if "keyword_literal ?t = Some v" for v
    using that by (auto simp: keyword_literal_def is_token_def split: if_splits)
  then show "wp E (parse_primary nested ts) ?Q"
    using number paren adv by (auto simp: parse_primary_def Let_def intro!: wp_option)
qed

lemma total_unary:
  assumes "total_parser E k 1 nested"
  shows "total_parser E (Suc k) 1 (parse_unary nested)"
proof -
  have "wp E (parse_unary nested ts) (\<lambda>x us. rest_of E 1 ts us)" if "numbers_ok E ts" "length ts < Suc k" for ts
    using that
  proof (induction ts)
    case Nil
    then show ?case using total_primary [OF assms] by (simp add: total_parser_def)
  next
    case (Cons t ts)
    have primary: "wp E (parse_primary nested (t # ts)) (\<lambda>x us. rest_of E 1 (t # ts) us)"
      using total_primary [OF assms] Cons.prems by (simp add: total_parser_def)
    have "wp E (parse_unary nested ts) (\<lambda>x us. rest_of E 1 ts us)"
      by (rule Cons.IH) (use Cons.prems in \<open>auto simp: numbers_ok_def\<close>)
    then have "wp E (parse_unary nested ts) (\<lambda>x us. rest_of E 1 (t # ts) us)"
      by (rule wp_mono) (simp add: rest_of_def)
    with primary show ?case by simp
  qed
  then show ?thesis by (simp add: total_parser_def)
qed

lemma total_multiplicative:
  "total_parser E k 1 nested \<Longrightarrow> total_parser E (Suc k) 1 (parse_multiplicative nested k)"
  unfolding parse_multiplicative_def by (intro total_loop total_unary operators_ops)

lemma total_additive:
  "total_parser E k 1 nested \<Longrightarrow> total_parser E (Suc k) 1 (parse_additive nested k)"
  unfolding parse_additive_def by (intro total_loop total_multiplicative operators_ops)

lemma total_comparison:
  assumes "total_parser E k 1 nested"
  shows "total_parser E (Suc k) 1 (parse_comparison nested k)"
  unfolding total_parser_def parse_comparison_def wp_simps
proof (intro allI impI)
  fix ts
  assume ts: "numbers_ok E ts" "length ts < Suc k"
  let ?Q = "\<lambda>x us. rest_of E 1 ts us"
  show "wp E (parse_additive nested k ts) (\<lambda>left us.
      wp E (case comparison_op (current us) of
        None \<Rightarrow> ok left us
      | Some op \<Rightarrow> pbind (parse_additive nested k (advance us)) (\<lambda>right. ok (Binary op left right))) ?Q)"
  proof (rule total_parserD [OF total_additive [OF assms] ts], rule wp_option)
    fix left us op
    assume us: "rest_of E 1 ts us" and op: "comparison_op (current us) = Some op"
    have adv: "rest_of E 1 us (advance us)"
      by (rule operator_rest [where ops = comparison_op, OF _ op]) (use us in \<open>simp_all add: rest_of_def\<close>)
    show "wp E (pbind (parse_additive nested k (advance us)) (\<lambda>right. ok (Binary op left right))) ?Q"
      unfolding wp_simps
      by (rule total_parserD [OF total_additive [OF assms]]) (use adv us ts in \<open>auto simp: rest_of_def\<close>)
  qed simp
qed

lemma total_null_check:
  assumes "total_parser E k 1 nested"
  shows "total_parser E (Suc k) 1 (parse_null_check nested k)"
  unfolding total_parser_def parse_null_check_def wp_simps
proof (intro allI impI)
  fix ts
  assume ts: "numbers_ok E ts" "length ts < Suc k"
  let ?Q = "\<lambda>x us. rest_of E 1 ts us"
  have null: "wp E (pbind (expect_keyword ''NULL'' us) (\<lambda>_. ok e)) ?Q" if "rest_of E 1 ts us" for us e
    unfolding wp_simps by (rule wp_expects(1)) (use that in \<open>auto simp: rest_of_def\<close>)
  show "wp E (parse_comparison nested k ts) (\<lambda>e us.
      wp E (case match_keyword ''IS'' us of
        None \<Rightarrow> ok e us
      | Some us \<Rightarrow>
          (case match_keyword ''NOT'' us of
             None \<Rightarrow> pbind (expect_keyword ''NULL'' us) (\<lambda>_. ok (IsNull e))
           | Some us \<Rightarrow> pbind (expect_keyword ''NULL'' us) (\<lambda>_. ok (IsNotNull e)))) ?Q)"
    by (rule total_parserD [OF total_comparison [OF assms] ts])
       (auto intro!: wp_option null dest: rest_match(1) simp del: wp_simps(2) One_nat_def)
qed

lemma total_not:
  assumes "total_parser E k 1 nested"
  shows "total_parser E (Suc k) 1 (parse_not nested k)"
proof -
  have "wp E (parse_not nested k ts) (\<lambda>x us. rest_of E 1 ts us)" if "numbers_ok E ts" "length ts < Suc k" for ts
    using that
  proof (induction ts)
    case Nil
    then show ?case using total_null_check [OF assms] by (simp add: total_parser_def)
  next
    case (Cons t ts)
    have primary: "wp E (parse_null_check nested k (t # ts)) (\<lambda>x us. rest_of E 1 (t # ts) us)"
      using total_null_check [OF assms] Cons.prems by (simp add: total_parser_def)
    have "wp E (parse_not nested k ts) (\<lambda>x us. rest_of E 1 ts us)"
      by (rule Cons.IH) (use Cons.prems in \<open>auto simp: numbers_ok_def\<close>)
    then have "wp E (parse_not nested k ts) (\<lambda>x us. rest_of E 1 (t # ts) us)"
      by (rule wp_mono) (simp add: rest_of_def)
    with primary show ?case by simp
  qed
  then show ?thesis by (simp add: total_parser_def)
qed

lemma total_expr: "total_parser E k 1 (parse_expr k)"
proof (induction k)
  case (Suc k)
  then have "total_parser E (Suc k) 1 (parse_and (parse_expr k) k)"
    unfolding parse_and_def by (intro total_loop total_not) simp_all
  then have "total_parser E (Suc k) 1 (parse_or (parse_expr k) k)"
    unfolding parse_or_def by (rule total_loop [rotated]) simp
  then show ?case by (simp add: total_parser_def)
qed (simp add: total_parser_def)

section \<open>The statement\<close>

lemma total_select_item: "total_parser E k 1 (parse_select_item k)"
  unfolding total_parser_def parse_select_item_def wp_simps
proof (intro allI impI)
  fix ts
  assume ts: "numbers_ok E ts" "length ts < k"
  have name: "wp E (pbind (expect_identifier us) (\<lambda>n. ok (Alias e n))) (\<lambda>x us. rest_of E 1 ts us)"
    if "rest_of E 1 ts us" for us e
    unfolding wp_simps by (rule wp_identifier) (use that in \<open>auto simp: rest_of_def\<close>)
  show "wp E (parse_expr k ts) (\<lambda>e us. wp E (case match_keyword ''AS'' us of
        None \<Rightarrow> ok e us | Some us \<Rightarrow> pbind (expect_identifier us) (\<lambda>n. ok (Alias e n))) (\<lambda>x us. rest_of E 1 ts us))"
    by (rule total_parserD [OF total_expr ts])
       (auto intro!: wp_option name dest: rest_match(1) simp del: wp_simps(2) One_nat_def)
qed

lemma total_order_item: "total_parser E k 1 (parse_order_item k)"
  unfolding total_parser_def parse_order_item_def wp_simps
proof (intro allI impI)
  fix ts
  assume ts: "numbers_ok E ts" "length ts < k"
  show "wp E (parse_expr k ts) (\<lambda>e us. wp E (case match_keyword ''DESC'' us of
          None \<Rightarrow> (case match_keyword ''ASC'' us of None \<Rightarrow> ok (e, True) us | Some us \<Rightarrow> ok (e, True) us)
        | Some us \<Rightarrow> ok (e, False) us) (\<lambda>x us. rest_of E 1 ts us))"
    by (rule total_parserD [OF total_expr ts])
       (auto intro!: wp_option dest: rest_match(1) simp del: One_nat_def)
qed

lemma apply_select_error: "apply_select p items gs = Inl e \<Longrightarrow> E e"
  by (auto simp: apply_select_def Let_def split: option.splits if_splits)

lemma having_error: "having_filter p e = Inl x \<Longrightarrow> E x"
proof -
  have "substitute_aggregates items e = Inl x \<Longrightarrow> E x" for items e x
    by (induction items e rule: substitute_aggregates.induct)
       (auto simp: rbind_Inl_iff aggregate_column_def split: option.splits)
  then show "having_filter p e = Inl x \<Longrightarrow> E x"
    by (auto simp: having_filter_def rbind_Inl_iff split: lplan.splits)
qed

lemma resolve_error: "resolve_table tables n = Inl x \<Longrightarrow> E x"
  by (auto simp: resolve_table_def split: option.splits)

text \<open>The clauses run on fewer tokens than the fuel.\<close>

lemma fewer_total:
  "total_parser E k d p \<Longrightarrow> fewer E k ts \<Longrightarrow> (\<And>x us. fewer E k us \<Longrightarrow> Q x us) \<Longrightarrow> wp E (p ts) Q"
  by (rule total_parserD) (auto simp: fewer_def rest_of_def)

lemma fewer_expects:
  assumes "fewer E k ts" "\<And>us. fewer E k us \<Longrightarrow> Q () us"
  shows "wp E (expect_keyword v ts) Q" "wp E (expect_operator v ts) Q"
  using assms by (auto intro!: wp_expects simp: fewer_def rest_of_def)

lemma fewer_identifier:
  "fewer E k ts \<Longrightarrow> (\<And>x us. fewer E k us \<Longrightarrow> Q x us) \<Longrightarrow> wp E (expect_identifier ts) Q"
  by (rule wp_identifier) (auto simp: fewer_def rest_of_def)

lemma fewer_lift:
  "fewer E k ts \<Longrightarrow> (\<And>e. r = Inl e \<Longrightarrow> E e) \<Longrightarrow> (\<And>x. r = Inr x \<Longrightarrow> Q x ts) \<Longrightarrow> wp E (lift_res r ts) Q"
  by (auto split: sum.splits)

lemma fewer_optional:
  assumes "fewer E k ts" "\<And>us. fewer E k us \<Longrightarrow> wp E (clause us) (\<lambda>x us. fewer E k us)"
    "\<And>x us. fewer E k us \<Longrightarrow> Q x us"
  shows "wp E (optional v clause otherwise ts) Q"
  unfolding optional_def
proof (rule wp_option)
  fix us
  assume "match_keyword v ts = Some us"
  then have "rest_of E 1 ts us" using match_rest(1) [of E ts v us] assms(1) by (simp add: fewer_def)
  then have "fewer E k us" using assms(1) by (auto simp: fewer_def rest_of_def)
  then show "wp E (clause us) Q" using assms(2,3) by (blast intro: wp_mono)
qed (use assms in simp)

lemma fewer_select_list:
  assumes "fewer E k ts" "\<And>x us. fewer E k us \<Longrightarrow> Q x us"
  shows "wp E (parse_select_list k ts) Q"
  unfolding parse_select_list_def
proof (rule wp_option)
  show "wp E (pbind (comma_list (parse_select_item k) k ts) (\<lambda>items. ok (Some items))) Q"
    unfolding wp_simps
    by (rule fewer_total [OF total_comma_list [OF total_select_item]]) (use assms in auto)
qed (use assms match_rest(3) [of E ts "''*''"] in \<open>auto simp: fewer_def rest_of_def\<close>)

lemma fewer_join:
  assumes "fewer E k ts" "\<And>x us. fewer E k us \<Longrightarrow> Q x us"
  shows "wp E (parse_join tables p ts) Q"
  unfolding parse_join_def wp_simps(2)
  by (intro fewer_identifier [OF assms(1)] fewer_lift fewer_expects fewer_total [OF total_qualified_name])
     (assumption | rule resolve_error | use assms(2) in simp)+

lemma fewer_group_by:
  assumes "fewer E k ts" "\<And>x us. fewer E k us \<Longrightarrow> Q x us"
  shows "wp E (parse_group_by k ts) Q"
  unfolding parse_group_by_def wp_simps(2)
  by (intro fewer_expects [OF assms(1)] fewer_total [OF total_comma_list [OF total_expr]]) (use assms(2) in auto)

lemma fewer_order_by:
  assumes "fewer E k ts" "\<And>x us. fewer E k us \<Longrightarrow> Q x us"
  shows "wp E (parse_order_by k p ts) Q"
  unfolding parse_order_by_def wp_simps(2)
  by (intro fewer_expects [OF assms(1)] fewer_total [OF total_comma_list [OF total_order_item]] fewer_lift)
     (use assms(2) in \<open>auto simp: mk_sort_def\<close>)

lemma fewer_having:
  assumes "fewer E k ts" "\<And>x us. fewer E k us \<Longrightarrow> Q x us"
  shows "wp E (pbind (parse_expr k ts) (\<lambda>e. lift_res (having_filter p e))) Q"
  unfolding wp_simps(2)
  by (intro fewer_total [OF total_expr assms(1)] fewer_lift) (use assms(2) in \<open>auto intro: having_error\<close>)

lemma fewer_where:
  assumes "fewer E k ts" "\<And>x us. fewer E k us \<Longrightarrow> Q x us"
  shows "wp E (pbind (parse_expr k ts) (\<lambda>e. ok (Filter p e))) Q"
  unfolding wp_simps by (rule fewer_total [OF total_expr assms(1)]) (use assms(2) in auto)

lemma select_stmt_total:
  "fewer E k ts \<Longrightarrow> wp E (parse_select_stmt k tables ts) (\<lambda>_ _. True)"
  unfolding parse_select_stmt_def wp_simps(2)
  by (assumption | rule fewer_expects(1) fewer_select_list fewer_identifier fewer_lift fewer_optional
        fewer_join fewer_group_by fewer_order_by fewer_having fewer_where
      | erule resolve_error apply_select_error | simp)+

end

definition any_error :: "py_error \<Rightarrow> bool" where
  "any_error e = True"

text \<open>\<^verbatim>\<open>SqlSyntaxError\<close>, the common superclass\<close>

fun syntax_error :: "py_error \<Rightarrow> bool" where
  "syntax_error (SqlLexError _) = True"
| "syntax_error (SqlParseError _) = True"
| "syntax_error _ = False"

interpretation anything: error_class any_error
  by unfold_locales (simp add: any_error_def)

interpretation sql: error_class syntax_error
  by unfold_locales simp

section \<open>Number tokens\<close>

text \<open>
  Texts in which every digit is a decimal digit, so without the superscript ones, and in which no run
  of digits is longer than \<^verbatim>\<open>int\<close> reads.
\<close>

definition plain_digits :: "string \<Rightarrow> bool" where
  "plain_digits = list_all (\<lambda>c. is_digit c \<longrightarrow> is_decimal c)"

definition short_numbers :: "string \<Rightarrow> bool" where
  "short_numbers cs = list_all (\<lambda>ds. list_all is_decimal ds \<longrightarrow> length ds \<le> INT_MAX_STR_DIGITS) (sublists cs)"

lemma short_numbers_sublist: "short_numbers cs \<Longrightarrow> sublist ds cs \<Longrightarrow> short_numbers ds"
  by (auto simp: short_numbers_def list_all_iff intro: sublist_order.order.trans)

lemma short_numbers_decimal: "short_numbers cs \<Longrightarrow> list_all is_decimal cs \<Longrightarrow> length cs \<le> INT_MAX_STR_DIGITS"
  by (auto simp: short_numbers_def list_all_iff)

lemma short_text: "length cs \<le> INT_MAX_STR_DIGITS \<Longrightarrow> short_numbers cs"
  by (auto simp: short_numbers_def list_all_iff dest!: sublist_length_le)

definition number_text :: "string \<Rightarrow> bool" where
  "number_text v = (v \<noteq> [] \<and> list_all is_decimal v
     \<or> (\<exists>a b. v = a @ CHR ''.'' # b \<and> a @ b \<noteq> [] \<and> list_all is_decimal (a @ b)))"

lemma decimal_not_dot: "is_decimal c \<Longrightarrow> c \<noteq> CHR ''.''"
  by (auto simp: is_decimal_def code_def)

lemma read_number_after_dot:
  "plain_digits cs \<Longrightarrow> read_number i True cs = (v, j, r) \<Longrightarrow> list_all is_decimal v"
  by (induction i "True" cs arbitrary: v j r rule: read_number.induct)
     (auto simp: plain_digits_def split: if_splits prod.splits)

lemma read_number_shape:
  "plain_digits cs \<Longrightarrow> read_number i False cs = (v, j, r) \<Longrightarrow>
     list_all is_decimal v \<or> (\<exists>a b. v = a @ CHR ''.'' # b \<and> list_all is_decimal (a @ b))"
proof (induction cs arbitrary: i v j r)
  case (Cons c cs)
  show ?case
  proof (cases "is_digit c \<or> c = CHR ''.''")
    case True
    obtain v' j' r' where rest: "read_number (i + 1) (c = CHR ''.'') cs = (v', j', r')" by (metis prod_cases3)
    have v: "v = c # v'" using Cons.prems(2) rest True by simp
    show ?thesis
    proof (cases "c = CHR ''.''")
      case True
      then have "list_all is_decimal v'"
        using read_number_after_dot [of cs "i + 1" v' j' r'] rest Cons.prems(1) by (simp add: plain_digits_def)
      then show ?thesis using v True by (intro disjI2 exI [of _ "[]"] exI [of _ v']) simp
    next
      case False
      then have c: "is_decimal c" using True Cons.prems(1) by (simp add: plain_digits_def)
      from Cons.IH [of "i + 1" v' j' r'] rest False Cons.prems(1)
      have "list_all is_decimal v' \<or> (\<exists>a b. v' = a @ CHR ''.'' # b \<and> list_all is_decimal (a @ b))"
        by (simp add: plain_digits_def)
      then show ?thesis
      proof
        assume "\<exists>a b. v' = a @ CHR ''.'' # b \<and> list_all is_decimal (a @ b)"
        then obtain a b where "v' = a @ CHR ''.'' # b" "list_all is_decimal (a @ b)" by blast
        then show ?thesis using v c by (intro disjI2 exI [of _ "c # a"] exI [of _ b]) simp
      qed (simp add: v c)
    qed
  qed (use Cons.prems in auto)
qed simp

lemma read_number_text:
  assumes "plain_digits cs" "cs \<noteq> []" "starts_number cs" "read_number i False cs = (v, j, r)"
  shows "number_text v"
proof -
  have "v \<noteq> [] \<and> v \<noteq> ''.''"
  proof (cases cs)
    case (Cons c ds)
    show ?thesis
    proof (cases "c = CHR ''.''")
      case True
      then obtain d es where "ds = d # es" "is_digit d"
        using Cons assms(3) by (cases ds) (auto simp: starts_number_def is_digit_def is_decimal_def code_def)
      then show ?thesis using assms(4) Cons True by (auto split: prod.splits)
    next
      case False
      then show ?thesis using assms(3,4) Cons by (auto simp: starts_number_def split: prod.splits)
    qed
  qed (use assms(2) in simp)
  then show ?thesis
    using read_number_shape [OF assms(1,4)] unfolding number_text_def by (metis append.left_neutral append_is_Nil_conv)
qed

lemma number_text_value:
  assumes "number_text v" "list_all is_decimal v \<longrightarrow> length v \<le> INT_MAX_STR_DIGITS"
  shows "\<not> isl (number_value v)"
proof -
  have chars: "c \<in> set v \<Longrightarrow> is_decimal c \<or> c = CHR ''.''" for c
    using assms(1) by (auto simp: number_text_def list_all_iff)
  have "\<not> is_space (CHR ''.'')" by (simp add: is_space_def code_def)
  then have "strip v = v"
    using chars decimal_not_space by (intro strip_no_space) (auto simp: list_all_iff)
  moreover have v: "v \<noteq> []" using assms(1) by (auto simp: number_text_def)
  then have hd: "is_decimal (hd v) \<or> hd v = CHR ''.''" using chars by simp
  then have "split_sign v = (False, v)"
    using v by (cases v) (auto simp: is_decimal_def code_def)
  moreover have "upper_ascii v \<noteq> ''INF''" "upper_ascii v \<noteq> ''INFINITY''" "upper_ascii v \<noteq> ''NAN''"
    using v hd by (cases v; auto simp: upper_ascii_def upper_char_def is_decimal_def code_def)+
  ultimately have int: "py_int v = (case digit_run v 0 0 of (n, k, rest) \<Rightarrow>
        if 0 < k \<and> rest = [] \<and> k \<le> INT_MAX_STR_DIGITS then Inr (int n) else Inl ValueError)"
    and float: "py_float v = (case parse_decimal False v of Some f \<Rightarrow> Inr f | None \<Rightarrow> Inl ValueError)"
    by (simp_all add: py_int_def py_float_def Let_def split: prod.split)
  show ?thesis
  proof (cases "CHR ''.'' \<in> set v")
    case False
    then have "list_all is_decimal v" using chars by (auto simp: list_all_iff)
    then show ?thesis
      using digit_run_append [of v "[]" 0 0] int v False assms(2) by (simp add: number_value_def)
  next
    case True
    then obtain a b where ab: "v = a @ CHR ''.'' # b" "a @ b \<noteq> []" "list_all is_decimal (a @ b)"
      using assms(1) decimal_not_dot unfolding number_text_def by (auto simp: list_all_iff)
    have "digit_run v 0 0 = (foldl (\<lambda>v c. 10 * v + digit_val c) 0 a, length a, CHR ''.'' # b)"
      using digit_run_append [of a "CHR ''.'' # b" 0 0] ab by (simp add: is_decimal_def code_def)
    moreover have "digit_run b 0 0 = (foldl (\<lambda>v c. 10 * v + digit_val c) 0 b, length b, [])"
      using digit_run_append [of b "[]" 0 0] ab by simp
    ultimately show ?thesis
      using True float ab(2) by (simp add: number_value_def parse_decimal_def parse_exponent_def)
  qed
qed

lemma numbers_ok_Cons:
  "numbers_ok E (t # ts) \<longleftrightarrow>
     (tok_type t = NUMBER \<longrightarrow> (case number_value (tok_value t) of Inl e \<Rightarrow> E e | Inr v \<Rightarrow> True)) \<and> numbers_ok E ts"
  by (simp add: numbers_ok_def)

lemma then_tokens_Inr: "then_tokens t r = Inr ts \<longleftrightarrow> (\<exists>us. r = Inr us \<and> ts = t # us)"
  by (auto simp: then_tokens_def rbind_Inr_iff)

text \<open>What a token leaves of the text is a suffix of it, and a number is spelled there.\<close>

definition plain_text :: "string \<Rightarrow> bool" where
  "plain_text cs \<longleftrightarrow> plain_digits cs \<and> short_numbers cs"

lemma plain_text_suffix: "plain_text cs \<Longrightarrow> suffix ds cs \<Longrightarrow> plain_text ds"
  unfolding plain_text_def plain_digits_def
  by (auto intro: short_numbers_sublist dest: set_mono_suffix simp: list_all_iff)

lemma read_number_split: "read_number i d cs = (v, j, r) \<Longrightarrow> cs = v @ r"
  by (induction i d cs arbitrary: v j r rule: read_number.induct) (auto split: if_splits prod.splits)

lemma read_string_suffix: "read_string i j cs = Inr (v, k, r) \<Longrightarrow> suffix r cs"
  by (induction i j cs arbitrary: v k r rule: read_string.induct)
     (auto simp: rbind_Inr_iff suffix_Cons split: if_splits prod.splits)

lemma read_identifier_suffix: "read_identifier i cs = (v, j, r) \<Longrightarrow> suffix r cs"
  by (auto simp: read_identifier_def Let_def suffix_dropWhile)

lemma word_token_type [simp]: "tok_type (word_token v i) \<noteq> NUMBER"
  by (simp add: word_token_def)

lemma next_token_plain:
  assumes "plain_text (ch # rest)" "next_token i ch rest = Inr (t, j, r)"
  shows "plain_text r \<and> (\<forall>u. t = Some u \<longrightarrow> numbers_ok syntax_error [u])"
proof
  have "suffix r (ch # rest)"
    using assms(2)
  proof (cases rule: next_token_cases)
    case (number v)
    then show ?thesis using read_number_split [OF number(2)] by (metis suffixI)
  qed (auto simp: suffix_Cons dest: read_string_suffix read_identifier_suffix)
  then show "plain_text r" using plain_text_suffix [OF assms(1)] by simp
  show "\<forall>u. t = Some u \<longrightarrow> numbers_ok syntax_error [u]"
    using assms(2)
  proof (cases rule: next_token_cases)
    case (number v)
    have "sublist v (ch # rest)" using read_number_split [OF number(2)] by (simp add: sublist_append_rightI)
    then have "list_all is_decimal v \<longrightarrow> length v \<le> INT_MAX_STR_DIGITS"
      using assms(1) short_numbers_sublist short_numbers_decimal by (auto simp: plain_text_def)
    then have "\<not> isl (number_value v)"
      using number_text_value read_number_text [OF _ _ number(1,2)] assms(1) by (simp add: plain_text_def)
    then show ?thesis using number(3) by (auto simp: numbers_ok_def split: sum.split)
  qed (auto simp: numbers_ok_def)
qed

lemma tokenize_from_numbers:
  "plain_text cs \<Longrightarrow> tokenize_from i cs = Inr ts \<Longrightarrow> numbers_ok syntax_error ts"
proof (induction i cs arbitrary: ts rule: tokenize_from.induct)
  case (2 i ch rest)
  obtain t j r where step: "next_token i ch rest = Inr (t, j, r)"
    using "2.prems"(2) by (cases "next_token i ch rest") auto
  note plain = next_token_plain [OF "2.prems"(1) this]
  show ?case
  proof (cases t)
    case None
    then show ?thesis using "2.IH"(1) [OF step] "2.prems"(2) step plain by simp
  next
    case (Some u)
    then obtain us where "tokenize_from j r = Inr us" "ts = u # us"
      using "2.prems"(2) step by (auto simp: then_tokens_Inr)
    then show ?thesis
      using "2.IH"(2) [OF step] Some plain by (auto simp: numbers_ok_Cons [of _ u us] numbers_ok_Cons [of _ u "[]"])
  qed
qed (auto simp: numbers_ok_def)

lemma read_string_error: "read_string i j cs = Inl e \<Longrightarrow> e = SqlLexError i"
  by (induction i j cs rule: read_string.induct) (auto simp: rbind_Inl_iff split: if_splits)

lemma tokenize_errors: "tokenize_from i cs = Inl e \<Longrightarrow> syntax_error e"
proof (induction i cs rule: tokenize_from.induct)
  case (2 i ch rest)
  have "next_token i ch rest = Inl x \<Longrightarrow> syntax_error x" for x
    unfolding next_token_def Let_def
    by (auto simp: rbind_Inl_iff split: if_splits list.splits prod.splits dest: read_string_error)
  then show ?case
    using 2 by (auto simp: then_tokens_def rbind_Inl_iff split: sum.splits prod.splits option.splits)
qed simp

text \<open>
  C38: Whatever the query and the tables, the parser returns: the fuel, one more than the number of
  tokens, is enough.
\<close>

theorem parse_sql_total: "parse_sql query tables \<noteq> None"
proof (cases "tokenize query")
  case (Inr ts)
  have "fewer any_error (Suc (length ts)) ts"
    by (auto simp: fewer_def numbers_ok_def any_error_def split: sum.split)
  from anything.select_stmt_total [OF this, of tables] Inr show ?thesis
    by (auto simp: parse_sql_def wp_def split: option.splits)
qed (simp add: parse_sql_def)

text \<open>
  C39: A query whose digits are decimal digits, at most 4300 of them in a row, fails with a syntax
  error, of the tokenizer or of the parser, and with nothing else.  (Superscript digits and longer
  integer literals make \<^verbatim>\<open>int\<close> raise \<^verbatim>\<open>ValueError\<close>, as the lemmas below show.)
\<close>

theorem parse_sql_only_syntax_errors:
  assumes "plain_digits query" "short_numbers query" "parse_sql query tables = Some (Inl e)"
  shows "syntax_error e"
proof (cases "tokenize query")
  case (Inl x)
  then show ?thesis using assms(3) tokenize_errors [of 0 query x] by (simp add: parse_sql_def tokenize_def)
next
  case (Inr ts)
  then have "fewer syntax_error (Suc (length ts)) ts"
    using tokenize_from_numbers [of query] assms(1,2) by (simp add: fewer_def tokenize_def plain_text_def)
  from sql.select_stmt_total [OF this, of tables] Inr assms(3) show ?thesis
    by (auto simp: parse_sql_def wp_def split: option.splits sum.splits)
qed

definition raised :: "'a res option \<Rightarrow> py_error option" where
  "raised r = (case r of Some (Inl e) \<Rightarrow> Some e | _ \<Rightarrow> None)"

lemma raised_Some: "raised r = Some e \<longleftrightarrow> r = Some (Inl e)"
  by (auto simp: raised_def split: option.splits sum.splits)

theorem parse_sql_only_syntax_errors_witness:
  "\<exists>e. parse_sql ''SELECT 1 +'' Map.empty = Some (Inl e) \<and> syntax_error e"
proof -
  have "raised (parse_sql ''SELECT 1 +'' Map.empty) = Some (SqlParseError (UnexpectedToken 10))" by code_simp
  moreover have "plain_digits ''SELECT 1 +''" by code_simp
  moreover have "short_numbers ''SELECT 1 +''" by (rule short_text) (simp add: INT_MAX_STR_DIGITS_def)
  ultimately show ?thesis unfolding raised_Some using parse_sql_only_syntax_errors by blast
qed

text \<open>
  What the documentation says otherwise: a superscript digit is a digit to the tokenizer and not to
  \<^verbatim>\<open>int\<close>, which reads at most 4300 digits, and \<^verbatim>\<open>INNER\<close> is no keyword.
\<close>

lemma long_literal:
  assumes "list_all is_decimal v" "INT_MAX_STR_DIGITS < length v"
  shows "number_value v = Inl ValueError"
proof -
  have "CHR ''.'' \<notin> set v" using assms(1) decimal_not_dot by (auto simp: list_all_iff)
  moreover have "split_sign v = (False, v)"
    using assms(1) by (cases v) (auto simp: is_decimal_def code_def)
  moreover have "strip v = v"
    using assms(1) decimal_not_space by (intro strip_no_space) (auto simp: list_all_iff)
  ultimately show ?thesis
    using digit_run_append [OF assms(1), of "[]" 0 0] assms(2) by (simp add: number_value_def py_int_def)
qed

lemma superscript_digit: "parse_sql (''SELECT 1'' @ [CHR 0xB2]) Map.empty = Some (Inl ValueError)"
  unfolding raised_Some [symmetric] by code_simp

lemma inner_join_rejected:
  "parse_sql ''SELECT * FROM a INNER JOIN b'' [''a'' \<mapsto> p] = Some (Inl (SqlParseError (UnexpectedToken 21)))"
  unfolding raised_Some [symmetric] by code_simp

end
