(* ===== verification/SqlGrammar.thy ===== *)
theory SqlGrammar
  imports SqlPrinter SqlTotality
begin

text \<open>
  The expression parser inverts the printer: on the words of an expression followed by a word that
  does not continue it, the parser of the expression's level returns the expression.
\<close>

section \<open>The parser of each level\<close>

definition parse_level :: "nat \<Rightarrow> nat \<Rightarrow> token list \<Rightarrow> expr parse" where
  "parse_level k p =
     (if p = 0 then parse_or (parse_expr k) k
      else if p = 1 then parse_and (parse_expr k) k
      else if p = 2 then parse_not (parse_expr k) k
      else if p = 3 then parse_null_check (parse_expr k) k
      else if p = 4 then parse_comparison (parse_expr k) k
      else if p = 5 then parse_additive (parse_expr k) k
      else if p = 6 then parse_multiplicative (parse_expr k) k
      else if p = 7 then parse_unary (parse_expr k)
      else parse_primary (parse_expr k))"

definition level_ops :: "nat \<Rightarrow> token \<Rightarrow> binop option" where
  "level_ops q =
     (if q = 0 then or_op else if q = 1 then and_op else if q = 5 then additive_op else multiplicative_op)"

definition loop_levels :: "nat set" where
  "loop_levels = {0, 1, 5, 6}"

lemma parse_level_loop:
  "q \<in> loop_levels \<Longrightarrow>
     parse_level k q ts = pbind (parse_level k (Suc q) ts) (binary_loop (level_ops q) (parse_level k (Suc q)) k)"
  by (auto simp: loop_levels_def parse_level_def level_ops_def parse_or_def parse_and_def parse_additive_def
      parse_multiplicative_def)

lemma parse_expr_level: "parse_expr (Suc k) = parse_level k 0"
  by (auto simp: parse_level_def)

text \<open>The words after which the parser of level \<open>p\<close> or above would go on.\<close>

definition continues :: "nat \<Rightarrow> word \<Rightarrow> bool" where
  "continues q w =
     (if q = 0 then w = kw ''OR''
      else if q = 1 then w = kw ''AND''
      else if q = 3 then w = kw ''IS''
      else if q = 4 then fst w = OPERATOR \<and> snd w \<in> fst ` set COMPARISON_OPERATORS
      else if q = 5 then w = oper ''+'' \<or> w = oper ''-''
      else if q = 6 then w = oper ''*'' \<or> w = oper ''/''
      else q = 8 \<and> (w = punct ''('' \<or> w = punct ''.''))"

definition stops :: "nat \<Rightarrow> word list \<Rightarrow> bool" where
  "stops p ws = (ws \<noteq> [] \<and> (\<forall>q. p \<le> q \<longrightarrow> \<not> continues q (hd ws)))"

definition reads :: "nat \<Rightarrow> nat \<Rightarrow> token list \<Rightarrow> expr \<Rightarrow> word list \<Rightarrow> bool" where
  "reads k p ts e ws = (\<exists>us. parse_level k p ts = ok e us \<and> map spelling us = ws)"

lemma ok_inject [simp]: "ok x ts = ok y us \<longleftrightarrow> x = y \<and> ts = us"
  by (simp add: ok_def)

lemma match_other [simp]:
  "tok_type t \<noteq> PUNCTUATION \<Longrightarrow> match_punctuation v (t # us) = None"
  "tok_type t \<noteq> OPERATOR \<Longrightarrow> match_operator v (t # us) = None"
  by (simp_all add: match_punctuation_def match_operator_def match_token_def is_token_def current_def)

lemma pbind_ok [simp]: "pbind (ok x ts) f = f x ts"
  by (simp add: pbind_def ok_def)

lemma stops_mono: "stops p ws \<Longrightarrow> p \<le> q \<Longrightarrow> stops q ws"
  by (auto simp: stops_def)

lemma spelled_Cons: "map spelling ts = w # ws \<longleftrightarrow> (\<exists>t us. ts = t # us \<and> spelling t = w \<and> map spelling us = ws)"
  by (cases ts) auto

lemma current_Cons [simp]: "current (t # us) = t"
  by (simp add: current_def)

lemma advance_Cons [simp]: "tok_type t \<noteq> EOF \<Longrightarrow> advance (t # us) = us"
  by (simp add: advance_def)

lemma is_token_spelling: "is_token ty v t \<longleftrightarrow> spelling t = (ty, v)"
  by (auto simp: is_token_def spelling_def)

lemma spelling_type: "spelling t = (ty, v) \<Longrightarrow> tok_type t = ty \<and> tok_value t = v"
  by (auto simp: spelling_def)

lemma match_spelled:
  assumes "spelling t = (ty, v)" "ty \<noteq> EOF"
  shows "match_token ty u (t # us) = (if u = v then Some us else None)"
  using assms by (auto simp: match_token_def is_token_def dest: spelling_type)

lemma current_of: "map spelling us = ws \<Longrightarrow> ws \<noteq> [] \<Longrightarrow> spelling (current us) = hd ws"
  by (cases us) auto

text \<open>No operator of the level stands at the start of the remaining words.\<close>

lemma stops_ops:
  assumes "map spelling us = ws" "stops p ws"
  shows "p = 0 \<Longrightarrow> or_op (current us) = None" "p \<le> 1 \<Longrightarrow> and_op (current us) = None"
    "p \<le> 3 \<Longrightarrow> match_keyword ''IS'' us = None" "p \<le> 4 \<Longrightarrow> comparison_op (current us) = None"
    "p \<le> 5 \<Longrightarrow> additive_op (current us) = None" "p \<le> 6 \<Longrightarrow> multiplicative_op (current us) = None"
    "p \<le> 8 \<Longrightarrow> \<not> is_token PUNCTUATION ''('' (current us)" "p \<le> 8 \<Longrightarrow> match_punctuation ''.'' us = None"
proof -
  have cur: "spelling (current us) = hd ws" using current_of [OF assms(1)] assms(2) by (simp add: stops_def)
  have no: "p \<le> q \<Longrightarrow> \<not> continues q (spelling (current us))" for q
    using assms(2) cur by (simp add: stops_def)
  show "p = 0 \<Longrightarrow> or_op (current us) = None" using no [of 0]
    by (simp add: or_op_def is_token_spelling continues_def)
  show "p \<le> 1 \<Longrightarrow> and_op (current us) = None" using no [of 1]
    by (simp add: and_op_def is_token_spelling continues_def)
  show "p \<le> 3 \<Longrightarrow> match_keyword ''IS'' us = None" using no [of 3]
    by (simp add: match_keyword_def match_token_def is_token_spelling continues_def)
  show "p \<le> 4 \<Longrightarrow> comparison_op (current us) = None" using no [of 4]
    by (auto simp: comparison_op_def spelling_def continues_def map_of_eq_None_iff)
  show "p \<le> 5 \<Longrightarrow> additive_op (current us) = None" using no [of 5]
    by (simp add: additive_op_def is_token_spelling continues_def)
  show "p \<le> 6 \<Longrightarrow> multiplicative_op (current us) = None" using no [of 6]
    by (simp add: multiplicative_op_def is_token_spelling continues_def)
  show "p \<le> 8 \<Longrightarrow> \<not> is_token PUNCTUATION ''('' (current us)" using no [of 8]
    by (simp add: is_token_spelling continues_def)
  show "p \<le> 8 \<Longrightarrow> match_punctuation ''.'' us = None" using no [of 8]
    by (simp add: match_punctuation_def match_token_def is_token_spelling continues_def)
qed

lemma loop_stops:
  assumes "q \<in> loop_levels" "map spelling us = ws" "stops q ws" "0 < k"
  shows "binary_loop (level_ops q) operand k e us = ok e us"
proof -
  have "level_ops q (current us) = None"
    using assms(1) stops_ops [OF assms(2,3)] by (auto simp: loop_levels_def level_ops_def)
  then show ?thesis using assms(4) by (cases k) auto
qed

lemma no_prefix:
  "spelling (current ts) \<noteq> kw ''NOT'' \<Longrightarrow> parse_not nested k ts = parse_null_check nested k ts"
  "spelling (current ts) \<noteq> oper ''-'' \<Longrightarrow> parse_unary nested ts = parse_primary nested ts"
  by (cases ts; simp add: is_token_spelling)+

text \<open>One level up, when nothing of that level precedes or follows.\<close>

lemma reads_up:
  assumes "reads k (Suc p) ts e ws" "stops p ws" "p \<le> 7" "0 < k"
    "p = 2 \<Longrightarrow> spelling (current ts) \<noteq> kw ''NOT''" "p = 7 \<Longrightarrow> spelling (current ts) \<noteq> oper ''-''"
  shows "reads k p ts e ws"
proof -
  obtain us where us: "parse_level k (Suc p) ts = ok e us" "map spelling us = ws"
    using assms(1) by (auto simp: reads_def)
  have "parse_level k p ts = ok e us"
  proof (cases "p \<in> loop_levels")
    case True
    then show ?thesis
      using parse_level_loop [OF True, of k ts] loop_stops [OF True us(2) assms(2,4)] us(1) by simp
  next
    case False
    then have "p = 2 \<or> p = 3 \<or> p = 4 \<or> p = 7" using assms(3) by (simp add: loop_levels_def) presburger
    then consider "p = 2" | "p = 3" | "p = 4" | "p = 7" by blast
    then show ?thesis
      using us(1) assms(5,6) stops_ops [OF us(2) assms(2)]
      by cases (auto simp: parse_level_def parse_null_check_def parse_comparison_def no_prefix)
  qed
  with us show ?thesis by (auto simp: reads_def)
qed

lemma reads_above:
  assumes "p \<le> q" "q \<le> 8" "reads k q ts e ws" "stops p ws" "0 < k"
    "p \<le> 2 \<Longrightarrow> 2 < q \<Longrightarrow> spelling (current ts) \<noteq> kw ''NOT''"
    "p \<le> 7 \<Longrightarrow> 7 < q \<Longrightarrow> spelling (current ts) \<noteq> oper ''-''"
  shows "reads k p ts e ws"
  using assms(1,4,6,7)
proof (induction rule: inc_induct)
  case base
  show ?case by (rule assms(3))
next
  case (step n)
  have "stops (Suc n) ws" using stops_mono [OF step.prems(1), of "Suc n"] by simp
  then show ?case
    using step assms(2,5) by (intro reads_up [OF step.IH]) auto
qed

section \<open>Words of an expression\<close>

lemma words_nonempty [simp]: "words e \<noteq> []"
  by (induction e) (auto simp: call_def)

lemma parens_nonempty [simp]: "parens b ws = [] \<longleftrightarrow> \<not> b \<and> ws = []"
  by (simp add: parens_def)

lemma level_le: "level e \<le> 8"
  by (induction e) (auto simp: op_level_def split: binop.split)

lemma words_start:
  "(2 < level e \<longrightarrow> hd (words e) \<noteq> kw ''NOT'') \<and> (level e = 8 \<longrightarrow> hd (words e) \<noteq> oper ''-'')"
proof (induction e)
  case (Literal v)
  then show ?case by (cases v rule: literal_word.cases) auto
next
  case (Binary op l r)
  then show ?case
    by (auto simp: parens_def hd_append left_level_def op_level_def split: binop.splits if_splits)
qed (auto simp: call_def parens_def hd_append)

definition words_of_level :: "nat \<Rightarrow> expr \<Rightarrow> word list" where
  "words_of_level p e = parens (level e < p) (words e)"

lemma words_of_level_self [simp]: "words_of_level (level e) e = words e" "words_of_level 0 e = words e"
  by (simp_all add: words_of_level_def parens_def)

lemma words_of_level_nonempty [simp]: "words_of_level p e \<noteq> []"
  by (simp add: words_of_level_def)

lemma words_Binary:
  "words (Binary op l r) =
     (if negation op l then oper ''-'' # words_of_level 7 r
      else words_of_level (left_level op) l @ op_word op # words_of_level (Suc (op_level op)) r)"
  by (simp add: words_of_level_def less_Suc_eq_le)

lemma words_no_star: "hd (words e) \<noteq> oper ''*''"
proof (induction e)
  case (Literal v)
  then show ?case by (cases v rule: literal_word.cases) auto
qed (auto simp: call_def parens_def hd_append)

section \<open>The parser reads the words back\<close>

text \<open>
  \<open>readable e\<close>: the parser of the level of \<open>e\<close> reads its words; \<open>unrolls q e\<close>: the parser of a looping
  level, on words that may go on at that level, is in its loop with \<open>e\<close> read.
\<close>

definition readable :: "expr \<Rightarrow> bool" where
  "readable e = (\<forall>k ts ws. map spelling ts = words e @ ws \<longrightarrow> length ts \<le> k \<longrightarrow> stops (level e) ws
      \<longrightarrow> reads k (level e) ts e ws)"

definition unrolls :: "nat \<Rightarrow> expr \<Rightarrow> bool" where
  "unrolls q e = (\<forall>k ts ws. map spelling ts = words_of_level q e @ ws \<longrightarrow> length ts \<le> k
      \<longrightarrow> stops (Suc q) ws \<longrightarrow> (\<exists>j us. length us < j \<and> map spelling us = ws
        \<and> parse_level k q ts = binary_loop (level_ops q) (parse_level k (Suc q)) j e us))"

lemma unrollsD:
  assumes "unrolls q e" "map spelling ts = words_of_level q e @ ws" "length ts \<le> k" "stops (Suc q) ws"
  obtains j us where "length us < j" "map spelling us = ws"
    "parse_level k q ts = binary_loop (level_ops q) (parse_level k (Suc q)) j e us"
  using assms unfolding unrolls_def by blast

lemma match_paren:
  assumes "spelling t = punct v"
  shows "match_punctuation u (t # us) = (if u = v then Some us else None)"
    "expect_punctuation v (t # us) = ok () us"
  using match_spelled [OF assms] by (simp_all add: match_punctuation_def expect_punctuation_def expected_def)

lemma not_literal [simp]:
  "spelling t = punct v \<Longrightarrow> keyword_literal t = None" "spelling t = ident v \<Longrightarrow> keyword_literal t = None"
  by (simp_all add: keyword_literal_def is_token_spelling)

lemma nested_reads:
  assumes "readable e" "map spelling us = words e @ punct '')'' # ws" "length us < k"
  obtains vs where "parse_expr k us = ok e vs" "map spelling vs = punct '')'' # ws"
proof -
  obtain j where k: "k = Suc j" "length us \<le> j" using assms(3) by (cases k) auto
  have "reads j (level e) us e (punct '')'' # ws)"
    using assms(1,2) k(2) by (simp add: readable_def stops_def continues_def)
  moreover have "spelling (current us) = hd (words e)" "0 < j"
    using current_of [OF assms(2)] assms(2) k(2) by (cases us; auto simp: hd_append)+
  ultimately have "reads j 0 us e (punct '')'' # ws)"
    using level_le [of e] words_start [of e]
    by (intro reads_above [of 0 "level e"]) (auto simp: stops_def continues_def)
  then show thesis using that k(1) parse_expr_level by (auto simp: reads_def)
qed

lemma readable_paren:
  assumes "readable e" "map spelling ts = punct ''('' # words e @ punct '')'' # ws" "length ts \<le> k"
  shows "reads k 8 ts e ws"
proof -
  obtain t us where t: "ts = t # us" "spelling t = punct ''(''" "map spelling us = words e @ punct '')'' # ws"
    using assms(2) by (auto simp: spelled_Cons)
  obtain vs where vs: "parse_expr k us = ok e vs" "map spelling vs = punct '')'' # ws"
    by (rule nested_reads [OF assms(1) t(3), of k]) (use assms(3) t(1) in auto)
  then obtain u xs where u: "vs = u # xs" "spelling u = punct '')''" "map spelling xs = ws"
    by (auto simp: spelled_Cons)
  have "parse_primary (parse_expr k) ts = ok e xs"
    using t vs u match_paren [of t] match_paren [of u]
    by (simp add: parse_primary_def spelling_type [OF t(2)])
  then show ?thesis using u(3) by (auto simp: reads_def parse_level_def)
qed

lemma readable_at:
  assumes "readable e" "map spelling ts = words_of_level p e @ ws" "length ts \<le> k" "stops p ws" "p \<le> 8"
  shows "reads k p ts e ws"
proof (cases "level e < p")
  case True
  then have ts: "map spelling ts = punct ''('' # words e @ punct '')'' # ws"
    using assms(2) by (simp add: words_of_level_def parens_def)
  then have "spelling (current ts) = punct ''(''" "0 < k" using assms(3) by (auto simp: spelled_Cons)
  then show ?thesis
    using readable_paren [OF assms(1) ts assms(3)] assms(4,5) by (intro reads_above [of p 8]) auto
next
  case False
  then have ts: "map spelling ts = words e @ ws" using assms(2) by (simp add: words_of_level_def parens_def)
  then have "reads k (level e) ts e ws"
    using assms(1,3,4) False stops_mono [of p ws "level e"] by (auto simp: readable_def)
  moreover have "spelling (current ts) = hd (words e)" "0 < k"
    using current_of [OF ts] assms(3) ts by (cases k; auto simp: hd_append)+
  ultimately show ?thesis
    using False assms(4) level_le [of e] words_start [of e] by (intro reads_above [of p "level e"]) auto
qed

lemma loop_levels_le: "q \<in> loop_levels \<Longrightarrow> q < 7"
  by (auto simp: loop_levels_def)

lemma unrolls_other:
  assumes "readable e" "level e \<noteq> q" "q \<in> loop_levels"
  shows "unrolls q e"
  unfolding unrolls_def
proof (intro allI impI)
  fix k ts ws
  assume ts: "map spelling ts = words_of_level q e @ ws" "length ts \<le> k" "stops (Suc q) ws"
  have "words_of_level q e = words_of_level (Suc q) e"
    using assms(2) by (auto simp: words_of_level_def parens_def)
  then have "reads k (Suc q) ts e ws"
    using readable_at [OF assms(1) _ ts(2,3)] ts(1) loop_levels_le [OF assms(3)] by simp
  then obtain us where us: "parse_level k (Suc q) ts = ok e us" "map spelling us = ws" by (auto simp: reads_def)
  have "length (words_of_level q e) + length us = length ts"
    using arg_cong [OF ts(1), of length] us(2) by auto
  then have "length us < k" using ts(2) by (cases "words_of_level q e") auto
  then show "\<exists>j us. length us < j \<and> map spelling us = ws
      \<and> parse_level k q ts = binary_loop (level_ops q) (parse_level k (Suc q)) j e us"
    using us parse_level_loop [OF assms(3), of k ts] by (intro exI [of _ k] exI [of _ us]) simp
qed

lemma op_word_ops:
  "op_level op \<in> loop_levels \<Longrightarrow> spelling t = op_word op \<Longrightarrow> level_ops (op_level op) t = Some op"
  "op_level op = 4 \<Longrightarrow> spelling t = op_word op \<Longrightarrow> comparison_op t = Some op"
  by (cases op; auto simp: op_level_def op_word_def level_ops_def loop_levels_def or_op_def and_op_def
      additive_op_def multiplicative_op_def comparison_op_def COMPARISON_OPERATORS_def is_token_spelling
      dest: spelling_type)+

lemma op_word_type: "spelling t = op_word op \<Longrightarrow> tok_type t \<noteq> EOF"
  by (cases op) (auto simp: op_word_def dest: spelling_type)

lemma op_word_stops: "op_level op < p \<Longrightarrow> stops p (op_word op # ws)"
  by (cases op) (auto simp: stops_def continues_def op_word_def op_level_def COMPARISON_OPERATORS_def)

lemma unrolls_op:
  assumes "unrolls q l" "readable r" "q \<in> loop_levels" "op_level op = q" "\<not> negation op l"
  shows "unrolls q (Binary op l r)"
  unfolding unrolls_def
proof (intro allI impI)
  fix k ts ws
  assume ts: "map spelling ts = words_of_level q (Binary op l r) @ ws" "length ts \<le> k" "stops (Suc q) ws"
  have left: "left_level op = q" using assms(3,4) by (auto simp: left_level_def loop_levels_def)
  have "words_of_level q (Binary op l r) = words_of_level q l @ op_word op # words_of_level (Suc q) r"
    using assms(4,5) left words_Binary [of op l r] by (simp add: words_of_level_def parens_def)
  then have words: "map spelling ts = words_of_level q l @ op_word op # words_of_level (Suc q) r @ ws"
    using ts(1) by simp
  obtain j us where us: "length us < j" "map spelling us = op_word op # words_of_level (Suc q) r @ ws"
    "parse_level k q ts = binary_loop (level_ops q) (parse_level k (Suc q)) j l us"
    by (rule unrollsD [OF assms(1) words ts(2)]) (use op_word_stops [of op "Suc q"] assms(4) in auto)
  then obtain t vs where t: "us = t # vs" "spelling t = op_word op" "map spelling vs = words_of_level (Suc q) r @ ws"
    by (auto simp: spelled_Cons)
  have "length us \<le> length ts"
    using arg_cong [OF words, of length] arg_cong [OF us(2), of length] by simp
  then have "reads k (Suc q) vs r ws"
    using readable_at [OF assms(2) t(3)] t(1) ts(2,3) loop_levels_le [OF assms(3)] by simp
  then obtain xs where xs: "parse_level k (Suc q) vs = ok r xs" "map spelling xs = ws" by (auto simp: reads_def)
  obtain i where i: "j = Suc i" using us(1) by (cases j) auto
  have "binary_loop (level_ops q) (parse_level k (Suc q)) j l us
      = binary_loop (level_ops q) (parse_level k (Suc q)) i (Binary op l r) xs"
    using i t op_word_ops(1) [of op t] op_word_type [OF t(2)] assms(3,4) xs(1) by simp
  moreover have "length xs \<le> length vs"
    using arg_cong [OF t(3), of length] xs(2) by auto
  ultimately show "\<exists>j us. length us < j \<and> map spelling us = ws
      \<and> parse_level k q ts = binary_loop (level_ops q) (parse_level k (Suc q)) j (Binary op l r) us"
    using us(1,3) t(1) i xs(2) by (intro exI [of _ i] exI [of _ xs]) simp
qed

lemma readable_loop:
  assumes "unrolls (level e) e" "level e \<in> loop_levels"
  shows "readable e"
  unfolding readable_def
proof (intro allI impI)
  fix k ts ws
  assume ts: "map spelling ts = words e @ ws" "length ts \<le> k" "stops (level e) ws"
  obtain j us where us: "length us < j" "map spelling us = ws"
    "parse_level k (level e) ts = binary_loop (level_ops (level e)) (parse_level k (Suc (level e))) j e us"
    by (rule unrollsD [OF assms(1) _ ts(2)]) (use ts stops_mono [OF ts(3), of "Suc (level e)"] in auto)
  then show "reads k (level e) ts e ws"
    using loop_stops [OF assms(2) us(2) ts(3), of j] by (auto simp: reads_def)
qed

text \<open>Each kind of expression.\<close>

lemma readable_comparison:
  assumes "readable l" "readable r" "op_level op = 4"
  shows "readable (Binary op l r)"
  unfolding readable_def
proof (intro allI impI)
  fix k ts ws
  assume ts: "map spelling ts = words (Binary op l r) @ ws" "length ts \<le> k" "stops (level (Binary op l r)) ws"
  have neg: "\<not> negation op l" using assms(3) by (auto simp: negation_def op_level_def)
  then have lv: "level (Binary op l r) = 4" using assms(3) by simp
  have words: "map spelling ts = words_of_level 5 l @ op_word op # words_of_level 5 r @ ws"
    using ts(1) neg assms(3) words_Binary [of op l r] by (simp add: left_level_def)
  have "reads k 5 ts l (op_word op # words_of_level 5 r @ ws)"
    by (rule readable_at [OF assms(1) words ts(2)]) (use op_word_stops [of op 5] assms(3) in auto)
  then obtain us where us: "parse_level k 5 ts = ok l us" "map spelling us = op_word op # words_of_level 5 r @ ws"
    by (auto simp: reads_def)
  then obtain t vs where t: "us = t # vs" "spelling t = op_word op" "map spelling vs = words_of_level 5 r @ ws"
    by (auto simp: spelled_Cons)
  have "length vs \<le> length ts"
    using arg_cong [OF words, of length] arg_cong [OF t(3), of length] by simp
  then have "reads k 5 vs r ws"
    using readable_at [OF assms(2) t(3)] ts(2) stops_mono [OF ts(3), of 5] lv by simp
  then obtain xs where xs: "parse_level k 5 vs = ok r xs" "map spelling xs = ws" by (auto simp: reads_def)
  have "parse_level k 4 ts = ok (Binary op l r) xs"
    using us(1) xs(1) t op_word_ops(2) [OF assms(3) t(2)] op_word_type [OF t(2)]
    by (simp add: parse_level_def parse_comparison_def)
  then show "reads k (level (Binary op l r)) ts (Binary op l r) ws"
    using xs(2) lv by (auto simp: reads_def)
qed

lemma readable_negation:
  assumes "readable r" "negation op l"
  shows "readable (Binary op l r)"
  unfolding readable_def
proof (intro allI impI)
  fix k ts ws
  assume ts: "map spelling ts = words (Binary op l r) @ ws" "length ts \<le> k" "stops (level (Binary op l r)) ws"
  have e: "Binary op l r = Binary Multiply (Literal (VInt (- 1))) r"
    using assms(2) by (auto simp: negation_def split: expr.splits pval.splits)
  have "map spelling ts = oper ''-'' # words_of_level 7 r @ ws"
    using ts(1) assms(2) words_Binary [of op l r] by simp
  then obtain t us where t: "ts = t # us" "spelling t = oper ''-''" "map spelling us = words_of_level 7 r @ ws"
    by (auto simp: spelled_Cons)
  have "reads k 7 us r ws"
    using readable_at [OF assms(1) t(3)] t(1) ts(2,3) assms(2) by simp
  then obtain xs where xs: "parse_level k 7 us = ok r xs" "map spelling xs = ws" by (auto simp: reads_def)
  have "parse_level k 7 ts = ok (Binary op l r) xs"
    using t xs(1) e by (simp add: parse_level_def is_token_spelling)
  then show "reads k (level (Binary op l r)) ts (Binary op l r) ws"
    using xs(2) assms(2) by (auto simp: reads_def)
qed

lemma readable_not: "readable e \<Longrightarrow> readable (NotE e)"
  unfolding readable_def [of "NotE e"]
proof (intro allI impI)
  fix k ts ws
  assume e: "readable e"
    and ts: "map spelling ts = words (NotE e) @ ws" "length ts \<le> k" "stops (level (NotE e)) ws"
  then obtain t us where t: "ts = t # us" "spelling t = kw ''NOT''" "map spelling us = words_of_level 2 e @ ws"
    by (auto simp: spelled_Cons words_of_level_def)
  have "reads k 2 us e ws" using readable_at [OF e t(3)] t(1) ts(2,3) by simp
  then obtain xs where xs: "parse_level k 2 us = ok e xs" "map spelling xs = ws" by (auto simp: reads_def)
  have "parse_level k 2 ts = ok (NotE e) xs"
    using t xs(1) by (simp add: parse_level_def is_token_spelling)
  then show "reads k (level (NotE e)) ts (NotE e) ws" using xs(2) by (auto simp: reads_def)
qed

lemma match_keyword_spelled:
  "spelling t = kw v \<Longrightarrow> match_keyword u (t # us) = (if u = v then Some us else None)"
  "spelling t = kw v \<Longrightarrow> expect_keyword v (t # us) = ok () us"
  by (simp_all add: match_keyword_def expect_keyword_def expected_def match_spelled)

lemma readable_null_check:
  assumes "readable e" "n = IsNull e \<and> null = [kw ''IS'', kw ''NULL''] \<or> n = IsNotNull e \<and> null = [kw ''IS'', kw ''NOT'', kw ''NULL'']"
  shows "readable n"
  unfolding readable_def
proof (intro allI impI)
  fix k ts ws
  assume ts: "map spelling ts = words n @ ws" "length ts \<le> k" "stops (level n) ws"
  have words: "map spelling ts = words_of_level 4 e @ null @ ws"
    using ts(1) assms(2) by (auto simp: words_of_level_def)
  have "stops 4 (null @ ws)" using assms(2) by (auto simp: stops_def continues_def)
  then have "reads k 4 ts e (null @ ws)" using readable_at [OF assms(1) words ts(2)] by simp
  then obtain us where us: "parse_level k 4 ts = ok e us" "map spelling us = null @ ws" by (auto simp: reads_def)
  have "\<exists>xs. parse_level k 3 ts = ok n xs \<and> map spelling xs = ws"
    using us assms(2) by (auto simp: parse_level_def parse_null_check_def spelled_Cons match_keyword_spelled)
  moreover have "level n = 3" using assms(2) by auto
  ultimately show "reads k (level n) ts n ws" by (simp add: reads_def)
qed

lemma readable_column: "readable (Column n)"
  unfolding readable_def
proof (intro allI impI)
  fix k ts ws
  assume ts: "map spelling ts = words (Column n) @ ws" "stops (level (Column n)) ws"
  then obtain t us where t: "ts = t # us" "spelling t = ident n" "map spelling us = ws"
    by (auto simp: spelled_Cons)
  have "parse_primary (parse_expr k) ts = ok (Column n) us"
    using t stops_ops(7,8) [OF t(3) ts(2)]
    by (simp add: parse_primary_def spelling_type [OF t(2)] parse_name_def)
  then show "reads k (level (Column n)) ts (Column n) ws"
    using t(3) by (auto simp: reads_def parse_level_def)
qed

lemma number_value_nat_str [simp]:
  "length (nat_str n) \<le> INT_MAX_STR_DIGITS \<Longrightarrow> number_value (nat_str n) = Inr (VInt (int n))"
  by (simp add: number_value_def)

lemma readable_literal:
  assumes "literal_ok v"
  shows "readable (Literal v)"
  unfolding readable_def
proof (intro allI impI)
  fix k ts ws
  assume ts: "map spelling ts = words (Literal v) @ ws"
  then obtain t us where t: "ts = t # us" "spelling t = literal_word v" "map spelling us = ws"
    by (auto simp: spelled_Cons)
  have "parse_primary (parse_expr k) ts = ok (Literal v) us"
    using assms t(1,2)
    by (cases v rule: literal_word.cases)
       (auto simp: parse_primary_def keyword_literal_def is_token_spelling lift_res_def ok_def dest!: spelling_type
         simp: spelling_def)
  then show "reads k (level (Literal v)) ts (Literal v) ws"
    using t(3) by (auto simp: reads_def parse_level_def)
qed

lemma function_names [simp]:
  "upper_ascii ''COUNT'' = ''COUNT''" "upper_ascii ''SUM'' = ''SUM''" "upper_ascii ''AVG'' = ''AVG''"
  "upper_ascii ''MIN'' = ''MIN''" "upper_ascii ''MAX'' = ''MAX''"
  by (simp_all add: upper_ascii_def upper_char_def code_def)

lemma parse_call:
  assumes "map spelling ts = call f args @ ws"
  obtains us where "map spelling us = args @ punct '')'' # ws" "length us < length ts"
    "parse_primary nested ts = (let upper = upper_ascii f in
       if upper \<notin> set AGGREGATE_FUNCTION_NAMES then fail (UnknownFunction f)
       else case (if upper = ''COUNT'' then match_operator ''*'' us else None) of
         Some us \<Rightarrow> pbind (expect_punctuation '')'' us) (\<lambda>_. ok CountStar)
       | None \<Rightarrow> pbind (nested us) (\<lambda>arg us. pbind (expect_punctuation '')'' us) (\<lambda>_. ok (aggregate_call upper arg))))"
proof -
  obtain t u us where t: "ts = t # u # us" "spelling t = ident f" "spelling u = punct ''(''"
    "map spelling us = args @ punct '')'' # ws"
    using assms by (auto simp: call_def spelled_Cons)
  have "parse_primary nested ts = parse_function_call nested f (u # us)"
    using t by (simp add: parse_primary_def spelling_type [OF t(2)] parse_name_def is_token_spelling)
  then show thesis
    using that [OF t(4)] t match_paren(2) [OF t(3)] by (simp add: parse_function_call_def)
qed

lemma readable_aggregate:
  assumes "readable e" "f \<in> set AGGREGATE_FUNCTION_NAMES" "words a = call f (words e)" "level a = 8"
    "a = aggregate_call f e"
  shows "readable a"
  unfolding readable_def
proof (intro allI impI)
  fix k ts ws
  assume ts: "map spelling ts = words a @ ws" "length ts \<le> k"
  have f: "upper_ascii f = f" using assms(2) by (auto simp: AGGREGATE_FUNCTION_NAMES_def)
  obtain us where us: "map spelling us = words e @ punct '')'' # ws" "length us < length ts"
    "parse_primary (parse_expr k) ts = (let upper = upper_ascii f in
       if upper \<notin> set AGGREGATE_FUNCTION_NAMES then fail (UnknownFunction f)
       else case (if upper = ''COUNT'' then match_operator ''*'' us else None) of
         Some us \<Rightarrow> pbind (expect_punctuation '')'' us) (\<lambda>_. ok CountStar)
       | None \<Rightarrow> pbind (parse_expr k us)
           (\<lambda>arg us. pbind (expect_punctuation '')'' us) (\<lambda>_. ok (aggregate_call upper arg))))"
    using parse_call [of ts f "words e" ws "parse_expr k"] ts(1) assms(3) by auto
  obtain vs where vs: "parse_expr k us = ok e vs" "map spelling vs = punct '')'' # ws"
    by (rule nested_reads [OF assms(1) us(1), of k]) (use us(2) ts(2) in auto)
  then obtain u xs where u: "vs = u # xs" "spelling u = punct '')''" "map spelling xs = ws"
    by (auto simp: spelled_Cons)
  have "match_operator ''*'' us = None"
    using current_of [OF us(1)] words_no_star [of e]
    by (simp add: match_operator_def match_token_def is_token_spelling hd_append)
  then have "parse_primary (parse_expr k) ts = ok a xs"
    using us(3) f vs(1) u assms(2,5) match_paren(2) [OF u(2)] by simp
  then show "reads k (level a) ts a ws"
    using u(3) assms(4) by (auto simp: reads_def parse_level_def)
qed

lemma readable_count_star: "readable CountStar"
  unfolding readable_def
proof (intro allI impI)
  fix k ts ws
  assume "map spelling ts = words CountStar @ ws"
  then have call: "map spelling ts = call ''COUNT'' [oper ''*''] @ ws" by simp
  obtain us where us: "map spelling us = [oper ''*''] @ punct '')'' # ws" "length us < length ts"
    "parse_primary (parse_expr k) ts = (let upper = upper_ascii ''COUNT'' in
       if upper \<notin> set AGGREGATE_FUNCTION_NAMES then fail (UnknownFunction ''COUNT'')
       else case (if upper = ''COUNT'' then match_operator ''*'' us else None) of
         Some us \<Rightarrow> pbind (expect_punctuation '')'' us) (\<lambda>_. ok CountStar)
       | None \<Rightarrow> pbind (parse_expr k us)
           (\<lambda>arg us. pbind (expect_punctuation '')'' us) (\<lambda>_. ok (aggregate_call upper arg))))"
    by (rule parse_call [OF call])
  then obtain t u vs where t: "us = t # u # vs" "spelling t = oper ''*''" "spelling u = punct '')''" "map spelling vs = ws"
    by (auto simp: spelled_Cons)
  have "match_operator ''*'' us = Some (u # vs)"
    using t(1) match_spelled [OF t(2)] by (simp add: match_operator_def)
  then have "parse_primary (parse_expr k) ts = ok CountStar vs"
    using us(3) match_paren(2) [OF t(3)] by (simp add: AGGREGATE_FUNCTION_NAMES_def)
  then show "reads k (level CountStar) ts CountStar ws"
    using t(4) by (auto simp: reads_def parse_level_def)
qed

lemma readable_aggregates:
  assumes "readable e"
  shows "readable (Count e)" "readable (SumOf e)" "readable (Avg e)" "readable (MinOf e)" "readable (MaxOf e)"
  by (rule readable_aggregate [OF assms, of "''COUNT''"] readable_aggregate [OF assms, of "''SUM''"]
        readable_aggregate [OF assms, of "''AVG''"] readable_aggregate [OF assms, of "''MIN''"]
        readable_aggregate [OF assms, of "''MAX''"];
      simp add: AGGREGATE_FUNCTION_NAMES_def aggregate_call_def; fail)+

lemma readable_null_checks: "readable e \<Longrightarrow> readable (IsNull e)" "readable e \<Longrightarrow> readable (IsNotNull e)"
  using readable_null_check [of e "IsNull e"] readable_null_check [of e "IsNotNull e"] by simp_all

lemma readable_unrolls: "readable e \<Longrightarrow> level e \<notin> loop_levels \<Longrightarrow> readable e \<and> (\<forall>q \<in> loop_levels. unrolls q e)"
  by (metis unrolls_other)

lemma printed_expression: "printable e \<Longrightarrow> readable e \<and> (\<forall>q \<in> loop_levels. unrolls q e)"
proof (induction e)
  case (Binary op l r)
  show ?case
  proof (cases "negation op l \<or> op_level op = 4")
    case True
    have "readable (Binary op l r)"
    proof (cases "negation op l")
      case True
      then show ?thesis using readable_negation Binary by simp
    next
      case False
      then show ?thesis using readable_comparison Binary \<open>negation op l \<or> op_level op = 4\<close> by simp
    qed
    moreover have "level (Binary op l r) \<notin> loop_levels"
      using True by (auto simp: loop_levels_def)
    ultimately show ?thesis by (rule readable_unrolls)
  next
    case False
    let ?q = "op_level op"
    have q: "?q \<in> loop_levels" using False by (cases op) (auto simp: op_level_def loop_levels_def)
    have "unrolls ?q (Binary op l r)"
      using unrolls_op [of ?q l r op] Binary q False by simp
    moreover from this have r: "readable (Binary op l r)"
      using readable_loop [of "Binary op l r"] q False by simp
    moreover have "unrolls p (Binary op l r)" if "p \<in> loop_levels" "p \<noteq> ?q" for p
      using unrolls_other [OF r _ that(1)] that(2) False by simp
    ultimately show ?thesis by blast
  qed
next
  case (Alias e n)
  then show ?case by simp
qed ((rule readable_unrolls; auto intro: readable_not readable_null_checks readable_literal readable_column
    readable_count_star readable_aggregates simp: loop_levels_def)+)

text \<open>With fuel for its tokens, the expression parser reads a printed expression.\<close>

lemma parse_printed:
  assumes "printable e" "map spelling ts = words e @ ws" "stops 0 ws" "length ts < k"
  obtains us where "parse_expr k ts = ok e us" "map spelling us = ws" "length us < length ts"
proof -
  obtain j where k: "k = Suc j" "length ts \<le> j" using assms(4) by (cases k) auto
  have "reads j 0 ts e ws"
    using readable_at [of e ts 0 ws j] printed_expression [OF assms(1)] assms(2,3) k(2) by simp
  then obtain us where us: "parse_expr k ts = ok e us" "map spelling us = ws"
    using k(1) parse_expr_level by (auto simp: reads_def)
  have "length us < length ts"
    using arg_cong [OF assms(2), of length] us(2) by (cases "words e") auto
  then show thesis using that us by blast
qed

end
