(* ===== verification/SqlRoundTrip.thy ===== *)
theory SqlRoundTrip
  imports SqlGrammar
begin

text \<open>
  The tokenizer and the parser invert the printer: a printed statement is read back as the plan it
  stands for.
\<close>

section \<open>Tokenizing printed words\<close>

lemma code_inj: "code c = code d \<longleftrightarrow> c = d"
  by (simp add: code_def)

lemma read_string_escape:
  "r \<noteq> [] \<Longrightarrow> hd r \<noteq> quote \<Longrightarrow> \<exists>j. read_string s i (escape v @ quote # r) = Inr (v, j, r)"
proof (induction v arbitrary: i)
  case Nil
  then show ?case by (cases r) (auto simp: escape_def)
next
  case (Cons c v)
  obtain d ds where rest: "escape v @ quote # r = d # ds" by (cases "escape v") auto
  show ?case
  proof (cases "c = quote")
    case True
    then have "escape (c # v) @ quote # r = quote # quote # escape v @ quote # r" by (simp add: escape_def)
    then show ?thesis using Cons.IH [OF Cons.prems, of "i + 2"] True by auto
  next
    case False
    then have "escape (c # v) @ quote # r = c # d # ds" using rest by (simp add: escape_def)
    then show ?thesis using Cons.IH [OF Cons.prems, of "i + 1"] False rest by auto
  qed
qed

lemma read_number_digits:
  "list_all is_decimal v \<Longrightarrow> \<not> is_digit c \<Longrightarrow> c \<noteq> CHR ''.'' \<Longrightarrow>
     read_number i False (v @ c # r) = (v, i + length v, c # r)"
proof (induction v arbitrary: i)
  case (Cons d v)
  have "d \<noteq> CHR ''.''" "is_digit d" using Cons.prems(1) decimal_not_dot by (auto simp: is_digit_def)
  then show ?case using Cons.IH [of "i + 1"] Cons.prems by simp
qed simp

lemma read_identifier_name:
  "list_all identifier_char v \<Longrightarrow> \<not> identifier_char c \<Longrightarrow>
     read_identifier i (v @ c # r) = (v, i + length v, c # r)"
  by (simp add: read_identifier_def Let_def takeWhile_append list_all_iff dropWhile_append)

lemma space_char [simp]:
  "is_space CHR '' ''" "\<not> is_digit CHR '' ''" "\<not> identifier_char CHR '' ''"
  by (simp_all add: is_space_def is_digit_def is_decimal_def identifier_char_def is_alnum_def is_alpha_def code_def)

lemma alpha_class:
  assumes "is_alpha c \<or> c = CHR ''_''"
  shows "\<not> is_space c" "c \<noteq> quote" "c \<noteq> CHR ''-''" "\<not> is_digit c" "c \<noteq> CHR ''.''"
  using assms
  by (auto simp: is_alpha_def is_space_def is_digit_def is_decimal_def code_def)

lemma digit_class:
  assumes "is_decimal c"
  shows "\<not> is_space c" "c \<noteq> quote" "c \<noteq> CHR ''-''" "is_digit c"
  using assms by (auto simp: is_space_def is_digit_def is_decimal_def code_def)

lemma next_token_name:
  assumes "v \<noteq> []" "is_alpha (hd v) \<or> hd v = CHR ''_''" "list_all identifier_char v" "v @ CHR '' '' # r = c # cs"
  shows "next_token i c cs = Inr (Some (word_token v (i + length v)), i + length v, CHR '' '' # r)"
proof -
  have c: "is_alpha c \<or> c = CHR ''_''" using assms(1,2,4) by (cases v) auto
  note cls = alpha_class [OF c]
  have "read_identifier i (c # cs) = (v, i + length v, CHR '' '' # r)"
    using read_identifier_name [OF assms(3), of "CHR '' ''" i r] assms(4) by simp
  moreover have "\<not> starts_number (c # cs)" using cls by (simp add: starts_number_def)
  ultimately show ?thesis using cls c by (simp add: next_token_def Let_def)
qed

lemma next_token_number:
  assumes "nat_str n @ CHR '' '' # r = c # cs"
  shows "next_token i c cs
    = Inr (Some (Token NUMBER (nat_str n) (i + length (nat_str n))), i + length (nat_str n), CHR '' '' # r)"
proof -
  have "is_decimal c" using assms nat_str_decimal [of n] by (cases "nat_str n") auto
  note cls = digit_class [OF this]
  have "read_number i False (c # cs) = (nat_str n, i + length (nat_str n), CHR '' '' # r)"
    using read_number_digits [OF nat_str_decimal, of "CHR '' ''" i n r] assms by simp
  moreover have "starts_number (c # cs)" using cls by (simp add: starts_number_def)
  ultimately show ?thesis using cls by (simp add: next_token_def Let_def del: read_number.simps)
qed

lemma next_token_string:
  "\<exists>j. next_token i quote (escape v @ quote # CHR '' '' # r) = Inr (Some (Token STRING v j), j, CHR '' '' # r)"
proof -
  obtain j where "read_string i (i + 1) (escape v @ quote # CHR '' '' # r) = Inr (v, j, CHR '' '' # r)"
    using read_string_escape [of "CHR '' '' # r" i "i + 1" v] by auto
  moreover have "\<not> is_space quote" by (simp add: is_space_def code_def)
  ultimately show ?thesis by (simp add: next_token_def Let_def)
qed

lemma symbol_class:
  assumes "c \<in> set ''=<>+-*/!(),.''"
  shows "\<not> is_space c" "\<not> is_digit c" "\<not> is_alpha c" "c \<noteq> quote" "c \<noteq> CHR ''_''"
  using assms
  by (auto simp: is_space_def is_digit_def is_decimal_def is_alpha_def code_def)

lemma next_token_two:
  assumes "v \<in> set MULTI_CHAR_OPERATORS"
  shows "\<exists>c d. v = [c, d] \<and> next_token i c (d # r) = Inr (Some (Token OPERATOR v i), i + 2, r)"
proof -
  obtain c d where v: "v = [c, d]" and c: "c \<in> set ''=<>+-*/!(),.''" "c \<noteq> CHR ''.''" "c \<noteq> CHR ''-''"
    using assms by (auto simp: MULTI_CHAR_OPERATORS_def)
  note cls = symbol_class [OF c(1)]
  have "\<not> starts_number (c # d # r)" using cls c by (simp add: starts_number_def)
  then show ?thesis using assms v cls c by (simp add: next_token_def Let_def numeral_2_eq_2)
qed

lemma next_token_single:
  assumes "c \<in> set SINGLE_CHAR_OPERATORS \<union> set PUNCTUATION_CHARS"
  shows "next_token i c (CHR '' '' # r)
    = Inr (Some (Token (if c \<in> set SINGLE_CHAR_OPERATORS then OPERATOR else PUNCTUATION) [c] i), i + 1, CHR '' '' # r)"
proof -
  have c: "c \<in> set ''=<>+-*/!(),.''"
    using assms by (auto simp: SINGLE_CHAR_OPERATORS_def PUNCTUATION_CHARS_def)
  note cls = symbol_class [OF this]
  have "\<not> starts_number (c # CHR '' '' # r)" using cls by (simp add: starts_number_def)
  moreover have "take 2 (c # CHR '' '' # r) \<notin> set MULTI_CHAR_OPERATORS"
    by (simp add: MULTI_CHAR_OPERATORS_def numeral_2_eq_2)
  ultimately show ?thesis using assms cls by (auto simp: next_token_def Let_def)
qed

lemma disjoint_chars: "c \<in> set PUNCTUATION_CHARS \<Longrightarrow> c \<notin> set SINGLE_CHAR_OPERATORS"
  by (auto simp: SINGLE_CHAR_OPERATORS_def PUNCTUATION_CHARS_def)

lemma keyword_shape:
  "v \<in> set KEYWORDS \<Longrightarrow> v \<noteq> [] \<and> is_alpha (hd v) \<and> list_all identifier_char v \<and> upper_ascii v = v"
  by (auto simp: KEYWORDS_def is_alpha_def identifier_char_def is_alnum_def upper_ascii_def upper_char_def code_def)

text \<open>The first turn on a printed word yields its token and leaves the space after it.\<close>

lemma next_token_word:
  assumes "good_word w"
  shows "\<exists>c cs t j. render_word w @ CHR '' '' # r = c # cs
    \<and> next_token i c cs = Inr (Some t, j, CHR '' '' # r) \<and> spelling t = w"
proof -
  obtain ty v where w: "w = (ty, v)" by (cases w)
  have named: ?thesis
    if name: "ty \<noteq> STRING" "v \<noteq> []" "is_alpha (hd v) \<or> hd v = CHR ''_''" "list_all identifier_char v"
      "spelling (word_token v (i + length v)) = w"
  proof -
    obtain c cs where "v @ CHR '' '' # r = c # cs" using name(2) by (cases v) auto
    with next_token_name [OF name(2-4) this] name(1,5) show ?thesis by (auto simp: w render_word_def)
  qed
  show ?thesis
  proof (cases ty)
    case KEYWORD
    then show ?thesis
      using assms keyword_shape [of v] by (intro named) (auto simp: w word_token_def spelling_def)
  next
    case IDENTIFIER
    then show ?thesis
      using assms by (intro named) (auto simp: w word_token_def spelling_def plain_name_def)
  next
    case NUMBER
    then obtain n where v: "v = nat_str n" using assms w by (metis good_word.simps(3))
    then obtain c cs where "nat_str n @ CHR '' '' # r = c # cs" by (cases "nat_str n") auto
    with next_token_number [OF this] v NUMBER show ?thesis by (auto simp: w render_word_def spelling_def)
  next
    case STRING
    then show ?thesis using next_token_string [of i v r] by (auto simp: w render_word_def spelling_def)
  next
    case OPERATOR
    then consider "v \<in> set MULTI_CHAR_OPERATORS" | c where "v = [c]" "c \<in> set SINGLE_CHAR_OPERATORS"
      using assms by (auto simp: w)
    then show ?thesis
      using next_token_two [of v i "CHR '' '' # r"] next_token_single [of _ i r] OPERATOR
      by cases (auto simp: w render_word_def spelling_def)
  next
    case PUNCTUATION
    then obtain c where "v = [c]" "c \<in> set PUNCTUATION_CHARS" using assms by (auto simp: w)
    then show ?thesis
      using next_token_single [of c i r] disjoint_chars [of c] PUNCTUATION
      by (auto simp: w render_word_def spelling_def)
  qed (use assms w in simp)
qed

lemma tokenize_space: "tokenize_from i (CHR '' '' # r) = tokenize_from (i + 1) r"
  by (simp add: next_token_def)

lemma tokenize_render:
  "list_all good_word ws \<Longrightarrow> \<exists>ts. tokenize_from i (render ws) = Inr ts \<and> map spelling ts = ws @ [(EOF, [])]"
proof (induction ws arbitrary: i)
  case Nil
  then show ?case by (simp add: render_def spelling_def)
next
  case (Cons w ws)
  obtain c cs t j where step: "render_word w @ CHR '' '' # render ws = c # cs"
    "next_token i c cs = Inr (Some t, j, CHR '' '' # render ws)" "spelling t = w"
    using next_token_word [of w "render ws" i] Cons.prems by auto
  obtain ts where "tokenize_from (j + 1) (render ws) = Inr ts" "map spelling ts = ws @ [(EOF, [])]"
    using Cons.IH [of "j + 1"] Cons.prems by auto
  moreover have "tokenize_from i (c # cs) = then_tokens t (tokenize_from j (CHR '' '' # render ws))"
    using step(2) by simp
  ultimately have "tokenize_from i (c # cs) = Inr (t # ts)"
    unfolding tokenize_space by (simp add: then_tokens_def)
  moreover have "render (w # ws) = c # cs" using step(1) by (simp add: render_def)
  ultimately show ?case using step(3) \<open>map spelling ts = ws @ [(EOF, [])]\<close> by simp
qed

section \<open>Clauses\<close>

text \<open>Words that end an expression, a select item and a list.\<close>

definition ends :: "word list \<Rightarrow> bool" where
  "ends ws = (stops 0 ws \<and> hd ws \<noteq> kw ''AS'' \<and> hd ws \<noteq> punct '','')"

text \<open>\<open>accepts p ts x ws\<close>: the parser returns \<open>x\<close>, with \<open>ws\<close> left.\<close>

definition accepts :: "(token list \<Rightarrow> 'a parse) \<Rightarrow> token list \<Rightarrow> 'a \<Rightarrow> word list \<Rightarrow> bool" where
  "accepts p ts x ws = (\<exists>us. p ts = ok x us \<and> map spelling us = ws \<and> length us < length ts)"

lemma stops_words [simp]:
  "stops 0 (punct '','' # ws)" "stops 0 (punct '')'' # ws)" "stops 0 (kw ''AS'' # ws)" "stops 0 (kw ''FROM'' # ws)"
  "stops 0 (kw ''ASC'' # ws)" "stops 0 (kw ''DESC'' # ws)"
  by (auto simp: stops_def continues_def)

lemma expect_spelled:
  assumes "map spelling ts = w # ws"
  shows "w = kw v \<Longrightarrow> accepts (expect_keyword v) ts () ws"
    "w = oper v \<Longrightarrow> accepts (expect_operator v) ts () ws"
    "w = ident n \<Longrightarrow> accepts expect_identifier ts n ws"
  using assms
  by (auto simp: accepts_def spelled_Cons match_keyword_spelled expect_operator_def expected_def match_operator_def
      match_spelled expect_identifier_def dest: spelling_type)

lemma accepts_expr:
  "printable e \<Longrightarrow> map spelling ts = words e @ ws \<Longrightarrow> stops 0 ws \<Longrightarrow> length ts < k \<Longrightarrow> accepts (parse_expr k) ts e ws"
  by (rule parse_printed) (auto simp: accepts_def)

lemma acceptsD: "accepts p ts x ws \<Longrightarrow> \<exists>us. p ts = ok x us \<and> map spelling us = ws \<and> length us < length ts"
  by (simp add: accepts_def)

lemma match_keyword_hd:
  "map spelling ts = ws \<Longrightarrow> ws \<noteq> [] \<Longrightarrow> hd ws \<noteq> kw v \<Longrightarrow> match_keyword v ts = None"
  by (cases ts) (auto simp: match_keyword_def match_token_def is_token_spelling)

lemma match_punctuation_hd:
  "map spelling ts = ws \<Longrightarrow> ws \<noteq> [] \<Longrightarrow> hd ws \<noteq> punct v \<Longrightarrow> match_punctuation v ts = None"
  by (cases ts) (auto simp: match_punctuation_def match_token_def is_token_spelling)

lemma accepts_select_item:
  assumes "printable (fst i)" "map spelling ts = item_words i @ ws" "stops 0 ws" "hd ws \<noteq> kw ''AS''" "length ts < k"
  shows "accepts (parse_select_item k) ts (item_expr i) ws"
proof (cases "snd i")
  case None
  then have "accepts (parse_expr k) ts (fst i) ws"
    using accepts_expr [OF assms(1), of ts ws k] assms by (simp add: item_words_def)
  then obtain us where us: "parse_expr k ts = ok (fst i) us" "map spelling us = ws" "length us < length ts"
    by (auto simp: accepts_def)
  then show ?thesis
    using None match_keyword_hd [OF us(2), of "''AS''"] assms(3,4)
    by (auto simp: accepts_def parse_select_item_def item_expr_def stops_def)
next
  case (Some n)
  then have "accepts (parse_expr k) ts (fst i) (kw ''AS'' # ident n # ws)"
    using accepts_expr [OF assms(1), of ts "kw ''AS'' # ident n # ws" k] assms by (simp add: item_words_def)
  then obtain t us where us: "parse_expr k ts = ok (fst i) (t # us)" "spelling t = kw ''AS''"
    "map spelling us = ident n # ws" "Suc (length us) < length ts"
    by (auto simp: accepts_def spelled_Cons)
  obtain vs where "expect_identifier us = ok n vs" "map spelling vs = ws" "length vs < length us"
    using expect_spelled(3) [OF us(3)] by (auto simp: accepts_def)
  then show ?thesis
    using Some us match_keyword_spelled [OF us(2)]
    by (auto simp: accepts_def parse_select_item_def item_expr_def)
qed

lemma accepts_order_item:
  assumes "printable (fst i)" "map spelling ts = order_words i @ ws" "length ts < k"
  shows "accepts (parse_order_item k) ts i ws"
proof -
  let ?d = "if snd i then kw ''ASC'' else kw ''DESC''"
  have "accepts (parse_expr k) ts (fst i) (?d # ws)"
    using accepts_expr [OF assms(1), of ts "?d # ws" k] assms by (simp add: order_words_def)
  then obtain t us where us: "parse_expr k ts = ok (fst i) (t # us)" "spelling t = ?d"
    "map spelling us = ws" "Suc (length us) < length ts"
    by (auto simp: accepts_def spelled_Cons)
  then show ?thesis
    using match_keyword_spelled [of t]
    by (cases i) (auto simp: accepts_def parse_order_item_def split: if_splits)
qed

lemma accepts_comma_loop:
  assumes "\<And>x ts ws. x \<in> set xs \<Longrightarrow> map spelling ts = f x @ ws \<Longrightarrow> stops 0 ws \<Longrightarrow> hd ws \<noteq> kw ''AS'' \<Longrightarrow> length ts < n
      \<Longrightarrow> accepts item ts (g x) ws"
    and "map spelling ts = concat (map (\<lambda>y. punct '','' # f y) xs) @ ws" "ends ws" "length ts < k" "length ts < n"
  shows "\<exists>us. comma_loop item k acc ts = ok (acc @ map g xs) us \<and> map spelling us = ws \<and> length us \<le> length ts"
  using assms
proof (induction xs arbitrary: k acc ts)
  case Nil
  then show ?case
    using match_punctuation_hd [of ts ws "'',''"] by (cases k) (auto simp: ends_def stops_def)
next
  case (Cons x xs)
  obtain t us where t: "ts = t # us" "spelling t = punct '',''"
    "map spelling us = f x @ concat (map (\<lambda>y. punct '','' # f y) xs) @ ws"
    using Cons.prems(2) by (auto simp: spelled_Cons)
  let ?ws = "concat (map (\<lambda>y. punct '','' # f y) xs) @ ws"
  have "stops 0 ?ws \<and> hd ?ws \<noteq> kw ''AS''" using Cons.prems(3) by (cases xs) (auto simp: ends_def)
  then obtain vs where vs: "item us = ok (g x) vs" "map spelling vs = ?ws" "length vs < length us"
    using Cons.prems(1) [of x us ?ws] t Cons.prems(5) by (auto simp: accepts_def)
  obtain j where j: "k = Suc j" using Cons.prems(4) by (cases k) auto
  have "\<exists>ys. comma_loop item j (acc @ [g x]) vs = ok ((acc @ [g x]) @ map g xs) ys \<and> map spelling ys = ws \<and> length ys \<le> length vs"
    by (rule Cons.IH) (use Cons.prems vs t j in auto)
  then show ?case
    using t vs j match_paren(1) [OF t(2)] by auto
qed

lemma accepts_comma_list:
  assumes "\<And>x ts ws. x \<in> set xs \<Longrightarrow> map spelling ts = f x @ ws \<Longrightarrow> stops 0 ws \<Longrightarrow> hd ws \<noteq> kw ''AS'' \<Longrightarrow> length ts < k
      \<Longrightarrow> accepts item ts (g x) ws"
    and "map spelling ts = comma_words f xs @ ws" "xs \<noteq> []" "ends ws" "length ts < k"
  shows "accepts (comma_list item k) ts (map g xs) ws"
proof -
  obtain x ys where xs: "xs = x # ys" using assms(3) by (cases xs) auto
  let ?ws = "concat (map (\<lambda>y. punct '','' # f y) ys) @ ws"
  have "stops 0 ?ws \<and> hd ?ws \<noteq> kw ''AS''" using assms(4) by (cases ys) (auto simp: ends_def)
  then obtain us where us: "item ts = ok (g x) us" "map spelling us = ?ws" "length us < length ts"
    using assms(1) [of x ts ?ws] assms(2,5) xs by (auto simp: accepts_def comma_words_def)
  have "\<exists>vs. comma_loop item k [g x] us = ok ([g x] @ map g ys) vs \<and> map spelling vs = ws \<and> length vs \<le> length us"
    by (rule accepts_comma_loop [where f = f and n = k]) (use assms us xs in auto)
  then show ?thesis using us xs by (auto simp: accepts_def comma_list_def)
qed

section \<open>Statements\<close>

definition clause_start :: "word list \<Rightarrow> bool" where
  "clause_start ws = (ws \<noteq> [] \<and> hd ws \<in> {kw ''JOIN'', kw ''WHERE'', kw ''GROUP'', kw ''HAVING'', kw ''ORDER'', (EOF, [])})"

lemma clause_start_ends: "clause_start ws \<Longrightarrow> ends ws"
  by (auto simp: clause_start_def ends_def stops_def continues_def)

lemma optional_absent:
  "map spelling ts = ws \<Longrightarrow> ws \<noteq> [] \<Longrightarrow> hd ws \<noteq> kw v \<Longrightarrow> optional v c d ts = ok d ts"
  using match_keyword_hd by (simp add: optional_def)

lemma optional_present:
  "spelling t = kw v \<Longrightarrow> optional v c d (t # us) = c us"
  using match_keyword_spelled by (simp add: optional_def)

lemma optional_clause:
  assumes "map spelling ts = clause (kw v # vs) f x @ ws" "ws \<noteq> []" "hd ws \<noteq> kw v"
    and "\<And>y us. x = Some y \<Longrightarrow> map spelling us = vs @ f y @ ws \<Longrightarrow> length us < length ts \<Longrightarrow>
           \<exists>xs. c us = lift_res (r y) xs \<and> map spelling xs = ws \<and> length xs \<le> length us"
  shows "\<exists>us. optional v c d ts = lift_res (case x of None \<Rightarrow> Inr d | Some y \<Rightarrow> r y) us
    \<and> map spelling us = ws \<and> length us \<le> length ts"
proof (cases x)
  case None
  then show ?thesis
    using optional_absent [of ts ws v c d] assms(1-3) by (auto simp: clause_def lift_res_def ok_def)
next
  case (Some y)
  then obtain t us where t: "ts = t # us" "spelling t = kw v" "map spelling us = vs @ f y @ ws"
    using assms(1) by (auto simp: clause_def spelled_Cons)
  then obtain xs where "c us = lift_res (r y) xs" "map spelling xs = ws" "length xs \<le> length us"
    using assms(4) [OF Some t(3)] by auto
  then show ?thesis using t Some optional_present [OF t(2), of c d us] by auto
qed

lemma lift_res_Inr: "lift_res (Inr x) ts = ok x ts"
  by (simp add: lift_res_def ok_def)

lemma join_clause:
  assumes "map spelling us = [ident t, kw ''ON'', ident c, oper ''='', ident c] @ ws" "clause_start ws"
  shows "\<exists>xs. parse_join tables p us = lift_res (rbind (resolve_table tables t) (\<lambda>r. Inr (Join p r [c] ''inner'' False))) xs
    \<and> map spelling xs = ws \<and> length xs \<le> length us"
proof -
  obtain t1 t2 t3 t4 t5 xs where us: "us = t1 # t2 # t3 # t4 # t5 # xs" "map spelling xs = ws"
    and sp: "spelling t1 = ident t" "spelling t2 = kw ''ON''" "spelling t3 = ident c" "spelling t4 = oper ''=''"
      "spelling t5 = ident c"
    using assms(1) by (auto simp: spelled_Cons)
  have ident: "spelling u = ident n \<Longrightarrow> expect_identifier (u # vs) = ok n vs" for u n vs
    by (auto simp: expect_identifier_def dest: spelling_type)
  have dot: "match_punctuation ''.'' (t4 # vs) = None" "match_punctuation ''.'' xs = None" for vs
    using spelling_type [OF sp(4)] match_punctuation_hd [OF us(2), of "''.''"] assms(2)
    by (auto simp: clause_start_def)
  have eq: "expect_operator ''='' (t4 # vs) = ok () vs" for vs
    using match_spelled [OF sp(4)] by (simp add: expect_operator_def expected_def match_operator_def)
  show ?thesis
  proof (cases "resolve_table tables t")
    case (Inl e)
    then show ?thesis
      using us ident [OF sp(1)] by (intro exI [of _ xs]) (simp add: parse_join_def lift_res_def pbind_def ok_def)
  next
    case (Inr r)
    then show ?thesis
      using us sp ident dot eq match_keyword_spelled(2) [OF sp(2)]
      by (intro exI [of _ xs]) (simp add: parse_join_def lift_res_Inr parse_qualified_name_def)
  qed
qed

lemma condition_clause:
  assumes "printable e" "map spelling us = words e @ ws" "clause_start ws" "length us < k"
  shows "\<exists>xs. pbind (parse_expr k us) (\<lambda>e. lift_res (g e)) = lift_res (g e) xs \<and> map spelling xs = ws \<and> length xs \<le> length us"
proof -
  have "stops 0 ws" using clause_start_ends [OF assms(3)] by (simp add: ends_def)
  then obtain xs where "parse_expr k us = ok e xs" "map spelling xs = ws" "length xs < length us"
    using accepts_expr [OF assms(1,2) _ assms(4)] by (auto simp: accepts_def)
  then show ?thesis by auto
qed

lemma group_clause:
  assumes "\<forall>e \<in> set es. printable e" "es \<noteq> []" "map spelling us = kw ''BY'' # comma_words words es @ ws"
    "clause_start ws" "length us < k"
  shows "\<exists>xs. parse_group_by k us = lift_res (Inr es) xs \<and> map spelling xs = ws \<and> length xs \<le> length us"
proof -
  obtain t vs where t: "us = t # vs" "spelling t = kw ''BY''" "map spelling vs = comma_words words es @ ws"
    using assms(3) by (auto simp: spelled_Cons)
  have "accepts (comma_list (parse_expr k) k) vs (map id es) ws"
    by (rule accepts_comma_list [where f = words])
       (use t assms clause_start_ends accepts_expr in auto)
  then show ?thesis
    using t match_keyword_spelled(2) [OF t(2)] by (auto simp: accepts_def parse_group_by_def lift_res_Inr)
qed

lemma order_clause:
  assumes "\<forall>i \<in> set is. printable (fst i)" "is \<noteq> []" "map spelling us = kw ''BY'' # comma_words order_words is @ ws"
    "clause_start ws" "length us < k"
  shows "\<exists>xs. parse_order_by k p us = lift_res (Inr (Sort p (map fst is) (map snd is))) xs
    \<and> map spelling xs = ws \<and> length xs \<le> length us"
proof -
  obtain t vs where t: "us = t # vs" "spelling t = kw ''BY''" "map spelling vs = comma_words order_words is @ ws"
    using assms(3) by (auto simp: spelled_Cons)
  have "accepts (comma_list (parse_order_item k) k) vs (map id is) ws"
    by (rule accepts_comma_list [where f = order_words])
       (use t assms clause_start_ends accepts_order_item in auto)
  then show ?thesis
    using t match_keyword_spelled(2) [OF t(2)]
    by (auto simp: accepts_def parse_order_by_def lift_res_Inr mk_sort_def)
qed

lemma select_list_clause:
  assumes "case sel of None \<Rightarrow> True | Some sels \<Rightarrow> sels \<noteq> [] \<and> (\<forall>i \<in> set sels. printable (fst i))"
    "map spelling us = (case sel of None \<Rightarrow> [oper ''*''] | Some sels \<Rightarrow> comma_words item_words sels) @ kw ''FROM'' # ws"
    "length us < k"
  shows "accepts (parse_select_list k) us (map_option (map item_expr) sel) (kw ''FROM'' # ws)"
proof (cases sel)
  case None
  then obtain t vs where "us = t # vs" "spelling t = oper ''*''" "map spelling vs = kw ''FROM'' # ws"
    using assms(2) by (auto simp: spelled_Cons)
  then show ?thesis
    using None match_spelled [of t OPERATOR "''*''"]
    by (simp add: accepts_def parse_select_list_def match_operator_def)
next
  case (Some sels)
  have "ends (kw ''FROM'' # ws)" by (simp add: ends_def)
  then have "accepts (comma_list (parse_select_item k) k) us (map item_expr sels) (kw ''FROM'' # ws)"
    using assms Some accepts_select_item by (intro accepts_comma_list [where f = item_words]) auto
  moreover have "match_operator ''*'' us = None"
  proof -
    obtain i js where "sels = i # js" using assms(1) Some by (cases "sels") auto
    then have "hd (map spelling us) = hd (words (fst i))" "us \<noteq> []"
      using assms(2) Some by (auto simp: comma_words_def item_words_def hd_append)
    then show ?thesis
      using words_no_star [of "fst i"] by (cases us) (auto simp: match_operator_def match_token_def is_token_spelling)
  qed
  ultimately show ?thesis using Some by (auto simp: accepts_def parse_select_list_def)
qed

definition order_tail :: "select_stmt \<Rightarrow> word list" where
  "order_tail s = clause [kw ''ORDER'', kw ''BY''] (comma_words order_words) (nonempty (sel_order s)) @ [(EOF, [])]"

definition having_tail :: "select_stmt \<Rightarrow> word list" where
  "having_tail s = clause [kw ''HAVING''] words (sel_having s) @ order_tail s"

definition group_tail :: "select_stmt \<Rightarrow> word list" where
  "group_tail s = clause [kw ''GROUP'', kw ''BY''] (comma_words words) (nonempty (sel_group s)) @ having_tail s"

definition where_tail :: "select_stmt \<Rightarrow> word list" where
  "where_tail s = clause [kw ''WHERE''] words (sel_where s) @ group_tail s"

definition join_tail :: "select_stmt \<Rightarrow> word list" where
  "join_tail s =
     clause [kw ''JOIN''] (\<lambda>(t, c). [ident t, kw ''ON'', ident c, oper ''='', ident c]) (sel_join s) @ where_tail s"

lemma stmt_words_tail:
  "stmt_words s @ [(EOF, [])] =
     kw ''SELECT'' # (case sel_items s of None \<Rightarrow> [oper ''*''] | Some is \<Rightarrow> comma_words item_words is)
     @ kw ''FROM'' # ident (sel_from s) # join_tail s"
  by (simp add: stmt_words_def order_tail_def having_tail_def group_tail_def where_tail_def join_tail_def)

lemma tails_nonempty [simp]:
  "order_tail s \<noteq> []" "having_tail s \<noteq> []" "group_tail s \<noteq> []" "where_tail s \<noteq> []" "join_tail s \<noteq> []"
  by (simp_all add: order_tail_def having_tail_def group_tail_def where_tail_def join_tail_def)

lemma tail_heads:
  "hd (order_tail s) \<in> {kw ''ORDER'', (EOF, [])}"
  "hd (having_tail s) \<in> {kw ''HAVING'', kw ''ORDER'', (EOF, [])}"
  "hd (group_tail s) \<in> {kw ''GROUP'', kw ''HAVING'', kw ''ORDER'', (EOF, [])}"
  "hd (where_tail s) \<in> {kw ''WHERE'', kw ''GROUP'', kw ''HAVING'', kw ''ORDER'', (EOF, [])}"
proof -
  show o: "hd (order_tail s) \<in> {kw ''ORDER'', (EOF, [])}"
    by (auto simp: order_tail_def clause_def split: option.splits)
  then show h: "hd (having_tail s) \<in> {kw ''HAVING'', kw ''ORDER'', (EOF, [])}"
    by (auto simp: having_tail_def clause_def split: option.splits)
  then show g: "hd (group_tail s) \<in> {kw ''GROUP'', kw ''HAVING'', kw ''ORDER'', (EOF, [])}"
    by (auto simp: group_tail_def clause_def split: option.splits)
  then show "hd (where_tail s) \<in> {kw ''WHERE'', kw ''GROUP'', kw ''HAVING'', kw ''ORDER'', (EOF, [])}"
    by (auto simp: where_tail_def clause_def split: option.splits)
qed

lemma tails_start:
  "clause_start (order_tail s)" "clause_start (having_tail s)" "clause_start (group_tail s)" "clause_start (where_tail s)"
  "clause_start [(EOF, [])]"
  using tail_heads [of s] by (auto simp: clause_start_def)

definition plan_result :: "lplan parse \<Rightarrow> lplan res option" where
  "plan_result m = map_option (\<lambda>r. rbind r (\<lambda>(p, _). Inr p)) m"

lemma plan_result_simps:
  "plan_result (pbind (lift_res r us) f) = (case r of Inl e \<Rightarrow> Some (Inl e) | Inr x \<Rightarrow> plan_result (f x us))"
  "plan_result (ok p us) = Some (Inr p)"
  by (cases r; simp add: plan_result_def lift_res_def pbind_def) (simp add: plan_result_def ok_def)

text \<open>From the table on, clause by clause.\<close>

lemma order_part:
  assumes "printable_stmt s" "map spelling ts = order_tail s" "length ts < k"
  shows "plan_result (pbind (optional ''ORDER'' (parse_order_by k p) p ts) (\<lambda>p us.
      if tok_type (current us) \<noteq> EOF then fail (UnexpectedToken (tok_position (current us))) else ok p us))
    = Some (Inr (ordered_plan s p))"
proof -
  obtain us where us: "optional ''ORDER'' (parse_order_by k p) p ts
      = lift_res (case nonempty (sel_order s) of None \<Rightarrow> Inr p | Some is \<Rightarrow> Inr (Sort p (map fst is) (map snd is))) us"
    "map spelling us = [(EOF, [])]"
    using optional_clause [of ts "''ORDER''" "[kw ''BY'']" "comma_words order_words" "nonempty (sel_order s)"
        "[(EOF, [])]" "parse_order_by k p" "\<lambda>is. Inr (Sort p (map fst is) (map snd is))" p] assms order_clause
    by (fastforce simp: order_tail_def nonempty_def printable_stmt_def tails_start split: if_splits)
  have "tok_type (current us) = EOF" using us(2) by (auto simp: spelled_Cons spelling_def)
  then show ?thesis
    using us(1) by (auto simp: plan_result_simps ordered_plan_def nonempty_def)
qed

lemma having_part:
  assumes "printable_stmt s" "map spelling ts = having_tail s" "length ts < k"
  shows "\<exists>us. optional ''HAVING'' (\<lambda>us. pbind (parse_expr k us) (\<lambda>e. lift_res (having_filter p e))) p ts
      = lift_res (having_plan s p) us \<and> map spelling us = order_tail s \<and> length us \<le> length ts"
proof -
  have "hd (order_tail s) \<noteq> kw ''HAVING''" using tail_heads(1) [of s] by auto
  then show ?thesis
    using optional_clause [of ts "''HAVING''" "[]" words "sel_having s" "order_tail s"
        "\<lambda>us. pbind (parse_expr k us) (\<lambda>e. lift_res (having_filter p e))" "having_filter p" p]
      assms condition_clause [of _ _ "order_tail s" k "having_filter p"] tails_start(1)
    by (fastforce simp: having_tail_def printable_stmt_def having_plan_def)
qed

lemma group_part:
  assumes "printable_stmt s" "map spelling ts = group_tail s" "length ts < k"
  shows "\<exists>us. optional ''GROUP'' (parse_group_by k) [] ts = ok (sel_group s) us
      \<and> map spelling us = having_tail s \<and> length us \<le> length ts"
proof -
  have "hd (having_tail s) \<noteq> kw ''GROUP''" using tail_heads(2) [of s] by auto
  then have "\<exists>us. optional ''GROUP'' (parse_group_by k) [] ts
      = lift_res (case nonempty (sel_group s) of None \<Rightarrow> Inr [] | Some es \<Rightarrow> Inr es) us
    \<and> map spelling us = having_tail s \<and> length us \<le> length ts"
    using optional_clause [of ts "''GROUP''" "[kw ''BY'']" "comma_words words" "nonempty (sel_group s)"
        "having_tail s" "parse_group_by k" Inr "[]"] assms group_clause [of _ _ "having_tail s" k] tails_start(2)
    by (fastforce simp: group_tail_def printable_stmt_def nonempty_def split: if_splits)
  then show ?thesis by (auto simp: nonempty_def lift_res_Inr split: if_splits)
qed

lemma where_part:
  assumes "printable_stmt s" "map spelling ts = where_tail s" "length ts < k"
  shows "\<exists>us. optional ''WHERE'' (\<lambda>us. pbind (parse_expr k us) (\<lambda>e. ok (Filter p e))) p ts = ok (where_plan s p) us
      \<and> map spelling us = group_tail s \<and> length us \<le> length ts"
proof -
  have "hd (group_tail s) \<noteq> kw ''WHERE''" using tail_heads(3) [of s] by auto
  then have "\<exists>us. optional ''WHERE'' (\<lambda>us. pbind (parse_expr k us) (\<lambda>e. lift_res (Inr (Filter p e)))) p ts
      = lift_res (case sel_where s of None \<Rightarrow> Inr p | Some e \<Rightarrow> Inr (Filter p e)) us
    \<and> map spelling us = group_tail s \<and> length us \<le> length ts"
    using optional_clause [of ts "''WHERE''" "[]" words "sel_where s" "group_tail s"
        "\<lambda>us. pbind (parse_expr k us) (\<lambda>e. lift_res (Inr (Filter p e)))" "\<lambda>e. Inr (Filter p e)" p]
      assms condition_clause [of _ _ "group_tail s" k "\<lambda>e. Inr (Filter p e)"] tails_start(3)
    by (fastforce simp: where_tail_def printable_stmt_def)
  then show ?thesis unfolding lift_res_Inr by (auto simp: where_plan_def lift_res_Inr split: option.splits)
qed

lemma join_part:
  assumes "printable_stmt s" "map spelling ts = join_tail s"
  shows "\<exists>us. optional ''JOIN'' (parse_join tables p) p ts = lift_res (joined_plan tables s p) us
      \<and> map spelling us = where_tail s \<and> length us \<le> length ts"
proof -
  have "hd (where_tail s) \<noteq> kw ''JOIN''" using tail_heads(4) [of s] by auto
  then have "\<exists>us. optional ''JOIN'' (parse_join tables p) p ts
      = lift_res (case sel_join s of None \<Rightarrow> Inr p
                  | Some y \<Rightarrow> (\<lambda>(t, c). rbind (resolve_table tables t) (\<lambda>r. Inr (Join p r [c] ''inner'' False))) y) us
    \<and> map spelling us = where_tail s \<and> length us \<le> length ts"
    using assms join_clause [of _ _ _ "where_tail s" tables p] tails_start(4)
    by (intro optional_clause [where vs = "[]" and f = "\<lambda>(t, c). [ident t, kw ''ON'', ident c, oper ''='', ident c]"])
       (auto simp: join_tail_def)
  then show ?thesis by (auto simp: joined_plan_def split: option.splits)
qed

text \<open>The continuations of \<^verbatim>\<open>parse_select_stmt\<close> after the select list and after the aggregation.\<close>

definition after_select :: "nat \<Rightarrow> lplan \<Rightarrow> token list \<Rightarrow> lplan parse" where
  "after_select k plan ts =
     pbind (optional ''HAVING'' (\<lambda>ts. pbind (parse_expr k ts) (\<lambda>e. lift_res (having_filter plan e))) plan ts)
       (\<lambda>plan ts.
     pbind (optional ''ORDER'' (parse_order_by k plan) plan ts) (\<lambda>plan ts.
       if tok_type (current ts) \<noteq> EOF then fail (UnexpectedToken (tok_position (current ts)))
       else ok plan ts))"

definition after_from :: "nat \<Rightarrow> tables \<Rightarrow> expr list option \<Rightarrow> lplan \<Rightarrow> token list \<Rightarrow> lplan parse" where
  "after_from k tables select_items plan ts =
     pbind (optional ''JOIN'' (parse_join tables plan) plan ts) (\<lambda>plan ts.
     pbind (optional ''WHERE'' (\<lambda>ts. pbind (parse_expr k ts) (\<lambda>e. ok (Filter plan e))) plan ts) (\<lambda>plan ts.
     pbind (optional ''GROUP'' (parse_group_by k) [] ts) (\<lambda>group_by ts.
     pbind (lift_res (apply_select plan select_items group_by) ts) (after_select k))))"

lemma parse_select_stmt_parts:
  "parse_select_stmt k tables ts =
     pbind (expect_keyword ''SELECT'' ts) (\<lambda>_ ts.
     pbind (parse_select_list k ts) (\<lambda>select_items ts.
     pbind (expect_keyword ''FROM'' ts) (\<lambda>_ ts.
     pbind (expect_identifier ts) (\<lambda>name ts.
     pbind (lift_res (resolve_table tables name) ts) (after_from k tables select_items)))))"
  unfolding parse_select_stmt_def after_from_def after_select_def ..

lemma after_select_part:
  assumes "printable_stmt s" "map spelling ts = having_tail s" "length ts < k"
  shows "plan_result (after_select k p ts) = Some (rbind (having_plan s p) (\<lambda>p. Inr (ordered_plan s p)))"
proof -
  obtain us where us: "optional ''HAVING'' (\<lambda>us. pbind (parse_expr k us) (\<lambda>e. lift_res (having_filter p e))) p ts
      = lift_res (having_plan s p) us" "map spelling us = order_tail s" "length us \<le> length ts"
    using having_part [OF assms] by blast
  then show ?thesis
    using order_part [OF assms(1) us(2), of k] assms(3)
    by (cases "having_plan s p") (simp_all add: after_select_def plan_result_simps)
qed

lemma after_from_part:
  assumes "printable_stmt s" "map spelling ts = join_tail s" "length ts < k"
  shows "plan_result (after_from k tables items p ts) = Some (rbind (joined_plan tables s p) (\<lambda>p.
      rbind (apply_select (where_plan s p) items (sel_group s)) (\<lambda>p.
      rbind (having_plan s p) (\<lambda>p. Inr (ordered_plan s p)))))"
proof (cases "joined_plan tables s p")
  case (Inl e)
  then show ?thesis
    using join_part [OF assms(1,2), of tables p] by (auto simp: after_from_def plan_result_simps)
next
  case (Inr q)
  obtain us where us: "optional ''JOIN'' (parse_join tables p) p ts = lift_res (Inr q) us"
    "map spelling us = where_tail s" "length us \<le> length ts"
    using join_part [OF assms(1,2), of tables p] Inr by auto
  obtain vs where vs: "optional ''WHERE'' (\<lambda>ts. pbind (parse_expr k ts) (\<lambda>e. ok (Filter q e))) q us = ok (where_plan s q) vs"
    "map spelling vs = group_tail s" "length vs \<le> length us"
    using where_part [OF assms(1) us(2), of k q] us(3) assms(3) by auto
  obtain xs where xs: "optional ''GROUP'' (parse_group_by k) [] vs = ok (sel_group s) xs"
    "map spelling xs = having_tail s" "length xs \<le> length vs"
    using group_part [OF assms(1) vs(2), of k] vs(3) us(3) assms(3) by auto
  have "length xs < k" using xs(3) vs(3) us(3) assms(3) by simp
  then show ?thesis
    using Inr us(1) vs(1) xs(1) after_select_part [OF assms(1) xs(2)]
    by (cases "apply_select (where_plan s q) items (sel_group s)")
       (simp_all add: after_from_def plan_result_simps lift_res_Inr)
qed

lemma parse_printed_stmt:
  assumes "printable_stmt s" "map spelling ts = stmt_words s @ [(EOF, [])]" "length ts < k"
  shows "plan_result (parse_select_stmt k tables ts) = Some (stmt_plan tables s)"
proof -
  let ?sel = "sel_items s"
  obtain t ts1 where t: "ts = t # ts1" "spelling t = kw ''SELECT''"
    "map spelling ts1 = (case ?sel of None \<Rightarrow> [oper ''*''] | Some is \<Rightarrow> comma_words item_words is)
       @ kw ''FROM'' # ident (sel_from s) # join_tail s"
    using assms(2) by (auto simp: stmt_words_tail spelled_Cons)
  have "accepts (parse_select_list k) ts1 (map_option (map item_expr) ?sel) (kw ''FROM'' # ident (sel_from s) # join_tail s)"
    using assms(1,3) t by (intro select_list_clause) (auto simp: printable_stmt_def split: option.split)
  then obtain u v ts2 where u: "parse_select_list k ts1 = ok (map_option (map item_expr) ?sel) (u # v # ts2)"
    "spelling u = kw ''FROM''" "spelling v = ident (sel_from s)" "map spelling ts2 = join_tail s" "length ts2 < length ts1"
    by (auto simp: accepts_def spelled_Cons)
  have "expect_identifier (v # ts2) = ok (sel_from s) ts2"
    using u(3) by (auto simp: expect_identifier_def dest: spelling_type)
  then have "parse_select_stmt k tables ts
      = pbind (lift_res (resolve_table tables (sel_from s)) ts2) (after_from k tables (map_option (map item_expr) ?sel))"
    using t(1) u(1) match_keyword_spelled(2) [OF t(2)] match_keyword_spelled(2) [OF u(2)]
    by (simp add: parse_select_stmt_parts)
  moreover have "length ts2 < k" using u(5) t(1) assms(3) by simp
  ultimately show ?thesis
    using after_from_part [OF assms(1) u(4)]
    by (cases "resolve_table tables (sel_from s)") (simp_all add: plan_result_simps stmt_plan_def)
qed

section \<open>From text to plan\<close>

lemma good_fixed_words [simp]:
  "good_word (op_word op)" "literal_ok v \<Longrightarrow> good_word (literal_word v)"
proof -
  show "good_word (op_word op)"
    by (cases op) (auto simp: op_word_def KEYWORDS_def MULTI_CHAR_OPERATORS_def SINGLE_CHAR_OPERATORS_def)
  show "literal_ok v \<Longrightarrow> good_word (literal_word v)"
    by (cases v rule: literal_word.cases) (auto simp: KEYWORDS_def)
qed

lemma good_keywords [simp]:
  "good_word (kw ''SELECT'')" "good_word (kw ''FROM'')" "good_word (kw ''WHERE'')" "good_word (kw ''GROUP'')"
  "good_word (kw ''BY'')" "good_word (kw ''HAVING'')" "good_word (kw ''ORDER'')" "good_word (kw ''ASC'')"
  "good_word (kw ''DESC'')" "good_word (kw ''JOIN'')" "good_word (kw ''ON'')" "good_word (kw ''AS'')"
  "good_word (kw ''NOT'')" "good_word (kw ''NULL'')" "good_word (kw ''IS'')"
  by (simp_all add: KEYWORDS_def)

lemma good_symbols [simp]:
  "good_word (punct ''('')" "good_word (punct '')'')" "good_word (punct '','')" "good_word (oper ''-'')"
  "good_word (oper ''*'')" "good_word (oper ''='')"
  by (simp_all add: PUNCTUATION_CHARS_def SINGLE_CHAR_OPERATORS_def MULTI_CHAR_OPERATORS_def)

lemma good_functions [simp]:
  "plain_name ''COUNT''" "plain_name ''SUM''" "plain_name ''AVG''" "plain_name ''MIN''" "plain_name ''MAX''"
  by (simp_all add: plain_name_def KEYWORDS_def identifier_char_def is_alnum_def is_alpha_def code_def)

declare good_word.simps(1,5,6) [simp del]

lemma good_parens [simp]: "list_all good_word (parens b ws) \<longleftrightarrow> list_all good_word ws"
  by (simp add: parens_def)

lemma good_words: "printable e \<Longrightarrow> list_all good_word (words e)"
  by (induction e) (auto simp: call_def)

lemma good_comma_words: "(\<forall>x \<in> set xs. list_all good_word (f x)) \<Longrightarrow> list_all good_word (comma_words f xs)"
  by (cases xs) (auto simp: comma_words_def list_all_iff)

lemma good_stmt_words:
  assumes "printable_stmt s"
  shows "list_all good_word (stmt_words s)"
proof -
  have items: "list_all good_word (comma_words item_words is)"
    if "sel_items s = Some is" for "is"
    using assms that
    by (intro good_comma_words) (auto simp: printable_stmt_def item_words_def good_words split: option.split)
  have group: "list_all good_word (comma_words words (sel_group s))"
    using assms by (intro good_comma_words) (auto simp: printable_stmt_def good_words)
  have order: "list_all good_word (comma_words order_words (sel_order s))"
    using assms by (intro good_comma_words) (auto simp: printable_stmt_def order_words_def good_words)
  show ?thesis
    using assms items group order
    by (auto simp: stmt_words_def printable_stmt_def clause_def nonempty_def good_words split: option.split)
qed

text \<open>
  C14: Tokenizing and parsing a printed statement gives the plan the statement stands for, or the
  error of that plan: precedence, associativity, parentheses, quoting, the select list, the join, the
  grouping with its checks, HAVING's references to aggregates and the ordering.  The statement's names
  are plain, and its literals null, booleans, strings or non-negative integers of at most 4300 digits.
\<close>

theorem parse_sql_printed:
  assumes "printable_stmt s"
  shows "parse_sql (render (stmt_words s)) tables = Some (stmt_plan tables s)"
proof -
  obtain ts where ts: "tokenize (render (stmt_words s)) = Inr ts" "map spelling ts = stmt_words s @ [(EOF, [])]"
    using tokenize_render [OF good_stmt_words [OF assms], of 0] by (auto simp: tokenize_def)
  then show ?thesis
    using parse_printed_stmt [OF assms ts(2), of "Suc (length ts)" tables]
    by (simp add: parse_sql_def plan_result_def)
qed

definition stock_plan :: lplan where
  "stock_plan = Scan \<lparr>ds_schema = [], ds_partitions = []\<rparr> ''stock'' None"

definition stock_stmt :: select_stmt where
  "stock_stmt =
     \<lparr>sel_items = Some [(Column ''bin'', None), (SumOf (Column ''q''), Some ''n'')], sel_from = ''stock'',
      sel_join = None,
      sel_where = Some (Binary Multiply (Binary Add (Column ''q'') (Literal (VInt 1))) (Column ''q'')),
      sel_group = [Column ''bin''], sel_having = Some (Binary GreaterThan (SumOf (Column ''q'')) (Literal (VInt 2))),
      sel_order = [(Column ''n'', False)]\<rparr>"

theorem parse_sql_printed_witness:
  "parse_sql ''SELECT bin , SUM ( q ) AS n FROM stock WHERE ( q + 1 ) * q GROUP BY bin HAVING SUM ( q ) > 2 ORDER BY n DESC ''
      [''stock'' \<mapsto> stock_plan]
    = Some (Inr (Sort (Filter (Aggregate
          (Filter stock_plan (Binary Multiply (Binary Add (Column ''q'') (Literal (VInt 1))) (Column ''q'')))
          [Column ''bin''] [Alias (SumOf (Column ''q'')) ''n''])
        (Binary GreaterThan (Column ''n'') (Literal (VInt 2)))) [Column ''n''] [False]))"
proof -
  have "plain_name ''stock''" "plain_name ''q''" "plain_name ''bin''" "plain_name ''n''" by code_simp+
  moreover have "literal_ok (VInt 1)" "literal_ok (VInt 2)" by code_simp+
  ultimately have "printable_stmt stock_stmt"
    by (simp add: stock_stmt_def printable_stmt_def negation_def del: literal_ok.simps)
  from parse_sql_printed [OF this, of "[''stock'' \<mapsto> stock_plan]"]
  have "parse_sql (render (stmt_words stock_stmt)) [''stock'' \<mapsto> stock_plan]
      = Some (stmt_plan [''stock'' \<mapsto> stock_plan] stock_stmt)" .
  moreover have "render (stmt_words stock_stmt)
      = ''SELECT bin , SUM ( q ) AS n FROM stock WHERE ( q + 1 ) * q GROUP BY bin HAVING SUM ( q ) > 2 ORDER BY n DESC ''"
    by code_simp
  moreover have "stmt_plan [''stock'' \<mapsto> stock_plan] stock_stmt
    = Inr (Sort (Filter (Aggregate
          (Filter stock_plan (Binary Multiply (Binary Add (Column ''q'') (Literal (VInt 1))) (Column ''q'')))
          [Column ''bin''] [Alias (SumOf (Column ''q'')) ''n''])
        (Binary GreaterThan (Column ''n'') (Literal (VInt 2)))) [Column ''n''] [False])"
    by (simp add: stmt_plan_def stock_stmt_def resolve_table_def joined_plan_def where_plan_def having_plan_def
        ordered_plan_def item_expr_def apply_select_def plain_column_name_def List.map_filter_def having_filter_def
        aggregate_column_def)
  ultimately show ?thesis by simp
qed

text \<open>
  The alias and the place of a grouping column in the select list are lost: the plan has the grouping
  columns first, under their own names.
\<close>

lemma group_alias_dropped:
  "apply_select p (Some [CountStar, Alias (Column ''g'') ''h'']) [Column ''g''] = Inr (Aggregate p [Column ''g''] [CountStar])"
  by (simp add: apply_select_def plain_column_name_def List.map_filter_def)

end
