(* ===== verification/AggregateMeaning.thy ===== *)
theory AggregateMeaning
  imports PhysicalMeaning GroupBy
begin

text \<open>
  What the aggregation that the planner builds computes: partial aggregates, a hash exchange on the
  group columns and final aggregates together yield the groups of the logical meaning.
\<close>

section \<open>Groups and order\<close>

lemma grouped_eq:
  "canonical (kf ` set rows) \<Longrightarrow> grouped kf rows = map (\<lambda>k. (k, group_rows kf rows k)) (uniq (map kf rows))"
proof (induction rows rule: rev_induct)
  case (snoc r rows)
  let ?ks = "uniq (map kf rows)" and ?G = "\<lambda>rows. map (\<lambda>k. (k, group_rows kf rows k)) (uniq (map kf rows))"
  have can: "canonical (insert (kf r) (set ?ks))" by (rule canonical_subset [OF snoc.prems]) auto
  have IH: "grouped kf rows = ?G rows"
    by (intro snoc.IH canonical_subset [OF snoc.prems]) auto
  have "(case kget (?G rows) (kf r) of Some rs \<Rightarrow> rs | None \<Rightarrow> []) = group_rows kf rows (kf r)"
    using kget_canonical [OF can, of "group_rows kf rows"] by (auto simp: group_rows_absent)
  then have "grouped kf (rows @ [r]) = kset (?G rows) (kf r) (group_rows kf rows (kf r) @ [r])"
    by (simp add: IH add_to_group_def)
  also have "\<dots> = ?G (rows @ [r])"
    unfolding kset_canonical [OF can distinct_uniq] by (auto simp: group_rows_absent)
  finally show ?case .
qed simp

text \<open>The values of a group do not depend on the order of its rows.\<close>

lemma mset_nonnull: "mset rows = mset rows' \<Longrightarrow> mset (nonnull e rows) = mset (nonnull e rows')"
  by (simp add: nonnull_def)

lemma spec_perm:
  assumes "mset rows = mset rows'"
  shows "state_spec \<kappa> a rows = state_spec \<kappa> a rows'" and "value_spec \<kappa> a rows = value_spec \<kappa> a rows'"
proof -
  note nn = mset_nonnull [OF assms]
  have len: "length rows = length rows'" by (rule mset_eq_length [OF assms])
  have nlen: "length (nonnull e rows) = length (nonnull e rows')" for e by (rule mset_eq_length [OF nn])
  then have nil: "nonnull e rows = [] \<longleftrightarrow> nonnull e rows' = []" for e by (metis length_0_conv)
  have ints: "mset (ints_of e rows) = mset (ints_of e rows')" for e using nn by (simp add: ints_of_def)
  have strs: "mset (strs_of e rows) = mset (strs_of e rows')" for e using nn by (simp add: strs_of_def)
  have sums: "sum_list (ints_of e rows) = sum_list (ints_of e rows')" for e
    using arg_cong [OF ints, of sum_mset] by (simp add: sum_mset_sum_list)
  note sets = mset_eq_setD [OF ints] mset_eq_setD [OF strs]
  have state: "state_spec \<kappa> a rows = state_spec \<kappa> a rows'" for a
    by (cases a) (simp_all only: state_spec.simps len nlen nil sums sets)
  show "state_spec \<kappa> a rows = state_spec \<kappa> a rows'" by (rule state)
  show "value_spec \<kappa> a rows = value_spec \<kappa> a rows'"
    by (cases a) (simp_all only: value_spec.simps state nlen nil sums)
qed

lemma aggregate_value_spec:
  assumes "is_aggregate a" "\<forall>r \<in> set rows. agg_ok \<kappa> a r"
  shows "aggregate_value a rows = or_null (value_spec \<kappa> a rows)"
  using assms by (simp add: aggregate_value_def fold_update_spec finalize_spec)

lemma aggregate_value_perm:
  assumes "is_aggregate a" "\<forall>r \<in> set rows. agg_ok \<kappa> a r" "mset rows = mset rows'"
  shows "aggregate_value a rows = aggregate_value a rows'"
proof -
  have "\<forall>r \<in> set rows'. agg_ok \<kappa> a r" using assms(2) mset_eq_setD [OF assms(3)] by simp
  with assms spec_perm(2) [OF assms(3)] show ?thesis by (metis aggregate_value_spec)
qed

section \<open>The partial phase, partition by partition\<close>

lemma outputs_each:
  assumes out: "outputs env q parts" and n: "length parts = n"
    and shape: "unsplit q' = unsplit q" "writes q' = writes q" "plan_partitions q' = plan_partitions q"
    and each: "\<And>j p. j < n \<Longrightarrow> direct env q j = Inr p \<Longrightarrow> records p = gen_of (parts ! j) \<Longrightarrow>
      \<exists>p' rows. direct env q' j = Inr p' \<and> part_to_list p' = Inr rows \<and> R j rows"
  shows "\<exists>outs. outputs env q' outs \<and> length outs = n \<and> (\<forall>j < n. R j (outs ! j))"
proof -
  have "\<exists>p' rows. direct env q' j = Inr p' \<and> part_to_list p' = Inr rows \<and> R j rows"
    if "j < n" for j
    using outputs_partition [OF out] outputs_length [OF out] n each that by metis
  then obtain f where f: "\<And>j. j < n \<Longrightarrow> \<exists>p'. direct env q' j = Inr p' \<and> part_to_list p' = Inr (f j)"
      "\<And>j. j < n \<Longrightarrow> R j (f j)"
    by metis
  let ?outs = "map f [0..<n]"
  have "\<exists>p. direct env q' j = Inr p \<and> records p = gen_of (?outs ! j)" if "j < n" for j
    using f(1) [OF that] that by (auto simp: part_to_list_def gen_list_Inr_iff)
  then have "outputs env q' ?outs"
    using out shape outputs_length [OF out] n by (simp add: outputs_def write_rows_iff)
  then show ?thesis using f(2) by (intro exI [of _ ?outs]) simp
qed

text \<open>What is assumed of an aggregation over some rows: nothing raises, and equal keys are the same.\<close>

definition agg_ready :: "(expr \<Rightarrow> vkind) \<Rightarrow> expr list \<Rightarrow> expr list \<Rightarrow> row list \<Rightarrow> bool" where
  "agg_ready \<kappa> gs aggs rows \<longleftrightarrow>
     (\<forall>r \<in> set rows. vec_ok \<kappa> aggs r \<and> tuple_key gs r = Inr (key_of gs r)) \<and> canonical (key_of gs ` set rows)"

lemma agg_ready_subset: "agg_ready \<kappa> gs aggs rows \<Longrightarrow> set rows' \<subseteq> set rows \<Longrightarrow> agg_ready \<kappa> gs aggs rows'"
  unfolding agg_ready_def by (blast intro: canonical_subset)

lemma outputs_partial:
  assumes out: "outputs env q parts"
    and aggs: "rmap unwrap_aggregate as = Inr aggs" "list_all is_aggregate aggs"
    and names: "distinct (map output_name gs @ state_names (length aggs))"
    and ready: "agg_ready \<kappa> gs aggs (concat parts)"
  shows "\<exists>outs. outputs env (HashAggregateExec q gs as s True threshold) outs
    \<and> list_all2 (map_side_rows gs aggs \<kappa> (key_of gs)) parts outs"
proof -
  have "\<exists>outs. outputs env (HashAggregateExec q gs as s True threshold) outs \<and> length outs = length parts
      \<and> (\<forall>j < length parts. map_side_rows gs aggs \<kappa> (key_of gs) (parts ! j) (outs ! j))"
  proof (rule outputs_each [OF out refl])
    fix j p
    assume j: "j < length parts" and p: "direct env q j = Inr p" "records p = gen_of (parts ! j)"
    have rows: "agg_ready \<kappa> gs aggs (parts ! j)" by (rule agg_ready_subset [OF ready concat_subset [OF j]])
    from partial_phase [OF aggs names p(2), of \<kappa> "key_of gs" env s threshold j] rows p(1)
    show "\<exists>p' rows. direct env (HashAggregateExec q gs as s True threshold) j = Inr p'
        \<and> part_to_list p' = Inr rows \<and> map_side_rows gs aggs \<kappa> (key_of gs) (parts ! j) rows"
      by (fastforce simp: agg_ready_def map_side_rows_def partial_rows_of_def)
  qed simp_all
  then show ?thesis by (simp add: list_all2_conv_all_nth) metis
qed

text \<open>The rows that reach a reduce task are the partial rows of the keys of its target.\<close>

lemma tuple_key_evaluates: "(\<forall>r \<in> set rows. \<not> isl (tuple_key es r)) \<Longrightarrow> evaluates es rows"
proof (unfold evaluates_def, intro ballI)
  fix r e assume "\<forall>r \<in> set rows. \<not> isl (tuple_key es r)" "r \<in> set rows" "e \<in> set es"
  then obtain k where "rmap (\<lambda>e. eval e r) es = Inr k" by (cases "tuple_key es r") (auto simp: tuple_key_def)
  with \<open>e \<in> set es\<close> show "\<not> isl (eval e r)" by (auto simp: rmap_Inr_iff list_all2_conv_all_nth in_set_conv_nth)
qed

lemma map_side_keys:
  assumes "list_all2 (map_side_rows gs aggs \<kappa> (key_of gs)) parts outs" "list_all is_column gs"
    and "distinct (map output_name gs @ state_names (length aggs))" "agg_ready \<kappa> gs aggs (concat parts)"
    and "r \<in> set (concat outs)"
  shows "tuple_key gs r = Inr (key_of gs r)"
proof -
  obtain rows where "rows \<in> set outs" "r \<in> set rows" using assms(5) by auto
  then obtain j where j: "j < length outs" "r \<in> set (outs ! j)" by (metis in_set_conv_nth)
  with assms(1) have jp: "j < length parts" by (simp add: list_all2_lengthD)
  obtain ks where ks: "set ks = key_of gs ` set (parts ! j)" "outs ! j = partial_rows_of gs aggs \<kappa> (key_of gs) (parts ! j) ks"
    using list_all2_nthD [OF assms(1) jp] by (auto simp: map_side_rows_def)
  then obtain k where k: "k \<in> key_of gs ` set (parts ! j)"
      "r = partial_row (map output_name gs) k (states_of \<kappa> aggs (group_rows (key_of gs) (parts ! j) k))"
    using j(2) by (auto simp: partial_rows_of_def)
  have "\<forall>r \<in> set (parts ! j). tuple_key gs r = Inr (key_of gs r)"
    using assms(4) concat_subset [OF jp] by (auto simp: agg_ready_def)
  from partial_row_key [OF assms(2,3) this k(1)] have key: "tuple_key gs r = Inr k" by (simp add: k(2))
  have "evaluates gs [r]" by (rule tuple_key_evaluates) (simp add: key)
  from evaluates_key [OF this] key show ?thesis by simp
qed

section \<open>Both phases around the exchange\<close>

lemma final_row_group_result:
  assumes "rmap unwrap_aggregate as = Inr aggs" "list_all is_aggregate aggs"
    and "\<forall>r \<in> set rows. vec_ok \<kappa> aggs r" "\<forall>a \<in> set aggs. \<not> isl (value_spec \<kappa> a rows)"
  shows "final_row (map output_name gs) (map output_name as) \<kappa> aggs k rows = Inr (group_result gs as (k, rows))"
proof -
  have aggs: "aggs = map unalias as"
    using assms(1) by (induction as arbitrary: aggs) (auto simp: rbind_Inr_iff unwrap_aggregate_def Let_def split: if_splits)
  have agg: "value_spec \<kappa> a rows = Inr (aggregate_value a rows)" if a: "a \<in> set aggs" for a
  proof -
    have "\<forall>r \<in> set rows. agg_ok \<kappa> a r" using assms(3) a by (auto simp: vec_ok_def list_all_iff)
    moreover have "is_aggregate a" using assms(2) a by (simp add: list_all_iff)
    ultimately show ?thesis using assms(4) a by (cases "value_spec \<kappa> a rows") (auto simp: aggregate_value_spec)
  qed
  then have "rmap (\<lambda>a. value_spec \<kappa> a rows) aggs = Inr (map (\<lambda>a. aggregate_value a rows) aggs)"
    by (rule rmap_Inr_fun) simp
  then show ?thesis
    by (simp add: final_row_def group_result_def aggs zip_map_map zip_same_conv_map comp_def)
qed

lemma distinct_by_target:
  assumes "\<And>t. t < n \<Longrightarrow> distinct (f t) \<and> set (f t) = K \<inter> {k. g k = t}"
  shows "distinct (concat (map f [0..<n])) \<and> set (concat (map f [0..<n])) = K \<inter> {k. g k < n}"
  using assms
proof (induction n)
  case (Suc n)
  then have "distinct (f n) \<and> set (f n) = K \<inter> {k. g k = n}"
    "distinct (concat (map f [0..<n])) \<and> set (concat (map f [0..<n])) = K \<inter> {k. g k < n}" by simp_all
  then show ?case by (auto simp: less_Suc_eq)
qed simp

lemma outputs_plan_aggregate:
  assumes out: "outputs env q parts" and n: "1 \<le> n"
    and aggs: "rmap unwrap_aggregate as = Inr aggs" "list_all is_aggregate aggs" "list_all is_column gs"
    and names: "distinct (map output_name gs @ state_names (length aggs))"
      "distinct (map output_name gs @ map output_name as)"
    and ready: "agg_ready \<kappa> gs aggs (concat parts)"
    and finalize: "\<forall>k \<in> key_of gs ` set (concat parts). \<forall>a \<in> set aggs.
      \<not> isl (value_spec \<kappa> a (group_rows (key_of gs) (concat parts) k))"
  shows "\<exists>outs. outputs env (plan_aggregate q gs as ps s n threshold) outs
    \<and> mset (concat outs) = mset (map (group_result gs as) (grouped (key_of gs) (concat parts)))"
proof -
  let ?rows = "concat parts" and ?key = "key_of gs" and ?tg = "hash_target env n gs"
  let ?g = "\<lambda>k. stable_hash (env_md5 env) (VTuple k) mod n"
  let ?out = "\<lambda>k. group_result gs as (k, group_rows ?key ?rows k)"
  obtain pouts where pouts: "outputs env (HashAggregateExec q gs as ps True threshold) pouts"
      "list_all2 (map_side_rows gs aggs \<kappa> ?key) parts pouts"
    using outputs_partial [OF out aggs(1,2) names(1) ready] by blast
  note keys = map_side_keys [OF pouts(2) aggs(3) names(1) ready]
  have "evaluates gs (concat pouts)" using keys by (intro tuple_key_evaluates) auto
  note ex = outputs_hash_exchange [OF pouts(1) n this, of False]
  have "\<exists>outs. outputs env (plan_aggregate q gs as ps s n threshold) outs \<and> length outs = n
      \<and> (\<forall>t < n. \<exists>ks. distinct ks \<and> set ks = ?key ` set ?rows \<inter> {k. ?g k = t} \<and> outs ! t = map ?out ks)"
    unfolding plan_aggregate_def
  proof (rule outputs_each [OF ex])
    show "length (map (\<lambda>t. rows_for ?tg (if False then 0 else t) (concat pouts)) [0..<n]) = n" by simp
    fix t p
    assume t: "t < n"
      and p: "direct env (ExchangeExec (HashAggregateExec q gs as ps True threshold) n gs False None) t = Inr p"
        "records p = gen_of (map (\<lambda>t. rows_for ?tg (if False then 0 else t) (concat pouts)) [0..<n] ! t)"
    have "rows_for ?tg t (concat pouts) = filter (\<lambda>r. tuple_key gs r \<in> Inr ` {k. ?g k = t}) (concat pouts)"
      unfolding rows_for_def using keys by (intro filter_cong) (auto simp: hash_target_def)
    then have input: "mset (rows_for ?tg t (concat pouts))
        = mset (filter (\<lambda>r. tuple_key gs r \<in> Inr ` {k. ?g k = t}) (concat pouts))" by simp
    have rows: "\<forall>chunk \<in> set parts. \<forall>r \<in> set chunk. vec_ok \<kappa> aggs r \<and> tuple_key gs r = Inr (?key r)"
      and can: "canonical (?key ` set ?rows)" using ready by (auto simp: agg_ready_def)
    have "records p = gen_of (rows_for ?tg t (concat pouts))" using p(2) t by simp
    from two_phase_shuffled [OF aggs names rows can pouts(2) input this, of env s threshold t]
    obtain p' ks where p': "aggregate_partition env gs as s False threshold t p = Inr p'"
        "distinct ks" "set ks = ?key ` set ?rows \<inter> {k. ?g k = t}"
        "part_to_list p' = rmap (\<lambda>k. final_row (map output_name gs) (map output_name as) \<kappa> aggs k (group_rows ?key ?rows k)) ks"
      by blast
    have "part_to_list p' = Inr (map ?out ks)"
      unfolding p'(4)
    proof (intro rmap_Inr_fun final_row_group_result [OF aggs(1,2)])
      fix k assume "k \<in> set ks"
      then have "k \<in> ?key ` set ?rows" using p'(3) by simp
      then show "\<forall>a \<in> set aggs. \<not> isl (value_spec \<kappa> a (group_rows ?key ?rows k))" using finalize by blast
      show "\<forall>r \<in> set (group_rows ?key ?rows k). vec_ok \<kappa> aggs r"
        using ready by (auto simp: agg_ready_def group_rows_def)
    qed
    with p(1) p'(1-3) show "\<exists>p' rows. direct env (HashAggregateExec (ExchangeExec (HashAggregateExec q gs as ps True threshold) n gs False None) gs as s False threshold) t = Inr p'
        \<and> part_to_list p' = Inr rows
        \<and> (\<exists>ks. distinct ks \<and> set ks = ?key ` set ?rows \<inter> {k. ?g k = t} \<and> rows = map ?out ks)"
      by (auto simp del: direct.simps(7))
  qed simp_all
  then obtain outs where outs: "outputs env (plan_aggregate q gs as ps s n threshold) outs" "length outs = n"
      "\<forall>t < n. \<exists>ks. distinct ks \<and> set ks = ?key ` set ?rows \<inter> {k. ?g k = t} \<and> outs ! t = map ?out ks"
    by (elim exE conjE) (rule that)
  from outs(3) have "\<forall>t. \<exists>ks. t < n \<longrightarrow>
      distinct ks \<and> set ks = ?key ` set ?rows \<inter> {k. ?g k = t} \<and> outs ! t = map ?out ks"
    by (simp only: ex_simps)
  from choice [OF this] obtain kss where "\<forall>t. t < n \<longrightarrow>
      distinct (kss t) \<and> set (kss t) = ?key ` set ?rows \<inter> {k. ?g k = t} \<and> outs ! t = map ?out (kss t)" ..
  then have kss: "\<And>t. t < n \<Longrightarrow> distinct (kss t) \<and> set (kss t) = ?key ` set ?rows \<inter> {k. ?g k = t}"
      "\<And>t. t < n \<Longrightarrow> outs ! t = map ?out (kss t)" by simp_all
  let ?ks = "concat (map kss [0..<n])"
  have "outs = map (\<lambda>t. map ?out (kss t)) [0..<n]" using outs(2) kss(2) by (intro nth_equalityI) auto
  then have "concat outs = map ?out ?ks" by (simp add: map_concat comp_def)
  moreover have "mset ?ks = mset (uniq (map ?key ?rows))"
    using distinct_by_target [of n kss "?key ` set ?rows" ?g, OF kss(1)] n
    by (subst set_eq_iff_mset_eq_distinct [symmetric]) auto
  moreover have "map (group_result gs as) (grouped ?key ?rows) = map ?out (uniq (map ?key ?rows))"
    using ready grouped_eq [of ?key ?rows] by (simp add: agg_ready_def)
  ultimately have "mset (concat outs) = mset (map (group_result gs as) (grouped ?key ?rows))"
    by (simp only: mset_map)
  with outs(1) show ?thesis by blast
qed

end
