(* ===== verification/StatisticsCorrect.thy ===== *)
theory StatisticsCorrect
  imports Statistics Planner
begin

text \<open>
  Column statistics are exact: counts, distinct counts and ranges of the values of a column.
\<close>

definition nonnull_values :: "string \<Rightarrow> row list \<Rightarrow> pval list" where
  "nonnull_values n rows = filter (\<lambda>v. v \<noteq> VNone) (map (\<lambda>r. record_get r n) rows)"

lemma nonnull_values_snoc [simp]:
  "nonnull_values n [] = []"
  "nonnull_values n (rows @ [r]) = nonnull_values n rows @ (if record_get r n = VNone then [] else [record_get r n])"
  by (simp_all add: nonnull_values_def)

section \<open>One column\<close>

text \<open>What the dictionaries hold for a column after some rows.\<close>

definition range_of :: "(okey \<Rightarrow> okey \<Rightarrow> bool) \<Rightarrow> pval list \<Rightarrow> pval \<Rightarrow> bool" where
  "range_of before vs m \<longleftrightarrow>
     (if vs = [] then m = VNone else m \<in> set vs \<and> (\<forall>v \<in> set vs. before (okey_of m) (okey_of v)))"

definition column_exact :: "string \<Rightarrow> row list \<Rightarrow> column_acc \<Rightarrow> bool" where
  "column_exact n rows a \<longleftrightarrow>
     ca_nulls a + length (nonnull_values n rows) = length rows
     \<and> distinct (map okey_of (ca_distinct a))
     \<and> set (ca_distinct a) \<subseteq> set (nonnull_values n rows)
     \<and> okey_of ` set (ca_distinct a) = okey_of ` set (nonnull_values n rows)
     \<and> range_of (\<le>) (nonnull_values n rows) (ca_min a)
     \<and> range_of (\<ge>) (nonnull_values n rows) (ca_max a)"

lemma see_value_exact:
  assumes "column_exact n rows a" "comparable (nonnull_values n (rows @ [r]))"
  shows "\<exists>a'. see_value a (record_get r n) = Inr a' \<and> column_exact n (rows @ [r]) a'"
proof (cases "record_get r n = VNone")
  case True
  with assms(1) show ?thesis by (auto simp: see_value_def column_exact_def)
next
  case False
  let ?v = "record_get r n" and ?vs = "nonnull_values n rows"
  have comp: "comparable (?vs @ [?v])" using assms(2) False by simp
  note cmp = comparable_cmp [OF comp]
  have sub: "set (ca_distinct a) \<subseteq> set ?vs" using assms(1) by (simp add: column_exact_def)
  have nn: "VNone \<notin> set ?vs" by (simp add: nonnull_values_def)
  have rng: "range_of (\<le>) ?vs (ca_min a)" "range_of (\<ge>) ?vs (ca_max a)"
    using assms(1) by (simp_all add: column_exact_def)
  have ends: "ca_min a = VNone \<longleftrightarrow> ?vs = []" "ca_max a = VNone \<longleftrightarrow> ?vs = []"
      "?vs \<noteq> [] \<Longrightarrow> ca_min a \<in> set ?vs" "?vs \<noteq> [] \<Longrightarrow> ca_max a \<in> set ?vs"
    using rng nn by (auto simp: range_of_def split: if_splits)
  define lower where "lower \<longleftrightarrow> ?vs = [] \<or> okey_of ?v < okey_of (ca_min a)"
  define higher where "higher \<longleftrightarrow> ?vs = [] \<or> okey_of (ca_max a) < okey_of ?v"
  have "(if ca_min a = VNone then Inr True else py_lt ?v (ca_min a)) = Inr lower"
    using ends cmp(1) [of ?v "ca_min a" CLt] by (auto simp: lower_def)
  moreover have "(if ca_max a = VNone then Inr True else py_cmp CGt ?v (ca_max a)) = Inr higher"
    using ends cmp(1) [of ?v "ca_max a" CGt] by (auto simp: higher_def)
  ultimately have see: "see_value a ?v = Inr (a\<lparr>ca_distinct := set_add (ca_distinct a) ?v,
      ca_min := (if lower then ?v else ca_min a), ca_max := (if higher then ?v else ca_max a)\<rparr>)"
    using False by (simp add: see_value_def)
  have "list_ex (\<lambda>u. py_eq u ?v) (ca_distinct a) \<longleftrightarrow> okey_of ?v \<in> okey_of ` set (ca_distinct a)"
    using sub cmp(2) by (fastforce simp: list_ex_iff)
  then have add: "set_add (ca_distinct a) ?v
      = (if okey_of ?v \<in> okey_of ` set (ca_distinct a) then ca_distinct a else ca_distinct a @ [?v])"
    by (simp add: set_add_def)
  have "range_of (\<le>) (?vs @ [?v]) (if lower then ?v else ca_min a)"
    using rng(1) by (auto simp: lower_def range_of_def not_less split: if_splits)
  moreover have "range_of (\<ge>) (?vs @ [?v]) (if higher then ?v else ca_max a)"
    using rng(2) by (auto simp: higher_def range_of_def not_less split: if_splits)
  ultimately show ?thesis
    using see assms(1) False by (auto simp: column_exact_def add)
qed

section \<open>All the columns of a table\<close>

lemma column_of_update [simp]: "column_of (AList.update n a accs) m = (if m = n then a else column_of accs m)"
  by (simp add: column_of_def update_conv)

lemma see_columns_exact:
  assumes "distinct ns" "\<forall>n \<in> set ns. column_exact n rows (column_of accs n)"
    and "\<forall>n \<in> set ns. comparable (nonnull_values n (rows @ [r]))"
  shows "\<exists>accs'. rfold (\<lambda>accs n. rbind (see_value (column_of accs n) (record_get r n))
                                 (\<lambda>a. Inr (AList.update n a accs))) accs ns = Inr accs'
    \<and> (\<forall>n \<in> set ns. column_exact n (rows @ [r]) (column_of accs' n))
    \<and> (\<forall>m. m \<notin> set ns \<longrightarrow> column_of accs' m = column_of accs m)"
  using assms
proof (induction ns arbitrary: accs)
  case (Cons n ns)
  then obtain a where a: "see_value (column_of accs n) (record_get r n) = Inr a" "column_exact n (rows @ [r]) a"
    using see_value_exact [of n rows "column_of accs n" r] by auto
  let ?accs = "AList.update n a accs"
  have "\<forall>m \<in> set ns. column_exact m rows (column_of ?accs m)" using Cons.prems(1,2) by auto
  moreover have "distinct ns" "\<forall>n \<in> set ns. comparable (nonnull_values n (rows @ [r]))"
    using Cons.prems(1,3) by simp_all
  ultimately obtain accs' where
    "rfold (\<lambda>accs n. rbind (see_value (column_of accs n) (record_get r n))
        (\<lambda>a. Inr (AList.update n a accs))) ?accs ns = Inr accs'"
      "\<forall>m \<in> set ns. column_exact m (rows @ [r]) (column_of accs' m)"
      "\<forall>m. m \<notin> set ns \<longrightarrow> column_of accs' m = column_of ?accs m"
    using Cons.IH [of ?accs] by blast
  with a Cons.prems(1) show ?case by auto
qed simp

lemma see_records_exact:
  assumes "distinct ns" "\<forall>n \<in> set ns. comparable (nonnull_values n rows)"
  shows "\<exists>accs. rfold (see_record ns sz) (0, 0, map (\<lambda>n. (n, column_start)) ns) rows
      = Inr (length rows, sum_list (map (\<lambda>r. sum_list (map sz (row_values r))) rows), accs)
    \<and> (\<forall>n \<in> set ns. column_exact n rows (column_of accs n))"
  using assms(2)
proof (induction rows rule: rev_induct)
  case Nil
  have "column_of (map (\<lambda>n. (n, column_start)) ns) n = column_start" for n
    by (simp add: column_of_def map_of_map_restrict restrict_map_def)
  then show ?case by (simp add: column_exact_def column_start_def range_of_def)
next
  case (snoc r rows)
  have "\<forall>n \<in> set ns. comparable (nonnull_values n rows)"
    using snoc.prems by (force elim: comparable_subset)
  with snoc.IH obtain accs where accs: "rfold (see_record ns sz) (0, 0, map (\<lambda>n. (n, column_start)) ns) rows
      = Inr (length rows, sum_list (map (\<lambda>r. sum_list (map sz (row_values r))) rows), accs)"
    "\<forall>n \<in> set ns. column_exact n rows (column_of accs n)" by blast
  from see_columns_exact [OF assms(1) accs(2) snoc.prems] accs(1) show ?case
    by (simp add: rfold_append) (auto simp: see_record_def)
qed

lemma compute_statistics_eq:
  assumes "gen_list (iter_records d) = Inr rows"
    and "ns = (case columns of Some cs \<Rightarrow> cs | None \<Rightarrow> field_names (ds_schema d))" "distinct ns"
    and "\<forall>n \<in> set ns. comparable (nonnull_values n rows)"
  shows "\<exists>stats. compute_statistics sz d columns = Inr stats
    \<and> ts_row_count stats = length rows
    \<and> ts_estimated_size_bytes stats = sum_list (map (\<lambda>r. sum_list (map sz (row_values r))) rows)
    \<and> (\<forall>n \<in> set ns. \<exists>a. map_of (ts_columns stats) n = Some (column_result a) \<and> column_exact n rows a)"
proof -
  obtain accs where accs: "rfold (see_record ns sz) (0, 0, map (\<lambda>n. (n, column_start)) ns) rows
      = Inr (length rows, sum_list (map (\<lambda>r. sum_list (map sz (row_values r))) rows), accs)"
    "\<forall>n \<in> set ns. column_exact n rows (column_of accs n)"
    using see_records_exact [OF assms(3,4), of sz] by blast
  have uniq: "uniq ns = ns" using assms(3) by (induction ns rule: rev_induct) auto
  have "iter_records d = gen_of rows" using assms(1) by (simp add: gen_list_Inr_iff)
  with accs(1) uniq have stats: "compute_statistics sz d columns
      = Inr \<lparr>ts_row_count = length rows,
             ts_estimated_size_bytes = sum_list (map (\<lambda>r. sum_list (map sz (row_values r))) rows),
             ts_columns = map (\<lambda>n. (n, column_result (column_of accs n))) ns\<rparr>"
    by (simp add: compute_statistics_def Let_def flip: assms(2))
  moreover have "map_of (map (\<lambda>n. (n, column_result (column_of accs n))) ns) n = Some (column_result (column_of accs n))"
    if "n \<in> set ns" for n
    using that by (simp add: map_of_map_restrict)
  ultimately show ?thesis using accs(2) by auto
qed

text \<open>
  C40: Table statistics are exact. Whenever the rows can be read and the non-null values of each
  requested column are comparable with one another, the statistics are computed, count the rows, add
  up the size that \<^verbatim>\<open>sys.getsizeof\<close> (the parameter \<open>sz\<close>) gives for each value of each row, of
  whatever column, count each requested column's nulls and its distinct values by Python's equality,
  and bound its non-null values by two of them.
\<close>

theorem compute_statistics_exact:
  assumes "gen_list (iter_records d) = Inr rows"
    and "ns = (case columns of Some cs \<Rightarrow> cs | None \<Rightarrow> field_names (ds_schema d))" "distinct ns"
    and "\<forall>n \<in> set ns. comparable (nonnull_values n rows)"
  shows "\<exists>stats. compute_statistics sz d columns = Inr stats
    \<and> ts_row_count stats = length rows
    \<and> ts_estimated_size_bytes stats = sum_list (map sz (concat (map row_values rows)))
    \<and> (\<forall>n \<in> set ns. \<exists>c. map_of (ts_columns stats) n = Some c
        \<and> null_count c = length (filter (\<lambda>r. record_get r n = VNone) rows)
        \<and> distinct_count c = card (okey_of ` set (nonnull_values n rows))
        \<and> range_of (\<le>) (nonnull_values n rows) (min_value c)
        \<and> range_of (\<ge>) (nonnull_values n rows) (max_value c))"
proof -
  have nulls: "length (filter (\<lambda>r. record_get r n = VNone) rows) = k"
    if "k + length (nonnull_values n rows) = length rows" for n k
    using that sum_length_filter_compl [of "\<lambda>r. record_get r n = VNone" rows]
    by (simp add: nonnull_values_def filter_map comp_def)
  have count: "length vs = card (okey_of ` set vs)" if "distinct (map okey_of vs)" for vs
    using distinct_card [OF that] by simp
  from compute_statistics_eq [OF assms, of sz] obtain stats where
    stats: "compute_statistics sz d columns = Inr stats" "ts_row_count stats = length rows"
      "ts_estimated_size_bytes stats = sum_list (map (\<lambda>r. sum_list (map sz (row_values r))) rows)"
      "\<And>n. n \<in> set ns \<Longrightarrow> \<exists>a. map_of (ts_columns stats) n = Some (column_result a) \<and> column_exact n rows a"
    by blast
  have "\<exists>c. map_of (ts_columns stats) n = Some c
      \<and> null_count c = length (filter (\<lambda>r. record_get r n = VNone) rows)
      \<and> distinct_count c = card (okey_of ` set (nonnull_values n rows))
      \<and> range_of (\<le>) (nonnull_values n rows) (min_value c) \<and> range_of (\<ge>) (nonnull_values n rows) (max_value c)"
    if "n \<in> set ns" for n
    using stats(4) [OF that] by (auto simp: column_exact_def column_result_def nulls count)
  moreover have "sum_list (map (\<lambda>r. sum_list (map sz (row_values r))) rows)
      = sum_list (map sz (concat (map row_values rows)))" by (induction rows) simp_all
  ultimately show ?thesis using stats(1-3) by metis
qed

definition sample_table :: dataset where
  "sample_table = \<lparr>ds_schema = [\<lparr>fname = ''a'', data_type = IntType, nullable = True\<rparr>],
     ds_partitions = [sample_partition [[(''a'', VInt 3)], [(''a'', VNone)]],
                      sample_partition [[(''a'', VFloat (FFin 3))], [(''a'', VInt 7)]]]\<rparr>"

theorem compute_statistics_exact_witness:
  "\<exists>stats c. compute_statistics (\<lambda>_. 28) sample_table (Some [''a'']) = Inr stats
     \<and> map_of (ts_columns stats) ''a'' = Some c \<and> ts_row_count stats = 4 \<and> ts_estimated_size_bytes stats = 112
     \<and> null_count c = 1 \<and> distinct_count c = 2"
proof -
  let ?rows = "[[(''a'', VInt 3)], [(''a'', VNone)], [(''a'', VFloat (FFin 3))], [(''a'', VInt 7)]]"
  have rows: "gen_list (iter_records sample_table) = Inr ?rows"
    and comp: "\<forall>n \<in> set [''a'']. comparable (nonnull_values n ?rows)"
    and count: "card (okey_of ` set (nonnull_values ''a'' ?rows)) = 2"
      "length (filter (\<lambda>r. record_get r ''a'' = VNone) ?rows) = 1"
    by code_simp+
  from compute_statistics_exact [OF rows _ _ comp, of "Some [''a'']" "\<lambda>_. 28"] count
  show ?thesis by (auto simp: row_values_def)
qed

end
