(* ===== verification/SortMeaning.thy ===== *)
theory SortMeaning
  imports PhysicalMeaning StatisticsCorrect SortExecution
begin

text \<open>
  What the sort that the planner builds computes: sorting every partition, an exchange to ranges of
  the first sort column, and sorting every range, read in order, are one stable sort of all rows.
\<close>

section \<open>Sorting range by range\<close>

lemma filter_concat_targets:
  assumes "\<forall>r \<in> set rows. P r \<longrightarrow> tgt r = t0" "t0 < n"
  shows "concat (map (\<lambda>t. filter P (filter (\<lambda>r. tgt r = t) rows)) [0..<n]) = filter P rows"
proof -
  have "filter P (filter (\<lambda>r. tgt r = t) rows) = (if t = t0 then filter P rows else [])" for t
    using assms(1) by (auto simp: filter_empty_conv intro!: filter_cong)
  moreover have "concat (map (\<lambda>t. if t = t0 then xs else []) [0..<m]) = (if t0 < m then xs else [])" for m and xs :: "'a list"
    by (induction m) auto
  ultimately show ?thesis using assms(2) by simp
qed

lemma sort_by_target:
  fixes K :: "row \<Rightarrow> 'k :: linorder"
  assumes bound: "\<forall>r \<in> set (concat parts). tgt r < n"
    and mono: "\<forall>r \<in> set (concat parts). \<forall>r' \<in> set (concat parts). tgt r < tgt r' \<longrightarrow> K r < K r'"
  shows "concat (map (\<lambda>t. sort_key K (rows_for tgt t (concat (map (sort_key K) parts)))) [0..<n])
    = sort_key K (concat parts)"
proof (rule properties_for_sort_key [symmetric])
  let ?rows = "concat (map (sort_key K) parts)"
  let ?out = "concat (map (\<lambda>t. sort_key K (rows_for tgt t ?rows)) [0..<n])"
  have set: "set ?rows = set (concat parts)" by simp
  have "mset (concat (map f xss)) = mset (concat (map g xss))" if "\<And>xs. mset (f xs) = mset (g xs)"
    for f g :: "'b \<Rightarrow> row list" and xss
    using that by (induction xss) simp_all
  note same = this
  have "mset ?out = mset (concat (map (\<lambda>t. rows_for tgt t ?rows) [0..<n]))" by (rule same) simp
  also have "\<dots> = mset ?rows" using bound set by (intro mset_targets) simp
  also have "\<dots> = mset (concat parts)" using same [of "sort_key K" "\<lambda>xs. xs" parts] by simp
  finally show mset: "mset ?out = mset (concat parts)" .
  show "sorted (map K ?out)"
  proof -
    have "sorted (map K (concat (map (\<lambda>t. sort_key K (rows_for tgt t ?rows)) [0..<m])))" if "m \<le> n" for m
      using that
    proof (induction m)
      case (Suc m)
      have "K r \<le> K r'" if "r \<in> set (concat (map (\<lambda>t. sort_key K (rows_for tgt t ?rows)) [0..<m]))"
        "r' \<in> set (rows_for tgt m ?rows)" for r r'
      proof -
        have "r \<in> set (concat parts)" "r' \<in> set (concat parts)" "tgt r < tgt r'"
          using that by (auto simp: rows_for_def)
        with mono show ?thesis by (meson less_imp_le)
      qed
      with Suc show ?case by (auto simp: sorted_append)
    qed simp
    then show ?thesis by blast
  qed
  fix k assume "k \<in> set ?out"
  then have k: "k \<in> set (concat parts)" by (simp only: mset_eq_setD [OF mset])
  have same_target: "\<forall>r \<in> set ?rows. K k = K r \<longrightarrow> tgt r = tgt k"
    using mono k set by (metis less_irrefl nat_neq_iff)
  have stable: "filter (\<lambda>r. K k = K r) (sort_key K xs) = filter (\<lambda>r. K k = K r) xs" for xs
    using sort_key_stable [of K "K k" xs] by (simp add: eq_commute)
  have "filter (\<lambda>r. K k = K r) ?out
      = concat (map (\<lambda>t. filter (\<lambda>r. K k = K r) (filter (\<lambda>r. tgt r = t) ?rows)) [0..<n])"
    by (simp only: filter_concat [of _ "map _ [0..<n]"] map_map comp_def stable rows_for_def)
  also have "\<dots> = filter (\<lambda>r. K k = K r) ?rows"
    using same_target bound k by (intro filter_concat_targets) auto
  also have "\<dots> = filter (\<lambda>r. K k = K r) (concat parts)"
    by (simp add: filter_concat comp_def stable)
  finally show "filter (\<lambda>r. K k = K r) ?out = filter (\<lambda>r. K k = K r) (concat parts)" .
qed

lemma outputs_sort:
  assumes "outputs env q parts" "sortable es (concat parts)" "length es = length asc"
  shows "outputs env (SortExec q es asc s threshold) (map (sort_key (row_key (zip es asc))) parts)"
proof (rule outputs_map [OF assms(1)])
  fix j p
  assume j: "j < length parts" and p: "direct env q j = Inr p" "records p = gen_of (parts ! j)"
  have "sortable es (parts ! j)" by (rule sortable_subset [OF assms(2) subset_refl concat_subset [OF j]])
  from sort_partition_eq [OF p(2) this assms(3), of env s threshold j] p(1)
  show "\<exists>p'. direct env (SortExec q es asc s threshold) j = Inr p'
      \<and> records p' = gen_of (sort_key (row_key (zip es asc)) (parts ! j))"
    by (auto simp: part_to_list_def gen_list_Inr_iff)
qed simp_all

lemma outputs_exchanged_sort:
  assumes out: "outputs env q parts" and sort: "sortable es (concat parts)" "length es = length asc"
    and key: "write_key_fn [key] bounds = Inr kf" "write_partitioner n bounds = Inr P"
      "\<forall>r \<in> set (concat parts). rbind (kf r) (partition_for (env_md5 env) P) = Inr (tgt r)"
    and bound: "\<forall>r \<in> set (concat parts). tgt r < n"
    and mono: "\<forall>r \<in> set (concat parts). \<forall>r' \<in> set (concat parts).
      tgt r < tgt r' \<longrightarrow> row_key (zip es asc) r < row_key (zip es asc) r'"
  shows "\<exists>outs. outputs env (SortExec (ExchangeExec (SortExec q es asc s threshold) n [key] False bounds) es asc s threshold) outs
    \<and> concat outs = sort_key (row_key (zip es asc)) (concat parts)"
proof -
  let ?K = "row_key (zip es asc)"
  let ?sorted = "map (sort_key ?K) parts"
  have set: "set (concat ?sorted) = set (concat parts)" by simp
  have "\<forall>r \<in> set (concat ?sorted). rbind (kf r) (partition_for (env_md5 env) P) = Inr (tgt r)"
    using key(3) set by simp
  from outputs_exchange [OF outputs_sort [OF out sort] key(1,2) this, where b = False]
  have ex: "outputs env (ExchangeExec (SortExec q es asc s threshold) n [key] False bounds)
      (map (\<lambda>t. rows_for tgt t (concat ?sorted)) [0..<n])" by simp
  have "sortable es (concat (map (\<lambda>t. rows_for tgt t (concat ?sorted)) [0..<n]))"
    by (rule sortable_subset [OF sort(1) subset_refl]) (auto simp: rows_for_def)
  from outputs_sort [OF ex this sort(2), of s threshold] sort_by_target [OF bound mono]
  show ?thesis by (auto simp: comp_def)
qed

section \<open>The range of a key\<close>

text \<open>
  Numbers that negation keeps exact: ints, and floats that are doubles.  NaN, strings and nulls
  have no range.
\<close>

fun exact_num :: "pval \<Rightarrow> bool" where
  "exact_num (VBool _) = True"
| "exact_num (VInt _) = True"
| "exact_num (VFloat (FFin q)) = (round_mag \<bar>q\<bar> = Some \<bar>q\<bar>)"
| "exact_num (VFloat f) = (f \<noteq> FNan)"
| "exact_num _ = False"

lemma exact_num_key: "exact_num v \<Longrightarrow> is_num_key v"
  by (induction v rule: exact_num.induct) auto

fun xneg :: "okey \<Rightarrow> okey" where
  "xneg (KNum NegInf) = KNum PosInf"
| "xneg (KNum PosInf) = KNum NegInf"
| "xneg (KNum (Num q)) = KNum (Num (- q))"
| "xneg (KStr s) = KStr s"

lemma float_minus_one: "rat_to_float (- 1) = FFin (- 1)"
  by code_simp

lemma negated_key:
  assumes "exact_num v"
  shows "\<exists>w. py_mul v (VInt (- 1)) = Inr w \<and> is_num_key w \<and> okey_of w = xneg (okey_of v)"
proof -
  consider b where "v = VBool b" | i where "v = VInt i" | q where "v = VFloat (FFin q)" "round_mag \<bar>q\<bar> = Some \<bar>q\<bar>"
    | neg where "v = VFloat (FInf neg)" | "v = VFloat FNegZero"
    using assms by (cases v rule: exact_num.cases) auto
  then show ?thesis
  proof cases
    case 3
    then show ?thesis
      by (auto simp: py_mul_def arith_def float_minus_one mk_float_def okey_of_def)
  qed (auto simp: py_mul_def arith_def float_minus_one mk_float_def okey_of_def round_mag_def)
qed

lemma xneg_less:
  assumes "is_num_key v" "is_num_key w"
  shows "xneg (okey_of v) \<le> xneg (okey_of w) \<longleftrightarrow> okey_of w \<le> okey_of v"
proof -
  obtain x y where "okey_of v = KNum x" "okey_of w = KNum y"
    using num_key_view [OF assms(1)] num_key_view [OF assms(2)] by (auto simp: okey_of_def)
  then show ?thesis by (cases x; cases y) auto
qed

text \<open>Bisection is monotone in the key, whatever the order of the boundaries.\<close>

definition is_number :: "pval \<Rightarrow> bool" where
  "is_number v \<longleftrightarrow> num_view v \<noteq> None"

lemma num_lt:
  assumes "is_num_key x" "is_number b"
  shows "py_lt x b = Inr (case num_view b of Some (Some q) \<Rightarrow> okey_of x < KNum q | _ \<Rightarrow> False)"
proof -
  obtain y where y: "num_view x = Some (Some y)" "ordkey x = Some (KNum y)" using num_key_view [OF assms(1)] by blast
  obtain m where "num_view b = Some m" using assms(2) by (auto simp: is_number_def)
  with y assms(1) show ?thesis
    by (cases m) (auto simp: py_cmp_num num_cmp_def okey_of_def)
qed

lemma bisect_loop_mono:
  assumes num: "is_num_key x" "is_num_key y" "okey_of x \<le> okey_of y" "list_all is_number a"
  shows "lo \<le> hi \<Longrightarrow> hi \<le> length a \<Longrightarrow>
    \<exists>i j. bisect_loop a x lo hi = Inr i \<and> bisect_loop a y lo hi = Inr j \<and> i \<le> j"
proof (induction "hi - lo" arbitrary: lo hi rule: less_induct)
  case less
  show ?case
  proof (cases "lo < hi")
    case True
    let ?mid = "(lo + hi) div 2"
    have mid: "lo \<le> ?mid" "?mid < hi" using True by auto
    have b: "is_number (a ! ?mid)" using num(4) mid less.prems by (simp add: list_all_length)
    obtain m where m: "py_lt x (a ! ?mid) = Inr (case m of Some q \<Rightarrow> okey_of x < KNum q | None \<Rightarrow> False)"
        "py_lt y (a ! ?mid) = Inr (case m of Some q \<Rightarrow> okey_of y < KNum q | None \<Rightarrow> False)"
      using num_lt [OF num(1) b] num_lt [OF num(2) b] b by (auto simp: is_number_def)
    then obtain lx ly where l: "py_lt x (a ! ?mid) = Inr lx" "py_lt y (a ! ?mid) = Inr ly" "ly \<Longrightarrow> lx"
      using num(3) by (cases m) auto
    have left: "\<exists>i j. bisect_loop a x lo ?mid = Inr i \<and> bisect_loop a y lo ?mid = Inr j \<and> i \<le> j"
      and right: "\<exists>i j. bisect_loop a x (Suc ?mid) hi = Inr i \<and> bisect_loop a y (Suc ?mid) hi = Inr j \<and> i \<le> j"
      using less.hyps [of ?mid lo] less.hyps [of hi "Suc ?mid"] less.prems mid by auto
    from left right obtain i j i' j' where
      ij: "bisect_loop a x lo ?mid = Inr i" "bisect_loop a y lo ?mid = Inr j" "i \<le> j"
        "bisect_loop a x (Suc ?mid) hi = Inr i'" "bisect_loop a y (Suc ?mid) hi = Inr j'" "i' \<le> j'"
      by blast
    have "i \<le> ?mid" using bisect_loop_range [OF ij(1)] mid by simp
    moreover have "Suc ?mid \<le> j'" using bisect_loop_range [OF ij(5)] mid by simp
    ultimately show ?thesis
      using ij l True by (subst (1 2) bisect_loop.simps) (cases lx; cases ly; auto simp: Let_def)
  next
    case False
    then show ?thesis by (simp add: bisect_loop.simps [of a _ lo hi])
  qed
qed

lemma bisect_right_mono:
  assumes "is_num_key x" "is_num_key y" "okey_of x \<le> okey_of y" "list_all is_number a"
  shows "\<exists>i j. bisect_right a x = Inr i \<and> bisect_right a y = Inr j \<and> i \<le> j \<and> j \<le> length a"
  using bisect_loop_mono [OF assms, of 0 "length a"] bisect_loop_range [of a y 0 "length a"]
  by (auto simp: bisect_right_def)

section \<open>The boundaries are numbers\<close>

lemma is_number_as_num: "is_number v \<longleftrightarrow> (\<exists>x. as_num v = Some x)"
  by (cases v) (auto simp: is_number_def)

lemma num_key_number: "is_num_key v \<Longrightarrow> is_number v"
  by (cases v) (auto simp: is_number_def)

lemma arith_number: "arith fi ff x y = Inr v \<Longrightarrow> \<exists>z. as_num v = Some z"
  by (cases x; cases y) (auto simp: arith_def rbind_Inr_iff)

lemma py_mul_number: "is_number a \<Longrightarrow> is_number b \<Longrightarrow> py_mul a b = Inr v \<Longrightarrow> is_number v"
  by (auto simp: py_mul_def is_number_as_num split: pnum.splits dest: arith_number)

lemma py_add_number: "is_number a \<Longrightarrow> is_number b \<Longrightarrow> py_add a b = Inr v \<Longrightarrow> is_number v"
  by (auto simp: py_add_def is_number_as_num dest: arith_number)

lemma py_truediv_number: "py_truediv a b = Inr v \<Longrightarrow> is_number v"
  by (auto simp: py_truediv_def int_truediv_def is_number_def rbind_Inr_iff
      split: option.splits pnum.splits if_splits pyfloat.splits)

lemma signed_boundaries_numbers:
  assumes "is_number lo" "is_number hi" "signed_boundaries lo hi asc n = Inr bs"
  shows "list_all is_number bs \<and> length bs = n - 1"
proof -
  have int: "is_number (VInt i)" for i by (simp add: is_number_def)
  obtain a b slo shi where ab: "py_mul (VInt (if asc then 1 else - 1)) lo = Inr a"
      "py_mul (VInt (if asc then 1 else - 1)) hi = Inr b"
      "sorted_pair a b = Inr (slo, shi)"
      "(if py_eq slo shi then Inr (replicate (n - 1) shi) else even_boundaries slo shi n) = Inr bs"
    using assms(3) by (auto simp: signed_boundaries_def Let_def rbind_Inr_iff)
  have "is_number a" "is_number b" using py_mul_number [OF int] assms(1,2) ab(1,2) by blast+
  then have s: "is_number slo" "is_number shi"
    using ab(3) by (auto simp: sorted_pair_def rbind_Inr_iff split: if_splits)
  show ?thesis
  proof (cases "py_eq slo shi")
    case True
    then show ?thesis using ab(4) s(2) by (auto simp: list_all_iff)
  next
    case False
    then obtain width step where w: "py_sub shi slo = Inr width" "py_truediv width (VInt (int n)) = Inr step"
        "rmap (\<lambda>i. rbind (py_mul step (VInt (int i))) (\<lambda>d. py_add slo d)) [1..<n] = Inr bs"
      using ab(4) by (auto simp: even_boundaries_def rbind_Inr_iff)
    have "is_number v" if "rbind (py_mul step (VInt (int i))) (\<lambda>d. py_add slo d) = Inr v" for i v
      using that py_truediv_number [OF w(2)] s(1) int
      by (auto simp: rbind_Inr_iff intro: py_mul_number py_add_number)
    then show ?thesis using rmap_member [OF w(3)] rmap_length [OF w(3)] by (fastforce simp: list_all_iff)
  qed
qed

text \<open>The observed range of the sort column is between two of its values.\<close>

lemma oracle_execute:
  assumes "is_oracle_executable q" "outputs env q parts"
  shows "\<exists>d. execute q = Inr d \<and> gen_list (iter_records d) = Inr (concat parts)"
proof -
  have "\<exists>d. execute q = Inr d \<and> length (ds_partitions d) = plan_partitions q
      \<and> (\<forall>j < plan_partitions q. direct env q j = Inr (ds_partitions d ! j))"
    using assms(1)
    by (induction q) (auto simp: num_partitions_def ds_partition_def)
  then obtain d where d: "execute q = Inr d" "length (ds_partitions d) = length parts"
      "\<forall>j < length parts. records (ds_partitions d ! j) = gen_of (parts ! j)"
    using outputs_partition [OF assms(2)] outputs_length [OF assms(2)] by fastforce
  then have "list_all2 (\<lambda>p xs. gen_list (records p) = Inr xs) (ds_partitions d) parts"
    by (simp add: list_all2_conv_all_nth)
  with d(1) show ?thesis by (auto simp: iter_records_parts)
qed

lemma record_get_value: "record_get r n = value_at (Column n) r"
  by (auto simp: record_get_def value_at_def row_get_def split: option.splits)

lemma column_range_values:
  assumes "column_range sz q k = Inr (lo, hi)" "is_oracle_executable q" "outputs env q parts"
    and "sortable [Column k] (concat parts)" "v = lo \<or> v = hi" "v \<noteq> VNone"
  shows "v \<in> value_at (Column k) ` set (concat parts)"
proof -
  obtain d where d: "execute q = Inr d" "gen_list (iter_records d) = Inr (concat parts)"
    using oracle_execute [OF assms(2,3)] by blast
  have comp: "\<forall>n \<in> set [k]. comparable (nonnull_values n (concat parts))"
    using assms(4) by (simp add: sortable_def nonnull_values_def record_get_value del: set_concat)
  from compute_statistics_eq [OF d(2) _ _ comp, of "Some [k]" sz] obtain stats a where
    "compute_statistics sz d (Some [k]) = Inr stats" "map_of (ts_columns stats) k = Some (column_result a)"
    "column_exact k (concat parts) a" by auto
  with assms(1) d(1) have "lo = ca_min a" "hi = ca_max a" "column_exact k (concat parts) a"
    by (auto simp: column_range_def column_result_def)
  with assms(5,6) have "v \<in> set (nonnull_values k (concat parts))"
    by (auto simp: column_exact_def range_of_def split: if_splits)
  then show ?thesis by (auto simp: nonnull_values_def record_get_value)
qed

section \<open>The sort of the planner\<close>

text \<open>The planner exchanges by ranges: more than one target, and a numeric first sort column.\<close>

definition range_exchanged :: "nat \<Rightarrow> schema \<Rightarrow> expr list \<Rightarrow> bool" where
  "range_exchanged n s es \<longleftrightarrow> 1 < n \<and>
     (case es of
        Column k # _ \<Rightarrow> (case get_field s k of Inr f \<Rightarrow> numeric_type (Some (data_type f)) | Inl _ \<Rightarrow> False)
      | _ \<Rightarrow> False)"

lemma row_key_head_less:
  assumes "value_at e r \<noteq> VNone" "value_at e r' \<noteq> VNone"
    and "if a then okey_of (value_at e r) < okey_of (value_at e r') else okey_of (value_at e r') < okey_of (value_at e r)"
  shows "row_key (zip (e # es) (a # asc)) r < row_key (zip (e # es) (a # asc)) r'"
  using assms by (auto simp: row_key_def val_key_def okey0_def)

lemma sort_range_boundaries_cases:
  assumes "sort_range_boundaries sz q k a s n = Inr (bounds, m, key)"
  shows "bounds = None \<and> m = 1 \<and> key = Column k
    \<or> (\<exists>lo hi bs. is_oracle_executable q \<and> range_exchanged n s (Column k # es) \<and> column_range sz q k = Inr (lo, hi)
        \<and> lo \<noteq> VNone \<and> hi \<noteq> VNone \<and> signed_boundaries lo hi a n = Inr bs \<and> bounds = Some bs \<and> m = n
        \<and> key = (if a then Column k else Binary Multiply (Column k) (Literal (VInt (- 1)))))"
  using assms
  by (auto simp: sort_range_boundaries_def rbind_Inr_iff range_exchanged_def numeric_type_def split: if_splits)

text \<open>The target of a row in a range exchange respects the order of the rows.\<close>

lemma range_targets:
  assumes num: "\<forall>r \<in> set rows. exact_num (value_at (Column k) r)"
    and bs: "list_all is_number bs" and eval: "\<forall>r \<in> set rows. eval (Column k) r = Inr (value_at (Column k) r)"
    and key: "key = (if a then Column k else Binary Multiply (Column k) (Literal (VInt (- 1))))"
  shows "\<exists>tgt. (\<forall>r \<in> set rows. rbind (eval key r) (bisect_right bs) = Inr (tgt r) \<and> tgt r \<le> length bs)
    \<and> (\<forall>r \<in> set rows. \<forall>r' \<in> set rows. tgt r < tgt r' \<longrightarrow>
        (if a then okey_of (value_at (Column k) r) < okey_of (value_at (Column k) r')
         else okey_of (value_at (Column k) r') < okey_of (value_at (Column k) r)))"
proof -
  let ?v = "value_at (Column k)"
  have "\<exists>w. eval key r = Inr w \<and> is_num_key w \<and> okey_of w = (if a then okey_of (?v r) else xneg (okey_of (?v r)))"
    if r: "r \<in> set rows" for r
    using num eval r exact_num_key negated_key [of "?v r"] by (auto simp: key)
  then obtain kv where kv: "\<And>r. r \<in> set rows \<Longrightarrow> eval key r = Inr (kv r) \<and> is_num_key (kv r)
      \<and> okey_of (kv r) = (if a then okey_of (?v r) else xneg (okey_of (?v r)))" by metis
  define tgt where "tgt r = (case bisect_right bs (kv r) of Inr i \<Rightarrow> i | Inl _ \<Rightarrow> 0)" for r
  have mono: "bisect_right bs (kv r) = Inr (tgt r) \<and> tgt r \<le> length bs
      \<and> (okey_of (kv r) \<le> okey_of (kv r') \<longrightarrow> tgt r \<le> tgt r')" if "r \<in> set rows" "r' \<in> set rows" for r r'
    using bisect_right_mono [of "kv r" "kv r" bs] bisect_right_mono [of "kv r" "kv r'" bs] kv that bs
    by (auto simp: tgt_def)
  have "if a then okey_of (?v r) < okey_of (?v r') else okey_of (?v r') < okey_of (?v r)"
    if r: "r \<in> set rows" "r' \<in> set rows" and less: "tgt r < tgt r'" for r r'
  proof -
    have "\<not> okey_of (kv r') \<le> okey_of (kv r)" using mono [OF r(2,1)] less by auto
    then show ?thesis
      using kv r num exact_num_key xneg_less [of "?v r'" "?v r"] by (auto simp: not_le)
  qed
  with mono kv show ?thesis by (intro exI [of _ tgt]) auto
qed

lemma plan_sort_cases:
  assumes "plan_sort sz q es asc cs n threshold = Inr q'"
  obtains k es' a asc' s bounds m key where "es = Column k # es'" "asc = a # asc'" "cs = Inr s"
    "sort_range_boundaries sz q k a s n = Inr (bounds, m, key)"
    "q' = SortExec (ExchangeExec (SortExec q es asc s threshold) m [key] False bounds) es asc s threshold"
  using assms by (auto simp: plan_sort_def rbind_Inr_iff split: list.splits expr.splits)

lemma outputs_plan_sort:
  assumes plan: "plan_sort sz q es asc (Inr s) n threshold = Inr q'"
    and out: "outputs env q parts" and sort: "sortable es (concat parts)" "length es = length asc" and n: "1 \<le> n"
    and num: "is_oracle_executable q \<Longrightarrow> range_exchanged n s es \<Longrightarrow>
      \<forall>r \<in> set (concat parts). exact_num (value_at (hd es) r)"
  shows "\<exists>outs. outputs env q' outs \<and> concat outs = sort_key (row_key (zip es asc)) (concat parts)"
proof -
  obtain k es' a asc' s' bounds m key where "es = Column k # es'" "asc = a # asc'" "(Inr s :: schema res) = Inr s'"
    "sort_range_boundaries sz q k a s' n = Inr (bounds, m, key)"
    "q' = SortExec (ExchangeExec (SortExec q es asc s' threshold) m [key] False bounds) es asc s' threshold"
    by (rule plan_sort_cases [OF plan])
  then have es: "es = Column k # es'" "asc = a # asc'"
    and b: "sort_range_boundaries sz q k a s n = Inr (bounds, m, key)"
    and q': "q' = SortExec (ExchangeExec (SortExec q es asc s threshold) m [key] False bounds) es asc s threshold"
    by simp_all
  have eval: "\<forall>r \<in> set (concat parts). eval (Column k) r = Inr (value_at (Column k) r)"
    using sortable_eval [OF sort(1), of "Column k"] es by auto
  from sort_range_boundaries_cases [OF b, of es'] consider
      (one) "bounds = None" "m = 1" "key = Column k"
    | (ranges) lo hi bs where "is_oracle_executable q" "range_exchanged n s es" "column_range sz q k = Inr (lo, hi)"
        "lo \<noteq> VNone" "hi \<noteq> VNone" "signed_boundaries lo hi a n = Inr bs" "bounds = Some bs" "m = n"
        "key = (if a then Column k else Binary Multiply (Column k) (Literal (VInt (- 1))))"
    using es by blast
  then show ?thesis
  proof cases
    case one
    have "\<forall>r \<in> set (concat parts). rbind (rbind (tuple_key [key] r) (\<lambda>k. Inr (VTuple k)))
        (partition_for (env_md5 env) (HashPartitioner m)) = Inr 0"
      using eval one by (simp add: tuple_key_def)
    moreover have "write_key_fn [key] bounds = Inr (\<lambda>r. rbind (tuple_key [key] r) (\<lambda>k. Inr (VTuple k)))"
      "write_partitioner m bounds = Inr (HashPartitioner m)"
      using one by (simp_all add: write_key_fn_def write_partitioner_def mk_hash_partitioner_def)
    ultimately show ?thesis
      unfolding q' using one by (intro outputs_exchanged_sort [OF out sort]) auto
  next
    case ranges
    have num': "\<forall>r \<in> set (concat parts). exact_num (value_at (Column k) r)"
      using num ranges(1,2) es by simp
    have "sortable [Column k] (concat parts)" by (rule sortable_subset [OF sort(1)]) (auto simp: es)
    note rng = column_range_values [OF ranges(3,1) out this]
    have "is_number lo" "is_number hi"
      using rng [of lo] rng [of hi] ranges(4,5) num' by (auto intro!: num_key_number exact_num_key)
    from signed_boundaries_numbers [OF this ranges(6)] have bs: "list_all is_number bs" "length bs = n - 1" by simp_all
    from range_targets [OF num' bs(1) eval ranges(9)] obtain tgt where tgt:
      "\<forall>r \<in> set (concat parts). rbind (eval key r) (bisect_right bs) = Inr (tgt r) \<and> tgt r \<le> length bs"
      "\<forall>r \<in> set (concat parts). \<forall>r' \<in> set (concat parts). tgt r < tgt r' \<longrightarrow>
        (if a then okey_of (value_at (Column k) r) < okey_of (value_at (Column k) r')
         else okey_of (value_at (Column k) r') < okey_of (value_at (Column k) r))" by blast
    have nn: "value_at (Column k) r \<noteq> VNone" if "r \<in> set (concat parts)" for r
      using num' that by (metis exact_num.simps(7))
    show ?thesis
      unfolding q'
    proof (rule outputs_exchanged_sort [OF out sort])
      show "write_key_fn [key] bounds = Inr (eval key)" using ranges(7) by (simp add: write_key_fn_def)
      show "write_partitioner m bounds = Inr (RangePartitioner m bs)"
        using ranges(7,8) bs(2) n by (simp add: write_partitioner_def mk_range_partitioner_def)
      show "\<forall>r \<in> set (concat parts). rbind (eval key r) (partition_for (env_md5 env) (RangePartitioner m bs)) = Inr (tgt r)"
      proof -
        have "partition_for (env_md5 env) (RangePartitioner m bs) = bisect_right bs" by (rule ext) simp
        then show ?thesis using tgt(1) by simp
      qed
      show "\<forall>r \<in> set (concat parts). tgt r < m" using tgt(1) bs(2) n ranges(8) by fastforce
      show "\<forall>r \<in> set (concat parts). \<forall>r' \<in> set (concat parts).
          tgt r < tgt r' \<longrightarrow> row_key (zip es asc) r < row_key (zip es asc) r'"
        unfolding es using tgt(2) nn by (intro ballI impI row_key_head_less) blast+
    qed
  qed
qed

end
