(* ===== verification/PlannerCorrect.thy ===== *)
theory PlannerCorrect
  imports AggregateMeaning SortMeaning Analyzer
begin

text \<open>
  The physical planner is correct: on data on which nothing raises, the plan it makes of a logical
  plan yields the rows that the logical plan denotes.
\<close>

section \<open>Plans on which nothing raises\<close>

text \<open>Scans, filters and projections only: what the planner can run on its own, and never reorders.\<close>

fun scan_local :: "lplan \<Rightarrow> bool" where
  "scan_local (Scan _ _ _) = True"
| "scan_local (Filter c _) = scan_local c"
| "scan_local (Project c _) = scan_local c"
| "scan_local _ = False"

text \<open>
  \<open>clean n \<kappa> p\<close>: on the data of the scans, every expression of \<open>p\<close> has a value wherever the program
  evaluates it; grouped and (unless broadcast) joined keys are equal only if they are the same;
  aggregated columns hold ints or nulls, or for min and max strings or nulls, as \<open>\<kappa>\<close> says; sort
  columns hold values of one kind, and numbers without nulls when they are split into ranges.
\<close>

fun clean :: "nat \<Rightarrow> (expr \<Rightarrow> vkind) \<Rightarrow> lplan \<Rightarrow> bool" where
  "clean n \<kappa> (Scan d _ _) = (\<forall>p \<in> set (ds_partitions d). \<not> isl (gen_list (records p)))"
| "clean n \<kappa> (Filter c e) = (clean n \<kappa> c \<and> evaluates [e] (meaning c))"
| "clean n \<kappa> (Project c es) = (clean n \<kappa> c \<and> evaluates es (meaning c))"
| "clean n \<kappa> (Aggregate c gs as) =
     (clean n \<kappa> c \<and> agg_ready \<kappa> gs (map unalias as) (meaning c)
      \<and> (\<forall>k \<in> key_of gs ` set (meaning c). \<forall>a \<in> set (map unalias as).
           \<not> isl (value_spec \<kappa> a (group_rows (key_of gs) (meaning c) k))))"
| "clean n \<kappa> (Join l r on how b) =
     (clean n \<kappa> l \<and> clean n \<kappa> r
      \<and> evaluates (map Column on) (meaning l) \<and> evaluates (map Column on) (meaning r)
      \<and> (b \<or> canonical (key_of (map Column on) ` (set (meaning l) \<union> set (meaning r)))))"
| "clean n \<kappa> (Sort c es asc) =
     (clean n \<kappa> c \<and> sortable es (meaning c) \<and> length es = length asc
      \<and> (scan_local c \<longrightarrow> (case lschema c of
           Inl _ \<Rightarrow> True
         | Inr s \<Rightarrow> range_exchanged n s es \<longrightarrow> (\<forall>r \<in> set (meaning c). exact_num (value_at (hd es) r)))))"

text \<open>The plans whose rows come in the order of the meaning.\<close>

fun in_order :: "lplan \<Rightarrow> bool" where
  "in_order (Scan _ _ _) = True"
| "in_order (Filter c _) = in_order c"
| "in_order (Project c _) = in_order c"
| "in_order (Sort c _ _) = in_order c"
| "in_order _ = False"

definition sorted_as :: "lplan \<Rightarrow> row list \<Rightarrow> bool" where
  "sorted_as p rows = (case p of Sort c es asc \<Rightarrow> sorted (map (row_key (zip es asc)) rows) | _ \<Rightarrow> True)"

text \<open>\<open>rows\<close> is an answer to the query \<open>p\<close>.\<close>

definition answers :: "lplan \<Rightarrow> row list \<Rightarrow> bool" where
  "answers p rows \<longleftrightarrow> mset rows = mset (meaning p) \<and> (in_order p \<longrightarrow> rows = meaning p) \<and> sorted_as p rows"

section \<open>The translation\<close>

lemma translate_local: "translate sz n threshold p = Inr q \<Longrightarrow> is_oracle_executable q = scan_local p"
  by (induction p arbitrary: q)
     (auto simp: rbind_Inr_iff plan_aggregate_def plan_join_def Let_def elim!: plan_sort_cases split: if_splits)

lemma translate_schema: "translate sz n threshold p = Inr q \<Longrightarrow> lschema p = Inr (pschema q)"
proof (induction p arbitrary: q)
  case (Sort c es asc)
  then show ?case by (auto simp: rbind_Inr_iff elim!: plan_sort_cases)
qed (auto simp: rbind_Inr_iff plan_aggregate_def plan_join_def Let_def simp del: lschema.simps(3-5))

lemma partial_aggregate_schema_names:
  assumes "partial_aggregate_schema gs as s = Inr ps"
  shows "distinct (map output_name gs @ state_names (length as))"
proof -
  obtain fs where fs: "rmap (\<lambda>g. rbind (column_type g s) (\<lambda>t. Inr \<lparr>fname = output_name g, data_type = t, nullable = True\<rparr>)) gs = Inr fs"
      "mk_schema (fs @ map (\<lambda>i. \<lparr>fname = agg_state_name i, data_type = StringType, nullable = True\<rparr>) [0..<length as]) = Inr ps"
    using assms by (auto simp: partial_aggregate_schema_def rbind_Inr_iff)
  have "map fname fs = map output_name gs"
    using fs(1) by (induction gs arbitrary: fs) (auto simp: rbind_Inr_iff)
  with fs(2) show ?thesis
    by (simp add: mk_schema_Inr_iff field_names_def state_names_def comp_def)
qed

lemma unwrap_aggregates:
  "list_all (\<lambda>a. is_aggregate (unalias a)) as \<Longrightarrow> rmap unwrap_aggregate as = Inr (map unalias as)"
  by (intro rmap_Inr_fun) (simp add: unwrap_aggregate_def list_all_iff)

lemma outputs_translate:
  assumes "1 \<le> n"
  shows "wf_plan p \<Longrightarrow> clean n \<kappa> p \<Longrightarrow> translate sz n threshold p = Inr q \<Longrightarrow>
    \<exists>parts. outputs env q parts \<and> answers p (concat parts)"
proof (induction p arbitrary: q)
  case (Scan d name src)
  have "\<forall>p \<in> set (ds_partitions d). records p = gen_of (gen_rows (records p))"
  proof
    fix p assume "p \<in> set (ds_partitions d)"
    with Scan.prems(2) obtain rows where rows: "gen_list (records p) = Inr rows"
      by (cases "gen_list (records p)") auto
    then show "records p = gen_of (gen_rows (records p))"
      using gen_list_rows [OF rows] by (simp add: gen_list_Inr_iff)
  qed
  from outputs_scan [OF this, of env name] Scan.prems(3) show ?case
    by (auto simp: answers_def scan_rows_def sorted_as_def)
next
  case (Filter c e)
  then obtain q' parts where q': "translate sz n threshold c = Inr q'" "q = FilterExec q' e"
    and parts: "outputs env q' parts" "answers c (concat parts)" by (auto simp: rbind_Inr_iff)
  have "set (concat parts) = set (meaning c)" using parts(2) mset_eq_setD unfolding answers_def by blast
  then have "evaluates [e] (concat parts)" using Filter.prems(2) by (simp add: evaluates_def)
  from outputs_filter [OF parts(1) this] parts(2) show ?case
    by (auto simp: q' answers_def sorted_as_def filter_concat [symmetric] intro!: exI [of _ "map (filter (passes e)) parts"])
next
  case (Project c es)
  then obtain q' parts s where q': "translate sz n threshold c = Inr q'" "lschema (Project c es) = Inr s" "q = ProjectExec q' es s"
    and parts: "outputs env q' parts" "answers c (concat parts)" by (auto simp: rbind_Inr_iff simp del: lschema.simps)
  have "set (concat parts) = set (meaning c)" using parts(2) mset_eq_setD unfolding answers_def by blast
  then have "evaluates es (concat parts)" using Project.prems(2) by (simp add: evaluates_def)
  from outputs_project [OF parts(1) this] lschema_Project [OF q'(2)] parts(2) show ?case
    by (auto simp: q' answers_def sorted_as_def map_concat [symmetric] intro!: exI [of _ "map (map (project_to es)) parts"])
next
  case (Aggregate c gs as)
  then obtain q' cs ps s where q': "translate sz n threshold c = Inr q'" "lschema c = Inr cs"
      "partial_aggregate_schema gs as cs = Inr ps" "q = plan_aggregate q' gs as ps s n threshold"
    by (auto simp: rbind_Inr_iff simp del: lschema.simps)
  with Aggregate obtain parts where parts: "outputs env q' parts" "answers c (concat parts)" by auto
  have perm: "mset (concat parts) = mset (meaning c)" using parts(2) by (simp add: answers_def)
  note set = mset_eq_setD [OF perm]
  let ?aggs = "map unalias as" and ?key = "key_of gs"
  have aggs: "rmap unwrap_aggregate as = Inr ?aggs" "list_all is_aggregate ?aggs" "list_all is_column gs"
    using Aggregate.prems(1) by (auto intro!: unwrap_aggregates simp: list_all_iff)
  have names: "distinct (map output_name gs @ state_names (length ?aggs))"
      "distinct (map output_name gs @ map output_name as)"
    using partial_aggregate_schema_names [OF q'(3)] Aggregate.prems(1) by simp_all
  have ready: "agg_ready \<kappa> gs ?aggs (meaning c)" using Aggregate.prems(2) by simp
  have groups: "mset (group_rows ?key (concat parts) k) = mset (group_rows ?key (meaning c) k)" for k
    using perm by (simp add: group_rows_def)
  have ready': "agg_ready \<kappa> gs ?aggs (concat parts)" using ready set by (simp add: agg_ready_def)
  have "\<forall>k \<in> ?key ` set (concat parts). \<forall>a \<in> set ?aggs. \<not> isl (value_spec \<kappa> a (group_rows ?key (concat parts) k))"
    using Aggregate.prems(2) unfolding set spec_perm(2) [OF groups] by simp
  from outputs_plan_aggregate [OF parts(1) assms aggs names ready' this] obtain outs where
    outs: "outputs env q outs" "mset (concat outs) = mset (map (group_result gs as) (grouped ?key (concat parts)))"
    unfolding q'(4) by blast
  have same: "group_result gs as (k, group_rows ?key (concat parts) k) = group_result gs as (k, group_rows ?key (meaning c) k)" for k
  proof -
    have "aggregate_value (unalias a) (group_rows ?key (concat parts) k) = aggregate_value (unalias a) (group_rows ?key (meaning c) k)"
      if "a \<in> set as" for a
    proof (rule aggregate_value_perm [OF _ _ groups])
      show "is_aggregate (unalias a)" using aggs(2) that by (simp add: list_all_iff)
      show "\<forall>r \<in> set (group_rows ?key (concat parts) k). agg_ok \<kappa> (unalias a) r"
        using ready' that by (auto simp: agg_ready_def group_rows_def vec_ok_def list_all_iff)
    qed
    then show ?thesis by (simp add: group_result_def)
  qed
  have can: "canonical (?key ` set (meaning c))" using ready by (simp add: agg_ready_def)
  have "mset (uniq (map ?key (concat parts))) = mset (uniq (map ?key (meaning c)))"
    using set by (subst set_eq_iff_mset_eq_distinct [symmetric]) auto
  then have "mset (concat outs) = mset (meaning (Aggregate c gs as))"
    using outs(2) can set
    by (simp add: grouped_eq comp_def same del: set_concat)
  with outs(1) show ?case by (auto simp: answers_def sorted_as_def)
next
  case (Join l r on how b)
  then obtain ql qr s where q': "translate sz n threshold l = Inr ql" "translate sz n threshold r = Inr qr"
      "q = plan_join ql qr on b s n"
    by (auto simp: rbind_Inr_iff simp del: lschema.simps)
  with Join obtain lparts rparts where parts: "outputs env ql lparts" "answers l (concat lparts)"
      "outputs env qr rparts" "answers r (concat rparts)" by fastforce
  have perm: "mset (concat lparts) = mset (meaning l)" "mset (concat rparts) = mset (meaning r)"
    using parts(2,4) by (simp_all add: answers_def)
  note sets = mset_eq_setD [OF perm(1)] mset_eq_setD [OF perm(2)]
  let ?keys = "map Column on"
  have keys: "evaluates ?keys (concat lparts)" "evaluates ?keys (concat rparts)"
    using Join.prems(2) sets by (simp_all add: evaluates_def)
  have same: "key_of ?keys x = key_of ?keys y"
    if "\<not> b" "x \<in> set (concat lparts)" "y \<in> set (concat rparts)" "py_eq_list (key_of ?keys x) (key_of ?keys y)" for x y
    using Join.prems(2) that unfolding sets by (auto simp: canonical_def)
  from outputs_plan_join [OF parts(1,3) assms keys same] obtain outs where
    "outputs env q outs" "mset (concat outs) = mset (nested_loop_join on (key_of ?keys) (key_of ?keys) (concat lparts) (concat rparts))"
    unfolding q'(3) by blast
  with join_perm [OF perm] show ?case by (auto simp: answers_def sorted_as_def)
next
  case (Sort c es asc)
  then obtain q' where q': "translate sz n threshold c = Inr q'" "plan_sort sz q' es asc (lschema c) n threshold = Inr q"
    by (auto simp: rbind_Inr_iff simp del: lschema.simps)
  with Sort obtain parts where parts: "outputs env q' parts" "answers c (concat parts)" by auto
  have perm: "mset (concat parts) = mset (meaning c)" using parts(2) by (simp add: answers_def)
  note set = mset_eq_setD [OF perm]
  note schema = translate_schema [OF q'(1)]
  have sort: "sortable es (concat parts)" "length es = length asc"
    using Sort.prems(2) sortable_subset [OF _ subset_refl eq_refl [OF set]] by auto
  have num: "\<forall>r \<in> set (concat parts). exact_num (value_at (hd es) r)"
    if "is_oracle_executable q'" "range_exchanged n (pschema q') es"
    using Sort.prems(2) that translate_local [OF q'(1)] schema unfolding set by simp
  from outputs_plan_sort [OF q'(2) [unfolded schema] parts(1) sort assms num] obtain outs where
    outs: "outputs env q outs" "concat outs = sort_key (row_key (zip es asc)) (concat parts)" by blast
  with parts(2) perm show ?case by (auto simp: answers_def sorted_as_def)
qed

end
