(* ===== verification/DataFrameApi.thy ===== *)
theory DataFrameApi
  imports Optimizer Planner Scheduler MemorySource SqlParser
begin

text \<open>
  The public interface (\<^verbatim>\<open>api/dataframe.py\<close>, \<^verbatim>\<open>api/grouped.py\<close>, \<^verbatim>\<open>api/functions.py\<close>,
  \<^verbatim>\<open>api/session.py\<close>).  A \<^verbatim>\<open>DataFrame\<close> is its logical plan; the session it belongs to is an argument of
  its methods.  What a method prints is the list of its printed strings.
\<close>

section \<open>Building expressions (\<open>api/functions.py\<close>)\<close>

text \<open>A parameter of type \<^verbatim>\<open>str | Expression\<close>.\<close>

datatype column_arg = Name string | Expr expr

definition col :: "string \<Rightarrow> expr" where
  "col name = Column name"

definition lit :: "pval \<Rightarrow> expr" where
  "lit v = Literal v"

fun to_column :: "column_arg \<Rightarrow> expr" where
  "to_column (Name n) = Column n"
| "to_column (Expr e) = e"

text \<open>
  \<^verbatim>\<open>column is None or column == "*"\<close>: comparing an expression builds an \<^verbatim>\<open>Equal\<close>, an object that is true.
\<close>

definition count_of :: "column_arg option \<Rightarrow> expr" where
  "count_of c =
     (case c of
        None \<Rightarrow> CountStar
      | Some (Name n) \<Rightarrow> if n = ''*'' then CountStar else Count (Column n)
      | Some (Expr e) \<Rightarrow> CountStar)"

lemma count_of_expression: "count_of (Some (Expr (Column n))) = CountStar"
  by (simp add: count_of_def)

definition sum_of :: "column_arg \<Rightarrow> expr" where
  "sum_of c = SumOf (to_column c)"

definition avg_of :: "column_arg \<Rightarrow> expr" where
  "avg_of c = Avg (to_column c)"

definition min_of :: "column_arg \<Rightarrow> expr" where
  "min_of c = MinOf (to_column c)"

definition max_of :: "column_arg \<Rightarrow> expr" where
  "max_of c = MaxOf (to_column c)"

section \<open>Transformations\<close>

definition df_filter :: "lplan \<Rightarrow> expr \<Rightarrow> lplan" where
  "df_filter df condition = Filter df condition"

definition df_select :: "lplan \<Rightarrow> column_arg list \<Rightarrow> lplan res" where
  "df_select df columns =
     (if columns = [] then Inl ValueError else Inr (Project df (map to_column columns)))"

record grouped_data =
  gd_plan :: lplan
  gd_group_by :: "expr list"

definition df_group_by :: "lplan \<Rightarrow> column_arg list \<Rightarrow> grouped_data res" where
  "df_group_by df columns =
     (if columns = [] then Inl ValueError
      else Inr \<lparr>gd_plan = df, gd_group_by = map to_column columns\<rparr>)"

definition gd_agg :: "grouped_data \<Rightarrow> expr list \<Rightarrow> lplan res" where
  "gd_agg g aggregates =
     (if aggregates = [] then Inl ValueError else Inr (Aggregate (gd_plan g) (gd_group_by g) aggregates))"

datatype on_arg = OneKey string | Keys "string list"

definition df_join :: "lplan \<Rightarrow> lplan \<Rightarrow> on_arg \<Rightarrow> string \<Rightarrow> bool \<Rightarrow> lplan res" where
  "df_join df other on how broadcast =
     (let on_list = (case on of OneKey k \<Rightarrow> [k] | Keys ks \<Rightarrow> ks)
      in if on_list = [] then Inl ValueError else Inr (Join df other on_list how broadcast))"

datatype direction_arg = AllColumns bool | PerColumn "bool list"

definition df_order_by :: "lplan \<Rightarrow> column_arg list \<Rightarrow> direction_arg \<Rightarrow> lplan res" where
  "df_order_by df columns ascending =
     (if columns = [] then Inl ValueError
      else let es = map to_column columns
           in case ascending of
                AllColumns a \<Rightarrow> mk_sort df es (replicate (length es) a)
              | PerColumn asc \<Rightarrow> if length asc \<noteq> length es then Inl ValueError else mk_sort df es asc)"

section \<open>The session (\<open>api/session.py\<close>)\<close>

record session =
  session_config :: config
  app_name :: string
  temp_views :: "string \<rightharpoonup> lplan"

definition mk_session :: "config option \<Rightarrow> string \<Rightarrow> session" where
  "mk_session c name =
     \<lparr>session_config = (case c of Some c \<Rightarrow> c | None \<Rightarrow> default_config), app_name = name, temp_views = Map.empty\<rparr>"

record session_builder =
  sb_master :: string
  sb_app_name :: string

definition new_builder :: session_builder where
  "new_builder = \<lparr>sb_master = ''local[4]'', sb_app_name = ''minispark-app''\<rparr>"

definition get_or_create :: "session_builder \<Rightarrow> session" where
  "get_or_create b =
     mk_session (Some (default_config\<lparr>engine := (engine default_config)\<lparr>master := sb_master b\<rparr>\<rparr>)) (sb_app_name b)"

definition create_dataframe :: "row list \<Rightarrow> schema option \<Rightarrow> int \<Rightarrow> lplan res" where
  "create_dataframe rows s n =
     rbind (mk_memory_source rows s n) (\<lambda>src. rbind (memory_read src None None) (\<lambda>d.
       Inr (Scan d ''memory'' (Some (memory_read src)))))"

definition create_or_replace_temp_view :: "string \<Rightarrow> lplan \<Rightarrow> session \<Rightarrow> session" where
  "create_or_replace_temp_view name df s = s\<lparr>temp_views := (temp_views s)(name \<mapsto> df)\<rparr>"

definition session_sql :: "session \<Rightarrow> string \<Rightarrow> lplan res option" where
  "session_sql s query = parse_sql query (temp_views s)"

section \<open>Actions\<close>

text \<open>\<^verbatim>\<open>DataFrame.schema\<close>\<close>

definition df_schema :: "lplan \<Rightarrow> schema res" where
  "df_schema df = lschema df"

definition optimized_plan :: "session \<Rightarrow> lplan \<Rightarrow> lplan res" where
  "optimized_plan s df =
     rbind (analyze df) (optimize (default_rules (optimizer (session_config s))) DEFAULT_MAX_ITERATIONS)"

definition physical_plan :: "(pval \<Rightarrow> nat) \<Rightarrow> session \<Rightarrow> lplan \<Rightarrow> pplan res" where
  "physical_plan sz s optimized =
     rbind (spill_threshold_bytes (memory (session_config s))) (\<lambda>threshold.
       plan_physical sz (shuffle_partitions (execution (session_config s))) threshold optimized)"

definition df_stages :: "(pval \<Rightarrow> nat) \<Rightarrow> session \<Rightarrow> lplan \<Rightarrow> stage list res" where
  "df_stages sz s df =
     rbind (optimized_plan s df) (\<lambda>p. rbind (physical_plan sz s p) build_stages)"

text \<open>
  One run of the query, with the scheduler as it is afterwards.  The scheduler is made first, so a bad
  \<^verbatim>\<open>master\<close> raises before anything is analyzed.  \<open>None\<close> is running out of fuel.
\<close>

definition run_query ::
    "'b env \<Rightarrow> nat option \<Rightarrow> nat \<Rightarrow> string \<Rightarrow> session \<Rightarrow> lplan \<Rightarrow> ('b files sched option \<times> dataset res) option" where
  "run_query env rss fuel rdir s df =
     (case rbind (num_workers (engine (session_config s))) (\<lambda>_. df_stages (env_getsizeof env) s df) of
        Inl e \<Rightarrow> Some (None, Inl e)
      | Inr sts \<Rightarrow>
          map_option (\<lambda>(sc, r). (Some sc, r))
            (run_plan (execute_task env rss) (nat (max_task_retries (engine (session_config s)))) fuel rdir
               (env_disk env) sts))"

text \<open>\<^verbatim>\<open>_collect_dataset\<close>: the disk after the run, and the dataset.\<close>

definition collect_dataset ::
    "'b env \<Rightarrow> nat option \<Rightarrow> nat \<Rightarrow> string \<Rightarrow> session \<Rightarrow> lplan \<Rightarrow> ('b files \<times> dataset res) option" where
  "collect_dataset env rss fuel rdir s df =
     map_option (\<lambda>(sc, r). (case sc of None \<Rightarrow> env_disk env | Some sc \<Rightarrow> sc_world sc, r))
       (run_query env rss fuel rdir s df)"

text \<open>\<^verbatim>\<open>last_run_metrics\<close> after an action: the metrics of the run, if it returned, else what it was before.\<close>

definition last_run_metrics ::
    "'b env \<Rightarrow> nat option \<Rightarrow> nat \<Rightarrow> string \<Rightarrow> session \<Rightarrow> lplan \<Rightarrow> stage_metrics list option \<Rightarrow> stage_metrics list option" where
  "last_run_metrics env rss fuel rdir s df before =
     (case run_query env rss fuel rdir s df of
        Some (Some sc, Inr _) \<Rightarrow> Some (sc_metrics sc)
      | _ \<Rightarrow> before)"

definition df_collect ::
    "'b env \<Rightarrow> nat option \<Rightarrow> nat \<Rightarrow> string \<Rightarrow> session \<Rightarrow> lplan \<Rightarrow> ('b files \<times> row list res) option" where
  "df_collect env rss fuel rdir s df =
     map_option (\<lambda>(disk, r). (disk, rbind r (\<lambda>d. gen_list (iter_records d)))) (collect_dataset env rss fuel rdir s df)"

definition df_count ::
    "'b env \<Rightarrow> nat option \<Rightarrow> nat \<Rightarrow> string \<Rightarrow> session \<Rightarrow> lplan \<Rightarrow> ('b files \<times> nat res) option" where
  "df_count env rss fuel rdir s df =
     map_option (\<lambda>(disk, r). (disk, rbind r ds_row_count)) (collect_dataset env rss fuel rdir s df)"

section \<open>\<open>show\<close>\<close>

text \<open>\<^verbatim>\<open>str(v)\<close>, \<^verbatim>\<open>s.ljust(w)\<close>, and the slice \<^verbatim>\<open>rows[:n]\<close>.\<close>

definition py_str :: "pval \<Rightarrow> string" where
  "py_str v = (case v of VStr s \<Rightarrow> s | _ \<Rightarrow> py_repr v)"

definition ljust :: "nat \<Rightarrow> string \<Rightarrow> string" where
  "ljust w s = s @ replicate (w - length s) CHR '' ''"

definition slice_to :: "int \<Rightarrow> 'a list \<Rightarrow> 'a list" where
  "slice_to n xs = take (nat (if n < 0 then int (length xs) + n else n)) xs"

definition cell_text :: "row \<Rightarrow> string \<Rightarrow> string" where
  "cell_text r c = (case map_of r c of Some v \<Rightarrow> py_str v | None \<Rightarrow> [])"

definition column_width :: "row list \<Rightarrow> string \<Rightarrow> nat" where
  "column_width rows c = max (length c) (foldl max 0 (map (\<lambda>r. length (cell_text r c)) rows))"

text \<open>What \<^verbatim>\<open>show(n)\<close> prints for the collected rows and the columns of the schema.\<close>

definition show_lines :: "int \<Rightarrow> row list \<Rightarrow> string list \<Rightarrow> string list" where
  "show_lines n all_rows columns =
     (let rows = slice_to n all_rows; widths = map (column_width rows) columns
      in if rows = [] then [''('' @ join_str '', '' columns @ '')'' @ [CHR 0x0A] @ ''(no rows)'']
         else [join_str '' | '' (map2 ljust widths columns),
               join_str ''-+-'' (map (\<lambda>w. replicate w CHR ''-'') widths)]
              @ map (\<lambda>r. join_str '' | '' (map2 ljust widths (map (cell_text r) columns))) rows)"

definition df_show ::
    "'b env \<Rightarrow> nat option \<Rightarrow> nat \<Rightarrow> string \<Rightarrow> session \<Rightarrow> lplan \<Rightarrow> int \<Rightarrow> ('b files \<times> string list res) option" where
  "df_show env rss fuel rdir s df n =
     map_option (\<lambda>(disk, r). (disk, rbind r (\<lambda>rows. rbind (df_schema df) (\<lambda>sch.
         Inr (show_lines n rows (field_names sch))))))
       (df_collect env rss fuel rdir s df)"

section \<open>\<open>explain\<close>\<close>

text \<open>The printer of \<^verbatim>\<open>logical/plan.py\<close> is generic over \<^verbatim>\<open>node_label\<close> and \<^verbatim>\<open>children\<close>; this is physical plans.\<close>

fun render_physical :: "pplan \<Rightarrow> string \<Rightarrow> string list res" where
  "render_physical p indent =
     rbind (pnode_label p) (\<lambda>l. rbind (rmap (\<lambda>c. render_physical c (indent @ ''  '')) (pchildren p)) (\<lambda>ls.
       Inr ((indent @ l) # concat ls)))"

declare render_physical.simps [simp del]

definition explain_physical :: "pplan \<Rightarrow> string res" where
  "explain_physical p = rbind (render_physical p []) (\<lambda>ls. Inr (join_str [CHR 0x0A] ls))"

definition explain_stage :: "nat \<times> stage \<Rightarrow> string list res" where
  "explain_stage x =
     (case x of (i, st) \<Rightarrow>
        rbind (explain_physical (stage_plan st)) (\<lambda>text.
          Inr ((if i = 0 then [] else [[]])
            @ [''Stage '' @ nat_str (stage_id st) @ '' ('' @ nat_str (stage_partitions st) @ '' partitions):'', text])))"

text \<open>What \<^verbatim>\<open>explain\<close> prints, unless an exception stops it.\<close>

definition explain_rest :: "(pval \<Rightarrow> nat) \<Rightarrow> session \<Rightarrow> lplan \<Rightarrow> string list res" where
  "explain_rest sz s analyzed =
     rbind (optimize (default_rules (optimizer (session_config s))) DEFAULT_MAX_ITERATIONS analyzed) (\<lambda>optimized.
     rbind (physical_plan sz s optimized) (\<lambda>physical.
     rbind (explain_physical physical) (\<lambda>ptext.
     rbind (build_stages physical) (\<lambda>sts.
     rbind (rmap explain_stage (zip [0..<length sts] sts)) (\<lambda>stage_lines.
       Inr ([[], ''== Optimized Logical Plan =='', explain_string optimized,
             [], ''== Physical Plan =='', ptext, [], ''== Stages ==''] @ concat stage_lines))))))"

definition df_explain :: "(pval \<Rightarrow> nat) \<Rightarrow> session \<Rightarrow> lplan \<Rightarrow> bool \<Rightarrow> string list res" where
  "df_explain sz s df optimized =
     (if \<not> optimized then Inr [''== Logical Plan =='', explain_string df]
      else rbind (analyze df) (\<lambda>analyzed. rbind (explain_rest sz s analyzed) (\<lambda>rest.
        Inr ([''== Analyzed Logical Plan =='', explain_string analyzed] @ rest))))"

end
