(* ===== verification/QueryCorrect.thy ===== *)
theory QueryCorrect
  imports PlannerCorrect DataFrameApi OptimizerCorrect ScanPushdown PlanExecution
begin

text \<open>
  Whole queries: what \<^verbatim>\<open>DataFrame.collect\<close> returns, through analysis, optimization, physical
  planning, stages and the scheduler, is the answer to the query.
\<close>

section \<open>What the passes leave as it is\<close>

text \<open>
  The scans of a plan, whether its rows come in order, and the keys of a sort at its root: no rule of
  the optimizer and no scan re-reading changes them.
\<close>

fun scans :: "lplan \<Rightarrow> (dataset \<times> scan_source option) list" where
  "scans (Scan d _ src) = [(d, src)]"
| "scans (Filter c _) = scans c"
| "scans (Project c _) = scans c"
| "scans (Aggregate c _ _) = scans c"
| "scans (Join l r _ _ _) = scans l @ scans r"
| "scans (Sort c _ _) = scans c"

definition root_sort :: "lplan \<Rightarrow> (expr list \<times> bool list) option" where
  "root_sort p = (case p of Sort c es asc \<Rightarrow> Some (es, asc) | _ \<Rightarrow> None)"

definition same_frame :: "lplan \<Rightarrow> lplan \<Rightarrow> bool" where
  "same_frame p q \<longleftrightarrow> scans q = scans p \<and> in_order q = in_order p
     \<and> (root_sort p \<noteq> None \<longrightarrow> root_sort q = root_sort p)"

lemma same_frame_refl [simp]: "same_frame p p"
  by (simp add: same_frame_def)

lemma same_frame_trans: "same_frame p q \<Longrightarrow> same_frame q r \<Longrightarrow> same_frame p r"
  by (auto simp: same_frame_def)

lemma root_sort_simps [simp]:
  "root_sort (Scan d n s) = None" "root_sort (Filter c e) = None" "root_sort (Project c es) = None"
  "root_sort (Aggregate c gs as) = None" "root_sort (Join l r on how b) = None"
  "root_sort (Sort c es asc) = Some (es, asc)"
  by (simp_all add: root_sort_def)

lemma sources_honest_scans: "sources_honest p \<longleftrightarrow> (\<forall>(d, src) \<in> set (scans p). \<forall>s. src = Some s \<longrightarrow> honest s d)"
  by (induction p) (simp_all add: ball_Un)

lemma sorted_as_root: "sorted_as p rows \<longleftrightarrow>
    (case root_sort p of None \<Rightarrow> True | Some (es, asc) \<Rightarrow> sorted (map (row_key (zip es asc)) rows))"
  by (cases p) (simp_all add: sorted_as_def)

text \<open>The rules.\<close>

lemma map_expressions_frame:
  assumes "\<And>e e'. is_column e \<Longrightarrow> fn e = Inr e' \<Longrightarrow> e' = e"
  shows "wf_plan p \<Longrightarrow> map_expressions fn p = Inr q \<Longrightarrow> same_frame p q"
proof (induction p arbitrary: q)
  case (Sort c es asc)
  then obtain c' es' where c': "map_expressions fn c = Inr c'" "rmap fn es = Inr es'" "q = Sort c' es' asc"
    by (auto simp: rbind_Inr_iff mk_sort_Inr_iff)
  have "es' = es"
    using c'(2) Sort.prems(1) assms
    by (auto simp: rmap_Inr_iff list_all2_conv_all_nth list_all_length intro!: nth_equalityI)
  with Sort.IH [OF _ c'(1)] Sort.prems(1) show ?case by (simp add: same_frame_def c'(3))
qed (fastforce simp: rbind_Inr_iff same_frame_def)+

lemma push_filter_frame: "push_filter c e = Inr q \<Longrightarrow> same_frame (Filter c e) q"
  by (auto simp: push_filter_def rbind_Inr_iff same_frame_def split: lplan.splits if_splits)

lemma pushdown_frame: "pushdown p = Inr q \<Longrightarrow> same_frame p q"
proof (induction p arbitrary: q)
  case (Filter c e)
  then obtain c' where c': "pushdown c = Inr c'" "push_filter c' e = Inr q" by (auto simp: rbind_Inr_iff)
  from push_filter_frame [OF c'(2)] Filter.IH [OF c'(1)] show ?case by (simp add: same_frame_def)
qed (fastforce simp: rbind_Inr_iff same_frame_def mk_sort_Inr_iff)+

lemma prune_frame: "prune p needed = Inr q \<Longrightarrow> same_frame p q"
proof (induction p arbitrary: q needed)
  case (Scan d n s)
  then show ?case by (auto simp: prune_scan_def same_frame_def Let_def split: option.splits if_splits)
qed (fastforce simp: rbind_Inr_iff same_frame_def mk_sort_Inr_iff)+

lemma eliminate_frame: "eliminate p = Inr q \<Longrightarrow> same_frame p q"
proof (induction p arbitrary: q)
  case (Project c es)
  then show ?case
    by (fastforce simp: rbind_Inr_iff same_frame_def fuse_projection_def split: if_splits lplan.splits)
qed (fastforce simp: rbind_Inr_iff same_frame_def mk_sort_Inr_iff)+

lemma const_fold_column: "is_column e \<Longrightarrow> const_fold e = Inr e' \<Longrightarrow> e' = e"
  by (cases e) auto

lemma simplify_column: "is_column e \<Longrightarrow> simplify_bool e = e"
  by (cases e) auto

lemma default_rules_frame:
  assumes "rule \<in> set (default_rules config)" "wf_plan p" "rule p = Inr q"
  shows "same_frame p q"
proof -
  consider "rule = constant_folding" | "rule = filter_simplification" | "rule = pushdown"
    | "rule = projection_pruning" | "rule = eliminate"
    using assms(1) by (auto simp: default_rules_def split: if_splits)
  then show ?thesis
  proof cases
    case 1
    show ?thesis
      using map_expressions_frame [of const_fold p q] const_fold_column assms(2,3)
      unfolding 1 constant_folding_def by blast
  next
    case 2
    show ?thesis
      using map_expressions_frame [of "\<lambda>e. Inr (simplify_bool e)" p q] simplify_column assms(2,3)
      unfolding 2 filter_simplification_def by simp
  qed (use assms(3) pushdown_frame prune_frame eliminate_frame in \<open>simp_all add: projection_pruning_def\<close>)
qed

lemma round_frame:
  "\<lbrakk>rfold (\<lambda>q rule. rule q) q rules = Inr q'; preserves p q; same_frame p q; set rules \<subseteq> set (default_rules config)\<rbrakk> \<Longrightarrow>
    same_frame p q'"
proof (induction rules arbitrary: q)
  case (Cons rule rules)
  then obtain r where r: "rule q = Inr r" "rfold (\<lambda>q rule. rule q) r rules = Inr q'"
    by (auto simp: rbind_Inr_iff)
  have rule: "rule \<in> set (default_rules config)" using Cons.prems(4) by simp
  have "wf_plan q" using Cons.prems(2) by (simp add: preserves_def tidy_wf)
  from default_rules_frame [OF rule this r(1)] Cons.prems(3) have "same_frame p r" by (blast intro: same_frame_trans)
  moreover have "preserves p r" by (rule default_rules_then [OF rule Cons.prems(2) r(1)])
  ultimately show ?case using Cons.IH [OF r(2)] Cons.prems(4) by simp
qed simp

lemma optimize_frame:
  assumes "preserves p q" "same_frame p q" "optimize (default_rules config) n q = Inr q'"
  shows "same_frame p q'"
  using assms
proof (induction n arbitrary: q)
  case (Suc n)
  from Suc.prems(3) obtain r where r: "rfold (\<lambda>q rule. rule q) q (default_rules config) = Inr r"
    "(if explain_string r = explain_string q then Inr r else optimize (default_rules config) n r) = Inr q'"
    by (auto simp: rbind_Inr_iff)
  have "preserves p r" by (rule rfold_invariant [where P = "preserves p", OF r(1) Suc.prems(1)]) (rule default_rules_then)
  moreover have "same_frame p r" by (rule round_frame [OF r(1) Suc.prems(1,2) subset_refl])
  ultimately show ?case using r(2) Suc.IH by (auto split: if_splits)
qed simp

text \<open>Re-reading scans replaces their datasets, and nothing above them.\<close>

lemma walk_frame:
  "walk_for_pushdown p C f = Inr q \<Longrightarrow> in_order q = in_order p \<and> root_sort q = root_sort p"
proof (induction p arbitrary: C f q)
  case (Scan d n s)
  then show ?case
    by (auto simp: reread_scan_def rbind_Inr_iff root_sort_def split: if_splits lplan.splits option.splits)
qed (fastforce simp: rbind_Inr_iff mk_sort_Inr_iff)+

section \<open>The rows a query returns\<close>

text \<open>\<open>pipeline s p r\<close>: \<open>r\<close> is the plan that is translated for the query \<open>p\<close>, analyzed, optimized and re-read.\<close>

definition final_plan :: "session \<Rightarrow> lplan \<Rightarrow> lplan res" where
  "final_plan s df = rbind (optimized_plan s df) pushdown_scan_reads"

lemma analyze_returns: "analyze p = Inr q \<Longrightarrow> q = p"
  by (cases p) (auto simp: rbind_Inr_iff)

lemma final_plan_correct:
  assumes "tidy p" "sources_honest p" "final_plan s p = Inr r"
  shows "wf_plan r" "meaning r = meaning p" "in_order r = in_order p" "root_sort p \<noteq> None \<Longrightarrow> root_sort r = root_sort p"
    "out_names r = out_names p"
proof -
  let ?rules = "default_rules (optimizer (session_config s))"
  obtain a o' where a: "analyze p = Inr a" "optimize ?rules DEFAULT_MAX_ITERATIONS a = Inr o'"
    "pushdown_scan_reads o' = Inr r"
    using assms(3) by (auto simp: final_plan_def optimized_plan_def rbind_Inr_iff)
  have "a = p" using analyze_returns a(1) by blast
  note opt = a(2) [unfolded this]
  have pres: "preserves p o'" by (rule optimize_preserves [OF preserves_refl [OF assms(1)] opt])
  have frame: "same_frame p o'" by (rule optimize_frame [OF preserves_refl [OF assms(1)] same_frame_refl opt])
  have "sources_honest o'" using assms(2) frame by (simp add: sources_honest_scans same_frame_def)
  moreover have "wf_plan o'" "scans_conform o'" using pres by (simp_all add: preserves_def tidy_def)
  moreover have walk: "walk_for_pushdown o' None None = Inr r" using a(3) by (simp add: pushdown_scan_reads_def)
  ultimately have "rereads None None o' r" by (intro walk_rereads) (simp_all add: hints_ok_def)
  with pres show "wf_plan r" "meaning r = meaning p" "out_names r = out_names p"
    by (simp_all add: rereads_def same_rows_def hinted_filter_def preserves_def)
  from walk_frame [OF walk] frame show "in_order r = in_order p" "root_sort p \<noteq> None \<Longrightarrow> root_sort r = root_sort p"
    by (simp_all add: same_frame_def)
qed

lemma answers_transfer:
  assumes "answers r rows" "meaning r = meaning p" "in_order r = in_order p"
    and "root_sort p \<noteq> None \<Longrightarrow> root_sort r = root_sort p"
  shows "answers p rows"
  using assms by (auto simp: answers_def sorted_as_root split: option.splits)

lemma df_stages_final:
  "final_plan s p = Inr r \<Longrightarrow> df_stages sz s p =
     rbind (spill_threshold_bytes (memory (session_config s))) (\<lambda>threshold.
       rbind (translate sz (shuffle_partitions (execution (session_config s))) threshold r) build_stages)"
  by (cases "spill_threshold_bytes (memory (session_config s))")
     (auto simp: final_plan_def df_stages_def physical_plan_def plan_physical_def rbind_Inr_iff rbind_assoc)

lemma collect_dataset_answers:
  assumes pickle: "pickle_ok (env_codec env)" and query: "tidy p" "sources_honest p"
    and plan: "final_plan s p = Inr r" "clean (shuffle_partitions (execution (session_config s))) \<kappa> r"
    and stages: "df_stages (env_getsizeof env) s p = Inr sts"
    and config: "1 \<le> shuffle_partitions (execution (session_config s))" "num_workers (engine (session_config s)) = Inr w"
    and fuel: "2 \<le> fuel"
  shows "\<exists>disk d rows. collect_dataset env rss fuel rdir s p = Some (disk, Inr d)
    \<and> gen_list (iter_records d) = Inr rows \<and> answers p rows
    \<and> field_names (ds_schema d) = out_names p \<and> (\<forall>q \<in> set (ds_partitions d). counts_ok q)"
proof -
  let ?n = "shuffle_partitions (execution (session_config s))"
  obtain threshold q where q: "translate (env_getsizeof env) ?n threshold r = Inr q" "build_stages q = Inr sts"
    using stages by (auto simp: df_stages_final [OF plan(1)] rbind_Inr_iff)
  note r = final_plan_correct [OF query plan(1)]
  obtain parts where parts: "outputs env q parts" "answers r (concat parts)"
    using outputs_translate [OF config(1) r(1) plan(2) q(1)] by blast
  obtain k where k: "fuel = Suc (Suc k)" using fuel by (metis Suc_le_D numeral_2_eq_2 Suc_le_mono)
  have direct: "\<forall>pid < plan_partitions q. \<exists>part. direct env q pid = Inr part \<and> part_to_list part = Inr (parts ! pid)"
    using outputs_partition [OF parts(1)] by (fastforce simp: part_to_list_def gen_list_Inr_iff)
  have "unsplit q" "\<forall>w \<in> set (writes q). write_ok env w" using parts(1) by (simp_all add: outputs_def)
  from run_plan_direct [OF pickle this(1) q(2) this(2) direct,
      of rss "nat (max_task_retries (engine (session_config s)))" k rdir "env_disk env"]
  obtain sc d where run: "run_plan (execute_task env rss) (nat (max_task_retries (engine (session_config s)))) fuel rdir
        (env_disk env) sts = Some (sc, Inr d)"
    and d: "ds_schema d = pschema q" "map part_to_list (ds_partitions d) = map (\<lambda>pid. Inr (parts ! pid)) [0..<plan_partitions q]"
      "\<forall>q \<in> set (ds_partitions d). counts_ok q"
    unfolding k by blast
  have "map part_to_list (ds_partitions d) = map Inr parts"
    unfolding d(2) using outputs_length [OF parts(1)] by (intro nth_equalityI) simp_all
  then have "list_all2 (\<lambda>p xs. gen_list (records p) = Inr xs) (ds_partitions d) parts"
    by (auto simp: list_all2_conv_all_nth part_to_list_def dest: map_eq_imp_length_eq)
       (metis length_map nth_map part_to_list_def)
  then have "gen_list (iter_records d) = Inr (concat parts)" by (auto simp: iter_records_parts)
  moreover have "collect_dataset env rss fuel rdir s p = Some (sc_world sc, Inr d)"
    using run stages config(2) by (simp add: collect_dataset_def run_query_def)
  moreover have "answers p (concat parts)" by (rule answers_transfer [OF parts(2) r(2-4)])
  moreover have "field_names (ds_schema d) = out_names p"
    using wf_schema [OF r(1)] translate_schema [OF q(1)] r(5) d(1) by auto
  ultimately show ?thesis using d(3) by blast
qed

text \<open>
  C1: A query on which nothing can raise returns its answer. The conditions, beside a working
  pickle and no fault: the plan is tidy - accepted by the analyzer, on rows that have the columns of
  their schema, computed columns aliased to names that no plan below uses, And, Or and Not in
  conditions only and not inside comparisons, aggregates bare or aliased, join keys equal only if
  identical; its sources keep their read contract; its stages can be planned, with at least one
  shuffle partition and a valid master; and the plan left after optimization and pushdown is clean -
  its scans can be read, its filters, projections, keys and aggregates' arguments have a value on
  every row, the arguments of Sum and Avg are ints or null, those of Min and Max ints or null, or
  strings or null, every mean fits a float, group keys (and join keys, unless broadcast) are equal
  only if identical, so no 1 beside 1.0 or True and no NaN, the values of a sort column are
  comparable, and those of one that is split into ranges are numbers that a float holds exactly,
  none of them null. Then \<^verbatim>\<open>collect()\<close> terminates without an error, and returns exactly the rows that
  the query denotes: as a multiset always, in order when nothing but scans, filters, projections and
  sorts is involved, and sorted when the query is an \<^verbatim>\<open>order_by\<close>; and \<^verbatim>\<open>count()\<close> returns their
  number.
\<close>

theorem query_correct:
  assumes "pickle_ok (env_codec env)" and "tidy p" "sources_honest p"
    and "final_plan s p = Inr r" "clean (shuffle_partitions (execution (session_config s))) \<kappa> r"
    and "df_stages (env_getsizeof env) s p = Inr sts"
    and "1 \<le> shuffle_partitions (execution (session_config s))" "num_workers (engine (session_config s)) = Inr w"
    and "2 \<le> fuel"
  shows "\<exists>disk rows. df_collect env rss fuel rdir s p = Some (disk, Inr rows)
    \<and> df_count env rss fuel rdir s p = Some (disk, Inr (length rows))
    \<and> mset rows = mset (meaning p) \<and> (in_order p \<longrightarrow> rows = meaning p) \<and> sorted_as p rows
    \<and> (\<forall>r \<in> set rows. map fst r = out_names p)"
proof -
  from collect_dataset_answers [OF assms, of rss rdir] obtain disk d rows where
    d: "collect_dataset env rss fuel rdir s p = Some (disk, Inr d)" "gen_list (iter_records d) = Inr rows"
      "answers p rows" "\<forall>q \<in> set (ds_partitions d). counts_ok q" by blast
  have "map fst r = out_names p" if "r \<in> set rows" for r
    using that assms(2) d(3) mset_eq_setD by (auto simp: answers_def intro!: tidy_columns)
  with d row_count_eq [OF d(2,4)] show ?thesis by (simp add: df_collect_def df_count_def answers_def)
qed

section \<open>An example\<close>

definition orders :: lplan where
  "orders = Scan
     \<lparr>ds_schema = [\<lparr>fname = ''c'', data_type = StringType, nullable = False\<rparr>,
                   \<lparr>fname = ''x'', data_type = IntType, nullable = False\<rparr>],
      ds_partitions = [sample_partition [sale ''u'' 1, sale ''v'' 2], sample_partition [sale ''u'' 5]]\<rparr>
     ''t'' None"

definition totals_query :: lplan where
  "totals_query = Sort (Aggregate orders [Column ''c''] [Alias (SumOf (Column ''x'')) ''s'']) [Column ''s''] [False]"

definition sample_config :: config where
  "sample_config =
     \<lparr>engine = \<lparr>master = ''local[2]'', max_task_retries = 3\<rparr>,
      execution = \<lparr>partition_size_mb = 128, shuffle_compression = True, shuffle_partitions = 2\<rparr>,
      memory = \<lparr>execution_limit_mb = 1, spill_threshold = VInt 1\<rparr>,
      optimizer = \<lparr>predicate_pushdown = True, projection_pruning_on = True, broadcast_join_threshold_mb = 50\<rparr>\<rparr>"

definition sample_session :: session where
  "sample_session = mk_session (Some sample_config) ''a''"

lemma totals_facts:
  "tidy totals_query"
  "meaning totals_query = [[(''c'', VStr ''u''), (''s'', VInt 6)], [(''c'', VStr ''v''), (''s'', VInt 2)]]"
  "shuffle_partitions (execution (session_config sample_session)) = 2"
  "num_workers (engine (session_config sample_session)) = Inr 2"
  by code_simp+

lemma totals_planned:
  "map_sum id (\<lambda>r. clean 2 (\<lambda>_. Ints) r \<and>
       \<not> isl (rbind (spill_threshold_bytes (memory (session_config sample_session))) (\<lambda>threshold.
         rbind (translate (env_getsizeof sample_env) 2 threshold r) build_stages)))
     (final_plan sample_session totals_query) = Inr True"
  by code_simp

lemma totals_honest: "sources_honest totals_query"
  by (simp add: totals_query_def orders_def)

lemma totals_ready:
  obtains r sts where "final_plan sample_session totals_query = Inr r"
    "clean (shuffle_partitions (execution (session_config sample_session))) (\<lambda>_. Ints) r"
    "df_stages (env_getsizeof sample_env) sample_session totals_query = Inr sts"
    "1 \<le> shuffle_partitions (execution (session_config sample_session))"
    "pickle_ok (env_codec sample_env)"
proof -
  obtain r where r: "final_plan sample_session totals_query = Inr r" "clean 2 (\<lambda>_. Ints) r"
    and stages: "\<not> isl (rbind (spill_threshold_bytes (memory (session_config sample_session))) (\<lambda>threshold.
         rbind (translate (env_getsizeof sample_env) 2 threshold r) build_stages))"
    using totals_planned by (cases "final_plan sample_session totals_query") auto
  have "\<not> isl (df_stages (env_getsizeof sample_env) sample_session totals_query)"
    using stages by (simp only: df_stages_final [OF r(1)] totals_facts(3) not_False_eq_True)
  then obtain sts where sts: "df_stages (env_getsizeof sample_env) sample_session totals_query = Inr sts"
    by (cases "df_stages (env_getsizeof sample_env) sample_session totals_query") auto
  have pickle: "pickle_ok (env_codec sample_env)" by (simp add: sample_env_def sample_codec_ok)
  have clean: "clean (shuffle_partitions (execution (session_config sample_session))) (\<lambda>_. Ints) r"
    "1 \<le> shuffle_partitions (execution (session_config sample_session))"
    using r(2) by (simp_all add: totals_facts(3))
  from r(1) clean(1) sts clean(2) pickle show thesis by (rule that)
qed

theorem query_correct_witness:
  "\<exists>disk rows. df_collect sample_env None 100 ''/tmp/s'' sample_session totals_query = Some (disk, Inr rows)
     \<and> df_count sample_env None 100 ''/tmp/s'' sample_session totals_query = Some (disk, Inr 2)
     \<and> mset rows = {#[(''c'', VStr ''u''), (''s'', VInt 6)], [(''c'', VStr ''v''), (''s'', VInt 2)]#}
     \<and> sorted_as totals_query rows"
proof -
  obtain r sts where q: "final_plan sample_session totals_query = Inr r"
    "clean (shuffle_partitions (execution (session_config sample_session))) (\<lambda>_. Ints) r"
    "df_stages (env_getsizeof sample_env) sample_session totals_query = Inr sts"
    "1 \<le> shuffle_partitions (execution (session_config sample_session))"
    "pickle_ok (env_codec sample_env)" by (rule totals_ready)
  from query_correct [OF q(5) totals_facts(1) totals_honest q(1-4) totals_facts(4), of 100 None "''/tmp/s''"]
  obtain disk rows where rows: "df_collect sample_env None 100 ''/tmp/s'' sample_session totals_query = Some (disk, Inr rows)"
    "df_count sample_env None 100 ''/tmp/s'' sample_session totals_query = Some (disk, Inr (length rows))"
    "mset rows = mset (meaning totals_query)" "sorted_as totals_query rows"
    by auto
  have "length rows = 2" using mset_eq_length [OF rows(3)] by (simp add: totals_facts(2))
  with rows show ?thesis by (simp add: totals_facts(2))
qed

end
