(* ===== verification/RangeBoundaries.thy ===== *)
theory RangeBoundaries
  imports FloatOrder SortMeaning Partitioner
begin

text \<open>
  The boundaries that the planner computes for a range exchange come out in ascending order, although
  they are computed in floating point: every operation rounds, and rounding is monotone.
\<close>

section \<open>Small integers are exact\<close>

lemma flog2_less: "0 < q \<Longrightarrow> q < two_pow (k + 1) \<Longrightarrow> flog2 q \<le> k"
proof (rule ccontr)
  assume q: "0 < q" "q < two_pow (k + 1)" "\<not> flog2 q \<le> k"
  then have "two_pow (k + 1) \<le> two_pow (flog2 q)" by (intro two_pow_mono) simp
  with flog2_bounds [OF q(1)] q(2) show False by linarith
qed

lemma two_pow_minus: "q / two_pow (- int j) = q * 2 ^ j"
  by (simp add: two_pow_def)

lemma rounded_int:
  assumes "0 \<le> k" "k < 2 ^ 53"
  shows "rounded (of_int k) = of_int k"
proof (cases "k = 0")
  case False
  then have pos: "(0 :: rat) < of_int k" using assms(1) by simp
  have "(of_int k :: rat) < of_int (2 ^ 53)" using assms(2) by (simp only: of_int_less_iff)
  then have "flog2 (of_int k) \<le> 52" using pos by (intro flog2_less) (simp_all add: two_pow_def)
  then obtain j where j: "last_exp (of_int k) = - int j"
    by (metis last_exp_def diff_le_0_iff_le max.bounded_iff neg_le_0_iff_le nonneg_int_cases minus_minus zero_le_numeral neg_0_le_iff_le)
  have "of_int k / two_pow (last_exp (of_int k)) = (of_int (k * 2 ^ j) :: rat)"
    unfolding j two_pow_minus by simp
  then have "rounded (of_int k) = of_int (k * 2 ^ j) * two_pow (- int j)"
    using False by (simp only: rounded_def j round_half_even_of_int) simp
  also have "\<dots> = of_int k" by (simp add: two_pow_def)
  finally show ?thesis .
qed (simp add: rounded_def)

lemma round_mag_int:
  assumes "0 \<le> k" "k < 2 ^ 53"
  shows "round_mag (of_int k) = Some (of_int k)"
proof -
  have "(of_int k :: rat) < of_int (2 ^ 53)" using assms(2) by (simp only: of_int_less_iff)
  also have "\<dots> \<le> two_pow 1024" by (simp add: two_pow_def)
  finally show ?thesis by (simp add: round_mag_rounded rounded_int [OF assms])
qed

lemma mk_float_numeral:
  "numeral n < (2 ^ 53 :: int) \<Longrightarrow> mk_float neg (numeral n) = FFin (if neg then - numeral n else numeral n)"
  "mk_float neg 1 = FFin (if neg then - 1 else 1)"
  using round_mag_int [of "numeral n"] round_mag_int [of 1] by (simp_all add: mk_float_def)

section \<open>Rounding with a sign\<close>

text \<open>The exact value of the double nearest to a rational, infinite where it overflows.\<close>

definition rnd :: "rat \<Rightarrow> xnum" where
  "rnd q = (if q \<noteq> 0 \<and> two_pow 1024 \<le> rounded \<bar>q\<bar> then (if q < 0 then NegInf else PosInf)
            else Num (if q < 0 then - rounded \<bar>q\<bar> else rounded \<bar>q\<bar>))"

lemma mk_float_xnum:
  "0 \<le> q \<Longrightarrow> float_xnum (mk_float neg q) = Some (if neg then (if q = 0 then Num 0 else rnd (- q)) else rnd q)"
  by (auto simp: mk_float_def round_mag_rounded rnd_def rounded_def)

lemma rat_to_float_xnum: "float_xnum (rat_to_float q) = Some (rnd q)"
  unfolding rat_to_float_def by (subst mk_float_xnum) (auto simp: rnd_def rounded_def)

lemma rnd_zero [simp]: "rnd 0 = Num 0"
  by (simp add: rnd_def rounded_def)

lemma rnd_mono:
  assumes "p \<le> q"
  shows "rnd p \<le> rnd q"
proof -
  have up: "rounded \<bar>p\<bar> \<le> rounded \<bar>q\<bar>" if "0 \<le> p" using assms that by (intro rounded_mono) auto
  have down: "rounded \<bar>q\<bar> \<le> rounded \<bar>p\<bar>" if "q \<le> 0" using assms that by (intro rounded_mono) auto
  have nn: "0 \<le> rounded \<bar>p\<bar>" "0 \<le> rounded \<bar>q\<bar>" by (simp_all add: rounded_nonneg)
  consider "0 \<le> p" | "p < 0" "0 \<le> q" | "q < 0" by linarith
  then show ?thesis
  proof cases
    case 1
    with up assms show ?thesis by (auto simp: rnd_def)
  next
    case 2
    with nn show ?thesis by (auto simp: rnd_def)
  next
    case 3
    with down assms show ?thesis by (auto simp: rnd_def)
  qed
qed

section \<open>Monotone float arithmetic\<close>

definition fin :: "pyfloat \<Rightarrow> bool" where
  "fin f \<longleftrightarrow> float_xnum f = Some (Num (fval f))"

definition nonneg :: "pyfloat \<Rightarrow> bool" where
  "nonneg f \<longleftrightarrow> f = FInf False \<or> fin f \<and> 0 \<le> fval f"

definition fle :: "pyfloat \<Rightarrow> pyfloat \<Rightarrow> bool" where
  "fle f g \<longleftrightarrow> (\<exists>x y. float_xnum f = Some x \<and> float_xnum g = Some y \<and> x \<le> y)"

lemma fin_cases: "fin f \<longleftrightarrow> f = FNegZero \<or> (\<exists>q. f = FFin q)"
  by (cases f) (auto simp: fin_def)

lemma nonneg_cases: "nonneg f \<longleftrightarrow> f = FInf False \<or> f = FNegZero \<or> (\<exists>q \<ge> 0. f = FFin q)"
  by (cases f) (auto simp: nonneg_def fin_def)

lemma xnum_nonneg: "float_xnum f = Some (rnd q) \<Longrightarrow> 0 \<le> q \<Longrightarrow> nonneg f"
proof -
  assume f: "float_xnum f = Some (rnd q)" and "0 \<le> q"
  then have "Num 0 \<le> rnd q" using rnd_mono [of 0 q] by simp
  then obtain x where "float_xnum f = Some x" "Num 0 \<le> x" using f by blast
  then show "nonneg f" by (cases f) (auto simp: nonneg_def fin_def split: if_splits)
qed

lemma fadd_fin: "fin f \<Longrightarrow> fin g \<Longrightarrow> float_xnum (fadd f g) = Some (rnd (fval f + fval g))"
  by (auto simp: fin_cases rat_to_float_xnum)

lemma fadd_mono:
  assumes "fin l" "nonneg d" "nonneg e" "fle d e"
  shows "fle (fadd l d) (fadd l e)"
proof -
  have inf: "float_xnum (fadd l (FInf False)) = Some PosInf" using assms(1) by (auto simp: fin_cases)
  consider "e = FInf False" | "fin d" "fin e" "fval d \<le> fval e"
    using assms(2-4) by (auto simp: nonneg_def fle_def fin_def)
  then show ?thesis
  proof cases
    case 1
    obtain x where "float_xnum (fadd l d) = Some x"
      using inf assms(1,2) fadd_fin by (auto simp: nonneg_def)
    moreover have "x \<le> PosInf" by (cases x) auto
    ultimately show ?thesis using inf unfolding fle_def 1 by blast
  next
    case 2
    then show ?thesis using fadd_fin [OF assms(1)] by (auto simp: fle_def intro: rnd_mono)
  qed
qed

lemma fmul_pos:
  assumes "nonneg f" "0 < r"
  shows "nonneg (fmul f (FFin r))"
    and "float_xnum (fmul f (FFin r)) = Some (if f = FInf False then PosInf else rnd (fval f * r))"
proof -
  show x: "float_xnum (fmul f (FFin r)) = Some (if f = FInf False then PosInf else rnd (fval f * r))"
    using assms by (auto simp: nonneg_cases mk_float_xnum)
  show "nonneg (fmul f (FFin r))"
  proof (cases "f = FInf False")
    case True
    then show ?thesis using assms(2) by (simp add: nonneg_def)
  next
    case False
    have "0 \<le> fval f * r" using assms by (auto simp: nonneg_cases)
    with x False show ?thesis by (intro xnum_nonneg) auto
  qed
qed

lemma fmul_mono:
  assumes "nonneg f" "0 < r" "r \<le> r'"
  shows "fle (fmul f (FFin r)) (fmul f (FFin r'))"
proof -
  have "0 \<le> fval f" using assms(1) by (auto simp: nonneg_cases)
  then have "rnd (fval f * r) \<le> rnd (fval f * r')" using assms(3) by (simp add: rnd_mono mult_left_mono)
  then show ?thesis using fmul_pos(2) [OF assms(1)] assms by (auto simp: fle_def)
qed

section \<open>Even boundaries\<close>

text \<open>A finite double, and the number that an operand of arithmetic stands for.\<close>

definition exact_float :: "pyfloat \<Rightarrow> bool" where
  "exact_float f \<longleftrightarrow> fin f \<and> rnd (fval f) = Num (fval f)"

fun num_val :: "pnum \<Rightarrow> rat" where
  "num_val (NInt i) = of_int i"
| "num_val (NFlt f) = fval f"

fun exact_pnum :: "pnum \<Rightarrow> bool" where
  "exact_pnum (NInt _) = True"
| "exact_pnum (NFlt f) = exact_float f"

lemma to_float_exact:
  assumes "exact_pnum a" "to_float a = Inr f"
  shows "fin f \<and> Num (fval f) = rnd (num_val a)"
proof (cases a)
  case (NInt i)
  show ?thesis
    using assms(2) rat_to_float_xnum [of "of_int i"]
    by (cases "rat_to_float (of_int i)") (auto simp: NInt fin_def)
qed (use assms in \<open>auto simp: exact_float_def\<close>)

lemma fneg_fin: "fin f \<Longrightarrow> fin (fneg f) \<and> fval (fneg f) = - fval f"
  by (cases f) (auto simp: fin_def split: if_splits)

lemma to_float_count:
  assumes "0 < i" "to_float (NInt (int i)) = Inr f"
  obtains r where "f = FFin r" "1 \<le> r" "Num r = rnd (of_nat i)"
proof -
  have f: "fin f" "Num (fval f) = rnd (of_nat i)" using to_float_exact [OF _ assms(2)] by auto
  have "rnd 1 \<le> rnd (of_nat i)" using assms(1) by (intro rnd_mono) simp
  moreover have "rnd 1 = Num 1" using rounded_int [of 1] by (simp add: rnd_def two_pow_def)
  ultimately have "Num 1 \<le> Num (fval f)" using f(2) by simp
  then have "1 \<le> fval f" by simp
  with f that show thesis by (auto simp: fin_cases)
qed

lemma width_nonneg:
  assumes "exact_pnum a" "exact_pnum b" "num_val a \<le> num_val b" "arith (-) fsub b a = Inr v"
  shows "(\<exists>i \<ge> 0. v = VInt i) \<or> (\<exists>w. v = VFloat w \<and> nonneg w)"
proof -
  have float: "nonneg (fsub g f)" if "to_float a = Inr f" "to_float b = Inr g" for f g
  proof -
    have f: "fin f" "Num (fval f) = rnd (num_val a)" using to_float_exact [OF assms(1) that(1)] by auto
    have g: "fin g" "Num (fval g) = rnd (num_val b)" using to_float_exact [OF assms(2) that(2)] by auto
    have "Num (fval f) \<le> Num (fval g)" unfolding f(2) g(2) by (rule rnd_mono [OF assms(3)])
    then have "0 \<le> fval g + fval (fneg f)" using fneg_fin [OF f(1)] by simp
    moreover have "fin (fneg f)" using fneg_fin [OF f(1)] by simp
    ultimately show ?thesis unfolding fsub_def using fadd_fin [OF g(1)] xnum_nonneg by metis
  qed
  show ?thesis using assms(3,4) float
    by (cases a; cases b) (auto simp: arith_def res_simps simp del: to_float.simps)
qed

lemma step_nonneg:
  assumes "0 < n" "(\<exists>i \<ge> 0. v = VInt i) \<or> (\<exists>w. v = VFloat w \<and> nonneg w)"
    and "py_truediv v (VInt (int n)) = Inr s"
  shows "\<exists>f. s = VFloat f \<and> nonneg f"
  using assms(2)
proof (elim disjE exE conjE)
  fix i assume i: "0 \<le> i" "v = VInt i"
  let ?q = "of_int i / of_int (int n) :: rat"
  have "float_xnum (mk_float False \<bar>?q\<bar>) = Some (rnd ?q)"
    using i(1) assms(1) by (simp add: mk_float_xnum)
  then have "nonneg (mk_float False \<bar>?q\<bar>)" using i(1) assms(1) by (intro xnum_nonneg) auto
  then show ?thesis using i assms(1,3)
    by (cases "mk_float False \<bar>?q\<bar>") (auto simp: py_truediv_def int_truediv_def)
next
  fix w assume w: "v = VFloat w" "nonneg w"
  then obtain g where g: "to_float (NInt (int n)) = Inr g" "s = VFloat (fdiv w g)"
    using assms(3)
    by (cases "to_float (NInt (int n))") (auto simp: py_truediv_def simp del: to_float.simps(2) split: if_splits)
  obtain r where r: "g = FFin r" "1 \<le> r" using to_float_count [OF assms(1) g(1)] by metis
  have "nonneg (fdiv w (FFin r))"
  proof (cases w)
    case (FFin q)
    then have q: "0 \<le> q" using w(2) by (simp add: nonneg_cases)
    have "nonneg (mk_float False (q / r))"
      using q r(2) by (intro xnum_nonneg [of _ "q / r"]) (simp_all add: mk_float_xnum)
    then show ?thesis using q r(2) by (simp add: FFin)
  next
    case FNegZero
    have "nonneg (mk_float True 0)" by (simp add: mk_float_def round_mag_def nonneg_cases)
    then show ?thesis using r(2) by (simp add: FNegZero)
  qed (use w(2) r(2) in \<open>auto simp: nonneg_cases\<close>)
  then show ?thesis by (simp add: g r)
qed

lemma even_boundary:
  assumes "exact_pnum a" "as_num lo = Some a" "nonneg s" "0 < i"
    and "rbind (py_mul (VFloat s) (VInt (int i))) (py_add lo) = Inr b"
  obtains l r where "to_float a = Inr l" "fin l" "0 < r" "Num r = rnd (of_nat i)"
    "b = VFloat (fadd l (fmul s (FFin r)))"
proof -
  obtain g where g: "to_float (NInt (int i)) = Inr g" "py_add lo (VFloat (fmul s g)) = Inr b"
    using assms(5) by (auto simp: py_mul_def arith_def res_simps simp del: to_float.simps(2))
  obtain r where r: "g = FFin r" "1 \<le> r" "Num r = rnd (of_nat i)" by (rule to_float_count [OF assms(4) g(1)])
  obtain l where "to_float a = Inr l" "b = VFloat (fadd l (fmul s g))"
    using g(2) assms(2) by (cases a) (auto simp: py_add_def arith_def res_simps simp del: to_float.simps(2))
  with to_float_exact [OF assms(1)] r that [of l r] show thesis by auto
qed

lemma even_boundary_mono:
  assumes "exact_pnum a" "as_num lo = Some a" "nonneg s" "0 < i" "i \<le> j"
    and "rbind (py_mul (VFloat s) (VInt (int i))) (py_add lo) = Inr b"
    and "rbind (py_mul (VFloat s) (VInt (int j))) (py_add lo) = Inr c"
  shows "is_num_key b \<and> is_num_key c \<and> okey_of b \<le> okey_of c"
proof -
  obtain l r where b: "to_float a = Inr l" "fin l" "0 < r" "Num r = rnd (of_nat i)"
      "b = VFloat (fadd l (fmul s (FFin r)))"
    by (rule even_boundary [OF assms(1-4,6)])
  obtain l' r' where c: "to_float a = Inr l'" "0 < r'" "Num r' = rnd (of_nat j)"
      "c = VFloat (fadd l' (fmul s (FFin r')))"
    using assms(4,5) by (auto intro: even_boundary [OF assms(1-3) _ assms(7)])
  have "Num r \<le> Num r'" unfolding b(4) c(3) using assms(5) by (intro rnd_mono) simp
  then have "fle (fmul s (FFin r)) (fmul s (FFin r'))" using assms(3) b(3) by (intro fmul_mono) auto
  then have "fle (fadd l (fmul s (FFin r))) (fadd l (fmul s (FFin r')))"
    using b(2,3) c(2) assms(3) by (intro fadd_mono fmul_pos(1))
  then show ?thesis using b(1,5) c(1,4) by (auto simp: fle_def okey_of_def)
qed

lemma even_boundaries_sorted:
  assumes "as_num lo = Some a" "exact_pnum a" "as_num hi = Some b" "exact_pnum b"
    and "num_val a \<le> num_val b" "0 < n" "even_boundaries lo hi n = Inr bs"
  shows "length bs = n - 1 \<and> list_all is_num_key bs \<and> sorted (map okey_of bs)"
proof -
  obtain v s where v: "arith (-) fsub b a = Inr v" "py_truediv v (VInt (int n)) = Inr s"
    and bs: "rmap (\<lambda>i. rbind (py_mul s (VInt (int i))) (py_add lo)) [1..<n] = Inr bs"
    using assms(1,3,7) by (auto simp: even_boundaries_def py_sub_def rbind_Inr_iff)
  obtain f where s: "s = VFloat f" "nonneg f"
    using step_nonneg [OF assms(6) width_nonneg [OF assms(2,4,5) v(1)] v(2)] by blast
  have len: "length bs = n - 1" using rmap_length [OF bs] by simp
  have nth: "rbind (py_mul (VFloat f) (VInt (int (1 + i)))) (py_add lo) = Inr (bs ! i)" if "i < n - 1" for i
    using bs that list_all2_nthD [OF bs [unfolded rmap_Inr_iff], of i] by (simp add: s(1))
  have mono: "is_num_key (bs ! i) \<and> okey_of (bs ! i) \<le> okey_of (bs ! j)" if "i \<le> j" "j < n - 1" for i j
    using that even_boundary_mono [OF assms(2,1) s(2) _ _ nth nth, of i j] by auto
  show ?thesis using len mono by (auto simp: list_all_length sorted_iff_nth_mono)
qed

section \<open>The boundaries of a range exchange\<close>

text \<open>A finite number: an int, or a float that a double can be.\<close>

fun finite_num :: "pval \<Rightarrow> bool" where
  "finite_num (VFloat (FInf _)) = False"
| "finite_num v = exact_num v"

lemma signed_value:
  assumes "finite_num v" "py_mul (VInt (if up then 1 else - 1)) v = Inr w"
  shows "\<exists>a. as_num w = Some a \<and> exact_pnum a \<and> is_num_key w \<and> okey_of w = KNum (Num (num_val a))"
proof -
  have one: "rat_to_float (of_int (if up then 1 else - 1)) = FFin (if up then 1 else - 1)"
    using float_minus_one mk_float_numeral(2) [of False] by (simp add: rat_to_float_def)
  consider b where "v = VBool b" | i where "v = VInt i" | "v = VFloat FNegZero"
    | q where "v = VFloat (FFin q)" "round_mag \<bar>q\<bar> = Some \<bar>q\<bar>"
    using assms(1) by (cases v rule: finite_num.cases; auto elim: exact_num.elims)
  then show ?thesis
  proof cases
    case 3
    then show ?thesis using assms(2) one
      by (auto simp: py_mul_def arith_def okey_of_def exact_float_def fin_def mk_float_def round_mag_def)
  next
    case 4
    then have "rnd q = Num q" "rnd (- q) = Num (- q)" by (auto simp: rnd_def round_mag_rounded split: if_splits)
    with 4 assms(2) one show ?thesis
      by (cases up; cases "q = 0"; cases "q < 0")
        (auto simp: py_mul_def arith_def okey_of_def exact_float_def fin_def mk_float_def)
  qed (use assms(2) in \<open>auto simp: py_mul_def arith_def okey_of_def\<close>)
qed

text \<open>
  C18: The boundaries that the planner computes from a finite minimum and maximum of the sort key
  are accepted by the range partitioner and come out in ascending order, ascending or descending sort
  alike, although the width, the step, each multiple of the step and each sum are rounded to a
  double and may overflow to infinity.
\<close>

theorem boundaries_sorted:
  assumes "finite_num lo" "finite_num hi" "0 < n" "signed_boundaries lo hi ascending n = Inr bs"
  shows "mk_range_partitioner n bs = Inr (RangePartitioner n bs)
    \<and> list_all is_num_key bs \<and> sorted (map okey_of bs)"
proof -
  have "length bs = n - 1 \<and> list_all is_num_key bs \<and> sorted (map okey_of bs)"
  proof -
    let ?sign = "VInt (if ascending then 1 else - 1)"
    obtain u v x y where uv: "py_mul ?sign lo = Inr u" "py_mul ?sign hi = Inr v" "sorted_pair u v = Inr (x, y)"
      and bs: "(if py_eq x y then Inr (replicate (n - 1) y) else even_boundaries x y n) = Inr bs"
      using assms(4) by (auto simp: signed_boundaries_def rbind_Inr_iff Let_def)
    note keys = signed_value [OF assms(1) uv(1)] signed_value [OF assms(2) uv(2)]
    then have "is_num_key u" "is_num_key v" by auto
    then have lt: "py_lt v u = Inr (okey_of v < okey_of u)" by (simp add: py_cmp_num_keys)
    then have xy: "x = u \<and> y = v \<or> x = v \<and> y = u" "okey_of x \<le> okey_of y"
      using uv(3) by (auto simp: sorted_pair_def split: if_splits)
    then obtain a b where ab: "as_num x = Some a" "exact_pnum a" "as_num y = Some b" "exact_pnum b"
        "num_val a \<le> num_val b" "is_num_key y"
      using keys by auto
    show ?thesis
    proof (cases "py_eq x y")
      case True
      then show ?thesis using bs ab(6) by (auto simp: list_all_length sorted_iff_nth_mono)
    next
      case False
      then show ?thesis using bs even_boundaries_sorted [OF ab(1-5) assms(3)] by simp
    qed
  qed
  with assms(3) show ?thesis by (simp add: mk_range_partitioner_def)
qed

text \<open>A descending sort into three ranges of keys between 3 and 12.\<close>

theorem boundaries_sorted_witness:
  "\<exists>b c. signed_boundaries (VInt 3) (VInt 12) False 3 = Inr [b, c] \<and> okey_of b \<le> okey_of c"
proof -
  have "signed_boundaries (VInt 3) (VInt 12) False 3 = Inr [VFloat (FFin (- 9)), VFloat (FFin (- 6))]"
    by (simp add: signed_boundaries_def sorted_pair_def even_boundaries_def py_mul_def py_sub_def
        py_add_def py_truediv_def int_truediv_def arith_def rat_to_float_def mk_float_numeral upt_rec
        num_cmp_def num_eq_def)
  then show ?thesis using boundaries_sorted [of "VInt 3" "VInt 12" 3 False] by simp
qed

end
