(* ===== verification/PlanTranslation.thy ===== *)
theory PlanTranslation
  imports PlannerCorrect RangeBoundaries
begin

text \<open>
  The planner as a refinement: the physical plan that \<^verbatim>\<open>translate\<close> makes of a logical plan computes
  the rows that the logical plan denotes, and an example with a range exchange.
\<close>

text \<open>
  C4: The planner is correct. Let the logical plan be well-formed, with at least one shuffle
  partition, and clean: its scans can be read; its filters, projections, keys and aggregates'
  arguments have a value on every row; the arguments of Sum and Avg are ints or null, those of Min
  and Max ints or null, or strings or null, and every mean fits a float; group keys (and join keys,
  unless broadcast) are equal only if identical, so no 1 beside 1.0 or True and no NaN; the values of
  a sort column are comparable, and those of one that is split into ranges are numbers that a float
  holds exactly, none of them null. Then the partitions of the plan it translates to hold, together,
  the rows that the logical plan denotes, whatever exchanges, partial aggregates, broadcasts and
  range boundaries it chose; in the same order where the plan keeps it, and sorted, partition after
  partition, for a sort; with the logical plan's schema.
\<close>

theorem translate_correct:
  assumes "1 \<le> n" "wf_plan p" "clean n \<kappa> p" "translate sz n threshold p = Inr q"
  shows "\<exists>parts. map (\<lambda>j. rbind (direct env q j) part_to_list) [0..<plan_partitions q] = map Inr parts
    \<and> mset (concat parts) = mset (meaning p)
    \<and> (in_order p \<longrightarrow> concat parts = meaning p) \<and> sorted_as p (concat parts)
    \<and> lschema p = Inr (pschema q)"
proof -
  obtain parts where parts: "outputs env q parts" "answers p (concat parts)"
    using outputs_translate [OF assms] by blast
  have "rbind (direct env q j) part_to_list = Inr (parts ! j)" if "j < plan_partitions q" for j
    using outputs_partition [OF parts(1) that] by (auto simp: part_to_list_def)
  then have "map (\<lambda>j. rbind (direct env q j) part_to_list) [0..<plan_partitions q] = map Inr parts"
    using outputs_length [OF parts(1)] by (intro nth_equalityI) simp_all
  with parts(2) translate_schema [OF assms(4)] show ?thesis by (auto simp: answers_def)
qed

text \<open>A descending sort in two ranges, of a filtered table.\<close>

definition readings :: lplan where
  "readings = Filter
     (Scan \<lparr>ds_schema = [\<lparr>fname = ''x'', data_type = IntType, nullable = False\<rparr>],
            ds_partitions = [sample_partition (map (\<lambda>i. [(''x'', VInt i)]) [3, 8, 1]),
                             sample_partition (map (\<lambda>i. [(''x'', VInt i)]) [5, 9])]\<rparr> ''t'' None)
     (Binary GreaterThan (Column ''x'') (Literal (VInt 1)))"

lemma readings_facts:
  "wf_plan (Sort readings [Column ''x''] [False])"
  "clean 2 (\<lambda>_. Ints) (Sort readings [Column ''x''] [False])"
  "in_order (Sort readings [Column ''x''] [False])"
  "meaning (Sort readings [Column ''x''] [False]) = map (\<lambda>i. [(''x'', VInt i)]) [9, 8, 5, 3]"
  by code_simp+

lemma readings_range:
  "rbind (translate (\<lambda>_. 28) 2 NEVER_SPILL readings) (\<lambda>c. column_range (\<lambda>_. 28) c ''x'') = Inr (VInt 3, VInt 9)"
  "map_sum id is_oracle_executable (translate (\<lambda>_. 28) 2 NEVER_SPILL readings) = Inr True"
  "lschema readings = Inr [\<lparr>fname = ''x'', data_type = IntType, nullable = False\<rparr>]"
  by code_simp+

lemma readings_boundaries: "signed_boundaries (VInt 3) (VInt 9) False 2 = Inr [VFloat (FFin (- 6))]"
  by (simp add: signed_boundaries_def sorted_pair_def even_boundaries_def py_mul_def py_sub_def
      py_add_def py_truediv_def int_truediv_def arith_def rat_to_float_def mk_float_numeral upt_rec
      num_cmp_def num_eq_def)

lemma readings_plan:
  "map_sum id plan_partitions (translate (\<lambda>_. 28) 2 NEVER_SPILL (Sort readings [Column ''x''] [False])) = Inr 2"
proof -
  obtain c where c: "translate (\<lambda>_. 28) 2 NEVER_SPILL readings = Inr c"
      "column_range (\<lambda>_. 28) c ''x'' = Inr (VInt 3, VInt 9)" "is_oracle_executable c"
    using readings_range by (cases "translate (\<lambda>_. 28) 2 NEVER_SPILL readings") auto
  then show ?thesis
    by (simp add: plan_sort_def sort_range_boundaries_def readings_range(3) readings_boundaries
        has_field_def get_field_def field_names_def numeric_type_def)
qed

theorem translate_correct_witness:
  "\<exists>q xs ys. translate (\<lambda>_. 28) 2 NEVER_SPILL (Sort readings [Column ''x''] [False]) = Inr q
     \<and> map (\<lambda>j. rbind (direct sample_env q j) part_to_list) [0, 1] = [Inr xs, Inr ys]
     \<and> xs @ ys = map (\<lambda>i. [(''x'', VInt i)]) [9, 8, 5, 3]"
proof -
  let ?p = "Sort readings [Column ''x''] [False]"
  obtain q where q: "translate (\<lambda>_. 28) 2 NEVER_SPILL ?p = Inr q" "plan_partitions q = 2"
    using readings_plan by (cases "translate (\<lambda>_. 28) 2 NEVER_SPILL ?p") auto
  from translate_correct [OF _ readings_facts(1,2) q(1), of sample_env] readings_facts(3,4)
  obtain parts where parts: "map (\<lambda>j. rbind (direct sample_env q j) part_to_list) [0..<plan_partitions q] = map Inr parts"
    "concat parts = map (\<lambda>i. [(''x'', VInt i)]) [9, 8, 5, 3]" by auto
  have "length parts = 2" using arg_cong [OF parts(1), of length] q(2) by simp
  then obtain xs ys where "parts = [xs, ys]" by (auto simp: length_Suc_conv numeral_2_eq_2)
  with parts q show ?thesis by (auto simp: upt_rec)
qed


end
