(* ===== verification/CsvSource.thy ===== *)
theory CsvSource
  imports PyParse MemorySource
begin

text \<open>
  The CSV data source (\<^verbatim>\<open>storage/csv.py\<close>).  A file is its decoded text; a file position (\<^verbatim>\<open>f.tell()\<close>, an
  opaque number that \<^verbatim>\<open>f.seek\<close> accepts) is an index into it.  The tokenizer of the standard library,
  \<^verbatim>\<open>csv.reader\<close> with its default dialect, is modelled character by character.  A partition reads the
  file when it is iterated; its rows are those of the file as it was when \<^verbatim>\<open>read\<close> was called.
\<close>

section \<open>Lines\<close>

text \<open>
  \<^verbatim>\<open>f.readline()\<close> of a file opened with \<^verbatim>\<open>newline=""\<close>: a line ends after a line feed, a carriage return,
  or both, and keeps its end; an empty line is the end of the file.
\<close>

fun split_line :: "string \<Rightarrow> string \<times> string" where
  "split_line [] = ([], [])"
| "split_line (c # cs) =
     (if c = CHR 0x0A then ([c], cs)
      else if c = CHR 0x0D then
        (case cs of d # ds \<Rightarrow> if d = CHR 0x0A then ([c, d], ds) else ([c], cs) | [] \<Rightarrow> ([c], []))
      else (case split_line cs of (l, rest) \<Rightarrow> (c # l, rest)))"

lemma split_line_append: "fst (split_line s) @ snd (split_line s) = s"
  by (induction s rule: split_line.induct) (auto simp: case_prod_beta split: list.split)

lemma split_line_nonempty: "s \<noteq> [] \<Longrightarrow> fst (split_line s) \<noteq> []"
  by (cases s) (auto simp: case_prod_beta split: list.split)

lemma split_line_shorter: "s \<noteq> [] \<Longrightarrow> length (snd (split_line s)) < length s"
  using arg_cong [OF split_line_append [of s], of length] split_line_nonempty [of s] by (cases "fst (split_line s)") auto

declare split_line.simps(2) [simp del]

text \<open>The line at a position, and the position after it.\<close>

definition readline :: "string \<Rightarrow> nat \<Rightarrow> string \<times> nat" where
  "readline text pos = (case split_line (drop pos text) of (l, _) \<Rightarrow> (l, pos + length l))"

lemma readline_forward: "readline text pos = (l, pos') \<Longrightarrow> l \<noteq> [] \<Longrightarrow> length text - pos' < length text - pos"
  using arg_cong [OF split_line_append [of "drop pos text"], of length]
  by (cases "pos < length text") (auto simp: readline_def case_prod_beta neq_Nil_conv)

text \<open>All the lines, as iterating the file gives them.\<close>

function (sequential) file_lines :: "string \<Rightarrow> string list" where
  "file_lines [] = []"
| "file_lines s = fst (split_line s) # file_lines (snd (split_line s))"
  by pat_completeness auto
termination
proof (relation "measure length")
  fix c :: char and cs :: string
  show "(snd (split_line (c # cs)), c # cs) \<in> measure length"
    using split_line_shorter [of "c # cs"] by simp
qed simp

section \<open>The tokenizer of the standard library\<close>

datatype csv_state = StartRecord | StartField | InField | InQuotedField | QuoteInQuotedField | EatCrNl

record csv_parser =
  cp_state :: csv_state
  cp_field :: string
  cp_fields :: "string list"

definition new_record :: csv_parser where
  "new_record = \<lparr>cp_state = StartRecord, cp_field = [], cp_fields = []\<rparr>"

definition is_newline :: "char \<Rightarrow> bool" where
  "is_newline c = (c = CHR 0x0A \<or> c = CHR 0x0D)"

definition save_field :: "csv_state \<Rightarrow> csv_parser \<Rightarrow> csv_parser" where
  "save_field st p = \<lparr>cp_state = st, cp_field = [], cp_fields = cp_fields p @ [cp_field p]\<rparr>"

definition FIELD_LIMIT :: int where
  "FIELD_LIMIT = 131072"

definition add_char :: "csv_state \<Rightarrow> csv_parser \<Rightarrow> char \<Rightarrow> csv_parser res" where
  "add_char st p c =
     (if FIELD_LIMIT \<le> int (length (cp_field p)) then Inl CsvError
      else Inr (p\<lparr>cp_state := st, cp_field := cp_field p @ [c]\<rparr>))"

definition csv_start_field :: "csv_parser \<Rightarrow> char \<Rightarrow> csv_parser res" where
  "csv_start_field p c =
     (if is_newline c then Inr (save_field EatCrNl p)
      else if c = CHR 0x22 then Inr (p\<lparr>cp_state := InQuotedField\<rparr>)
      else if c = CHR '','' then Inr (save_field StartField p)
      else add_char InField p c)"

fun csv_char :: "csv_parser \<Rightarrow> char \<Rightarrow> csv_parser res" where
  "csv_char p c =
     (case cp_state p of
        StartRecord \<Rightarrow> if is_newline c then Inr (p\<lparr>cp_state := EatCrNl\<rparr>) else csv_start_field p c
      | StartField \<Rightarrow> csv_start_field p c
      | InField \<Rightarrow>
          if is_newline c then Inr (save_field EatCrNl p)
          else if c = CHR '','' then Inr (save_field StartField p)
          else add_char InField p c
      | InQuotedField \<Rightarrow>
          if c = CHR 0x22 then Inr (p\<lparr>cp_state := QuoteInQuotedField\<rparr>) else add_char InQuotedField p c
      | QuoteInQuotedField \<Rightarrow>
          if c = CHR 0x22 then add_char InQuotedField p c
          else if c = CHR '','' then Inr (save_field StartField p)
          else if is_newline c then Inr (save_field EatCrNl p)
          else add_char InField p c
      | EatCrNl \<Rightarrow> if is_newline c then Inr p else Inl CsvError)"

text \<open>What the end of a line does after its characters.\<close>

definition csv_end_line :: "csv_parser \<Rightarrow> csv_parser" where
  "csv_end_line p =
     (case cp_state p of
        StartRecord \<Rightarrow> p
      | InQuotedField \<Rightarrow> p
      | EatCrNl \<Rightarrow> p\<lparr>cp_state := StartRecord\<rparr>
      | _ \<Rightarrow> save_field StartRecord p)"

definition csv_line :: "csv_parser \<Rightarrow> string \<Rightarrow> csv_parser res" where
  "csv_line p line = rbind (rfold csv_char p line) (\<lambda>p'. Inr (csv_end_line p'))"

text \<open>
  \<^verbatim>\<open>csv.reader(lines)\<close>: the rows it yields.  A row goes on over several lines while a quoted field is
  open, and the last one ends with the input.
\<close>

fun csv_rows :: "csv_parser \<Rightarrow> string list \<Rightarrow> string list gen" where
  "csv_rows p [] =
     (if cp_field p \<noteq> [] \<or> cp_state p = InQuotedField then Yield (cp_fields p @ [cp_field p]) Stop else Stop)"
| "csv_rows p (line # lines) =
     (case csv_line p line of
        Inl e \<Rightarrow> Raise e
      | Inr p' \<Rightarrow>
          if cp_state p' = StartRecord then Yield (cp_fields p') (csv_rows new_record lines)
          else csv_rows p' lines)"

text \<open>\<^verbatim>\<open>next(g)\<close> and \<^verbatim>\<open>itertools.islice(g, n)\<close>\<close>

fun gen_next :: "'a gen \<Rightarrow> ('a \<times> 'a gen) res" where
  "gen_next Stop = Inl StopIteration"
| "gen_next (Raise e) = Inl e"
| "gen_next (Yield x g) = Inr (x, g)"

fun gen_take :: "nat \<Rightarrow> 'a gen \<Rightarrow> 'a gen" where
  "gen_take (Suc n) (Yield x g) = Yield x (gen_take n g)"
| "gen_take (Suc n) g = g"
| "gen_take 0 g = Stop"

definition parse_csv_line :: "string \<Rightarrow> string list res" where
  "parse_csv_line line = rbind (gen_next (csv_rows new_record [line])) (\<lambda>x. Inr (fst x))"

section \<open>Values and the schema\<close>

definition try_parse :: "string \<Rightarrow> pval" where
  "try_parse raw =
     (if raw = [] then VNone
      else case py_int raw of
             Inr i \<Rightarrow> VInt i
           | Inl _ \<Rightarrow> (case py_float raw of Inr f \<Rightarrow> VFloat f | Inl _ \<Rightarrow> VStr raw))"

definition SCHEMA_SAMPLE_ROWS :: nat where
  "SCHEMA_SAMPLE_ROWS = 1000"

text \<open>The dictionaries \<^verbatim>\<open>column_types\<close> and \<^verbatim>\<open>saw_null\<close>.\<close>

type_synonym sample_state = "(string \<Rightarrow> dtype option) \<times> (string \<Rightarrow> bool option)"

definition see_cell :: "sample_state \<Rightarrow> string \<times> string \<Rightarrow> sample_state" where
  "see_cell st cell =
     (case (st, cell) of ((column_types, saw_null), (name, raw)) \<Rightarrow>
        let v = try_parse raw in
        if v = VNone then (column_types, saw_null(name \<mapsto> True))
        else let inferred = infer_type v in
          case column_types name of
            None \<Rightarrow> (column_types(name \<mapsto> inferred), saw_null)
          | Some current \<Rightarrow>
              (if current \<noteq> inferred then column_types(name \<mapsto> StringType) else column_types, saw_null))"

definition see_row :: "string list \<Rightarrow> sample_state \<Rightarrow> string list \<Rightarrow> sample_state res" where
  "see_row header st row = rbind (zip_strict header row) (\<lambda>cells. Inr (foldl see_cell st cells))"

definition sampled_field :: "sample_state \<Rightarrow> string \<Rightarrow> field" where
  "sampled_field st name =
     \<lparr>fname = name,
      data_type = (case fst st name of Some t \<Rightarrow> t | None \<Rightarrow> StringType),
      nullable = (case snd st name of Some b \<Rightarrow> b | None \<Rightarrow> True)\<rparr>"

definition infer_schema_from_sample :: "string \<Rightarrow> string list \<Rightarrow> schema res" where
  "infer_schema_from_sample text header =
     rbind (gen_next (csv_rows new_record (file_lines text))) (\<lambda>(_, reader).
       rbind (gen_fold (see_row header) (Map.empty, \<lambda>n. if n \<in> set header then Some False else None)
                (gen_take SCHEMA_SAMPLE_ROWS reader)) (\<lambda>st.
         mk_schema (map (sampled_field st) header)))"

definition coerce_row :: "string list \<Rightarrow> string list option \<Rightarrow> string list \<Rightarrow> row res" where
  "coerce_row header wanted row =
     rbind (zip_strict header row) (\<lambda>cells.
       Inr (dict_of (map (\<lambda>(name, raw). (name, try_parse raw))
              (case wanted of None \<Rightarrow> cells | Some ns \<Rightarrow> filter (\<lambda>(name, _). name \<in> set ns) cells))))"

section \<open>Passes over the file\<close>

definition after_header :: "string \<Rightarrow> nat" where
  "after_header text = snd (readline text 0)"

function count_lines :: "string \<Rightarrow> nat \<Rightarrow> nat \<Rightarrow> nat" where
  "count_lines text pos k =
     (case readline text pos of (line, pos') \<Rightarrow> if line = [] then k else count_lines text pos' (k + 1))"
  by pat_completeness auto
termination by (relation "measure (\<lambda>(text, pos, k). length text - pos)") (auto dest: sym readline_forward)

declare count_lines.simps [simp del]

definition count_rows :: "string \<Rightarrow> nat" where
  "count_rows text = count_lines text (after_header text) 0"

text \<open>
  The loop of \<^verbatim>\<open>_locate_partition_offsets\<close>: the start rows still wanted, in order, the number of the
  row at the position, and the offsets found; rows at or after the end of the file get its position.
\<close>

function locate :: "string \<Rightarrow> nat list \<Rightarrow> nat \<Rightarrow> nat \<Rightarrow> (nat \<Rightarrow> nat option) \<Rightarrow> nat \<Rightarrow> nat option" where
  "locate text [] row_idx pos offsets = offsets"
| "locate text (w # wanted) row_idx pos offsets =
     (case readline text pos of (line, pos') \<Rightarrow>
        if line = [] then foldl (\<lambda>m i. m(i \<mapsto> pos)) offsets (w # wanted)
        else if row_idx = w then locate text wanted (row_idx + 1) pos' (offsets(row_idx \<mapsto> pos))
        else locate text (w # wanted) (row_idx + 1) pos' offsets)"
  by pat_completeness auto
termination
  by (relation "measure (\<lambda>(text, _, _, pos, _). length text - pos)") (auto dest: sym readline_forward)

declare locate.simps [simp del]

definition locate_partition_offsets :: "string \<Rightarrow> nat list \<Rightarrow> nat \<Rightarrow> nat option" where
  "locate_partition_offsets text start_rows =
     locate text (sorted_list_of_set (set start_rows)) 0 (after_header text) Map.empty"

text \<open>\<^verbatim>\<open>_read_csv_range\<close>: \<open>n\<close> rows from a position on.\<close>

fun read_csv_range :: "string \<Rightarrow> string list \<Rightarrow> string list option \<Rightarrow> nat \<Rightarrow> nat \<Rightarrow> row gen" where
  "read_csv_range text header columns 0 pos = Stop"
| "read_csv_range text header columns (Suc n) pos =
     (case readline text pos of (line, pos') \<Rightarrow>
        if line = [] then Stop
        else case rbind (parse_csv_line line) (coerce_row header columns) of
               Inl e \<Rightarrow> Raise e
             | Inr r \<Rightarrow> Yield r (read_csv_range text header columns n pos'))"

section \<open>The source\<close>

record csv_source =
  cs_path :: string
  cs_explicit_schema :: "schema option"
  cs_partitions :: int

type_synonym text_files = "string \<Rightarrow> string option"

definition mk_csv_source :: "text_files \<Rightarrow> string \<Rightarrow> schema option \<Rightarrow> int \<Rightarrow> csv_source res" where
  "mk_csv_source disk path s n =
     (if disk path = None then Inl (FileNotFoundError path)
      else Inr \<lparr>cs_path = path, cs_explicit_schema = s, cs_partitions = n\<rparr>)"

text \<open>The row ranges of the partitions.\<close>

definition csv_ranges :: "nat \<Rightarrow> int \<Rightarrow> (nat \<times> nat \<times> nat) list" where
  "csv_ranges row_count wanted =
     (let n = nat (max 1 (min wanted (if row_count = 0 then 1 else int row_count)));
          chunk_size = (if row_count = 0 then 0 else (row_count + n - 1) div n)
      in chunk_ranges row_count chunk_size n)"

definition csv_partition ::
    "csv_source \<Rightarrow> string \<Rightarrow> schema \<Rightarrow> string list \<Rightarrow> string list option \<Rightarrow> (nat \<Rightarrow> nat option)
     \<Rightarrow> nat \<times> nat \<times> nat \<Rightarrow> partition res" where
  "csv_partition src text s header columns offsets c =
     (case c of (i, start, stop) \<Rightarrow>
        case offsets start of
          None \<Rightarrow> Inl (KeyError (nat_str start))
        | Some offset \<Rightarrow>
            Inr \<lparr>partition_id = i, part_schema = s,
                 records = read_csv_range text header columns (stop - start) offset,
                 metadata = (counted_meta (Some (stop - start)))\<lparr>location := Some (cs_path src)\<rparr>\<rparr>)"

definition csv_read :: "text_files \<Rightarrow> csv_source \<Rightarrow> string list option \<Rightarrow> expr option \<Rightarrow> dataset res" where
  "csv_read disk src columns filt =
     (case disk (cs_path src) of
        None \<Rightarrow> Inl (FileNotFoundError (cs_path src))
      | Some text \<Rightarrow>
          rbind (parse_csv_line (fst (readline text 0))) (\<lambda>header.
          rbind (case cs_explicit_schema src of
                   Some (f # fs) \<Rightarrow> Inr (f # fs) | _ \<Rightarrow> infer_schema_from_sample text header) (\<lambda>full_schema.
          rbind (case columns of Some cs \<Rightarrow> schema_select full_schema cs | None \<Rightarrow> Inr full_schema) (\<lambda>s.
          let ranges = csv_ranges (count_rows text) (cs_partitions src);
              offsets = locate_partition_offsets text (map (\<lambda>(_, start, _). start) ranges)
          in rbind (rmap (csv_partition src text s header columns offsets) ranges) (\<lambda>ps.
               Inr \<lparr>ds_schema = s, ds_partitions = (if ps = [] then [bucket_partition s 0 []] else ps)\<rparr>)))))"

definition read_csv :: "text_files \<Rightarrow> string \<Rightarrow> schema option \<Rightarrow> int \<Rightarrow> dataset res" where
  "read_csv disk path s n = rbind (mk_csv_source disk path s n) (\<lambda>src. csv_read disk src None None)"

end
