(* ===== verification/CsvCorrect.thy ===== *)
theory CsvCorrect
  imports CsvSource
begin

text \<open>
  The CSV source reads every data row exactly once, in order, whatever the number of partitions: what
  its partitions yield by seeking is what one pass over the lines of the file yields.
\<close>

section \<open>Positions and lines\<close>

lemma readline_lines:
  assumes "readline text pos = (l, pos')"
  shows "file_lines (drop pos text) = (if l = [] then [] else l # file_lines (drop pos' text))"
proof (cases "drop pos text")
  case Nil
  then show ?thesis using assms by (simp add: readline_def)
next
  case (Cons c cs)
  have l: "l = fst (split_line (drop pos text))" "pos' = pos + length l"
    using assms by (auto simp: readline_def case_prod_beta)
  have "drop pos' text = drop (length l) (drop pos text)" by (simp add: l(2) add.commute)
  also have "\<dots> = snd (split_line (drop pos text))"
    using split_line_append [of "drop pos text"] by (metis append_eq_conv_conj l(1))
  finally show ?thesis using split_line_nonempty [of "drop pos text"] by (simp add: Cons l(1))
qed

text \<open>The lines of the data rows.\<close>

definition data_lines :: "string \<Rightarrow> string list" where
  "data_lines text = file_lines (drop (after_header text) text)"

lemma data_lines_tl: "data_lines text = tl (file_lines text)"
proof -
  obtain l pos where "readline text 0 = (l, pos)" by force
  from readline_lines [OF this] this show ?thesis
    by (auto simp: data_lines_def after_header_def readline_def case_prod_beta split: if_splits)
qed

lemma count_lines_length: "count_lines text pos k = k + length (file_lines (drop pos text))"
proof (induction "text" pos k rule: count_lines.induct)
  case (1 s pos k)
  obtain l pos' where "readline s pos = (l, pos')" by force
  with 1 [OF this [symmetric]] readline_lines [OF this] show ?case by (subst count_lines.simps) auto
qed

lemma count_rows_length: "count_rows text = length (data_lines text)"
  by (simp add: count_rows_def count_lines_length data_lines_def)

lemma foldl_offsets: "foldl (\<lambda>m i. m(i \<mapsto> p)) m ws w = (if w \<in> set ws then Some p else m w)"
  by (induction ws arbitrary: m) auto

lemma drop_later: "r + 1 \<le> w \<Longrightarrow> drop (w - r) (x # xs) = drop (w - (r + 1)) xs" for r w :: nat
  using Suc_diff_Suc [of r w] by (metis Suc_eq_plus1 Suc_le_lessD drop_Suc_Cons)

lemma locate_offsets:
  "sorted wanted \<Longrightarrow> distinct wanted \<Longrightarrow> \<forall>w \<in> set wanted. row_idx \<le> w \<Longrightarrow>
   (if w \<in> set wanted
    then \<exists>p. locate text wanted row_idx pos offsets w = Some p
      \<and> file_lines (drop p text) = drop (w - row_idx) (file_lines (drop pos text))
    else locate text wanted row_idx pos offsets w = offsets w)"
proof (induction "text" wanted row_idx pos offsets rule: locate.induct)
  case (1 s row_idx pos offsets)
  then show ?case by (simp add: locate.simps)
next
  case (2 s u wanted row_idx pos offsets)
  obtain l pos' where r: "readline s pos = (l, pos')" by force
  note lines = readline_lines [OF r]
  consider "l = []" | "l \<noteq> []" "row_idx = u" | "l \<noteq> []" "row_idx \<noteq> u" by blast
  then show ?case
  proof cases
    case 1
    then show ?thesis using lines r by (auto simp: locate.simps foldl_offsets)
  next
    case c: 2
    have later: "\<forall>v \<in> set wanted. row_idx + 1 \<le> v"
      using 2(3-5) c(2) by (auto simp: Suc_le_eq le_less)
    have IH: "if w \<in> set wanted
        then \<exists>p. locate s wanted (row_idx + 1) pos' (offsets(row_idx \<mapsto> pos)) w = Some p
          \<and> file_lines (drop p s) = drop (w - (row_idx + 1)) (file_lines (drop pos' s))
        else locate s wanted (row_idx + 1) pos' (offsets(row_idx \<mapsto> pos)) w = (offsets(row_idx \<mapsto> pos)) w"
      using 2(1) [OF r [symmetric] c] 2(3,4) later by simp
    have "drop (w - row_idx) (file_lines (drop pos s)) = drop (w - (row_idx + 1)) (file_lines (drop pos' s))"
      if "w \<in> set wanted"
      using lines c(1) later that by (simp only: if_False drop_later)
    moreover have "locate s (u # wanted) row_idx pos offsets = locate s wanted (row_idx + 1) pos' (offsets(row_idx \<mapsto> pos))"
      using c r by (subst locate.simps(2)) simp
    ultimately show ?thesis using IH c(2) 2(4) by auto
  next
    case c: 3
    have later: "\<forall>v \<in> set (u # wanted). row_idx + 1 \<le> v"
      using 2(3-5) c(2) by (fastforce simp: Suc_le_eq)
    have IH: "if w \<in> set (u # wanted)
        then \<exists>p. locate s (u # wanted) (row_idx + 1) pos' offsets w = Some p
          \<and> file_lines (drop p s) = drop (w - (row_idx + 1)) (file_lines (drop pos' s))
        else locate s (u # wanted) (row_idx + 1) pos' offsets w = offsets w"
      using 2(2) [OF r [symmetric] c] 2(3,4) later by simp
    have "drop (w - row_idx) (file_lines (drop pos s)) = drop (w - (row_idx + 1)) (file_lines (drop pos' s))"
      if "w \<in> set (u # wanted)"
      using lines c(1) later that by (simp only: if_False drop_later)
    moreover have "locate s (u # wanted) row_idx pos offsets = locate s (u # wanted) (row_idx + 1) pos' offsets"
      using c r by (subst locate.simps(2)) simp
    ultimately show ?thesis using IH by (cases "w \<in> set (u # wanted)") (simp_all only: if_True if_False simp_thms)
  qed
qed

lemma located:
  assumes "w \<in> set starts"
  obtains p where "locate_partition_offsets text starts w = Some p"
    "file_lines (drop p text) = drop w (data_lines text)"
  using assms locate_offsets [of "sorted_list_of_set (set starts)" 0 w "text" "after_header text" Map.empty]
  by (auto simp: locate_partition_offsets_def data_lines_def)

section \<open>Rows\<close>

text \<open>A data row of the file, and what one pass over the lines yields.\<close>

definition csv_row :: "string list \<Rightarrow> string list option \<Rightarrow> string \<Rightarrow> row res" where
  "csv_row header columns line = rbind (parse_csv_line line) (coerce_row header columns)"

lemma read_range_lines:
  "read_csv_range text header columns n pos
     = gen_map (csv_row header columns) (gen_of (take n (file_lines (drop pos text))))"
proof (induction n arbitrary: pos)
  case (Suc n)
  obtain l pos' where r: "readline text pos = (l, pos')" by force
  show ?case using readline_lines [OF r] Suc.IH [of pos'] r
    by (auto simp: csv_row_def split: sum.split)
qed simp

lemma gen_map_append: "gen_map f (gen_append g h) = gen_append (gen_map f g) (gen_map f h)"
  by (induction g) (auto split: sum.split)

lemma gen_map_concat: "gen_concat (map (\<lambda>xs. gen_map f (gen_of xs)) xss) = gen_map f (gen_of (concat xss))"
  by (induction xss) (simp_all add: gen_map_append flip: gen_append_gen_of)

lemma csv_ranges_cover:
  "concat (map (\<lambda>(i, a, b). take (b - a) (drop a lines)) (csv_ranges (length lines) n)) = lines"
proof -
  define m where "m = nat (max 1 (min n (if length lines = 0 then 1 else int (length lines))))"
  define k where "k = (if length lines = 0 then 0 else (length lines + m - 1) div m)"
  have "length lines \<le> m * k"
  proof -
    have "0 < m" by (simp add: m_def)
    from ceil_div_mult [OF this, of "length lines"] show ?thesis by (simp add: k_def)
  qed
  then have "concat (map (\<lambda>(i, a, b). take (b - a) (drop a lines)) (chunk_ranges (length lines) k m)) = lines"
    by (rule chunk_ranges_cover)
  then show ?thesis by (simp only: csv_ranges_def Let_def m_def k_def)
qed

lemma csv_partitions:
  assumes "rmap (csv_partition src text s header columns offsets) ranges = Inr ps"
    and "offsets = locate_partition_offsets text (map (\<lambda>(_, start, _). start) ranges)"
    and "\<forall>(i, a, b) \<in> set ranges. b \<le> length (data_lines text)"
  shows "list_all2 (\<lambda>(i, a, b) p. partition_id p = i \<and> part_row_count p = Some (b - a)
      \<and> location (metadata p) = Some (cs_path src) \<and> part_schema p = s
      \<and> records p = gen_map (csv_row header columns) (gen_of (take (b - a) (drop a (data_lines text))))) ranges ps"
proof -
  have "list_all2 (\<lambda>c p. c \<in> set ranges \<and> csv_partition src text s header columns offsets c = Inr p) ranges ps"
    using assms(1) by (simp add: rmap_Inr_iff list_all2_conv_all_nth)
  then show ?thesis
  proof (elim list_all2_mono)
    fix c p
    assume c: "c \<in> set ranges \<and> csv_partition src text s header columns offsets c = Inr p"
    obtain i a b where iab: "c = (i, a, b)" by (cases c)
    have "a \<in> set (map (\<lambda>(_, start, _). start) ranges)" using c by (force simp: iab)
    then obtain q where "offsets a = Some q" "file_lines (drop q text) = drop a (data_lines text)"
      by (elim located) (simp add: assms(2))
    with c show "(case c of (i, a, b) \<Rightarrow> \<lambda>p. partition_id p = i \<and> part_row_count p = Some (b - a)
      \<and> location (metadata p) = Some (cs_path src) \<and> part_schema p = s
      \<and> records p = gen_map (csv_row header columns) (gen_of (take (b - a) (drop a (data_lines text))))) p"
      by (auto simp: iab csv_partition_def read_range_lines part_row_count_def counted_meta_def)
  qed
qed

lemma csv_read_parts:
  assumes "disk (cs_path src) = Some text" "csv_read disk src columns f = Inr d"
  obtains header ps where "parse_csv_line (fst (readline text 0)) = Inr header"
    "ds_partitions d = (if ps = [] then [bucket_partition (ds_schema d) 0 []] else ps)"
    "list_all2 (\<lambda>(i, a, b) p. partition_id p = i \<and> part_row_count p = Some (b - a)
      \<and> location (metadata p) = Some (cs_path src) \<and> part_schema p = ds_schema d
      \<and> records p = gen_map (csv_row header columns) (gen_of (take (b - a) (drop a (data_lines text)))))
     (csv_ranges (count_rows text) (cs_partitions src)) ps"
proof -
  let ?ranges = "csv_ranges (count_rows text) (cs_partitions src)"
  have "\<forall>(i, a, b) \<in> set ?ranges. b \<le> length (data_lines text)"
    using chunk_ranges_bounds by (fastforce simp: csv_ranges_def Let_def count_rows_length)
  moreover obtain header s ps where h: "parse_csv_line (fst (readline text 0)) = Inr header"
    and ps: "rmap (csv_partition src text s header columns
          (locate_partition_offsets text (map (\<lambda>(_, start, _). start) ?ranges))) ?ranges = Inr ps"
    and d: "d = \<lparr>ds_schema = s, ds_partitions = (if ps = [] then [bucket_partition s 0 []] else ps)\<rparr>"
    using assms by (auto simp: csv_read_def Let_def rbind_Inr_iff simp del: split_paired_Ex)
  ultimately show thesis using csv_partitions [OF ps refl] by (intro that [OF h]) (simp_all add: d)
qed

lemma csv_iterates:
  assumes "list_all2 (\<lambda>(i, a, b) p. records p = gen_map f (gen_of (take (b - a) (drop a lines))))
      (csv_ranges (length lines) n) ps"
  shows "gen_concat (map records (if ps = [] then [bucket_partition s 0 []] else ps)) = gen_map f (gen_of lines)"
proof -
  let ?rows = "\<lambda>(i, a, b). take (b - a) (drop a lines)"
  have "map records ps = map (\<lambda>xs. gen_map f (gen_of xs)) (map ?rows (csv_ranges (length lines) n))"
    using assms by (induction rule: list_all2_induct) auto
  then have all: "gen_concat (map records ps) = gen_map f (gen_of lines)"
    by (simp only: gen_map_concat csv_ranges_cover)
  then show ?thesis by (cases "ps = []") (auto simp: bucket_partition_def)
qed

lemma recorded_counts:
  assumes "list_all2 (\<lambda>(i, a, b) p. part_row_count p = Some (b - a)) ranges ps"
  shows "rfold (\<lambda>total p. case part_row_count p of Some rc \<Rightarrow> Inr (total + rc) | None \<Rightarrow> g total p) k ps
    = Inr (k + sum_list (map (\<lambda>(i, a, b). b - a) ranges))"
  using assms by (induction arbitrary: k rule: list_all2_induct) (auto simp: add.assoc)

lemma csv_ranges_total: "sum_list (map (\<lambda>(i, a, b). b - a) (csv_ranges (length lines) n)) = length lines"
proof -
  have b: "b \<le> length lines" if "(i, a, b) \<in> set (csv_ranges (length lines) n)" for i a b
    using that chunk_ranges_bounds by (fastforce simp: csv_ranges_def Let_def)
  have "length lines = length (concat (map (\<lambda>(i, a, b). take (b - a) (drop a lines)) (csv_ranges (length lines) n)))"
    by (simp only: csv_ranges_cover)
  also have "\<dots> = sum_list (map (\<lambda>(i, a, b). b - a) (csv_ranges (length lines) n))"
    unfolding length_concat map_map
    by (intro arg_cong [of _ _ sum_list] map_cong refl) (use b in \<open>auto simp: min_def, fastforce\<close>)
  finally show ?thesis by simp
qed

lemma csv_ranges_count: "length (csv_ranges m n) \<le> nat (max 1 n)"
proof -
  have "length (List.map_filter g xs) \<le> length xs" for g :: "nat \<Rightarrow> (nat \<times> nat \<times> nat) option" and xs
    by (simp add: map_filter_def)
  then show ?thesis unfolding csv_ranges_def chunk_ranges_def Let_def
    by (rule order_trans) (auto simp: nat_le_iff)
qed

lemma csv_pass:
  assumes "disk (cs_path src) = Some text" "csv_read disk src columns f = Inr d"
  shows "\<exists>header. parse_csv_line (fst (readline text 0)) = Inr header
    \<and> iter_records d
      = gen_map (\<lambda>line. rbind (parse_csv_line line) (coerce_row header columns)) (gen_of (tl (file_lines text)))
    \<and> ds_row_count d = Inr (length (tl (file_lines text)))
    \<and> length (ds_partitions d) \<le> nat (max 1 (cs_partitions src))"
proof -
  obtain header ps where header: "parse_csv_line (fst (readline text 0)) = Inr header"
    and d: "ds_partitions d = (if ps = [] then [bucket_partition (ds_schema d) 0 []] else ps)"
    and ps: "list_all2 (\<lambda>(i, a, b) p. partition_id p = i \<and> part_row_count p = Some (b - a)
        \<and> location (metadata p) = Some (cs_path src) \<and> part_schema p = ds_schema d
        \<and> records p = gen_map (csv_row header columns) (gen_of (take (b - a) (drop a (data_lines text)))))
      (csv_ranges (length (data_lines text)) (cs_partitions src)) ps"
    by (rule csv_read_parts [OF assms, unfolded count_rows_length])
  have rows: "iter_records d = gen_map (csv_row header columns) (gen_of (data_lines text))"
    unfolding iter_records_def d by (rule csv_iterates [OF list_all2_mono [OF ps]]) auto
  have "list_all2 (\<lambda>(i, a, b) p. part_row_count p = Some (b - a))
      (csv_ranges (length (data_lines text)) (cs_partitions src)) ps"
    by (rule list_all2_mono [OF ps]) auto
  from recorded_counts [OF this] have "ds_row_count d = Inr (length (data_lines text))"
    by (cases "ps = []") (auto simp: ds_row_count_def d csv_ranges_total bucket_partition_def
        part_row_count_def counted_meta_def)
  moreover have "length (ds_partitions d) \<le> nat (max 1 (cs_partitions src))"
    using list_all2_lengthD [OF ps] csv_ranges_count [of "length (data_lines text)" "cs_partitions src"]
    by (auto simp: d)
  ultimately show ?thesis using header rows by (simp add: data_lines_tl csv_row_def [abs_def])
qed

text \<open>
  C12: Reading a CSV file is one pass over its lines. However many partitions there are, iterating the
  dataset yields exactly the rows of the data lines, in order, each parsed once, and stops with
  the error of the first line that is malformed; the recorded counts add up to the number of data
  lines, so that counting the rows reads none of them.
\<close>

theorem csv_read_correct:
  assumes "disk (cs_path src) = Some text" "csv_read disk src columns f = Inr d"
  shows "\<exists>header. parse_csv_line (fst (readline text 0)) = Inr header
    \<and> iter_records d
      = gen_map (\<lambda>line. rbind (parse_csv_line line) (coerce_row header columns)) (gen_of (tl (file_lines text)))
    \<and> ds_row_count d = Inr (length (tl (file_lines text)))
    \<and> length (ds_partitions d) \<le> nat (max 1 (cs_partitions src))"
  using csv_pass [OF assms] .

text \<open>A file with a quoted comma, an empty cell and both kinds of line end, read by columns in two partitions.\<close>

definition cities :: string where
  "cities = ''id,city'' @ [CHR 0x0D, CHR 0x0A] @ ''1,'' @ [CHR 0x22] @ ''a, b'' @ [CHR 0x22, CHR 0x0A]
     @ ''2,'' @ [CHR 0x0A] @ ''3,c''"

definition cities_source :: csv_source where
  "cities_source = \<lparr>cs_path = ''cities.csv'',
     cs_explicit_schema = Some [\<lparr>fname = ''id'', data_type = IntType, nullable = False\<rparr>,
                                \<lparr>fname = ''city'', data_type = StringType, nullable = True\<rparr>],
     cs_partitions = 2\<rparr>"

theorem csv_read_correct_witness:
  "\<exists>d. csv_read [''cities.csv'' \<mapsto> cities] cities_source (Some [''city'']) None = Inr d
     \<and> iter_records d = gen_of [[(''city'', VStr ''a, b'')], [(''city'', VNone)], [(''city'', VStr ''c'')]]
     \<and> ds_row_count d = Inr 3"
proof -
  have "\<not> isl (csv_read [''cities.csv'' \<mapsto> cities] cities_source (Some [''city'']) None)" by code_simp
  then obtain d where d: "csv_read [''cities.csv'' \<mapsto> cities] cities_source (Some [''city'']) None = Inr d"
    by (cases "csv_read [''cities.csv'' \<mapsto> cities] cities_source (Some [''city'']) None") auto
  have header: "parse_csv_line (fst (readline cities 0)) = Inr [''id'', ''city'']"
    and rows: "gen_map (\<lambda>line. rbind (parse_csv_line line) (coerce_row [''id'', ''city''] (Some [''city''])))
      (gen_of (tl (file_lines cities)))
      = gen_of [[(''city'', VStr ''a, b'')], [(''city'', VNone)], [(''city'', VStr ''c'')]]"
    and count: "length (tl (file_lines cities)) = 3"
    by code_simp+
  from csv_read_correct [OF _ d, of cities] header rows count d show ?thesis by (auto simp: cities_source_def)
qed

end
