(* ===== verification/CsvSchema.thy ===== *)
theory CsvSchema
  imports CsvCorrect
begin

text \<open>
  Schema inference: reading does not fail where the sample is regular, and the inferred schema
  describes the rows of a file that fits into the sample.
\<close>

section \<open>Reading succeeds\<close>

lemma csv_partitions_exist:
  assumes "offsets = locate_partition_offsets text (map (\<lambda>(_, start, _). start) ranges)"
  shows "\<exists>ps. rmap (csv_partition src text s header columns offsets) ranges = Inr ps"
proof -
  have "\<exists>p. csv_partition src text s header columns offsets c = Inr p" if "c \<in> set ranges" for c
  proof -
    obtain i a b where c: "c = (i, a, b)" by (cases c)
    have "a \<in> set (map (\<lambda>(_, start, _). start) ranges)" using that by (force simp: c)
    then obtain q where "offsets a = Some q" by (elim located) (simp add: assms)
    then show ?thesis by (simp add: c csv_partition_def)
  qed
  then obtain g where "\<And>c. c \<in> set ranges \<Longrightarrow> csv_partition src text s header columns offsets c = Inr (g c)"
    by metis
  then show ?thesis using rmap_Inr_fun by blast
qed

lemma csv_read_succeeds:
  assumes "disk (cs_path src) = Some text" "parse_csv_line (fst (readline text 0)) = Inr header"
    and "(case cs_explicit_schema src of
            Some (g # gs) \<Rightarrow> Inr (g # gs) | _ \<Rightarrow> infer_schema_from_sample text header) = Inr s"
  shows "\<exists>d. csv_read disk src None f = Inr d \<and> ds_schema d = s"
proof -
  let ?ranges = "csv_ranges (count_rows text) (cs_partitions src)"
  obtain ps where "rmap (csv_partition src text s header None
      (locate_partition_offsets text (map (\<lambda>(_, start, _). start) ?ranges))) ?ranges = Inr ps"
    using csv_partitions_exist by blast
  with assms show ?thesis by (simp add: csv_read_def Let_def)
qed

section \<open>Lines that are records\<close>

text \<open>A line on which no quoted field stays open.\<close>

definition closed_line :: "string \<Rightarrow> bool" where
  "closed_line l = (case csv_line new_record l of Inl _ \<Rightarrow> True | Inr p \<Rightarrow> cp_state p = StartRecord)"

lemma csv_rows_closed:
  "list_all closed_line lines \<Longrightarrow> csv_rows new_record lines = gen_map parse_csv_line (gen_of lines)"
proof (induction lines)
  case Nil
  then show ?case by (simp add: new_record_def)
next
  case (Cons l lines)
  then show ?case
    by (cases "csv_line new_record l") (auto simp: closed_line_def parse_csv_line_def)
qed

lemma gen_take_map: "length xs \<le> n \<Longrightarrow> gen_take n (gen_map f (gen_of xs)) = gen_map f (gen_of xs)"
proof (induction xs arbitrary: n)
  case Nil
  then show ?case by (cases n) auto
next
  case (Cons x xs)
  then obtain m where "n = Suc m" "length xs \<le> m" by (cases n) auto
  with Cons.IH show ?case by (cases "f x") auto
qed

section \<open>The sample\<close>

text \<open>What the state remembers of a cell it has seen.\<close>

definition covers :: "sample_state \<Rightarrow> string \<times> string \<Rightarrow> bool" where
  "covers st c \<longleftrightarrow> (let v = try_parse (snd c) in
     if v = VNone then snd st (fst c) = Some True
     else \<exists>t. fst st (fst c) = Some t \<and> (t = infer_type v \<or> t = StringType))"

lemma covers_new: "covers (see_cell st c) c"
  by (auto simp: covers_def see_cell_def Let_def split: prod.splits option.splits)

lemma covers_kept: "covers st c \<Longrightarrow> covers (see_cell st c') c"
  by (auto simp: covers_def see_cell_def Let_def split: prod.splits option.splits if_splits)

lemma covers_cells: "covers st c \<or> c \<in> set cells \<Longrightarrow> covers (foldl see_cell st cells) c"
proof (induction cells arbitrary: st)
  case (Cons d cells)
  then have "covers (see_cell st d) c \<or> c \<in> set cells" by (metis covers_kept covers_new set_ConsD)
  then show ?case using Cons.IH by simp
qed simp

lemma see_row_Inr:
  "see_row header st raw = Inr st' \<longleftrightarrow> (\<exists>cells. zip_strict header raw = Inr cells \<and> st' = foldl see_cell st cells)"
  unfolding see_row_def by (cases "zip_strict header raw") auto

lemma covers_rows:
  assumes "rfold (see_row header) st raws = Inr st'"
  shows "(covers st c \<longrightarrow> covers st' c)
    \<and> (\<forall>raw \<in> set raws. \<exists>cells. zip_strict header raw = Inr cells \<and> (\<forall>c \<in> set cells. covers st' c))"
  using assms
proof (induction raws arbitrary: st c)
  case (Cons raw raws)
  then obtain cells where cells: "zip_strict header raw = Inr cells"
    and rest: "rfold (see_row header) (foldl see_cell st cells) raws = Inr st'"
    unfolding rfold.simps rbind_Inr_iff see_row_Inr by (elim exE conjE) (rule that, simp_all)
  have keep: "covers st' c" if "covers (foldl see_cell st cells) c" for c
    using Cons.IH [OF rest] that by blast
  have "covers st' c" if "covers st c \<or> c \<in> set cells" for c by (rule keep [OF covers_cells [OF that]])
  then show ?case using cells Cons.IH [OF rest] by auto
qed simp

lemma sampled_rows:
  assumes "list_all closed_line (file_lines text)" "length (tl (file_lines text)) \<le> SCHEMA_SAMPLE_ROWS"
    and "infer_schema_from_sample text header = Inr s"
  obtains st where "s = map (sampled_field st) header" "distinct header"
    "\<And>line raw. line \<in> set (tl (file_lines text)) \<Longrightarrow> parse_csv_line line = Inr raw \<Longrightarrow>
      length header = length raw \<and> (\<forall>c \<in> set (zip header raw). covers st c)"
proof -
  let ?lines = "tl (file_lines text)"
  let ?start = "(Map.empty, \<lambda>n. if n \<in> set header then Some False else None) :: sample_state"
  obtain first reader where r: "gen_next (gen_map parse_csv_line (gen_of (file_lines text))) = Inr (first, reader)"
    and fold: "rbind (gen_fold (see_row header) ?start (gen_take SCHEMA_SAMPLE_ROWS reader))
        (\<lambda>st. mk_schema (map (sampled_field st) header)) = Inr s"
    using assms(3) by (auto simp: infer_schema_from_sample_def csv_rows_closed [OF assms(1)] rbind_Inr_iff)
  have "reader = gen_map parse_csv_line (gen_of ?lines)"
    using r by (cases "file_lines text") (auto split: sum.splits)
  then have "gen_take SCHEMA_SAMPLE_ROWS reader = gen_map parse_csv_line (gen_of ?lines)"
    using assms(2) by (simp only: gen_take_map)
  with fold obtain st where st: "gen_fold (see_row header) ?start (gen_map parse_csv_line (gen_of ?lines)) = Inr st"
    and s: "s = map (sampled_field st) header" "distinct (field_names s)"
    by (auto simp: rbind_Inr_iff mk_schema_Inr_iff)
  obtain raws where raws: "rmap parse_csv_line ?lines = Inr raws" "rfold (see_row header) ?start raws = Inr st"
    using st by (auto simp: gen_fold_Inr_iff gen_list_Inr_iff [symmetric] gen_list_map)
  have "length header = length raw \<and> (\<forall>c \<in> set (zip header raw). covers st c)"
    if line: "line \<in> set ?lines" "parse_csv_line line = Inr raw" for line raw
  proof -
    obtain i where i: "i < length ?lines" "?lines ! i = line" using line(1) unfolding in_set_conv_nth by blast
    then have "parse_csv_line line = Inr (raws ! i)" "i < length raws"
      using raws(1) unfolding rmap_Inr_iff list_all2_conv_all_nth by auto
    then have "raw \<in> set raws" using line(2) by simp
    then show ?thesis using covers_rows [OF raws(2)] by (auto simp: zip_strict_Inr_iff)
  qed
  moreover have "distinct header" using s by (simp add: sampled_field_def field_names_def comp_def)
  ultimately show thesis using s(1) that by blast
qed

lemma map_of_map_zip_nth:
  "distinct ks \<Longrightarrow> length ks = length vs \<Longrightarrow> i < length ks \<Longrightarrow>
   map_of (map (\<lambda>(k, v). (k, g v)) (zip ks vs)) (ks ! i) = Some (g (vs ! i))"
proof -
  assume a: "distinct ks" "length ks = length vs" "i < length ks"
  have "map (\<lambda>(k, v). (k, g v)) (zip ks vs) = zip ks (map g vs)" using a(2) by (induction ks vs rule: list_induct2) auto
  with a show ?thesis by (simp add: map_of_zip_nth)
qed

text \<open>
  C21: An inferred schema is sound. In a file of at most 1000 data rows without line breaks in quoted
  cells, every row that is read has a value for every column of the inferred schema; it is null
  only if the column is nullable, and of the column's type unless that is a string.
\<close>

theorem csv_schema_sound:
  assumes "disk (cs_path src) = Some text" "cs_explicit_schema src = None" "csv_read disk src None f = Inr d"
    and "list_all closed_line (file_lines text)" "length (tl (file_lines text)) \<le> SCHEMA_SAMPLE_ROWS"
    and "gen_list (iter_records d) = Inr rows" "r \<in> set rows" "c \<in> set (ds_schema d)"
  shows "\<exists>v. map_of r (fname c) = Some v \<and> (v = VNone \<longrightarrow> nullable c)
    \<and> (v \<noteq> VNone \<longrightarrow> data_type c = infer_type v \<or> data_type c = StringType)"
proof -
  obtain header where header: "parse_csv_line (fst (readline text 0)) = Inr header"
    and iter: "iter_records d
      = gen_map (\<lambda>line. rbind (parse_csv_line line) (coerce_row header None)) (gen_of (tl (file_lines text)))"
    using csv_pass [OF assms(1,3)] by (elim exE conjE) (rule that)
  have "infer_schema_from_sample text header = Inr (ds_schema d)"
    using assms(1-3) header by (auto simp: csv_read_def rbind_Inr_iff Let_def)
  then obtain st where st: "ds_schema d = map (sampled_field st) header" "distinct header"
    "\<And>line raw. line \<in> set (tl (file_lines text)) \<Longrightarrow> parse_csv_line line = Inr raw \<Longrightarrow>
      length header = length raw \<and> (\<forall>c \<in> set (zip header raw). covers st c)"
    by (rule sampled_rows [OF assms(4,5)]) (rule that)
  obtain line raw where line: "line \<in> set (tl (file_lines text))" "parse_csv_line line = Inr raw"
      "coerce_row header None raw = Inr r"
  proof -
    have "rmap (\<lambda>line. rbind (parse_csv_line line) (coerce_row header None)) (tl (file_lines text)) = Inr rows"
      using assms(6) by (simp only: iter gen_list_map)
    from rmap_member [OF this assms(7)] show thesis by (auto simp: rbind_Inr_iff intro: that)
  qed
  note len = st(3) [OF line(1,2)]
  have "map fst (map (\<lambda>(name, raw). (name, try_parse raw)) (zip header raw)) = header"
    using len by (auto simp: comp_def case_prod_beta map_fst_zip)
  then have r: "r = map (\<lambda>(name, raw). (name, try_parse raw)) (zip header raw)"
    using line(3) len st(2) by (auto simp: coerce_row_def zip_strict_Inr_iff rbind_Inr_iff dict_of_distinct_id)
  obtain i where i: "i < length header" "c = sampled_field st (header ! i)"
    using assms(8) st(1) by (auto simp: in_set_conv_nth)
  then have "(header ! i, raw ! i) \<in> set (zip header raw)" using len by (auto simp: set_zip)
  then have "covers st (header ! i, raw ! i)" using len by blast
  moreover have "map_of r (header ! i) = Some (try_parse (raw ! i))"
    using i(1) len st(2) by (simp add: r map_of_map_zip_nth)
  ultimately show ?thesis by (auto simp: i(2) sampled_field_def covers_def Let_def split: if_splits)
qed

text \<open>A column of ints with an empty cell, and one of mixed values.\<close>

definition mixed_text :: string where
  "mixed_text = ''a,b'' @ [CHR 0x0A] @ ''1,x'' @ [CHR 0x0A] @ '',7'' @ [CHR 0x0A]"

definition mixed_source :: csv_source where
  "mixed_source = \<lparr>cs_path = ''m'', cs_explicit_schema = None, cs_partitions = 2\<rparr>"

theorem csv_schema_sound_witness:
  "\<exists>d rows. csv_read [''m'' \<mapsto> mixed_text] mixed_source None None = Inr d
     \<and> gen_list (iter_records d) = Inr rows
     \<and> (\<exists>v. map_of (rows ! 1) ''a'' = Some v \<and> v = VNone)
     \<and> (\<exists>c \<in> set (ds_schema d). fname c = ''a'' \<and> nullable c)"
proof -
  let ?rows = "[[(''a'', VInt 1), (''b'', VStr ''x'')], [(''a'', VNone), (''b'', VInt 7)]]"
  have d: "map_sum id (\<lambda>d. (map fname (ds_schema d), gen_list (iter_records d)))
      (csv_read [''m'' \<mapsto> mixed_text] mixed_source None None) = Inr ([''a'', ''b''], Inr ?rows)"
    by code_simp
  then obtain d where d: "csv_read [''m'' \<mapsto> mixed_text] mixed_source None None = Inr d"
      "map fname (ds_schema d) = [''a'', ''b'']" "gen_list (iter_records d) = Inr ?rows"
    by (cases "csv_read [''m'' \<mapsto> mixed_text] mixed_source None None") auto
  have "''a'' \<in> set (map fname (ds_schema d))" by (simp add: d(2))
  then obtain c where c: "c \<in> set (ds_schema d)" "fname c = ''a''" by auto
  have "list_all closed_line (file_lines mixed_text)" "length (tl (file_lines mixed_text)) \<le> SCHEMA_SAMPLE_ROWS"
    by code_simp+
  from csv_schema_sound [OF _ _ d(1) this d(3), where r = "?rows ! 1" and c = c] c
  have "nullable c" by (simp add: mixed_source_def)
  with d c show ?thesis by auto
qed

text \<open>
  A blank line is read as a row of no cells, so that the row of an empty cell, or a blank line at the
  end of the file, is an error; and without a schema an empty file raises \<^verbatim>\<open>StopIteration\<close>.
\<close>

lemma blank_line: "rbind (parse_csv_line [CHR 0x0A]) (coerce_row [''a''] None) = Inl ValueError"
  by code_simp

lemma empty_file: "map_sum id (\<lambda>_. ()) (read_csv [''m'' \<mapsto> []] ''m'' None 4) = Inl StopIteration"
  by code_simp

end
