(* ===== verification/CsvRoundTrip.thy ===== *)
theory CsvRoundTrip
  imports CsvSchema
begin

text \<open>
  A table printed as CSV, with cells quoted or plain, is read back cell by cell.
\<close>

section \<open>Printed tables\<close>

text \<open>A cell with the choice whether to quote it; a quote inside a quoted cell is doubled.\<close>

type_synonym cell = "bool \<times> string"

definition escape :: "string \<Rightarrow> string" where
  "escape s = concat (map (\<lambda>c. if c = CHR 0x22 then [c, c] else [c]) s)"

definition csv_cell :: "cell \<Rightarrow> string" where
  "csv_cell c = (case c of (quoted, s) \<Rightarrow> if quoted then CHR 0x22 # escape s @ [CHR 0x22] else s)"

definition plain_char :: "char \<Rightarrow> bool" where
  "plain_char c = (c \<noteq> CHR 0x22 \<and> c \<noteq> CHR '','' \<and> \<not> is_newline c)"

text \<open>No line breaks inside a cell, and a plain cell has nothing to quote.\<close>

definition cell_ok :: "cell \<Rightarrow> bool" where
  "cell_ok c = (case c of (quoted, s) \<Rightarrow> int (length s) \<le> FIELD_LIMIT
     \<and> (if quoted then list_all (\<lambda>c. \<not> is_newline c) s else list_all plain_char s))"

definition row_text :: "cell list \<Rightarrow> string" where
  "row_text cells = join_str '','' (map csv_cell cells)"

lemma row_text_simps [simp]:
  "row_text [c] = csv_cell c"
  "row_text (c # d # cells) = csv_cell c @ [CHR '',''] @ row_text (d # cells)"
  by (simp_all add: row_text_def join_str_def)

text \<open>A row of one plain empty cell is printed as a blank line, which is read as a row of no cells.\<close>

definition row_ok :: "cell list \<Rightarrow> bool" where
  "row_ok cells = (cells \<noteq> [] \<and> cells \<noteq> [(False, [])] \<and> list_all cell_ok cells)"

definition line_end :: "string \<Rightarrow> bool" where
  "line_end e = (e = [CHR 0x0A] \<or> e = [CHR 0x0D, CHR 0x0A] \<or> e = [CHR 0x0D])"

section \<open>One line\<close>

definition after_cell :: "csv_state \<Rightarrow> cell \<Rightarrow> csv_state" where
  "after_cell st c = (if fst c then QuoteInQuotedField else if snd c = [] then st else InField)"

lemma plain_chars:
  "list_all plain_char s \<Longrightarrow> cp_state p = InField \<Longrightarrow> int (length (cp_field p) + length s) \<le> FIELD_LIMIT \<Longrightarrow>
   rfold csv_char p s = Inr (p\<lparr>cp_field := cp_field p @ s\<rparr>)"
proof (induction s arbitrary: p)
  case (Cons c s)
  then have "csv_char p c = Inr (p\<lparr>cp_state := InField, cp_field := cp_field p @ [c]\<rparr>)"
    by (auto simp: plain_char_def add_char_def)
  with Cons show ?case by simp
qed simp

lemma quoted_chars:
  "list_all (\<lambda>c. \<not> is_newline c) s \<Longrightarrow> cp_state p = InQuotedField \<Longrightarrow>
   int (length (cp_field p) + length s) \<le> FIELD_LIMIT \<Longrightarrow>
   rfold csv_char p (escape s) = Inr (p\<lparr>cp_field := cp_field p @ s\<rparr>)"
proof (induction s arbitrary: p)
  case (Cons c s)
  let ?p = "p\<lparr>cp_field := cp_field p @ [c]\<rparr>"
  have "rfold csv_char p (if c = CHR 0x22 then [c, c] else [c]) = Inr ?p"
    using Cons.prems by (auto simp: add_char_def)
  moreover have "rfold csv_char ?p (escape s) = Inr (?p\<lparr>cp_field := cp_field ?p @ s\<rparr>)"
    using Cons.prems by (intro Cons.IH) auto
  ultimately show ?case by (simp only: escape_def list.map concat.simps rfold_append) simp
qed (simp add: escape_def)

lemma cell_chars:
  assumes "cell_ok c" "cp_state p = StartRecord \<or> cp_state p = StartField" "cp_field p = []"
  shows "rfold csv_char p (csv_cell c) = Inr (p\<lparr>cp_state := after_cell (cp_state p) c, cp_field := snd c\<rparr>)"
proof (cases c)
  case (Pair quoted s)
  show ?thesis
  proof (cases quoted)
    case True
    let ?p = "p\<lparr>cp_state := InQuotedField\<rparr>"
    have "csv_char p CHR 0x22 = Inr ?p"
      using assms(2) by (auto simp: csv_start_field_def is_newline_def)
    moreover have "rfold csv_char ?p (escape s) = Inr (?p\<lparr>cp_field := s\<rparr>)"
      using quoted_chars [of s ?p] assms by (simp add: Pair True cell_ok_def)
    ultimately show ?thesis by (simp add: Pair True csv_cell_def after_cell_def rfold_append)
  next
    case False
    show ?thesis
    proof (cases s)
      case Nil
      then show ?thesis using assms(3) by (simp add: Pair False csv_cell_def after_cell_def)
    next
      case (Cons x xs)
      let ?p = "p\<lparr>cp_state := InField, cp_field := [x]\<rparr>"
      have "csv_char p x = Inr ?p"
        using assms by (auto simp: Pair False Cons cell_ok_def plain_char_def csv_start_field_def add_char_def FIELD_LIMIT_def)
      moreover have "rfold csv_char ?p xs = Inr (?p\<lparr>cp_field := x # xs\<rparr>)"
        using plain_chars [of xs ?p] assms(1) by (simp add: Pair False Cons cell_ok_def)
      ultimately show ?thesis by (simp add: Pair False Cons csv_cell_def after_cell_def)
    qed
  qed
qed

lemma comma_saves:
  "cp_state p \<in> {StartRecord, StartField, InField, QuoteInQuotedField} \<Longrightarrow>
   csv_char p CHR '','' = Inr (save_field StartField p)"
  by (auto simp: csv_start_field_def is_newline_def)

lemma newline_saves:
  "cp_state p \<in> {StartField, InField, QuoteInQuotedField} \<Longrightarrow> line_end e \<Longrightarrow>
   rbind (rfold csv_char p e) (\<lambda>p'. Inr (csv_end_line p')) = Inr (save_field StartRecord p)"
  by (auto simp: csv_start_field_def is_newline_def line_end_def csv_end_line_def save_field_def)

lemma cells_chars:
  assumes "list_all cell_ok cells" "cells \<noteq> []" "line_end e \<or> e = []"
    and "cp_state p = StartRecord \<and> cells \<noteq> [(False, [])] \<or> cp_state p = StartField" "cp_field p = []"
  shows "csv_line p (row_text cells @ e)
    = Inr \<lparr>cp_state = StartRecord, cp_field = [], cp_fields = cp_fields p @ map snd cells\<rparr>"
  using assms
proof (induction cells arbitrary: p)
  case (Cons c cells)
  let ?st = "after_cell (cp_state p) c"
  let ?p = "p\<lparr>cp_state := ?st, cp_field := snd c\<rparr>"
  have c: "rfold csv_char p (csv_cell c) = Inr ?p" using Cons.prems by (intro cell_chars) auto
  show ?case
  proof (cases cells)
    case Nil
    then have "?st \<in> {StartField, InField, QuoteInQuotedField}"
      using Cons.prems(4) by (cases c) (auto simp: after_cell_def)
    then have "rbind (rfold csv_char ?p e) (\<lambda>p'. Inr (csv_end_line p')) = Inr (save_field StartRecord ?p)"
      using Cons.prems(3) newline_saves [of ?p e] by (auto simp: csv_end_line_def split: csv_state.split)
    then show ?thesis using c by (simp add: Nil csv_line_def rfold_append save_field_def)
  next
    case (Cons d ds)
    let ?q = "save_field StartField ?p"
    have "?st \<in> {StartRecord, StartField, InField, QuoteInQuotedField}"
      using Cons.prems(4) by (auto simp: after_cell_def)
    then have q: "csv_char ?p CHR '','' = Inr ?q" by (intro comma_saves) simp
    have "csv_line ?q (row_text cells @ e)
        = Inr \<lparr>cp_state = StartRecord, cp_field = [], cp_fields = cp_fields ?q @ map snd cells\<rparr>"
      using Cons.prems by (intro Cons.IH) (auto simp: Cons save_field_def)
    then show ?thesis
      using c q by (simp add: Cons csv_line_def rfold_append save_field_def)
  qed
qed simp

section \<open>A whole file\<close>

definition csv_text :: "string \<Rightarrow> cell list list \<Rightarrow> string" where
  "csv_text e rows = concat (map (\<lambda>cells. row_text cells @ e) rows)"

lemma csv_cell_no_newline: "cell_ok c \<Longrightarrow> list_all (\<lambda>c. \<not> is_newline c) (csv_cell c)"
  by (cases c) (auto simp: cell_ok_def csv_cell_def escape_def plain_char_def is_newline_def list_all_iff split: if_splits)

lemma row_text_no_newline: "list_all cell_ok cells \<Longrightarrow> list_all (\<lambda>c. \<not> is_newline c) (row_text cells)"
proof (induction cells rule: induct_list012)
  case (3 c d cells)
  then show ?case using csv_cell_no_newline [of c] by (simp add: is_newline_def)
qed (auto simp: csv_cell_no_newline, simp add: row_text_def join_str_def)

lemma row_text_nonempty: "row_ok cells \<Longrightarrow> row_text cells \<noteq> []"
proof (induction cells rule: induct_list012)
  case (2 c)
  then show ?case by (cases c) (auto simp: row_ok_def csv_cell_def split: if_splits)
qed (auto simp: row_ok_def)

lemma split_line_end:
  assumes "list_all (\<lambda>c. \<not> is_newline c) s" "line_end e" "rest = [] \<or> \<not> is_newline (hd rest)"
  shows "split_line (s @ e @ rest) = (s @ e, rest)"
  using assms(1)
proof (induction s)
  case Nil
  then show ?case using assms(2,3)
    by (cases rest) (auto simp: line_end_def split_line.simps is_newline_def)
next
  case (Cons c s)
  then show ?case by (simp add: split_line.simps(2) is_newline_def)
qed

lemma csv_text_start: "list_all row_ok rows \<Longrightarrow> csv_text e rows = [] \<or> \<not> is_newline (hd (csv_text e rows))"
proof (cases rows)
  case (Cons cells rs)
  assume "list_all row_ok rows"
  then have "row_text cells \<noteq> []" "list_all (\<lambda>c. \<not> is_newline c) (row_text cells)"
    using row_text_nonempty row_text_no_newline by (auto simp: Cons row_ok_def)
  then show ?thesis by (cases "row_text cells") (auto simp: Cons csv_text_def)
qed (simp add: csv_text_def)

lemma split_csv_text:
  assumes "row_ok cells" "list_all row_ok rows" "line_end e"
  shows "split_line (csv_text e (cells # rows)) = (row_text cells @ e, csv_text e rows)"
proof -
  have "csv_text e (cells # rows) = row_text cells @ e @ csv_text e rows" by (simp add: csv_text_def)
  then show ?thesis using assms csv_text_start [of rows e]
    by (simp only:) (rule split_line_end, auto simp: row_ok_def intro: row_text_no_newline)
qed

lemma file_lines_csv_text:
  assumes "line_end e"
  shows "list_all row_ok rows \<Longrightarrow> file_lines (csv_text e rows) = map (\<lambda>cells. row_text cells @ e) rows"
proof (induction rows)
  case (Cons cells rows)
  then have split: "split_line (csv_text e (cells # rows)) = (row_text cells @ e, csv_text e rows)"
    using assms by (intro split_csv_text) auto
  obtain x xs where xs: "csv_text e (cells # rows) = x # xs"
    using assms by (cases "csv_text e (cells # rows)") (auto simp: csv_text_def line_end_def)
  show ?case using split Cons by (simp add: xs)
qed (simp add: csv_text_def)

lemma parse_row:
  assumes "row_ok cells" "line_end e"
  shows "parse_csv_line (row_text cells @ e) = Inr (map snd cells)"
proof -
  have "csv_line new_record (row_text cells @ e)
      = Inr \<lparr>cp_state = StartRecord, cp_field = [], cp_fields = map snd cells\<rparr>"
    using cells_chars [of cells e new_record] assms by (auto simp: row_ok_def new_record_def)
  then show ?thesis by (simp add: parse_csv_line_def)
qed

lemma printed_closed: "row_ok cells \<Longrightarrow> line_end e \<Longrightarrow> closed_line (row_text cells @ e)"
  using cells_chars [of cells e new_record] by (auto simp: row_ok_def new_record_def closed_line_def)

lemma gen_map_pure: "(\<And>x. x \<in> set xs \<Longrightarrow> f x = Inr (g x)) \<Longrightarrow> gen_map f (gen_of xs) = gen_of (map g xs)"
  by (induction xs) auto

lemma gen_take_gen_of: "gen_take n (gen_of xs) = gen_of (take n xs)"
proof (induction xs arbitrary: n)
  case Nil
  show ?case by (cases n) auto
next
  case (Cons x xs)
  then show ?case by (cases n) auto
qed

lemma sample_succeeds: "\<forall>raw \<in> set raws. length raw = length header \<Longrightarrow> \<exists>st'. rfold (see_row header) st raws = Inr st'"
proof (induction raws arbitrary: st)
  case (Cons raw raws)
  then have "see_row header st raw = Inr (foldl see_cell st (zip header raw))"
    by (simp add: see_row_Inr zip_strict_eq)
  with Cons show ?case by simp
qed simp

lemma printed_schema:
  assumes "line_end e" "list_all row_ok (header # rows)" "distinct (map snd header)"
    and "\<forall>row \<in> set rows. length row = length header"
  shows "\<exists>s. infer_schema_from_sample (csv_text e (header # rows)) (map snd header) = Inr s"
proof -
  let ?start = "(Map.empty, \<lambda>n. if n \<in> set (map snd header) then Some False else None) :: sample_state"
  have lines: "file_lines (csv_text e (header # rows)) = map (\<lambda>cells. row_text cells @ e) (header # rows)"
    by (rule file_lines_csv_text [OF assms(1,2)])
  have "list_all closed_line (map (\<lambda>cells. row_text cells @ e) (header # rows))"
    using assms(1,2) printed_closed by (auto simp: list_all_iff)
  then have "csv_rows new_record (file_lines (csv_text e (header # rows)))
      = gen_map parse_csv_line (gen_of (map (\<lambda>cells. row_text cells @ e) (header # rows)))"
    unfolding lines by (rule csv_rows_closed)
  also have "\<dots> = gen_of (map (map snd) (header # rows))"
    using assms(1,2) parse_row by (induction rows) auto
  finally have reader: "csv_rows new_record (file_lines (csv_text e (header # rows)))
    = Yield (map snd header) (gen_of (map (map snd) rows))" by simp
  obtain st where "rfold (see_row (map snd header)) ?start (take SCHEMA_SAMPLE_ROWS (map (map snd) rows)) = Inr st"
  proof -
    have "\<forall>raw \<in> set (take SCHEMA_SAMPLE_ROWS (map (map snd) rows)). length raw = length (map snd header)"
      using assms(4) by (auto dest!: in_set_takeD)
    from sample_succeeds [OF this, of ?start] show thesis by (elim exE) (rule that)
  qed
  moreover have "mk_schema (map (sampled_field st) (map snd header)) = Inr (map (sampled_field st) (map snd header))"
    using assms(3) by (simp add: mk_schema_Inr_iff field_names_def sampled_field_def comp_def)
  ultimately show ?thesis unfolding infer_schema_from_sample_def reader gen_next.simps rbind.simps
    by (simp add: gen_take_gen_of)
qed

text \<open>
  C19: A table printed as CSV is read back. The header names are distinct, every row has as many
  cells as the header, no cell has a line break in it (the reader splits lines before it looks at
  quotes) or is longer than the csv module's field limit, what needs quoting is quoted, and no row is
  one unquoted empty cell (a blank line). Whatever further cells are quoted and whichever line end is
  used, the file can be read, in any number of partitions and with an inferred schema, and gives one
  row per printed row, in order, with the header's names and the values that the cells' texts parse
  to.
\<close>

theorem csv_round_trip:
  assumes "line_end e" "list_all row_ok (header # rows)" "distinct (map snd header)"
    and "\<forall>row \<in> set rows. length row = length header"
    and "disk path = Some (csv_text e (header # rows))"
  shows "\<exists>d. read_csv disk path None n = Inr d
    \<and> iter_records d = gen_of (map (\<lambda>row. zip (map snd header) (map (\<lambda>c. try_parse (snd c)) row)) rows)
    \<and> field_names (ds_schema d) = map snd header \<and> ds_row_count d = Inr (length rows)"
proof -
  let ?row = "\<lambda>row. zip (map snd header) (map (\<lambda>c. try_parse (snd c)) row)"
  let ?text = "csv_text e (header # rows)"
  define src where "src = \<lparr>cs_path = path, cs_explicit_schema = None, cs_partitions = n\<rparr>"
  have "fst (readline ?text 0) = row_text header @ e"
    using split_csv_text [of header rows e] assms(1,2) by (simp add: readline_def)
  then have first: "parse_csv_line (fst (readline ?text 0)) = Inr (map snd header)"
    using parse_row [of header e] assms(1,2) by simp
  obtain s where s: "infer_schema_from_sample ?text (map snd header) = Inr s"
    using printed_schema [OF assms(1-4)] by blast
  have disk: "disk (cs_path src) = Some ?text" using assms(5) by (simp add: src_def)
  obtain d where d: "csv_read disk src None None = Inr d" "ds_schema d = s"
    using csv_read_succeeds [of disk src ?text "map snd header" s None] disk first s by (auto simp: src_def)
  have lines: "tl (file_lines ?text) = map (\<lambda>cells. row_text cells @ e) rows"
    using file_lines_csv_text [OF assms(1,2)] by simp
  have pass: "iter_records d = gen_map (\<lambda>line. rbind (parse_csv_line line) (coerce_row (map snd header) None))
        (gen_of (tl (file_lines ?text)))" "ds_row_count d = Inr (length rows)"
    using csv_pass [OF disk d(1)] first lines by auto
  have row: "rbind (parse_csv_line (row_text row @ e)) (coerce_row (map snd header) None) = Inr (?row row)"
    if "row \<in> set rows" for row
  proof -
    have "dict_of (map (\<lambda>(name, raw). (name, try_parse raw)) (zip (map snd header) (map snd row))) = ?row row"
      using assms(3,4) that by (subst dict_of_distinct_id) (auto simp: zip_map2 comp_def case_prod_beta map_zip_map2)
    then show ?thesis using that parse_row [of row e] assms(1,2,4)
      by (simp add: coerce_row_def zip_strict_eq list_all_iff)
  qed
  have "iter_records d = gen_of (map ?row rows)"
    unfolding pass(1) lines using row by (induction rows) auto
  moreover have "field_names (ds_schema d) = map snd header"
    using s d(2) by (auto simp: infer_schema_from_sample_def rbind_Inr_iff mk_schema_Inr_iff
        field_names_def sampled_field_def comp_def)
  moreover have "read_csv disk path None n = Inr d"
    using d(1) assms(5) by (simp add: read_csv_def mk_csv_source_def src_def)
  ultimately show ?thesis using pass(2) by blast
qed

text \<open>A header and two rows, some of their cells quoted, in three partitions.\<close>

definition remarks :: "cell list list" where
  "remarks = [[(False, ''id''), (True, ''note'')],
            [(False, ''7''), (True, ''x, '' @ [CHR 0x22] @ ''y'' @ [CHR 0x22])],
            [(True, ''8''), (False, [])]]"

theorem csv_round_trip_witness:
  "\<exists>d. read_csv [''n.csv'' \<mapsto> csv_text [CHR 0x0D, CHR 0x0A] remarks] ''n.csv'' None 3 = Inr d
     \<and> iter_records d = gen_of [[(''id'', VInt 7), (''note'', VStr (''x, '' @ [CHR 0x22] @ ''y'' @ [CHR 0x22]))],
                                [(''id'', VInt 8), (''note'', VNone)]]
     \<and> field_names (ds_schema d) = [''id'', ''note'']"
proof -
  have ok: "line_end [CHR 0x0D, CHR 0x0A]" "list_all row_ok (hd remarks # tl remarks)" "distinct (map snd (hd remarks))"
      "\<forall>row \<in> set (tl remarks). length row = length (hd remarks)"
    and rows: "map (\<lambda>row. zip (map snd (hd remarks)) (map (\<lambda>c. try_parse (snd c)) row)) (tl remarks)
      = [[(''id'', VInt 7), (''note'', VStr (''x, '' @ [CHR 0x22] @ ''y'' @ [CHR 0x22]))],
         [(''id'', VInt 8), (''note'', VNone)]]"
      "map snd (hd remarks) = [''id'', ''note'']"
    by code_simp+
  let ?disk = "[''n.csv'' \<mapsto> csv_text [CHR 0x0D, CHR 0x0A] remarks]"
  have "hd remarks # tl remarks = remarks" by (simp add: remarks_def)
  then have "?disk ''n.csv'' = Some (csv_text [CHR 0x0D, CHR 0x0A] (hd remarks # tl remarks))" by simp
  from csv_round_trip [OF ok, where disk = ?disk and path = "''n.csv''" and n = 3, OF this] rows
  show ?thesis by auto
qed

end
