(* ===== verification/Parquet.thy ===== *)
theory Parquet
  imports MemorySource ShuffleStore
begin

text \<open>
  The Parquet data source (\<^verbatim>\<open>storage/parquet.py\<close>).  The library pyarrow is a parameter: its types, its
  filter expressions, its datasets and fragments are type variables, and what the code calls on them
  are the fields of the record \<open>arrow\<close>.
\<close>

section \<open>What the code uses of pyarrow\<close>

text \<open>
  The types with their tests; expressions (\<open>ax_compare\<close> is \<^verbatim>\<open>expr.op(left, right)\<close> on an expression
  and an expression or a plain value, which may be refused); datasets, whose schema is a list of
  names, types and nullability; fragments, with the numbers of rows of their row groups and
  \<^verbatim>\<open>to_table(...).to_pylist()\<close>; and the bytes of a written table.
\<close>

record ('t, 'e) arrow_terms =
  is_boolean :: "'t \<Rightarrow> bool"
  is_integer :: "'t \<Rightarrow> bool"
  is_floating :: "'t \<Rightarrow> bool"
  is_string :: "'t \<Rightarrow> bool"
  is_large_string :: "'t \<Rightarrow> bool"
  is_null :: "'t \<Rightarrow> bool"
  bool_type :: 't
  int64_type :: 't
  float64_type :: 't
  string_type :: 't
  null_type :: 't
  ax_field :: "string \<Rightarrow> 'e"
  ax_and :: "'e \<Rightarrow> 'e \<Rightarrow> 'e"
  ax_or :: "'e \<Rightarrow> 'e \<Rightarrow> 'e"
  ax_not :: "'e \<Rightarrow> 'e"
  ax_is_null :: "'e \<Rightarrow> 'e"
  ax_is_valid :: "'e \<Rightarrow> 'e"
  ax_compare :: "binop \<Rightarrow> 'e \<Rightarrow> 'e + pval \<Rightarrow> 'e res"

type_synonym 't arrow_schema = "(string \<times> 't \<times> bool) list"

record ('t, 'e, 'd, 'f, 'b) arrow = "('t, 'e) arrow_terms" +
  open_dataset :: "string \<Rightarrow> 'd res"
  dataset_schema :: "'d \<Rightarrow> 't arrow_schema"
  get_fragments :: "'d \<Rightarrow> 'f list"
  split_by_row_group :: "'f \<Rightarrow> 'f list"
  group_sizes :: "'f \<Rightarrow> nat list"
  to_rows :: "'f \<Rightarrow> string list option \<Rightarrow> 'e option \<Rightarrow> row list res"
  table_bytes :: "row list \<Rightarrow> 't arrow_schema \<Rightarrow> 'b list res"

section \<open>Types and schemas\<close>

definition arrow_type_to_datatype :: "('t, 'e, 'z) arrow_terms_scheme \<Rightarrow> 't \<Rightarrow> dtype res" where
  "arrow_type_to_datatype A t =
     (if is_boolean A t then Inr BoolType
      else if is_integer A t then Inr IntType
      else if is_floating A t then Inr FloatType
      else if is_string A t \<or> is_large_string A t then Inr StringType
      else if is_null A t then Inr NullType
      else Inl ValueError)"

fun datatype_to_arrow_type :: "('t, 'e, 'z) arrow_terms_scheme \<Rightarrow> dtype \<Rightarrow> 't" where
  "datatype_to_arrow_type A BoolType = bool_type A"
| "datatype_to_arrow_type A IntType = int64_type A"
| "datatype_to_arrow_type A FloatType = float64_type A"
| "datatype_to_arrow_type A StringType = string_type A"
| "datatype_to_arrow_type A NullType = null_type A"

definition arrow_schema_to_minispark :: "('t, 'e, 'z) arrow_terms_scheme \<Rightarrow> 't arrow_schema \<Rightarrow> schema res" where
  "arrow_schema_to_minispark A s =
     rbind (rmap (\<lambda>(n, t, null). rbind (arrow_type_to_datatype A t) (\<lambda>dt.
              Inr \<lparr>fname = n, data_type = dt, nullable = null\<rparr>)) s) mk_schema"

definition minispark_schema_to_arrow :: "('t, 'e, 'z) arrow_terms_scheme \<Rightarrow> schema \<Rightarrow> 't arrow_schema" where
  "minispark_schema_to_arrow A s =
     map (\<lambda>f. (fname f, datatype_to_arrow_type A (data_type f), nullable f)) s"

section \<open>Filters\<close>

text \<open>\<open>None\<close> is \<^verbatim>\<open>_UNSUPPORTED\<close>; an expression of pyarrow is on the left, a plain value on the right.\<close>

fun translate_operand :: "('t, 'e, 'z) arrow_terms_scheme \<Rightarrow> expr \<Rightarrow> ('e + pval) option" where
  "translate_operand A (Column n) = Some (Inl (ax_field A n))"
| "translate_operand A (Literal v) = (if v = VNone then None else Some (Inr v))"
| "translate_operand A _ = None"

definition is_comparison :: "binop \<Rightarrow> bool" where
  "is_comparison op = (op \<in> {GreaterThan, GreaterEqual, LessThan, LessEqual, Equal, NotEqual})"

fun translate_predicate :: "('t, 'e, 'z) arrow_terms_scheme \<Rightarrow> expr \<Rightarrow> 'e option res" where
  "translate_predicate A (Binary op l r) =
     (if op = And then
        rbind (translate_predicate A l) (\<lambda>left. rbind (translate_predicate A r) (\<lambda>right.
          Inr (case (left, right) of
                 (Some x, Some y) \<Rightarrow> Some (ax_and A x y)
               | (Some x, None) \<Rightarrow> Some x
               | (None, y) \<Rightarrow> y)))
      else if op = Or then
        rbind (translate_predicate A l) (\<lambda>left. rbind (translate_predicate A r) (\<lambda>right.
          Inr (case (left, right) of (Some x, Some y) \<Rightarrow> Some (ax_or A x y) | _ \<Rightarrow> None)))
      else if is_comparison op then
        (case (translate_operand A l, translate_operand A r) of
           (Some (Inl x), Some y) \<Rightarrow> rbind (ax_compare A op x y) (\<lambda>e. Inr (Some e))
         | _ \<Rightarrow> Inr None)
      else Inr None)"
| "translate_predicate A (NotE e) =
     rbind (translate_predicate A e) (\<lambda>inner. Inr (map_option (ax_not A) inner))"
| "translate_predicate A (IsNull e) =
     Inr (case translate_operand A e of Some (Inl x) \<Rightarrow> Some (ax_is_null A x) | _ \<Rightarrow> None)"
| "translate_predicate A (IsNotNull e) =
     Inr (case translate_operand A e of Some (Inl x) \<Rightarrow> Some (ax_is_valid A x) | _ \<Rightarrow> None)"
| "translate_predicate A _ = Inr None"

section \<open>Reading\<close>

text \<open>\<^verbatim>\<open>_read_fragments\<close>: an error of one fragment follows the rows of those before it.\<close>

definition read_fragments ::
    "('t, 'e, 'd, 'f, 'b) arrow \<Rightarrow> 'f list \<Rightarrow> string list option \<Rightarrow> 'e option \<Rightarrow> row gen" where
  "read_fragments A fragments columns pa_filter =
     gen_concat (map (\<lambda>f. case to_rows A f columns pa_filter of Inl e \<Rightarrow> Raise e | Inr rows \<Rightarrow> gen_of rows) fragments)"

record parquet_source =
  pq_path :: string
  pq_partitions :: nat

definition mk_parquet_source :: "string \<Rightarrow> int \<Rightarrow> parquet_source" where
  "mk_parquet_source source_path n = \<lparr>pq_path = source_path, pq_partitions = nat (max 1 n)\<rparr>"

definition row_group_ranges :: "nat \<Rightarrow> nat \<Rightarrow> (nat \<times> nat \<times> nat) list" where
  "row_group_ranges n_groups wanted =
     (let n = max 1 (min wanted (if n_groups = 0 then 1 else n_groups));
          chunk_size = (if n_groups = 0 then 0 else (n_groups + n - 1) div n)
      in chunk_ranges n_groups chunk_size n)"

definition parquet_partition ::
    "('t, 'e, 'd, 'f, 'b) arrow \<Rightarrow> parquet_source \<Rightarrow> 'f list \<Rightarrow> schema \<Rightarrow> string list option \<Rightarrow> 'e option
     \<Rightarrow> nat \<times> nat \<times> nat \<Rightarrow> partition" where
  "parquet_partition A src row_groups s columns pa_filter c =
     (case c of (i, start, stop) \<Rightarrow>
        let group = take (stop - start) (drop start row_groups)
        in \<lparr>partition_id = i, part_schema = s,
            records = read_fragments A group columns pa_filter,
            metadata = (counted_meta (Some (sum_list (map (\<lambda>f. sum_list (group_sizes A f)) group))))
              \<lparr>location := Some (pq_path src)\<rparr>\<rparr>)"

definition parquet_read ::
    "('t, 'e, 'd, 'f, 'b) arrow \<Rightarrow> parquet_source \<Rightarrow> string list option \<Rightarrow> expr option \<Rightarrow> dataset res" where
  "parquet_read A src columns filt =
     rbind (open_dataset A (pq_path src)) (\<lambda>d.
     rbind (arrow_schema_to_minispark A (dataset_schema A d)) (\<lambda>full_schema.
     rbind (case columns of Some cs \<Rightarrow> schema_select full_schema cs | None \<Rightarrow> Inr full_schema) (\<lambda>s.
     rbind (case filt of Some e \<Rightarrow> translate_predicate A e | None \<Rightarrow> Inr None) (\<lambda>pa_filter.
       let row_groups = concat (map (split_by_row_group A) (get_fragments A d));
           ps = map (parquet_partition A src row_groups s columns pa_filter)
                  (row_group_ranges (length row_groups) (pq_partitions src))
       in Inr \<lparr>ds_schema = s, ds_partitions = (if ps = [] then [bucket_partition s 0 []] else ps)\<rparr>))))"

section \<open>Writing\<close>

text \<open>\<^verbatim>\<open>f"part-{id:05d}.parquet"\<close>\<close>

definition parquet_path :: "string \<Rightarrow> nat \<Rightarrow> string" where
  "parquet_path dir i =
     dir @ ''/part-'' @ replicate (5 - length (nat_str i)) CHR ''0'' @ nat_str i @ ''.parquet''"

fun write_tables ::
    "('t, 'e, 'd, 'f, 'b) arrow \<Rightarrow> 't arrow_schema \<Rightarrow> string \<Rightarrow> partition list \<Rightarrow> 'b files \<Rightarrow> 'b files \<times> unit res" where
  "write_tables A s dir [] fs = (fs, Inr ())"
| "write_tables A s dir (p # ps) fs =
     (case rbind (part_to_list p) (\<lambda>rows. table_bytes A rows s) of
        Inl e \<Rightarrow> (fs, Inl e)
      | Inr bs \<Rightarrow> write_tables A s dir ps (fs(parquet_path dir (partition_id p) \<mapsto> bs)))"

definition write_parquet_dataset ::
    "('t, 'e, 'd, 'f, 'b) arrow \<Rightarrow> dataset \<Rightarrow> string \<Rightarrow> 'b files \<Rightarrow> 'b files \<times> unit res" where
  "write_parquet_dataset A d dir fs =
     write_tables A (minispark_schema_to_arrow A (ds_schema d)) dir (ds_partitions d) fs"

end
