(* ===== verification/ParquetCorrect.thy ===== *)
theory ParquetCorrect
  imports Parquet ScanPushdown
begin

text \<open>
  Predicate pushdown into Parquet.  pyarrow's comparisons have three truth values, the row engine's
  have Python's two: a pushed filter never drops a row that passes, as long as nulls do not meet an
  inequality or a negation; there the read keeps the contract of a data source.
\<close>

section \<open>What pyarrow promises\<close>

definition kleene_and :: "bool option \<Rightarrow> bool option \<Rightarrow> bool option" where
  "kleene_and x y = (if x = Some False \<or> y = Some False then Some False
     else if x = Some True \<and> y = Some True then Some True else None)"

definition kleene_or :: "bool option \<Rightarrow> bool option \<Rightarrow> bool option" where
  "kleene_or x y = (if x = Some True \<or> y = Some True then Some True
     else if x = Some False \<and> y = Some False then Some False else None)"

text \<open>Values of one Arrow type, which are compared exactly.\<close>

fun same_kind :: "pval \<Rightarrow> pval \<Rightarrow> bool" where
  "same_kind (VBool _) (VBool _) = True"
| "same_kind (VInt _) (VInt _) = True"
| "same_kind (VFloat _) (VFloat _) = True"
| "same_kind (VStr _) (VStr _) = True"
| "same_kind _ _ = False"

text \<open>The value of the right operand for a row.\<close>

definition scalar :: "('e \<Rightarrow> row \<Rightarrow> pval) \<Rightarrow> 'e + pval \<Rightarrow> row \<Rightarrow> pval" where
  "scalar field_value y r = (case y of Inl e \<Rightarrow> field_value e r | Inr v \<Rightarrow> v)"

text \<open>
  The documented meaning of filter expressions: \<open>sat x r\<close> is the truth value of \<open>x\<close> for a row, and
  \<open>field_value\<close> the value of a field.  A comparison with a null is null.
\<close>

definition terms_ok ::
    "('t, 'e, 'z) arrow_terms_scheme \<Rightarrow> ('e \<Rightarrow> row \<Rightarrow> pval) \<Rightarrow> ('e \<Rightarrow> row \<Rightarrow> bool option) \<Rightarrow> bool" where
  "terms_ok A field_value sat \<longleftrightarrow>
     (\<forall>n r. field_value (ax_field A n) r = tev (Column n) r)
   \<and> (\<forall>x y r. sat (ax_and A x y) r = kleene_and (sat x r) (sat y r))
   \<and> (\<forall>x y r. sat (ax_or A x y) r = kleene_or (sat x r) (sat y r))
   \<and> (\<forall>x r. sat (ax_not A x) r = map_option Not (sat x r))
   \<and> (\<forall>x r. sat (ax_is_null A x) r = Some (field_value x r = VNone))
   \<and> (\<forall>x r. sat (ax_is_valid A x) r = Some (field_value x r \<noteq> VNone))
   \<and> (\<forall>op x y e r. ax_compare A op x y = Inr e \<longrightarrow>
        (let v = field_value x r; w = scalar field_value y r in
           (v = VNone \<or> w = VNone \<longrightarrow> sat e r = None)
         \<and> (same_kind v w \<longrightarrow> sat e r = Some (apply_binop op v w = Inr (VBool True)))))"

section \<open>Filters that lose no row\<close>

definition keeps :: "('e \<Rightarrow> row \<Rightarrow> bool option) \<Rightarrow> 'e option \<Rightarrow> row \<Rightarrow> bool" where
  "keeps sat f r = (case f of None \<Rightarrow> True | Some x \<Rightarrow> sat x r = Some True)"

definition is_literal :: "expr \<Rightarrow> bool" where
  "is_literal e = (case e of Literal _ \<Rightarrow> True | _ \<Rightarrow> False)"

lemma is_literal_simps [simp]: "is_literal (Literal v)" "\<not> is_literal (Column n)"
  by (simp_all add: is_literal_def)

lemma is_literal_E: "is_literal e \<Longrightarrow> (\<And>v. e = Literal v \<Longrightarrow> P) \<Longrightarrow> P"
  by (cases e) (auto simp: is_literal_def)

text \<open>The whole condition can be pushed, and no null takes part in a comparison of this row.\<close>

fun exact :: "row \<Rightarrow> expr \<Rightarrow> bool" where
  "exact r (Binary op a b) =
     (if op = And \<or> op = Or then exact r a \<and> exact r b
      else is_comparison op \<and> is_column a \<and> (is_column b \<or> is_literal b) \<and> same_kind (tev a r) (tev b r))"
| "exact r (NotE e) = exact r e"
| "exact r (IsNull e) = is_column e"
| "exact r (IsNotNull e) = is_column e"
| "exact r _ = False"

text \<open>
  A comparison of this row whose null, if any, the row engine drops as well, or fails on.
\<close>

definition null_safe :: "binop \<Rightarrow> pval \<Rightarrow> pval \<Rightarrow> bool" where
  "null_safe op v w = (if v \<noteq> VNone \<and> w \<noteq> VNone then same_kind v w
     else op \<noteq> NotEqual \<and> (op = Equal \<longrightarrow> v \<noteq> w))"

fun pushable :: "row \<Rightarrow> expr \<Rightarrow> bool" where
  "pushable r (Binary op a b) =
     (if op = And \<or> op = Or then pushable r a \<and> pushable r b
      else is_comparison op \<and> b \<noteq> Literal VNone \<longrightarrow> null_safe op (tev a r) (tev b r))"
| "pushable r (NotE e) = exact r e"
| "pushable r _ = True"

lemma terms_okD:
  assumes "terms_ok A field_value sat"
  shows "field_value (ax_field A n) r = tev (Column n) r"
    "sat (ax_and A x y) r = kleene_and (sat x r) (sat y r)"
    "sat (ax_or A x y) r = kleene_or (sat x r) (sat y r)"
    "sat (ax_not A x) r = map_option Not (sat x r)"
    "sat (ax_is_null A x) r = Some (field_value x r = VNone)"
    "sat (ax_is_valid A x) r = Some (field_value x r \<noteq> VNone)"
    "ax_compare A op x z = Inr e \<Longrightarrow> field_value x r = VNone \<or> scalar field_value z r = VNone \<Longrightarrow> sat e r = None"
    "ax_compare A op x z = Inr e \<Longrightarrow> same_kind (field_value x r) (scalar field_value z r) \<Longrightarrow>
      sat e r = Some (apply_binop op (field_value x r) (scalar field_value z r) = Inr (VBool True))"
  using assms unfolding terms_ok_def Let_def by blast+

lemma translated_operands:
  assumes "terms_ok A field_value sat" "translate_operand A a = Some (Inl x)" "translate_operand A b = Some y"
  shows "field_value x r = tev a r \<and> scalar field_value y r = tev b r \<and> is_column a
    \<and> (is_column b \<or> is_literal b) \<and> b \<noteq> Literal VNone"
  using assms(2,3) terms_okD(1) [OF assms(1)]
  by (cases a; cases b) (auto simp: scalar_def split: if_splits)

lemma comparison_passes:
  "is_comparison op \<Longrightarrow> passes (Binary op a b) r \<longleftrightarrow> apply_binop op (tev a r) (tev b r) = Inr (VBool True)"
  by (auto simp: is_comparison_def passes_def rbind_Inr_iff or_null_def split: sum.splits)

lemma null_comparison_fails:
  "is_comparison op \<Longrightarrow> null_safe op v w \<Longrightarrow> v = VNone \<or> w = VNone \<Longrightarrow> apply_binop op v w \<noteq> Inr (VBool True)"
  by (cases v; cases w) (auto simp: is_comparison_def null_safe_def rbind_Inr_iff num_cmp_def num_eq_def split: option.splits)

lemma passes_logic:
  "passes (Binary And a b) r = (passes a r \<and> passes b r)" "passes (Binary Or a b) r = (passes a r \<or> passes b r)"
  "passes (NotE a) r = (\<not> passes a r)"
  "passes (IsNull a) r = (tev a r = VNone)" "passes (IsNotNull a) r = (tev a r \<noteq> VNone)"
  by (simp_all add: passes_def)

lemma exact_translation:
  assumes ok: "terms_ok A field_value sat"
  shows "translate_predicate A e = Inr f \<Longrightarrow> exact r e \<Longrightarrow> \<exists>x. f = Some x \<and> sat x r = Some (passes e r)"
proof (induction e arbitrary: f)
  case (Binary op a b)
  consider (logic) "op = And \<or> op = Or" | (cmp) "op \<noteq> And" "op \<noteq> Or" "is_comparison op"
    using Binary.prems(2) by (auto split: if_splits)
  then show ?case
  proof cases
    case logic
    then obtain g h where gh: "translate_predicate A a = Inr g" "translate_predicate A b = Inr h"
      using Binary.prems(1) by (auto simp: rbind_Inr_iff)
    have "exact r a" "exact r b" using logic Binary.prems(2) by auto
    with Binary.IH gh obtain x y where "g = Some x" "sat x r = Some (passes a r)"
      "h = Some y" "sat y r = Some (passes b r)" by blast
    with logic gh Binary.prems(1) show ?thesis
      by (auto simp: terms_okD(2,3) [OF ok] kleene_and_def kleene_or_def passes_logic)
  next
    case cmp
    have kinds: "is_column a" "is_column b \<or> is_literal b" "same_kind (tev a r) (tev b r)"
      using cmp Binary.prems(2) by auto
    moreover have "b \<noteq> Literal VNone" using kinds(3) by (cases "tev a r") auto
    ultimately obtain x y where xy: "translate_operand A a = Some (Inl x)" "translate_operand A b = Some y"
      using kinds(1,2) by (cases a; cases b) (auto simp: is_literal_def split: if_splits)
    then obtain e where e: "ax_compare A op x y = Inr e" "f = Some e"
      using cmp Binary.prems(1) by (auto simp: rbind_Inr_iff)
    with translated_operands [OF ok xy] kinds(3) terms_okD(8) [OF ok e(1), of r] show ?thesis
      by (simp add: comparison_passes [OF cmp(3)])
  qed
next
  case (NotE e)
  then show ?case by (auto simp: rbind_Inr_iff terms_okD(4) [OF ok] passes_logic)
next
  case (IsNull e)
  then show ?case by (cases e) (auto simp: terms_okD(1,5) [OF ok] passes_logic)
next
  case (IsNotNull e)
  then show ?case by (cases e) (auto simp: terms_okD(1,6) [OF ok] passes_logic)
qed simp_all

lemma pushable_translation:
  assumes ok: "terms_ok A field_value sat"
  shows "translate_predicate A e = Inr f \<Longrightarrow> pushable r e \<Longrightarrow> passes e r \<Longrightarrow> keeps sat f r"
proof (induction e arbitrary: f)
  case (Binary op a b)
  consider (logic) "op = And \<or> op = Or" | (cmp) "op \<noteq> And" "op \<noteq> Or" "is_comparison op"
    | (other) "op \<noteq> And" "op \<noteq> Or" "\<not> is_comparison op" by blast
  then show ?case
  proof cases
    case logic
    then obtain g h where gh: "translate_predicate A a = Inr g" "translate_predicate A b = Inr h"
      using Binary.prems(1) by (auto simp: rbind_Inr_iff)
    have p: "pushable r a" "pushable r b" using logic Binary.prems(2) by auto
    have keep: "passes a r \<Longrightarrow> keeps sat g r" "passes b r \<Longrightarrow> keeps sat h r"
      using Binary.IH gh p by blast+
    show ?thesis using logic
    proof
      assume op: "op = And"
      then have "keeps sat g r" "keeps sat h r" using keep Binary.prems(3) by (simp_all add: passes_logic)
      then show ?thesis using gh Binary.prems(1)
        by (cases g; cases h) (auto simp: op keeps_def terms_okD(2) [OF ok] kleene_and_def)
    next
      assume op: "op = Or"
      then have "keeps sat g r \<or> keeps sat h r" using keep Binary.prems(3) by (auto simp: passes_logic)
      then show ?thesis using gh Binary.prems(1)
        by (cases g; cases h) (auto simp: op keeps_def terms_okD(3) [OF ok] kleene_or_def)
    qed
  next
    case cmp
    show ?thesis
    proof (cases f)
      case (Some e)
      then obtain x y where xy: "translate_operand A a = Some (Inl x)" "translate_operand A b = Some y"
        and e: "ax_compare A op x y = Inr e"
        using cmp Binary.prems(1)
        by (auto simp: rbind_Inr_iff split: option.splits sum.splits)
      note operands = translated_operands [OF ok xy, of r]
      then have safe: "null_safe op (tev a r) (tev b r)" using cmp Binary.prems(2) by simp
      have holds: "apply_binop op (tev a r) (tev b r) = Inr (VBool True)"
        using Binary.prems(3) by (simp add: comparison_passes [OF cmp(3)])
      then have "tev a r \<noteq> VNone" "tev b r \<noteq> VNone" using null_comparison_fails [OF cmp(3) safe] by auto
      with safe have "same_kind (tev a r) (tev b r)" by (simp add: null_safe_def)
      with operands holds terms_okD(8) [OF ok e, of r] show ?thesis by (simp add: Some keeps_def)
    qed (simp add: keeps_def)
  next
    case other
    then show ?thesis using Binary.prems(1) by (simp add: keeps_def)
  qed
next
  case (NotE e)
  then obtain g where g: "translate_predicate A e = Inr g" "f = map_option (ax_not A) g" by (auto simp: rbind_Inr_iff)
  have e: "exact r e" "\<not> passes e r" using NotE.prems by (simp_all add: passes_logic)
  from exact_translation [OF ok g(1) e(1)] e(2) obtain x where "g = Some x" "sat x r = Some False" by auto
  then show ?case by (simp add: g(2) keeps_def terms_okD(4) [OF ok])
next
  case (IsNull e)
  then show ?case by (cases e) (auto simp: keeps_def terms_okD(1,5) [OF ok] passes_logic split: if_splits)
next
  case (IsNotNull e)
  then show ?case by (cases e) (auto simp: keeps_def terms_okD(1,6) [OF ok] passes_logic split: if_splits)
qed (auto simp: keeps_def)

section \<open>Reading\<close>

text \<open>
  The documented meaning of fragments: \<open>rows_of f\<close> are the rows of a fragment; splitting keeps them, a
  row group records how many there are, and a scan gives, when it succeeds, the rows that match
  the filter, with the requested columns.
\<close>

definition arrow_ok ::
    "('t, 'e, 'd, 'f, 'b) arrow \<Rightarrow> ('e \<Rightarrow> row \<Rightarrow> pval) \<Rightarrow> ('e \<Rightarrow> row \<Rightarrow> bool option) \<Rightarrow> ('f \<Rightarrow> row list) \<Rightarrow> bool" where
  "arrow_ok A field_value sat rows_of \<longleftrightarrow> terms_ok A field_value sat
   \<and> (\<forall>f. concat (map rows_of (split_by_row_group A f)) = rows_of f)
   \<and> (\<forall>f. sum_list (group_sizes A f) = length (rows_of f))
   \<and> (\<forall>f pf rows. to_rows A f None pf = Inr rows \<longrightarrow> rows = filter (keeps sat pf) (rows_of f))
   \<and> (\<forall>f cs pf rows. to_rows A f (Some cs) pf = Inr rows \<longrightarrow>
        rows = map (project_to (map Column cs)) (filter (keeps sat pf) (rows_of f)))"

definition selected :: "string list option \<Rightarrow> row \<Rightarrow> row" where
  "selected columns r = (case columns of None \<Rightarrow> r | Some cs \<Rightarrow> project_to (map Column cs) r)"

lemma gen_append_assoc: "gen_append (gen_append g h) k = gen_append g (gen_append h k)"
  by (induction g) auto

lemma gen_concat_append: "gen_concat (gs @ hs) = gen_append (gen_concat gs) (gen_concat hs)"
  by (induction gs) (auto simp: gen_append_assoc)

lemma read_fragments_append:
  "read_fragments A (fs @ gs) columns pf = gen_append (read_fragments A fs columns pf) (read_fragments A gs columns pf)"
  by (simp add: read_fragments_def gen_concat_append)

lemma read_fragments_concat:
  "gen_concat (map (\<lambda>fs. read_fragments A fs columns pf) fss) = read_fragments A (concat fss) columns pf"
  by (induction fss) (simp_all add: read_fragments_append, simp add: read_fragments_def)

lemma read_fragments_rows:
  assumes "arrow_ok A field_value sat rows_of"
  shows "gen_list (read_fragments A fs columns pf) = Inr rows \<Longrightarrow>
    rows = map (selected columns) (filter (keeps sat pf) (concat (map rows_of fs)))"
proof (induction fs arbitrary: rows)
  case Nil
  then show ?case by (simp add: read_fragments_def)
next
  case (Cons f fs)
  obtain xs ys where xs: "to_rows A f columns pf = Inr xs" "gen_list (read_fragments A fs columns pf) = Inr ys"
      "rows = xs @ ys"
    using Cons.prems by (auto simp: read_fragments_def gen_list_append rbind_Inr_iff split: sum.splits)
  have "xs = map (selected columns) (filter (keeps sat pf) (rows_of f))"
    using assms xs(1) by (cases columns) (auto simp: arrow_ok_def selected_def [abs_def])
  with Cons.IH [OF xs(2)] xs(3) show ?case by simp
qed

lemma row_group_ranges_cover:
  "concat (map (\<lambda>(i, a, b). take (b - a) (drop a fs)) (row_group_ranges (length fs) wanted)) = fs"
proof -
  define n where "n = max 1 (min wanted (if length fs = 0 then 1 else length fs))"
  define k where "k = (if length fs = 0 then 0 else (length fs + n - 1) div n)"
  have "length fs \<le> n * k"
  proof -
    have "0 < n" by (simp add: n_def)
    from ceil_div_mult [OF this, of "length fs"] show ?thesis by (simp add: k_def)
  qed
  then have "concat (map (\<lambda>(i, a, b). take (b - a) (drop a fs)) (chunk_ranges (length fs) k n)) = fs"
    by (rule chunk_ranges_cover)
  then show ?thesis by (simp only: row_group_ranges_def Let_def n_def k_def)
qed

lemma parquet_iterates:
  assumes "parquet_read A src columns f = Inr d"
  obtains dset s pf where "open_dataset A (pq_path src) = Inr dset"
    "arrow_schema_to_minispark A (dataset_schema A dset) = Inr s"
    "(case columns of None \<Rightarrow> Inr s | Some cs \<Rightarrow> schema_select s cs) = Inr (ds_schema d)"
    "(case f of Some e \<Rightarrow> translate_predicate A e | None \<Rightarrow> Inr None) = Inr pf"
    "iter_records d = read_fragments A (concat (map (split_by_row_group A) (get_fragments A dset))) columns pf"
proof -
  obtain dset s t pf where r: "open_dataset A (pq_path src) = Inr dset"
    "arrow_schema_to_minispark A (dataset_schema A dset) = Inr s"
    "(case columns of None \<Rightarrow> Inr s | Some cs \<Rightarrow> schema_select s cs) = Inr t"
    "(case f of Some e \<Rightarrow> translate_predicate A e | None \<Rightarrow> Inr None) = Inr pf"
    using assms by (auto simp: parquet_read_def rbind_Inr_iff Let_def)
  define groups where "groups = concat (map (split_by_row_group A) (get_fragments A dset))"
  define ps where "ps = map (parquet_partition A src groups t columns pf) (row_group_ranges (length groups) (pq_partitions src))"
  have d: "d = \<lparr>ds_schema = t, ds_partitions = (if ps = [] then [bucket_partition t 0 []] else ps)\<rparr>"
    using assms r by (auto simp: parquet_read_def Let_def groups_def ps_def)
  have "map records ps = map (\<lambda>fs. read_fragments A fs columns pf)
      (map (\<lambda>(i, a, b). take (b - a) (drop a groups)) (row_group_ranges (length groups) (pq_partitions src)))"
    by (auto simp: ps_def parquet_partition_def Let_def)
  then have "gen_concat (map records ps) = read_fragments A groups columns pf"
    by (simp only: read_fragments_concat row_group_ranges_cover)
  then have "iter_records d = read_fragments A groups columns pf"
    by (cases "ps = []") (auto simp: d iter_records_def bucket_partition_def)
  with r d show thesis by (intro that) (simp_all add: groups_def)
qed

lemma iterated_scan_rows: "gen_list (iter_records d) = Inr rows \<Longrightarrow> scan_rows d = rows"
proof -
  assume "gen_list (iter_records d) = Inr rows"
  then obtain xss where xss: "rmap gen_list (map records (ds_partitions d)) = Inr xss" "rows = concat xss"
    by (auto simp: iter_records_def gen_list_concat rbind_Inr_iff)
  have "list_all2 (\<lambda>p xs. gen_list (records p) = Inr xs) (ds_partitions d) xss"
    using xss(1) by (simp add: rmap_Inr_iff list_all2_map1)
  then have "map (\<lambda>p. gen_rows (records p)) (ds_partitions d) = xss"
    by (induction rule: list_all2_induct) (auto dest: gen_list_rows)
  then show ?thesis by (simp add: scan_rows_def xss(2))
qed

lemma parquet_names:
  assumes "arrow_schema_to_minispark A fs = Inr s"
    and "(case columns of None \<Rightarrow> Inr s | Some cs \<Rightarrow> schema_select s cs) = Inr t"
  shows "field_names t = (case columns of None \<Rightarrow> field_names s | Some cs \<Rightarrow> cs)"
  using assms by (cases columns) (auto dest: schema_select_names)

text \<open>
  C13: A filter pushed into Parquet loses no row. On every row of the table, let each comparison in
  the filter, but for those with the literal null, have two operands of one type (both bool, both
  int, both float or both str; a float column against an int literal is excluded), or a null operand
  under an operator other than != and, for =, a value beside it; and let everything under a Not be
  translatable as a whole (And, Or, Not, IsNull or IsNotNull of a column, and comparisons of a column
  with a column or a literal), with no null in its comparisons. If the whole table and the
  hinted read can both be iterated, then the read keeps the contract of a data source: it yields rows
  of the table, among them every row that passes the filter, in order, with exactly the requested
  columns.
\<close>

theorem parquet_read_honours:
  assumes "arrow_ok A field_value sat rows_of"
    and "parquet_read A src None None = Inr d" "gen_list (iter_records d) = Inr rows"
    and "parquet_read A src columns f = Inr d'" "gen_list (iter_records d') = Inr rows'"
    and "\<forall>e r. f = Some e \<and> r \<in> set rows \<longrightarrow> pushable r e"
  shows "honours d columns f d'"
proof -
  obtain dset s where full: "open_dataset A (pq_path src) = Inr dset"
      "arrow_schema_to_minispark A (dataset_schema A dset) = Inr s" "ds_schema d = s"
      "iter_records d = read_fragments A (concat (map (split_by_row_group A) (get_fragments A dset))) None None"
    by (rule parquet_iterates [OF assms(2)]) (rule that, auto)
  obtain dset' s' pf where p: "open_dataset A (pq_path src) = Inr dset'"
      "arrow_schema_to_minispark A (dataset_schema A dset') = Inr s'"
      "(case columns of None \<Rightarrow> Inr s' | Some cs \<Rightarrow> schema_select s' cs) = Inr (ds_schema d')"
      "(case f of Some e \<Rightarrow> translate_predicate A e | None \<Rightarrow> Inr None) = Inr pf"
      "iter_records d' = read_fragments A (concat (map (split_by_row_group A) (get_fragments A dset'))) columns pf"
    by (rule parquet_iterates [OF assms(4)])
  have same: "dset' = dset" "s' = s" using full(1,2) p(1,2) by auto
  note pruned = p(3-5) [unfolded same]
  have rows: "rows = concat (map rows_of (concat (map (split_by_row_group A) (get_fragments A dset))))"
    using read_fragments_rows [OF assms(1) assms(3) [unfolded full(4)]] by (simp add: selected_def [abs_def] keeps_def)
  have rows': "rows' = map (selected columns) (filter (keeps sat pf) rows)"
    using read_fragments_rows [OF assms(1) assms(5) [unfolded pruned(3)]] by (simp add: rows)
  have kept: "keeps sat pf r" if "f = Some e" "r \<in> set rows" "passes e r" for e r
    using that assms(1,6) pruned(2) by (auto simp: arrow_ok_def intro!: pushable_translation)
  have "hinted_filter f (filter (keeps sat pf) rows) = hinted_filter f rows"
    using kept pruned(2) by (cases f) (auto simp: hinted_filter_def keeps_def intro: filter_cong)
  moreover have "field_names (ds_schema d') = (case columns of None \<Rightarrow> field_names (ds_schema d) | Some cs \<Rightarrow> cs)"
    using parquet_names [OF full(2) pruned(1)] by (simp add: full(3) split: option.splits)
  moreover have "scan_rows d = rows" "scan_rows d' = rows'" by (rule iterated_scan_rows; fact)+
  ultimately show ?thesis unfolding honours_def
    by (intro exI [of _ "filter (keeps sat pf) rows"]) (auto simp: rows' selected_def [abs_def] split: option.split)
qed

section \<open>A concrete pyarrow\<close>

text \<open>Expressions as functions from a row to its value, a truth value or null; one row to a row group.\<close>

definition sample_sat :: "(row \<Rightarrow> pval) \<Rightarrow> row \<Rightarrow> bool option" where
  "sample_sat x r = (case x r of VBool b \<Rightarrow> Some b | _ \<Rightarrow> None)"

definition truth_value :: "bool option \<Rightarrow> pval" where
  "truth_value t = (case t of Some b \<Rightarrow> VBool b | None \<Rightarrow> VNone)"

definition sample_compare :: "binop \<Rightarrow> (row \<Rightarrow> pval) \<Rightarrow> (row \<Rightarrow> pval) + pval \<Rightarrow> (row \<Rightarrow> pval) res" where
  "sample_compare op x y = Inr (\<lambda>r. let v = x r; w = scalar (\<lambda>e. e) y r in
     if v = VNone \<or> w = VNone then VNone
     else case apply_binop op v w of Inr u \<Rightarrow> VBool (u = VBool True) | Inl _ \<Rightarrow> VBool False)"

definition sample_arrow :: "row list \<Rightarrow> (dtype, row \<Rightarrow> pval, unit, row list, unit) arrow" where
  "sample_arrow rows =
     \<lparr>is_boolean = (\<lambda>t. t = BoolType), is_integer = (\<lambda>t. t = IntType), is_floating = (\<lambda>t. t = FloatType),
      is_string = (\<lambda>t. t = StringType), is_large_string = (\<lambda>_. False), is_null = (\<lambda>t. t = NullType),
      bool_type = BoolType, int64_type = IntType, float64_type = FloatType, string_type = StringType,
      null_type = NullType,
      ax_field = (\<lambda>n r. tev (Column n) r),
      ax_and = (\<lambda>x y r. truth_value (kleene_and (sample_sat x r) (sample_sat y r))),
      ax_or = (\<lambda>x y r. truth_value (kleene_or (sample_sat x r) (sample_sat y r))),
      ax_not = (\<lambda>x r. truth_value (map_option Not (sample_sat x r))),
      ax_is_null = (\<lambda>x r. VBool (x r = VNone)), ax_is_valid = (\<lambda>x r. VBool (x r \<noteq> VNone)),
      ax_compare = sample_compare,
      open_dataset = (\<lambda>_. Inr ()),
      dataset_schema = (\<lambda>_. [(''x'', IntType, True), (''s'', StringType, True)]),
      get_fragments = (\<lambda>_. [rows]), split_by_row_group = map (\<lambda>r. [r]), group_sizes = (\<lambda>f. [length f]),
      to_rows = (\<lambda>f cs pf. Inr (map (selected cs) (filter (keeps sample_sat pf) f))),
      table_bytes = (\<lambda>_ _. Inr [])\<rparr>"

lemma sample_sat_truth [simp]: "(case truth_value t of VBool b \<Rightarrow> Some b | _ \<Rightarrow> None) = t"
  by (cases t) (auto simp: truth_value_def)

lemma same_kind_not_null: "same_kind v w \<Longrightarrow> v \<noteq> VNone \<and> w \<noteq> VNone"
  by (cases v; cases w) auto

lemma sample_arrow_ok: "arrow_ok (sample_arrow rows) (\<lambda>x r. x r) sample_sat (\<lambda>f. f)"
proof -
  have "terms_ok (sample_arrow rows) (\<lambda>x r. x r) sample_sat"
    unfolding terms_ok_def
    by (auto simp: sample_arrow_def sample_compare_def sample_sat_def Let_def dest: same_kind_not_null split: sum.split)
  moreover have "concat (map (\<lambda>f. f) (map (\<lambda>r. [r]) f)) = f" for f :: "row list" by (induction f) auto
  ultimately show ?thesis by (simp add: arrow_ok_def sample_arrow_def selected_def [abs_def])
qed

definition some_rows :: "row list" where
  "some_rows = map (\<lambda>(x, s). [(''x'', x), (''s'', VStr s)]) [(VInt 1, ''a''), (VNone, ''b''), (VInt 7, ''c'')]"

theorem parquet_read_honours_witness:
  "\<exists>d d'. parquet_read (sample_arrow some_rows) (mk_parquet_source ''t'' 2) None None = Inr d
     \<and> parquet_read (sample_arrow some_rows) (mk_parquet_source ''t'' 2) (Some [''x''])
         (Some (Binary GreaterThan (Column ''x'') (Literal (VInt 2)))) = Inr d'
     \<and> honours d (Some [''x'']) (Some (Binary GreaterThan (Column ''x'') (Literal (VInt 2)))) d'
     \<and> scan_rows d' = [[(''x'', VInt 7)]]"
proof -
  let ?e = "Binary GreaterThan (Column ''x'') (Literal (VInt 2))"
  let ?read = "parquet_read (sample_arrow some_rows) (mk_parquet_source ''t'' 2)"
  have reads: "map_sum id (\<lambda>d. gen_list (iter_records d)) (?read None None) = Inr (Inr some_rows)"
      "map_sum id (\<lambda>d. gen_list (iter_records d)) (?read (Some [''x'']) (Some ?e)) = Inr (Inr [[(''x'', VInt 7)]])"
      "\<forall>r \<in> set some_rows. pushable r ?e"
    by code_simp+
  then obtain d d' where d: "?read None None = Inr d" "gen_list (iter_records d) = Inr some_rows"
    and d': "?read (Some [''x'']) (Some ?e) = Inr d'" "gen_list (iter_records d') = Inr [[(''x'', VInt 7)]]"
    by (cases "?read None None"; cases "?read (Some [''x'']) (Some ?e)") auto
  from parquet_read_honours [OF sample_arrow_ok d d'] reads(3)
  have "honours d (Some [''x'']) (Some ?e) d'" by auto
  with d(1) d' iterated_scan_rows show ?thesis by blast
qed

text \<open>
  Without the side condition the contract is broken: a null differs from 5 for the row engine, and
  the pushed inequality drops its row.
\<close>

lemma pushed_inequality_drops_nulls:
  "passes (Binary NotEqual (Column ''x'') (Literal (VInt 5))) [(''x'', VNone), (''s'', VStr ''b'')]"
  "map_sum id (\<lambda>d. gen_list (iter_records d))
     (parquet_read (sample_arrow [[(''x'', VNone), (''s'', VStr ''b'')]]) (mk_parquet_source ''t'' 2) None
       (Some (Binary NotEqual (Column ''x'') (Literal (VInt 5))))) = Inr (Inr [])"
  by code_simp+

text \<open>A negated conjunction with an untranslatable side: only the negation of the other side is pushed.\<close>

lemma pushed_negation_drops_rows:
  "passes (NotE (Binary And (Binary GreaterThan (Column ''x'') (Literal (VInt 2))) (Binary Equal (Literal (VInt 1)) (Literal (VInt 2)))))
     [(''x'', VInt 7), (''s'', VStr ''c'')]"
  "map_sum id (\<lambda>d. gen_list (iter_records d))
     (parquet_read (sample_arrow [[(''x'', VInt 7), (''s'', VStr ''c'')]]) (mk_parquet_source ''t'' 2) None
       (Some (NotE (Binary And (Binary GreaterThan (Column ''x'') (Literal (VInt 2)))
                               (Binary Equal (Literal (VInt 1)) (Literal (VInt 2))))))) = Inr (Inr [])"
  by code_simp+

section \<open>Schemas and files written\<close>

text \<open>The tests tell the five types apart.\<close>

definition types_ok :: "('t, 'e, 'z) arrow_terms_scheme \<Rightarrow> bool" where
  "types_ok A \<longleftrightarrow> is_boolean A (bool_type A)
   \<and> \<not> is_boolean A (int64_type A) \<and> is_integer A (int64_type A)
   \<and> \<not> is_boolean A (float64_type A) \<and> \<not> is_integer A (float64_type A) \<and> is_floating A (float64_type A)
   \<and> \<not> is_boolean A (string_type A) \<and> \<not> is_integer A (string_type A) \<and> \<not> is_floating A (string_type A)
   \<and> (is_string A (string_type A) \<or> is_large_string A (string_type A))
   \<and> \<not> is_boolean A (null_type A) \<and> \<not> is_integer A (null_type A) \<and> \<not> is_floating A (null_type A)
   \<and> \<not> is_string A (null_type A) \<and> \<not> is_large_string A (null_type A) \<and> is_null A (null_type A)"

lemma arrow_type_round_trip: "types_ok A \<Longrightarrow> arrow_type_to_datatype A (datatype_to_arrow_type A t) = Inr t"
  by (cases t) (auto simp: types_ok_def arrow_type_to_datatype_def)

text \<open>
  A schema survives Parquet: the Arrow schema that is written for it is read back as the same
  fields, with their types and nullability.
\<close>

theorem parquet_schema_round_trip:
  assumes "types_ok A" "mk_schema fs = Inr s"
  shows "arrow_schema_to_minispark A (minispark_schema_to_arrow A s) = Inr s"
proof -
  have "rmap (\<lambda>(n, t, null). rbind (arrow_type_to_datatype A t) (\<lambda>dt.
      Inr \<lparr>fname = n, data_type = dt, nullable = null\<rparr>)) (minispark_schema_to_arrow A xs) = Inr xs" for xs
    using arrow_type_round_trip [OF assms(1)] by (induction xs) (auto simp: minispark_schema_to_arrow_def)
  then show ?thesis using assms(2) by (auto simp: arrow_schema_to_minispark_def res_simps)
qed

theorem parquet_schema_round_trip_witness:
  "arrow_schema_to_minispark (sample_arrow [])
     (minispark_schema_to_arrow (sample_arrow []) [\<lparr>fname = ''a'', data_type = FloatType, nullable = True\<rparr>])
   = Inr [\<lparr>fname = ''a'', data_type = FloatType, nullable = True\<rparr>]"
proof -
  have "types_ok (sample_arrow [])" by (simp add: types_ok_def sample_arrow_def)
  from parquet_schema_round_trip [OF this, of "[\<lparr>fname = ''a'', data_type = FloatType, nullable = True\<rparr>]"]
  show ?thesis by (simp add: mk_schema_def)
qed

end
