(* ===== verification/Checkpoint.thy ===== *)
theory Checkpoint
  imports ShuffleStore
begin

text \<open>
  Checkpoints (\<^verbatim>\<open>storage/checkpoint.py\<close>): a dataset written to a directory, one file of back-to-back
  pickles per partition and a file with the schema and the partitions' paths and row counts, and the
  data source that reads it back.  Records are pickled as in shuffle blocks; the pickle of the
  schema and the parts is a second pair of functions.
\<close>

record checkpoint_part =
  ck_partition_id :: nat
  ck_path :: string
  ck_row_count :: nat

record 'b meta_codec =
  meta_dumps :: "schema \<times> checkpoint_part list \<Rightarrow> 'b list"
  meta_load :: "'b list \<Rightarrow> (schema \<times> checkpoint_part list) res"

text \<open>Loading what was dumped gives it back.\<close>

definition meta_ok :: "'b meta_codec \<Rightarrow> bool" where
  "meta_ok m = (\<forall>x. meta_load m (meta_dumps m x) = Inr x)"

definition META_FILENAME :: string where
  "META_FILENAME = ''_meta.pkl''"

definition meta_path :: "string \<Rightarrow> string" where
  "meta_path dir = dir @ ''/'' @ META_FILENAME"

definition checkpoint_path :: "string \<Rightarrow> nat \<Rightarrow> string" where
  "checkpoint_path dir i = dir @ ''/partition_'' @ nat_str i @ ''.pkl''"

section \<open>Writing\<close>

definition append_file :: "string \<Rightarrow> 'b list \<Rightarrow> 'b files \<Rightarrow> 'b files" where
  "append_file p bs fs = fs(p \<mapsto> (case fs p of Some old \<Rightarrow> old | None \<Rightarrow> []) @ bs)"

text \<open>The rows of one partition; an error while they are computed leaves the file as it is.\<close>

fun dump_rows :: "'b codec \<Rightarrow> string \<Rightarrow> row gen \<Rightarrow> nat \<Rightarrow> 'b files \<Rightarrow> 'b files \<times> nat res" where
  "dump_rows c p Stop k fs = (fs, Inr k)"
| "dump_rows c p (Raise e) k fs = (fs, Inl e)"
| "dump_rows c p (Yield r g) k fs = dump_rows c p g (k + 1) (append_file p (dumps c r) fs)"

fun write_parts ::
    "'b codec \<Rightarrow> string \<Rightarrow> partition list \<Rightarrow> 'b files \<Rightarrow> 'b files \<times> checkpoint_part list res" where
  "write_parts c dir [] fs = (fs, Inr [])"
| "write_parts c dir (p # ps) fs =
     (let file = checkpoint_path dir (partition_id p) in
      case dump_rows c file (records p) 0 (fs(file \<mapsto> [])) of
        (fs1, Inl e) \<Rightarrow> (fs1, Inl e)
      | (fs1, Inr k) \<Rightarrow>
          (case write_parts c dir ps fs1 of
             (fs2, r) \<Rightarrow>
               (fs2, rbind r (\<lambda>parts.
                  Inr (\<lparr>ck_partition_id = partition_id p, ck_path = file, ck_row_count = k\<rparr> # parts)))))"

definition write_checkpoint ::
    "'b codec \<Rightarrow> 'b meta_codec \<Rightarrow> dataset \<Rightarrow> string \<Rightarrow> 'b files \<Rightarrow> 'b files \<times> unit res" where
  "write_checkpoint c m d dir fs =
     (case write_parts c dir (ds_partitions d) fs of
        (fs1, Inl e) \<Rightarrow> (fs1, Inl e)
      | (fs1, Inr parts) \<Rightarrow> (fs1(meta_path dir \<mapsto> meta_dumps m (ds_schema d, parts)), Inr ()))"

section \<open>Reading\<close>

definition project_record :: "string list option \<Rightarrow> row \<Rightarrow> row res" where
  "project_record columns r =
     (case columns of
        None \<Rightarrow> Inr r
      | Some cs \<Rightarrow> rbind (rmap (\<lambda>n. rbind (row_get r n) (\<lambda>v. Inr (n, v))) cs) (\<lambda>kvs. Inr (dict_of kvs)))"

definition read_checkpoint_partition :: "'b codec \<Rightarrow> 'b files \<Rightarrow> string \<Rightarrow> string list option \<Rightarrow> row gen" where
  "read_checkpoint_partition c fs p columns =
     (case fs p of
        None \<Rightarrow> Raise (FileNotFoundError p)
      | Some bs \<Rightarrow> gen_map (project_record columns) (load_records c (Suc (length bs)) bs))"

record checkpoint_source =
  ck_directory :: string
  ck_schema :: schema
  ck_parts :: "checkpoint_part list"

definition mk_checkpoint_source :: "'b meta_codec \<Rightarrow> 'b files \<Rightarrow> string \<Rightarrow> checkpoint_source res" where
  "mk_checkpoint_source m fs dir =
     (case fs (meta_path dir) of
        None \<Rightarrow> Inl (FileNotFoundError dir)
      | Some bs \<Rightarrow> rbind (meta_load m bs) (\<lambda>(s, parts).
          Inr \<lparr>ck_directory = dir, ck_schema = s, ck_parts = parts\<rparr>))"

definition checkpoint_read ::
    "'b codec \<Rightarrow> 'b files \<Rightarrow> checkpoint_source \<Rightarrow> string list option \<Rightarrow> expr option \<Rightarrow> dataset res" where
  "checkpoint_read c fs src columns filt =
     rbind (case columns of Some cs \<Rightarrow> schema_select (ck_schema src) cs | None \<Rightarrow> Inr (ck_schema src)) (\<lambda>s.
       Inr \<lparr>ds_schema = s,
            ds_partitions = map (\<lambda>p. \<lparr>partition_id = ck_partition_id p, part_schema = s,
                records = read_checkpoint_partition c fs (ck_path p) columns,
                metadata = (counted_meta (Some (ck_row_count p)))\<lparr>location := Some (ck_path p)\<rparr>\<rparr>)
              (ck_parts src)\<rparr>)"

section \<open>What is written\<close>

lemma checkpoint_path_inj [simp]: "checkpoint_path dir i = checkpoint_path dir j \<longleftrightarrow> i = j"
  by (simp add: checkpoint_path_def)

lemma checkpoint_path_meta [simp]: "checkpoint_path dir i \<noteq> meta_path dir"
  by (simp add: checkpoint_path_def meta_path_def META_FILENAME_def)

lemma dump_rows_gen_of:
  "fs p = Some bs \<Longrightarrow> dump_rows c p (gen_of rows) k fs = (fs(p \<mapsto> bs @ dump_all c rows), Inr (k + length rows))"
  by (induction rows arbitrary: k fs bs) (auto simp: append_file_def)

lemma write_parts_rows:
  assumes "distinct (map partition_id ps)" "list_all2 (\<lambda>p rows. records p = gen_of rows) ps rowss"
  shows "\<exists>fs'. write_parts c dir ps fs = (fs', Inr (map2 (\<lambda>p rows.
        \<lparr>ck_partition_id = partition_id p, ck_path = checkpoint_path dir (partition_id p),
         ck_row_count = length rows\<rparr>) ps rowss))
    \<and> list_all2 (\<lambda>p rows. fs' (checkpoint_path dir (partition_id p)) = Some (dump_all c rows)) ps rowss
    \<and> (\<forall>q. q \<notin> (checkpoint_path dir \<circ> partition_id) ` set ps \<longrightarrow> fs' q = fs q)"
  using assms(2,1)
proof (induction arbitrary: fs rule: list_all2_induct)
  case Nil
  then show ?case by simp
next
  case (Cons p ps rows rowss)
  let ?file = "checkpoint_path dir (partition_id p)"
  let ?fs1 = "fs(?file \<mapsto> dump_all c rows)"
  have dump: "dump_rows c ?file (records p) 0 (fs(?file \<mapsto> [])) = (?fs1, Inr (length rows))"
    using dump_rows_gen_of [of "fs(?file \<mapsto> [])" ?file "[]" c rows 0] Cons.hyps(1) by simp
  have "distinct (map partition_id ps)" using Cons.prems by simp
  from Cons.IH [OF this, of ?fs1] obtain fs' where fs': "write_parts c dir ps ?fs1 = (fs', Inr (map2 (\<lambda>p rows.
        \<lparr>ck_partition_id = partition_id p, ck_path = checkpoint_path dir (partition_id p),
         ck_row_count = length rows\<rparr>) ps rowss))"
    "list_all2 (\<lambda>p rows. fs' (checkpoint_path dir (partition_id p)) = Some (dump_all c rows)) ps rowss"
    "\<forall>q. q \<notin> (checkpoint_path dir \<circ> partition_id) ` set ps \<longrightarrow> fs' q = ?fs1 q" by blast
  have "?file \<notin> (checkpoint_path dir \<circ> partition_id) ` set ps" using Cons.prems by auto
  then have "fs' ?file = Some (dump_all c rows)" using fs'(3) by simp
  with dump fs' show ?case by (auto simp: Let_def)
qed

end
