(* ===== verification/StorageApi.thy ===== *)
theory StorageApi
  imports DataFrameApi CsvSource Checkpoint Parquet
begin

text \<open>
  Reading and writing from the public interface: \<^verbatim>\<open>DataFrameReader\<close> and \<^verbatim>\<open>MiniSparkSessionBuilder\<close>
  (\<^verbatim>\<open>api/session.py\<close>), \<^verbatim>\<open>DataFrame.checkpoint\<close> (\<^verbatim>\<open>api/dataframe.py\<close>) and \<^verbatim>\<open>DataFrameWriter\<close>
  (\<^verbatim>\<open>api/writer.py\<close>).
\<close>

section \<open>Readers\<close>

definition reader_csv :: "text_files \<Rightarrow> string \<Rightarrow> schema option \<Rightarrow> int \<Rightarrow> lplan res" where
  "reader_csv disk source_path s n =
     rbind (mk_csv_source disk source_path s n) (\<lambda>src. rbind (csv_read disk src None None) (\<lambda>d.
       Inr (Scan d (''csv:'' @ source_path) (Some (csv_read disk src)))))"

definition reader_parquet :: "('t, 'e, 'd, 'f, 'b) arrow \<Rightarrow> string \<Rightarrow> int \<Rightarrow> lplan res" where
  "reader_parquet A source_path n =
     (let src = mk_parquet_source source_path n
      in rbind (parquet_read A src None None) (\<lambda>d.
           Inr (Scan d (''parquet:'' @ source_path) (Some (parquet_read A src)))))"

section \<open>The builder\<close>

definition builder_master :: "string \<Rightarrow> session_builder \<Rightarrow> session_builder" where
  "builder_master v b = b\<lparr>sb_master := v\<rparr>"

definition builder_app_name :: "string \<Rightarrow> session_builder \<Rightarrow> session_builder" where
  "builder_app_name v b = b\<lparr>sb_app_name := v\<rparr>"

section \<open>Checkpoints and written tables\<close>

text \<open>
  \<open>fresh\<close> is the directory that \<^verbatim>\<open>tempfile.mkdtemp\<close> makes when none is given; an empty name counts as
  none.  The plan that is returned reads the files as they are after the write.
\<close>

definition df_checkpoint ::
    "'b env \<Rightarrow> 'b meta_codec \<Rightarrow> nat option \<Rightarrow> nat \<Rightarrow> string \<Rightarrow> string \<Rightarrow> session \<Rightarrow> lplan \<Rightarrow> string option
     \<Rightarrow> ('b files \<times> lplan res) option" where
  "df_checkpoint env m rss fuel rdir fresh s df directory =
     (let c = env_codec env;
          target = (case directory of Some dir \<Rightarrow> if dir = [] then fresh else dir | None \<Rightarrow> fresh)
      in map_option (\<lambda>(disk, r).
           case r of
             Inl e \<Rightarrow> (disk, Inl e)
           | Inr d \<Rightarrow>
               (case write_checkpoint c m d target disk of
                  (disk', w) \<Rightarrow>
                    (disk', rbind w (\<lambda>_. rbind (mk_checkpoint_source m disk' target) (\<lambda>src.
                       rbind (checkpoint_read c disk' src None None) (\<lambda>d'.
                         Inr (Scan d' (''checkpoint:'' @ target) (Some (checkpoint_read c disk' src)))))))))
         (collect_dataset env rss fuel rdir s df))"

definition writer_parquet ::
    "('t, 'e, 'd, 'f, 'b) arrow \<Rightarrow> 'b env \<Rightarrow> nat option \<Rightarrow> nat \<Rightarrow> string \<Rightarrow> session \<Rightarrow> lplan \<Rightarrow> string
     \<Rightarrow> ('b files \<times> unit res) option" where
  "writer_parquet A env rss fuel rdir s df target =
     map_option (\<lambda>(disk, r).
       case r of Inl e \<Rightarrow> (disk, Inl e) | Inr d \<Rightarrow> write_parquet_dataset A d target disk)
       (collect_dataset env rss fuel rdir s df)"

end
