(* ===== verification/CheckpointCorrect.thy ===== *)
theory CheckpointCorrect
  imports StorageApi QueryCorrect
begin

text \<open>
  A checkpoint is read back as it was written, and the data frame that \<^verbatim>\<open>checkpoint()\<close> returns stands
  for the same rows as the query it cuts off.
\<close>

section \<open>Writing and reading back\<close>

definition written_parts :: "string \<Rightarrow> partition list \<Rightarrow> row list list \<Rightarrow> checkpoint_part list" where
  "written_parts dir ps rowss = map2 (\<lambda>p rows.
     \<lparr>ck_partition_id = partition_id p, ck_path = checkpoint_path dir (partition_id p),
      ck_row_count = length rows\<rparr>) ps rowss"

lemma written_checkpoint:
  assumes "pickle_ok c" "meta_ok m" "distinct (map partition_id (ds_partitions d))"
    and "list_all2 (\<lambda>p rows. records p = gen_of rows) (ds_partitions d) rowss"
  obtains fs' where "write_checkpoint c m d dir fs = (fs', Inr ())"
    "mk_checkpoint_source m fs' dir = Inr \<lparr>ck_directory = dir, ck_schema = ds_schema d,
       ck_parts = written_parts dir (ds_partitions d) rowss\<rparr>"
    "list_all2 (\<lambda>q rows. ck_row_count q = length rows \<and> (\<forall>columns.
       read_checkpoint_partition c fs' (ck_path q) columns = gen_map (project_record columns) (gen_of rows)))
      (written_parts dir (ds_partitions d) rowss) rowss"
    "map ck_partition_id (written_parts dir (ds_partitions d) rowss) = map partition_id (ds_partitions d)"
    "\<forall>q. q \<noteq> meta_path dir \<and> q \<notin> range (checkpoint_path dir) \<longrightarrow> fs' q = fs q"
proof -
  let ?ps = "ds_partitions d"
  let ?parts = "written_parts dir ?ps rowss"
  obtain fs1 where fs1: "write_parts c dir ?ps fs = (fs1, Inr ?parts)"
    "list_all2 (\<lambda>p rows. fs1 (checkpoint_path dir (partition_id p)) = Some (dump_all c rows)) ?ps rowss"
    "\<forall>q. q \<notin> (checkpoint_path dir \<circ> partition_id) ` set ?ps \<longrightarrow> fs1 q = fs q"
    using write_parts_rows [OF assms(3,4), of c dir fs] unfolding written_parts_def by blast
  let ?fs' = "fs1(meta_path dir \<mapsto> meta_dumps m (ds_schema d, ?parts))"
  have meta: "meta_path dir \<noteq> checkpoint_path dir i" for i by (metis checkpoint_path_meta)
  have parts: "list_all2 (\<lambda>q rows. ck_row_count q = length rows \<and> (\<forall>columns.
       read_checkpoint_partition c ?fs' (ck_path q) columns = gen_map (project_record columns) (gen_of rows))) ?parts rowss"
    using fs1(2) load_records_dumped [OF assms(1)] meta
    unfolding list_all2_conv_all_nth by (auto simp: written_parts_def read_checkpoint_partition_def simp del: load_records.simps)
  have wrote: "write_checkpoint c m d dir fs = (?fs', Inr ())" by (simp add: write_checkpoint_def fs1(1))
  have source: "mk_checkpoint_source m ?fs' dir = Inr \<lparr>ck_directory = dir, ck_schema = ds_schema d, ck_parts = ?parts\<rparr>"
    using assms(2) by (simp add: mk_checkpoint_source_def meta_ok_def)
  have ids: "map ck_partition_id ?parts = map partition_id ?ps"
    using list_all2_lengthD [OF assms(4)] by (intro nth_equalityI) (simp_all add: written_parts_def)
  have frame: "\<forall>q. q \<noteq> meta_path dir \<and> q \<notin> range (checkpoint_path dir) \<longrightarrow> ?fs' q = fs q"
    using fs1(3) by auto
  show thesis by (rule that [OF wrote source parts ids frame])
qed

lemma checkpoint_parts_read:
  assumes "list_all2 (\<lambda>q rows. ck_row_count q = length rows \<and> (\<forall>columns.
       read_checkpoint_partition c fs (ck_path q) columns = gen_map (project_record columns) (gen_of rows)))
      (ck_parts src) rowss"
    and "checkpoint_read c fs src columns f = Inr d"
  shows "list_all2 (\<lambda>q rows. records q = gen_map (project_record columns) (gen_of rows)
      \<and> part_row_count q = Some (length rows)) (ds_partitions d) rowss
    \<and> map partition_id (ds_partitions d) = map ck_partition_id (ck_parts src)"
proof -
  obtain s where d: "d = \<lparr>ds_schema = s, ds_partitions = map (\<lambda>p. \<lparr>partition_id = ck_partition_id p, part_schema = s,
      records = read_checkpoint_partition c fs (ck_path p) columns,
      metadata = (counted_meta (Some (ck_row_count p)))\<lparr>location := Some (ck_path p)\<rparr>\<rparr>) (ck_parts src)\<rparr>"
    using assms(2) by (auto simp: checkpoint_read_def rbind_Inr_iff)
  then show ?thesis using assms(1)
    by (auto simp: list_all2_map1 part_row_count_def counted_meta_def comp_def elim!: list_all2_mono)
qed

lemma project_record_None: "gen_map (project_record None) (gen_of rows) = gen_of rows"
  by (induction rows) (auto simp: project_record_def)

text \<open>
  C20: A checkpoint is read back as it was written: with the schema, the partitions with their
  numbers, rows and row counts. Files outside the checkpoint are left alone.
\<close>

theorem checkpoint_round_trip:
  assumes "pickle_ok c" "meta_ok m" "distinct (map partition_id (ds_partitions d))"
    and "map part_to_list (ds_partitions d) = map Inr rowss"
  shows "\<exists>fs' src d'. write_checkpoint c m d dir fs = (fs', Inr ())
    \<and> mk_checkpoint_source m fs' dir = Inr src \<and> checkpoint_read c fs' src None f = Inr d'
    \<and> ds_schema d' = ds_schema d \<and> map partition_id (ds_partitions d') = map partition_id (ds_partitions d)
    \<and> map part_to_list (ds_partitions d') = map Inr rowss
    \<and> map part_row_count (ds_partitions d') = map (\<lambda>rows. Some (length rows)) rowss
    \<and> (\<forall>q. q \<noteq> meta_path dir \<and> q \<notin> range (checkpoint_path dir) \<longrightarrow> fs' q = fs q)"
proof -
  have rows: "list_all2 (\<lambda>p rows. records p = gen_of rows) (ds_partitions d) rowss"
    using assms(4) by (auto simp: list_all2_conv_all_nth list_eq_iff_nth_eq part_to_list_def gen_list_Inr_iff)
  let ?parts = "written_parts dir (ds_partitions d) rowss"
  let ?src = "\<lparr>ck_directory = dir, ck_schema = ds_schema d, ck_parts = ?parts\<rparr>"
  obtain fs' where w: "write_checkpoint c m d dir fs = (fs', Inr ())" "mk_checkpoint_source m fs' dir = Inr ?src"
    and parts: "list_all2 (\<lambda>q rows. ck_row_count q = length rows \<and> (\<forall>columns.
       read_checkpoint_partition c fs' (ck_path q) columns = gen_map (project_record columns) (gen_of rows))) ?parts rowss"
    and ids: "map ck_partition_id ?parts = map partition_id (ds_partitions d)"
    and frame: "\<forall>q. q \<noteq> meta_path dir \<and> q \<notin> range (checkpoint_path dir) \<longrightarrow> fs' q = fs q"
    by (rule written_checkpoint [OF assms(1-3) rows])
  obtain d' where d': "checkpoint_read c fs' ?src None f = Inr d'" "ds_schema d' = ds_schema d"
    by (simp add: checkpoint_read_def)
  have read: "list_all2 (\<lambda>q rows. records q = gen_of rows \<and> part_row_count q = Some (length rows)) (ds_partitions d') rowss"
      "map partition_id (ds_partitions d') = map partition_id (ds_partitions d)"
    using checkpoint_parts_read [of c fs' ?src, OF _ d'(1)] parts ids by (simp_all add: project_record_None)
  have "map part_to_list (ds_partitions d') = map Inr rowss"
      "map part_row_count (ds_partitions d') = map (\<lambda>rows. Some (length rows)) rowss"
    using read(1) by (auto simp: list_all2_conv_all_nth list_eq_iff_nth_eq part_to_list_def)
  with w d' read(2) frame show ?thesis by blast
qed

section \<open>The checkpoint as a data source\<close>

text \<open>A checkpoint whose partitions hold the given rows, which have the columns of the schema.\<close>

definition readable :: "'b codec \<Rightarrow> 'b files \<Rightarrow> checkpoint_source \<Rightarrow> row list list \<Rightarrow> bool" where
  "readable c fs src rowss \<longleftrightarrow>
     list_all2 (\<lambda>q rows. ck_row_count q = length rows \<and> (\<forall>columns.
       read_checkpoint_partition c fs (ck_path q) columns = gen_map (project_record columns) (gen_of rows)))
       (ck_parts src) rowss
   \<and> (\<forall>r \<in> set (concat rowss). map fst r = field_names (ck_schema src))"

lemma gen_rows_map: "(\<And>r. r \<in> set rows \<Longrightarrow> f r = Inr (g r)) \<Longrightarrow> gen_rows (gen_map f (gen_of rows)) = map g rows"
  by (induction rows) auto

lemma readable_rows:
  assumes "readable c fs src rowss" "checkpoint_read c fs src columns f = Inr d"
    and "\<And>r. r \<in> set (concat rowss) \<Longrightarrow> project_record columns r = Inr (g r)"
  shows "scan_rows d = map g (concat rowss)"
proof -
  have "list_all2 (\<lambda>q rows. records q = gen_map (project_record columns) (gen_of rows)
      \<and> part_row_count q = Some (length rows)) (ds_partitions d) rowss"
    using checkpoint_parts_read [of c fs src rowss, OF _ assms(2)] assms(1) by (simp add: readable_def)
  then have "map (\<lambda>q. gen_rows (records q)) (ds_partitions d) = map (map g) rowss"
    using assms(3)
  proof (induction rule: list_all2_induct)
    case (Cons q qs rows rowss)
    then show ?case by (simp add: gen_rows_map)
  qed simp
  then show ?thesis by (simp add: scan_rows_def map_concat)
qed

lemma project_record_to:
  assumes "map fst r = ns" "set cs \<subseteq> set ns" "distinct cs"
  shows "project_record (Some cs) r = Inr (project_to (map Column cs) r)"
proof -
  have "rbind (row_get r n) (\<lambda>v. Inr (n, v)) = Inr (n, tev (Column n) r)" if "n \<in> set cs" for n
  proof -
    have "map_of r n \<noteq> None" using that assms(1,2) by (metis map_of_eq_None_iff set_map subsetD)
    then show ?thesis by (auto simp: row_get_def)
  qed
  then have "rmap (\<lambda>n. rbind (row_get r n) (\<lambda>v. Inr (n, v))) cs = Inr (map (\<lambda>n. (n, tev (Column n) r)) cs)"
    by (intro rmap_Inr_fun)
  with assms(3) show ?thesis by (simp add: project_record_def dict_of_distinct_id project_to_def comp_def)
qed

lemma schema_select_subset: "schema_select s cs = Inr t \<Longrightarrow> set cs \<subseteq> set (field_names s)"
proof
  fix n assume "schema_select s cs = Inr t" "n \<in> set cs"
  then obtain f where "get_field s n = Inr f"
    by (auto simp: schema_select_def rbind_Inr_iff rmap_Inr_iff list_all2_conv_all_nth in_set_conv_nth)
  then show "n \<in> set (field_names s)" using get_field_Inr_D by (auto simp: field_names_def)
qed

typedef 'b checkpoint_data = "{(c :: 'b codec, fs, src, rowss). readable c fs src rowss}"
  morphisms checkpoint_of Checkpoint_data
  by (rule exI [of _ "(undefined, Map.empty, \<lparr>ck_directory = [], ck_schema = [], ck_parts = []\<rparr>, [])"])
     (simp add: readable_def)

definition data_read :: "'b checkpoint_data \<Rightarrow> string list option \<Rightarrow> expr option \<Rightarrow> dataset res" where
  "data_read s = (case checkpoint_of s of (c, fs, src, rowss) \<Rightarrow> checkpoint_read c fs src)"

definition data_rows :: "'b checkpoint_data \<Rightarrow> row list" where
  "data_rows s = (case checkpoint_of s of (c, fs, src, rowss) \<Rightarrow> concat rowss)"

definition data_names :: "'b checkpoint_data \<Rightarrow> string list" where
  "data_names s = (case checkpoint_of s of (c, fs, src, rowss) \<Rightarrow> field_names (ck_schema src))"

lemma checkpoint_data_cases:
  fixes s :: "'b checkpoint_data"
  obtains c :: "'b codec" and fs src rowss where "readable c fs src rowss" "data_read s = checkpoint_read c fs src"
    "data_rows s = concat rowss" "data_names s = field_names (ck_schema src)"
proof -
  obtain c fs src rowss where s: "checkpoint_of s = (c, fs, src, rowss)" by (cases "checkpoint_of s")
  have "readable c fs src rowss" using checkpoint_of [of s] by (simp add: s)
  with s show thesis by (intro that [of c fs src rowss]) (simp_all add: data_read_def data_rows_def data_names_def)
qed

interpretation checkpoint: data_source data_read data_rows data_names
proof
  fix s :: "'b checkpoint_data" and f d
  assume d: "data_read s None f = Inr d"
  obtain c :: "'b codec" and fs src rowss where s: "readable c fs src rowss" "data_read s = checkpoint_read c fs src"
    "data_rows s = concat rowss" "data_names s = field_names (ck_schema src)"
    by (rule checkpoint_data_cases [of s])
  show "scan_rows d = data_rows s"
    using readable_rows [OF s(1) d [unfolded s(2)], of "\<lambda>r. r"] by (simp add: project_record_def s(3))
next
  fix s :: "'b checkpoint_data" and cs f d
  assume d: "data_read s (Some cs) f = Inr d"
  obtain c :: "'b codec" and fs src rowss where s: "readable c fs src rowss" "data_read s = checkpoint_read c fs src"
    "data_rows s = concat rowss" "data_names s = field_names (ck_schema src)"
    by (rule checkpoint_data_cases [of s])
  have cs: "distinct cs" "set cs \<subseteq> set (field_names (ck_schema src))"
    using d by (auto simp: s(2) checkpoint_read_def rbind_Inr_iff dest: schema_select_names schema_select_subset)
  show "scan_rows d = map (project_to (map Column cs)) (data_rows s)"
    unfolding s(3) using s(1) cs
    by (intro readable_rows [OF s(1) d [unfolded s(2)]] project_record_to) (auto simp: readable_def)
next
  fix s :: "'b checkpoint_data" and columns f d
  assume d: "data_read s columns f = Inr d"
  obtain c :: "'b codec" and fs src rowss where s: "readable c fs src rowss" "data_read s = checkpoint_read c fs src"
    "data_rows s = concat rowss" "data_names s = field_names (ck_schema src)"
    by (rule checkpoint_data_cases [of s])
  show "field_names (ds_schema d) = (case columns of None \<Rightarrow> data_names s | Some cs \<Rightarrow> cs)"
    using d by (auto simp: s(2,4) checkpoint_read_def rbind_Inr_iff dest: schema_select_names split: option.splits)
qed

lemma checkpoint_honest:
  assumes "readable c fs src rowss" "checkpoint_read c fs src None None = Inr d"
  shows "honest (checkpoint_read c fs src) d"
proof -
  have "data_read (Checkpoint_data (c, fs, src, rowss)) = checkpoint_read c fs src"
    using assms(1) by (simp add: data_read_def Checkpoint_data_inverse)
  with checkpoint.source_honest [of "Checkpoint_data (c, fs, src, rowss)" d] assms(2) show ?thesis by simp
qed

section \<open>Cutting off a query\<close>

lemma collected_ids:
  assumes "run_plan run max_retries fuel rdir w sts = Some (sc, Inr d)"
  shows "distinct (map partition_id (ds_partitions d))"
proof -
  have ids: "map partition_id (ds_partitions (results_to_dataset t results)) = [0..<length results]" for t results
    by (intro nth_equalityI) (simp_all add: results_to_dataset_def result_partition_def)
  have "run_stages run max_retries sd fuel sts final sc0 = Some (sc1, Inr r) \<Longrightarrow>
      (\<forall>x. final = Some x \<longrightarrow> distinct (map partition_id (ds_partitions x))) \<Longrightarrow>
      r = Some d' \<Longrightarrow> distinct (map partition_id (ds_partitions d'))" for sd final sc0 sc1 r d'
  proof (induction sts arbitrary: final sc0)
    case (Cons st sts)
    then obtain sc2 results where "run_stages run max_retries sd fuel sts
        (if is_write (stage_plan st) then final
         else Some (results_to_dataset (pschema (stage_plan st)) results)) sc2 = Some (sc1, Inr r)"
      by (auto simp: run_bind_Some_iff)
    moreover have "\<forall>x. (if is_write (stage_plan st) then final
         else Some (results_to_dataset (pschema (stage_plan st)) results)) = Some x
       \<longrightarrow> distinct (map partition_id (ds_partitions x))"
      using Cons.prems(2) ids by auto
    ultimately show ?case using Cons.IH Cons.prems(3) by blast
  qed simp
  with assms show ?thesis by (auto simp: run_plan_def run_bind_Some_iff split: option.splits)
qed

lemma partition_rows:
  assumes "gen_list (iter_records d) = Inr rows"
  obtains rowss where "list_all2 (\<lambda>p rows. records p = gen_of rows) (ds_partitions d) rowss" "rows = concat rowss"
proof -
  obtain xss where "rmap gen_list (map records (ds_partitions d)) = Inr xss" "rows = concat xss"
    using assms by (auto simp: iter_records_def gen_list_concat rbind_Inr_iff)
  then show thesis by (intro that) (auto simp: rmap_Inr_iff list_all2_map1 gen_list_Inr_iff)
qed

lemma checkpointed_scan:
  assumes ok: "pickle_ok c" "meta_ok m" and d: "distinct (map partition_id (ds_partitions d))"
    and rows: "gen_list (iter_records d) = Inr rows" "\<forall>r \<in> set rows. map fst r = field_names (ds_schema d)"
  obtains fs' src d' where "write_checkpoint c m d dir fs = (fs', Inr ())"
    "mk_checkpoint_source m fs' dir = Inr src" "checkpoint_read c fs' src None None = Inr d'"
    "scan_rows d' = rows" "ds_schema d' = ds_schema d" "honest (checkpoint_read c fs' src) d'"
proof -
  obtain rowss where rowss: "list_all2 (\<lambda>p rows. records p = gen_of rows) (ds_partitions d) rowss" "rows = concat rowss"
    by (rule partition_rows [OF rows(1)])
  let ?src = "\<lparr>ck_directory = dir, ck_schema = ds_schema d, ck_parts = written_parts dir (ds_partitions d) rowss\<rparr>"
  obtain fs' where w: "write_checkpoint c m d dir fs = (fs', Inr ())" "mk_checkpoint_source m fs' dir = Inr ?src"
    and parts: "list_all2 (\<lambda>q rows. ck_row_count q = length rows \<and> (\<forall>columns.
       read_checkpoint_partition c fs' (ck_path q) columns = gen_map (project_record columns) (gen_of rows)))
      (written_parts dir (ds_partitions d) rowss) rowss"
    by (rule written_checkpoint [OF ok d rowss(1)])
  have readable: "readable c fs' ?src rowss" using parts rows(2) by (simp add: readable_def rowss(2))
  obtain d' where d': "checkpoint_read c fs' ?src None None = Inr d'" "ds_schema d' = ds_schema d"
    by (simp add: checkpoint_read_def)
  moreover have "scan_rows d' = rows"
    using readable_rows [OF readable d'(1), of "\<lambda>r. r"] by (simp add: project_record_def rowss(2))
  ultimately show thesis using w checkpoint_honest [OF readable d'(1)] by (intro that)
qed

text \<open>
  C5: A checkpoint cuts off a query without changing it. Under all the conditions of
  \<open>query_correct\<close> - a tidy plan over honest sources, whose stages can be planned and whose final plan
  is clean, so that nothing in it raises: Sum and Avg over ints, canonical keys, exact non-null
  numbers where a sort is split into ranges - and no fault, \<^verbatim>\<open>checkpoint()\<close> terminates without an
  error and returns a data frame that is a scan of the checkpoint, is tidy over an honest source, so
  that further queries on it are answered, and stands for the rows of the query, with its columns,
  in its order where it has one.
\<close>

theorem checkpoint_correct:
  assumes "pickle_ok (env_codec env)" and "meta_ok m" and "tidy p" "sources_honest p"
    and "final_plan s p = Inr r" "clean (shuffle_partitions (execution (session_config s))) \<kappa> r"
    and "df_stages (env_getsizeof env) s p = Inr sts"
    and "1 \<le> shuffle_partitions (execution (session_config s))" "num_workers (engine (session_config s)) = Inr w"
    and "2 \<le> fuel"
  shows "\<exists>disk p'. df_checkpoint env m rss fuel rdir fresh s p directory = Some (disk, Inr p')
    \<and> (\<exists>d name src. p' = Scan d name (Some src)) \<and> tidy p' \<and> sources_honest p'
    \<and> out_names p' = out_names p \<and> mset (meaning p') = mset (meaning p)
    \<and> (in_order p \<longrightarrow> meaning p' = meaning p) \<and> sorted_as p (meaning p')"
proof -
  obtain disk d rows where d: "collect_dataset env rss fuel rdir s p = Some (disk, Inr d)"
      "gen_list (iter_records d) = Inr rows" "answers p rows" "field_names (ds_schema d) = out_names p"
    using collect_dataset_answers [OF assms(1,3-10), of rss rdir] by blast
  have ids: "distinct (map partition_id (ds_partitions d))"
    using d(1) collected_ids by (auto simp: collect_dataset_def run_query_def split: sum.splits)
  have names: "\<forall>x \<in> set rows. map fst x = field_names (ds_schema d)"
    using assms(3) d(3,4) mset_eq_setD by (fastforce simp: answers_def intro!: tidy_columns)
  define target where "target = (case directory of Some dir \<Rightarrow> if dir = [] then fresh else dir | None \<Rightarrow> fresh)"
  obtain fs' src d' where c: "write_checkpoint (env_codec env) m d target disk = (fs', Inr ())"
    "mk_checkpoint_source m fs' target = Inr src" "checkpoint_read (env_codec env) fs' src None None = Inr d'"
    "scan_rows d' = rows" "ds_schema d' = ds_schema d" "honest (checkpoint_read (env_codec env) fs' src) d'"
    by (rule checkpointed_scan [OF assms(1,2) ids d(2) names])
  let ?p = "Scan d' (''checkpoint:'' @ target) (Some (checkpoint_read (env_codec env) fs' src))"
  have "df_checkpoint env m rss fuel rdir fresh s p directory = Some (fs', Inr ?p)"
    using d(1) c(1-3) by (simp add: df_checkpoint_def Let_def target_def [symmetric])
  moreover have "distinct (field_names (ds_schema d))" using tidy_distinct [OF assms(3)] by (simp add: d(4))
  then have "tidy ?p" using c(4,5) names by (simp add: tidy_def)
  moreover have "meaning ?p = rows" "out_names ?p = out_names p" using c(4,5) d(4) by simp_all
  ultimately show ?thesis using c(6) d(3) by (intro exI [of _ fs'] exI [of _ ?p]) (simp add: answers_def)
qed

section \<open>Examples\<close>

text \<open>The schema and the parts as rows: their number of fields, one row a field, one row a part.\<close>

definition type_code :: "dtype \<Rightarrow> int" where
  "type_code t = (case t of IntType \<Rightarrow> 0 | FloatType \<Rightarrow> 1 | StringType \<Rightarrow> 2 | BoolType \<Rightarrow> 3 | NullType \<Rightarrow> 4)"

definition code_type :: "int \<Rightarrow> dtype" where
  "code_type i = (if i = 0 then IntType else if i = 1 then FloatType else if i = 2 then StringType
     else if i = 3 then BoolType else NullType)"

definition field_row :: "field \<Rightarrow> row" where
  "field_row f = [(fname f, VTuple [VInt (type_code (data_type f)), VBool (nullable f)])]"

fun row_field :: "row \<Rightarrow> field" where
  "row_field [(n, VTuple [VInt c, VBool b])] = \<lparr>fname = n, data_type = code_type c, nullable = b\<rparr>"
| "row_field _ = \<lparr>fname = [], data_type = NullType, nullable = True\<rparr>"

definition part_row :: "checkpoint_part \<Rightarrow> row" where
  "part_row p = [(ck_path p, VTuple [VInt (int (ck_partition_id p)), VInt (int (ck_row_count p))])]"

fun row_part :: "row \<Rightarrow> checkpoint_part" where
  "row_part [(q, VTuple [VInt i, VInt k])] = \<lparr>ck_partition_id = nat i, ck_path = q, ck_row_count = nat k\<rparr>"
| "row_part _ = \<lparr>ck_partition_id = 0, ck_path = [], ck_row_count = 0\<rparr>"

fun sample_meta_load :: "row list \<Rightarrow> (schema \<times> checkpoint_part list) res" where
  "sample_meta_load ([(_, VInt n)] # rows) = Inr (map row_field (take (nat n) rows), map row_part (drop (nat n) rows))"
| "sample_meta_load _ = Inl ValueError"

definition sample_meta :: "row meta_codec" where
  "sample_meta = \<lparr>meta_dumps = (\<lambda>(s, parts). [(''n'', VInt (int (length s)))] # map field_row s @ map part_row parts),
     meta_load = sample_meta_load\<rparr>"

lemma sample_meta_ok: "meta_ok sample_meta"
proof -
  have "code_type (type_code t) = t" for t by (cases t) (simp_all add: type_code_def code_type_def)
  then have "map row_field (map field_row s) = s" "map row_part (map part_row parts) = parts" for s parts
    by (induction s; induction parts; simp add: field_row_def part_row_def)+
  then show ?thesis by (simp add: meta_ok_def sample_meta_def)
qed

theorem checkpoint_round_trip_witness:
  "\<exists>fs' src d'. write_checkpoint sample_codec sample_meta sample_dataset ''/c'' (\<lambda>_. None) = (fs', Inr ())
     \<and> mk_checkpoint_source sample_meta fs' ''/c'' = Inr src \<and> checkpoint_read sample_codec fs' src None None = Inr d'
     \<and> map part_to_list (ds_partitions d') = [Inr [[(''a'', VInt 1)], [(''a'', VInt 2)]], Inr [[(''a'', VInt 3)]]]"
proof -
  have "distinct (map partition_id (ds_partitions sample_dataset))"
    "map part_to_list (ds_partitions sample_dataset) = map Inr [[[(''a'', VInt 1)], [(''a'', VInt 2)]], [[(''a'', VInt 3)]]]"
    by (simp_all add: sample_dataset_def bucket_partition_def part_to_list_def)
  from checkpoint_round_trip [OF sample_codec_ok sample_meta_ok this, of "''/c''" "\<lambda>_. None" None]
  show ?thesis by auto
qed

theorem checkpoint_correct_witness:
  "\<exists>disk p'. df_checkpoint sample_env sample_meta None 100 ''/tmp/s'' ''/c'' sample_session totals_query None
       = Some (disk, Inr p')
     \<and> tidy p' \<and> out_names p' = [''c'', ''s'']
     \<and> mset (meaning p') = {#[(''c'', VStr ''u''), (''s'', VInt 6)], [(''c'', VStr ''v''), (''s'', VInt 2)]#}"
proof -
  obtain r sts where q: "final_plan sample_session totals_query = Inr r"
    "clean (shuffle_partitions (execution (session_config sample_session))) (\<lambda>_. Ints) r"
    "df_stages (env_getsizeof sample_env) sample_session totals_query = Inr sts"
    "1 \<le> shuffle_partitions (execution (session_config sample_session))"
    "pickle_ok (env_codec sample_env)" by (rule totals_ready)
  have names: "out_names totals_query = [''c'', ''s'']" by code_simp
  from checkpoint_correct [OF q(5) sample_meta_ok totals_facts(1) totals_honest q(1-4) totals_facts(4),
      of 100 None "''/tmp/s''" "''/c''" None]
  show ?thesis by (auto simp: totals_facts(2) names)
qed

end
