(* ===== verification/WorkerPool.thy ===== *)
theory WorkerPool
  imports PlanExecution
begin

text \<open>
  Batches with several workers: \<^verbatim>\<open>_run_batch\<close> of \<^verbatim>\<open>execution/scheduler.py\<close> with \<^verbatim>\<open>num_workers > 1\<close>.
  The tasks are handed in order to a pool of processes, which run at the same time on one disk.  A
  task reads its input in one step and writes record by record, between the steps of the others.
  The result is that of running the tasks one after the other, as \<open>run_batch\<close> does.
\<close>

section \<open>Processes that write apart\<close>

text \<open>
  The contract of a process on a shared map: its steps change only what it owns, and depend only on
  that and on what it reads.
\<close>

locale private_steps =
  fixes step :: "'x \<Rightarrow> 's \<Rightarrow> ('q \<Rightarrow> 'v) \<Rightarrow> ('q \<Rightarrow> 'v) \<times> 's"
    and owned inputs :: "'x \<Rightarrow> 'q set"
    and ok :: "'x \<Rightarrow> 's \<Rightarrow> bool"
  assumes step_frame: "ok x s \<Longrightarrow> q \<notin> owned x \<Longrightarrow> fst (step x s d) q = d q"
    and step_local: "ok x s \<Longrightarrow> \<forall>q \<in> owned x \<union> inputs x. d q = e q \<Longrightarrow>
      snd (step x s d) = snd (step x s e) \<and> (\<forall>q \<in> owned x. fst (step x s d) q = fst (step x s e) q)"
    and step_ok: "ok x s \<Longrightarrow> ok x (snd (step x s d))"
begin

text \<open>A process on its own\<close>

fun solo :: "nat \<Rightarrow> 'x \<Rightarrow> 's \<Rightarrow> ('q \<Rightarrow> 'v) \<Rightarrow> ('q \<Rightarrow> 'v) \<times> 's" where
  "solo 0 x s d = (d, s)"
| "solo (Suc n) x s d = (case solo n x s d of (d', s') \<Rightarrow> step x s' d')"

lemma solo_add: "solo (n + m) x s d = (case solo n x s d of (d', s') \<Rightarrow> solo m x s' d')"
  by (induction m) (auto split: prod.splits)

lemma solo_ok: "ok x s \<Longrightarrow> ok x (snd (solo n x s d))"
  by (induction n) (auto split: prod.splits simp: step_ok)

lemma solo_frame: "ok x s \<Longrightarrow> q \<notin> owned x \<Longrightarrow> fst (solo n x s d) q = d q"
proof (induction n)
  case (Suc n)
  then show ?case using solo_ok [of x s n d] by (cases "solo n x s d") (simp add: step_frame)
qed simp

lemma solo_local:
  assumes "ok x s" "\<forall>q \<in> owned x \<union> inputs x. d q = e q"
  shows "snd (solo n x s d) = snd (solo n x s e) \<and> (\<forall>q \<in> owned x. fst (solo n x s d) q = fst (solo n x s e) q)"
proof (induction n)
  case 0
  then show ?case using assms(2) by simp
next
  case (Suc n)
  obtain d1 s1 e1 where d1: "solo n x s d = (d1, s1)" "solo n x s e = (e1, s1)"
    using Suc by (cases "solo n x s d"; cases "solo n x s e") auto
  have "d1 q = e1 q" if q: "q \<in> owned x \<union> inputs x" for q
  proof (cases "q \<in> owned x")
    case True
    then show ?thesis using Suc d1 by auto
  next
    case False
    then show ?thesis
      using solo_frame [OF assms(1) False, of n d] solo_frame [OF assms(1) False, of n e] d1 assms(2) q by simp
  qed
  moreover have "ok x s1" using solo_ok [OF assms(1), of n d] d1 by simp
  ultimately show ?case using step_local [of x s1 d1 e1] by (simp add: d1)
qed

definition apart :: "'x list \<Rightarrow> bool" where
  "apart xs \<longleftrightarrow> (\<forall>i < length xs. \<forall>j < length xs. i \<noteq> j \<longrightarrow> owned (xs ! i) \<inter> owned (xs ! j) = {})
     \<and> (\<forall>x \<in> set xs. \<forall>y \<in> set xs. inputs x \<inter> owned y = {})"

text \<open>
  In an interleaving, each process is where it would be on its own after the steps it has made, and
  the map holds on its part what it would hold then.
\<close>

definition along :: "'x list \<Rightarrow> 's \<Rightarrow> ('q \<Rightarrow> 'v) \<Rightarrow> nat list \<Rightarrow> ('q \<Rightarrow> 'v) \<Rightarrow> 's list \<Rightarrow> bool" where
  "along xs s0 d0 ns d ss \<longleftrightarrow> length ns = length xs \<and> length ss = length xs
     \<and> (\<forall>j < length xs. snd (solo (ns ! j) (xs ! j) s0 d0) = ss ! j
          \<and> (\<forall>q \<in> owned (xs ! j). d q = fst (solo (ns ! j) (xs ! j) s0 d0) q))
     \<and> (\<forall>q. (\<forall>x \<in> set xs. q \<notin> owned x) \<longrightarrow> d q = d0 q)"

lemma along_start: "along xs s0 d0 (map (\<lambda>_. 0) xs) d0 (map (\<lambda>_. s0) xs)"
  by (simp add: along_def)

lemma along_step:
  assumes "apart xs" "\<forall>x \<in> set xs. ok x s0" "along xs s0 d0 ns d ss" "i < length xs"
  shows "along xs s0 d0 (ns[i := Suc (ns ! i)]) (fst (step (xs ! i) (ss ! i) d))
           (ss[i := snd (step (xs ! i) (ss ! i) d)])"
proof -
  let ?x = "xs ! i" and ?d = "fst (step (xs ! i) (ss ! i) d)"
  have x: "?x \<in> set xs" using assms(4) by simp
  obtain e where e: "solo (ns ! i) ?x s0 d0 = (e, ss ! i)" "\<forall>q \<in> owned ?x. d q = e q"
    using assms(3,4) by (cases "solo (ns ! i) ?x s0 d0") (force simp: along_def)
  have ok: "ok ?x (ss ! i)" using solo_ok [of ?x s0 "ns ! i" d0] assms(2) x e(1) by simp
  have "d q = e q" if q: "q \<in> inputs ?x" for q
  proof -
    have no: "\<forall>y \<in> set xs. q \<notin> owned y" using assms(1) q x unfolding apart_def by blast
    then have "d q = d0 q" using assms(3) by (simp add: along_def)
    moreover have "e q = d0 q" using solo_frame [of ?x s0 q "ns ! i" d0] assms(2) no x e(1) by simp
    ultimately show ?thesis by simp
  qed
  with e(2) have "snd (step ?x (ss ! i) d) = snd (step ?x (ss ! i) e)
      \<and> (\<forall>q \<in> owned ?x. ?d q = fst (step ?x (ss ! i) e) q)"
    by (intro step_local [OF ok]) auto
  moreover have "?d q = d q" if "q \<in> owned (xs ! j)" "j \<noteq> i" "j < length xs" for j q
    using that assms(1,4) by (intro step_frame [OF ok]) (auto simp: apart_def)
  moreover have "?d q = d0 q" if "\<forall>y \<in> set xs. q \<notin> owned y" for q
    using that assms(3) x step_frame [OF ok, of q d] by (simp add: along_def)
  ultimately show ?thesis
    using assms(3,4) e(1) by (auto simp: along_def nth_list_update)
qed

end

section \<open>The pool\<close>

text \<open>
  A process of the pool: it has not been handed its task, it has, it is writing its blocks (with the
  directory, key function and partitioner of the write, the open blocks and the rows left), or it has
  reported the result.
\<close>

datatype 'b worker =
    Waiting
  | Started
  | Writing string "row \<Rightarrow> pval res" partitioner "(nat \<times> 'b block_writer) list" "row list"
  | Finished task_result

fun running :: "'b worker \<Rightarrow> bool" where
  "running Started = True"
| "running (Writing _ _ _ _ _) = True"
| "running _ = False"

fun is_waiting :: "'b worker \<Rightarrow> bool" where
  "is_waiting Waiting = True"
| "is_waiting _ = False"

fun is_finished :: "'b worker \<Rightarrow> bool" where
  "is_finished (Finished _) = True"
| "is_finished _ = False"

text \<open>\<^verbatim>\<open>_execute_shuffle_write_task\<close> up to its first write\<close>

definition write_job ::
    "'b env \<Rightarrow> task \<Rightarrow> pplan \<Rightarrow> nat \<Rightarrow> expr list \<Rightarrow> pval list option
     \<Rightarrow> (string \<times> row list \<times> (row \<Rightarrow> pval res) \<times> partitioner) res" where
  "write_job env t c n es bounds =
     rbind (case shuffle_root_dir t of None \<Rightarrow> Inl ValueError | Some rdir \<Rightarrow> Inr rdir) (\<lambda>rdir.
     rbind (execute_partition env c (task_partition_id t) (shuffle_blocks t)) (\<lambda>parent.
     rbind (part_to_list parent) (\<lambda>rows.
     rbind (write_key_fn es bounds) (\<lambda>key_fn.
     rbind (write_partitioner n bounds) (\<lambda>p. Inr (rdir, rows, key_fn, p))))))"

definition read_input :: "'b env \<Rightarrow> nat option \<Rightarrow> task \<Rightarrow> 'b worker" where
  "read_input env rss t =
     (case task_plan t of
        ShuffleWriteExec c n es bounds \<Rightarrow>
          (case write_job env t c n es bounds of
             Inl e \<Rightarrow> Finished (report t rss (Inl e))
           | Inr (rdir, rows, key_fn, p) \<Rightarrow> Writing rdir key_fn p [] rows)
      | _ \<Rightarrow> Finished (report t rss (execute_normal_task env t)))"

text \<open>The end of the write: the blocks are closed and described, and the result is made.\<close>

definition write_result :: "'b env \<Rightarrow> task \<Rightarrow> (nat \<times> 'b block_writer) list \<Rightarrow> task_result res" where
  "write_result env t writers =
     (let blocks = map (\<lambda>(u, w).
            \<lparr>bm_stage_id = task_stage_id t, source_task_id = task_id t, target_partition = u, path = bw_path w,
             record_count = bw_record_count w, byte_length = bw_byte_length w,
             checksum = bw_close (env_codec env) w\<rparr>) writers
      in rbind (input_record_count t) (\<lambda>n_in.
           Inr (success_result t [] blocks n_in 0 0 (sum_list (map byte_length blocks)))))"

fun advance ::
    "'b env \<Rightarrow> nat option \<Rightarrow> task \<Rightarrow> 'b worker \<Rightarrow> 'b files \<Rightarrow> 'b files \<times> 'b worker" where
  "advance env rss t Waiting disk = (disk, Started)"
| "advance env rss t Started disk = (disk, read_input (env\<lparr>env_disk := disk\<rparr>) rss t)"
| "advance env rss t (Writing rdir key_fn p writers []) disk =
     (disk, Finished (report t rss (write_result env t writers)))"
| "advance env rss t (Writing rdir key_fn p writers (r # rows)) disk =
     (case rbind (key_fn r) (partition_for (env_md5 env) p) of
        Inl e \<Rightarrow> (disk, Finished (report t rss (Inl e)))
      | Inr u \<Rightarrow>
          (case write_record (env_codec env) (\<lambda>u. block_path rdir (task_stage_id t) u (task_id t)) u r
                  (disk, writers) of
             (disk', writers') \<Rightarrow> (disk', Writing rdir key_fn p writers' rows)))"
| "advance env rss t (Finished r) disk = (disk, Finished r)"

type_synonym 'b pool = "'b files \<times> 'b worker list"

text \<open>Tasks are handed out in their order, each to a free process.\<close>

definition may_run :: "nat \<Rightarrow> 'b worker list \<Rightarrow> nat \<Rightarrow> bool" where
  "may_run workers ks i \<longleftrightarrow> running (ks ! i)
     \<or> (is_waiting (ks ! i) \<and> \<not> list_ex is_waiting (take i ks) \<and> length (filter running ks) < workers)"

inductive pool_step :: "'b env \<Rightarrow> nat option \<Rightarrow> nat \<Rightarrow> task list \<Rightarrow> 'b pool \<Rightarrow> 'b pool \<Rightarrow> bool"
  for env rss workers ts where
  "i < length ts \<Longrightarrow> may_run workers ks i \<Longrightarrow> advance env rss (ts ! i) (ks ! i) disk = (disk', k) \<Longrightarrow>
     pool_step env rss workers ts (disk, ks) (disk', ks[i := k])"

inductive_cases pool_stepE: "pool_step env rss workers ts (disk, ks) s"

definition pool_start :: "task list \<Rightarrow> 'b files \<Rightarrow> 'b pool" where
  "pool_start ts disk = (disk, map (\<lambda>_. Waiting) ts)"

section \<open>The tasks of a pool write apart\<close>

fun block_paths :: "task \<Rightarrow> string set" where
  "block_paths t = (case shuffle_root_dir t of
       None \<Rightarrow> {}
     | Some rdir \<Rightarrow> range (\<lambda>u. block_path rdir (task_stage_id t) u (task_id t)))"

fun input_paths :: "task \<Rightarrow> string set" where
  "input_paths t = (case shuffle_blocks t of
       None \<Rightarrow> {}
     | Some m \<Rightarrow> {path b | j bs b. m j = Some bs \<and> b \<in> set bs})"

fun writer_ok :: "task \<Rightarrow> 'b worker \<Rightarrow> bool" where
  "writer_ok t (Writing rdir _ _ writers _) \<longleftrightarrow> shuffle_root_dir t = Some rdir
     \<and> (\<forall>(u, w) \<in> set writers. bw_path w = block_path rdir (task_stage_id t) u (task_id t))"
| "writer_ok t (Finished r) \<longleftrightarrow> (\<forall>b \<in> set (result_blocks r). path b \<in> block_paths t)"
| "writer_ok t _ \<longleftrightarrow> True"

declare block_paths.simps [simp del] input_paths.simps [simp del]

text \<open>Reading depends on the blocks a task has been given only.\<close>

lemma read_shuffle_blocks_cong:
  "\<forall>b \<in> set bs. d (path b) = e (path b) \<Longrightarrow>
     read_shuffle_blocks c d v bs = read_shuffle_blocks c e v bs"
  unfolding read_shuffle_blocks_def by (intro arg_cong [where f = gen_concat] map_cong) (auto simp: read_block_def)

lemma execute_partition_cong:
  assumes "\<forall>m j bs b. blocks = Some m \<longrightarrow> m j = Some bs \<longrightarrow> b \<in> set bs \<longrightarrow> d (path b) = e (path b)"
  shows "execute_partition (env\<lparr>env_disk := d\<rparr>) p pid blocks = execute_partition (env\<lparr>env_disk := e\<rparr>) p pid blocks"
proof (induction p)
  case (ShuffleReadExec j s b)
  have "read_shuffle_blocks (env_codec env) d True bs = read_shuffle_blocks (env_codec env) e True bs"
    if "blocks = Some m" "m j = Some bs" for m bs
    using assms that by (intro read_shuffle_blocks_cong) blast
  then show ?case by (simp add: shuffle_read_partition_def split: option.split)
qed simp_all

lemma read_input_cong:
  assumes "\<forall>q \<in> input_paths t. d q = e q"
  shows "read_input (env\<lparr>env_disk := d\<rparr>) rss t = read_input (env\<lparr>env_disk := e\<rparr>) rss t"
proof -
  have "execute_partition (env\<lparr>env_disk := d\<rparr>) p (task_partition_id t) (shuffle_blocks t)
      = execute_partition (env\<lparr>env_disk := e\<rparr>) p (task_partition_id t) (shuffle_blocks t)" for p
    using assms by (intro execute_partition_cong) (auto simp: input_paths.simps)
  then show ?thesis
    by (simp add: read_input_def write_job_def execute_normal_task_def del: execute_partition.simps
          split: pplan.split)
qed

lemma report_blocks [simp]:
  "result_blocks (report t rss (Inl e)) = []" "result_blocks (report t rss (Inr r)) = result_blocks r"
  by (auto simp: report_def failed_result_def split: py_error.splits)

lemma normal_blocks: "result_blocks (report t rss (execute_normal_task env t)) = []"
  by (cases "execute_normal_task env t") (auto simp: execute_normal_task_def rbind_Inr_iff)

lemma read_input_ok: "writer_ok t (read_input env rss t)"
  by (auto simp: read_input_def write_job_def normal_blocks rbind_Inr_iff split: pplan.split sum.split option.splits)

text \<open>One written record changes one block of the task, whatever the rest of the disk.\<close>

lemma write_record_frame:
  assumes "\<forall>(u, w) \<in> set writers. bw_path w = path_of u"
  shows "fst (write_record c path_of u r (d, writers)) = d(path_of u :=
           Some ((case map_of writers u of None \<Rightarrow> [] | Some w \<Rightarrow> case d (path_of u) of Some bs \<Rightarrow> bs | None \<Rightarrow> [])
             @ dumps c r))"
    and "snd (write_record c path_of u r (d, writers)) = snd (write_record c path_of u r (e, writers))"
    and "\<forall>(v, w) \<in> set (snd (write_record c path_of u r (d, writers))). bw_path w = path_of v"
proof -
  have known: "bw_path w = path_of u" if "map_of writers u = Some w" for w
    using assms map_of_SomeD [OF that] by auto
  have updated: "\<forall>(v, w) \<in> set (AList.update u w' writers). bw_path w = path_of v" if "bw_path w' = path_of u" for w'
    using assms that by (induction writers) auto
  show "fst (write_record c path_of u r (d, writers)) = d(path_of u :=
           Some ((case map_of writers u of None \<Rightarrow> [] | Some w \<Rightarrow> case d (path_of u) of Some bs \<Rightarrow> bs | None \<Rightarrow> [])
             @ dumps c r))"
    by (auto simp: write_record_def bw_write_def bw_open_def known Let_def split: option.split)
  show "snd (write_record c path_of u r (d, writers)) = snd (write_record c path_of u r (e, writers))"
    by (auto simp: write_record_def bw_write_def Let_def split: option.split)
  show "\<forall>(v, w) \<in> set (snd (write_record c path_of u r (d, writers))). bw_path w = path_of v"
    unfolding write_record_def bw_write_def
    by (cases "map_of writers u") (simp_all only: Let_def prod.case option.case fst_conv snd_conv, (rule updated, simp add: bw_open_def known)+)
qed

lemma advance_write:
  "advance env rss t (Writing rdir key_fn p writers (r # rows)) disk =
     (case rbind (key_fn r) (partition_for (env_md5 env) p) of
        Inl e \<Rightarrow> (disk, Finished (report t rss (Inl e)))
      | Inr u \<Rightarrow>
          (let s = write_record (env_codec env) (\<lambda>u. block_path rdir (task_stage_id t) u (task_id t)) u r (disk, writers)
           in (fst s, Writing rdir key_fn p (snd s) rows)))"
  by (cases "rbind (key_fn r) (partition_for (env_md5 env) p)") (simp_all add: case_prod_beta Let_def)

lemma advance_frame:
  "writer_ok t k \<Longrightarrow> q \<notin> block_paths t \<Longrightarrow> fst (advance env rss t k d) q = d q"
  by (cases "(env, rss, t, k, d)" rule: advance.cases)
     (auto simp: block_paths.simps advance_write write_record_frame(1) Let_def
        simp del: advance.simps(4) split: sum.split)

lemma write_result_ok:
  assumes "writer_ok t (Writing rdir key_fn p writers rows)"
  shows "writer_ok t (Finished (report t rss (write_result env t writers)))"
  using assms
  by (cases "write_result env t writers") (fastforce simp: write_result_def Let_def rbind_Inr_iff block_paths.simps)+

lemma advance_ok:
  assumes "writer_ok t k"
  shows "writer_ok t (snd (advance env rss t k d))"
proof (cases "(env, rss, t, k, d)" rule: advance.cases)
  case (4 env rss t rdir key_fn p writers r rows disk)
  with assms have "\<forall>(v, w) \<in> set (snd (write_record (env_codec env)
      (\<lambda>u. block_path rdir (task_stage_id t) u (task_id t)) u r (disk, writers))).
      bw_path w = block_path rdir (task_stage_id t) v (task_id t)" for u
    by (intro write_record_frame(3)) simp
  with 4 assms show ?thesis
    by (simp add: advance_write Let_def del: advance.simps(4) split: sum.split)
qed (use assms write_result_ok in \<open>simp_all add: read_input_ok\<close>)

lemma advance_local:
  assumes "writer_ok t k" "\<forall>q \<in> block_paths t \<union> input_paths t. d q = e q"
  shows "snd (advance env rss t k d) = snd (advance env rss t k e)
    \<and> (\<forall>q \<in> block_paths t. fst (advance env rss t k d) q = fst (advance env rss t k e) q)"
proof (cases "(env, rss, t, k, d)" rule: advance.cases)
  case (2 env rss t disk)
  then show ?thesis using assms(2) read_input_cong [of t d e env rss] by simp
next
  case (4 env rss t rdir key_fn p writers r rows disk)
  show ?thesis
  proof (cases "rbind (key_fn r) (partition_for (env_md5 env) p)")
    case (Inr u)
    let ?path = "\<lambda>u. block_path rdir (task_stage_id t) u (task_id t)"
    have "\<forall>(u, w) \<in> set writers. bw_path w = ?path u" using assms(1) 4 by simp
    note frame = write_record_frame [OF this]
    moreover have "d (?path u) = e (?path u)" using assms 4 by (auto simp: block_paths.simps)
    ultimately show ?thesis using 4 Inr assms(2) frame(2) [of "env_codec env" u r d e]
      by (simp add: advance_write Let_def frame(1) del: advance.simps(4) split: option.split)
  qed (use 4 assms(2) in simp)
qed (use assms(2) in simp_all)

interpretation pool: private_steps "advance env rss" block_paths input_paths writer_ok for env rss
  using advance_frame advance_local advance_ok by unfold_locales

section \<open>A task on its own\<close>

lemma solo_writing:
  "\<exists>n. pool.solo env rss n t (Writing rdir key_fn p writers rows) d =
     (case write_loop (env_codec env) (\<lambda>u. block_path rdir (task_stage_id t) u (task_id t))
             (\<lambda>r. rbind (key_fn r) (partition_for (env_md5 env) p)) (d, writers) rows of
        ((d', writers'), Some e) \<Rightarrow> (d', Finished (report t rss (Inl e)))
      | ((d', writers'), None) \<Rightarrow> (d', Finished (report t rss (write_result env t writers'))))"
  (is "\<exists>n. _ = ?after d writers rows")
proof (induction rows arbitrary: d writers)
  case Nil
  have "pool.solo env rss 1 t (Writing rdir key_fn p writers []) d = ?after d writers []" by simp
  then show ?case ..
next
  case (Cons r rows)
  let ?k = "Writing rdir key_fn p writers (r # rows)"
  have one: "pool.solo env rss 1 t ?k d = advance env rss t ?k d" by simp
  show ?case
  proof (cases "rbind (key_fn r) (partition_for (env_md5 env) p)")
    case (Inl e)
    then have "pool.solo env rss 1 t ?k d = ?after d writers (r # rows)" by simp
    then show ?thesis ..
  next
    case (Inr u)
    obtain d1 writers1 where w: "write_record (env_codec env) (\<lambda>u. block_path rdir (task_stage_id t) u (task_id t))
        u r (d, writers) = (d1, writers1)" by fastforce
    obtain n where "pool.solo env rss n t (Writing rdir key_fn p writers1 rows) d1 = ?after d1 writers1 rows"
      using Cons.IH by blast
    with Inr w have "pool.solo env rss (1 + n) t ?k d = ?after d writers (r # rows)"
      unfolding pool.solo_add one by simp
    then show ?thesis ..
  qed
qed

lemma execute_write_task:
  "execute_shuffle_write_task env t c n es bounds =
     (case write_job env t c n es bounds of
        Inl e \<Rightarrow> (env_disk env, Inl e)
      | Inr (rdir, rows, key_fn, p) \<Rightarrow>
          (case write_loop (env_codec env) (\<lambda>u. block_path rdir (task_stage_id t) u (task_id t))
                  (\<lambda>r. rbind (key_fn r) (partition_for (env_md5 env) p)) (env_disk env, []) rows of
             ((d', writers), Some e) \<Rightarrow> (d', Inl e)
           | ((d', writers), None) \<Rightarrow> (d', write_result env t writers)))"
  by (auto simp: execute_shuffle_write_task_def write_job_def write_shuffle_partition_def write_result_def
      split: sum.split prod.split option.split)

text \<open>A task left alone does what \<open>execute_task\<close> does.\<close>

lemma solo_task:
  "\<exists>n. pool.solo env rss n t Waiting d =
     (fst (execute_task env rss t attempt d), Finished (snd (execute_task env rss t attempt d)))"
  (is "\<exists>n. _ = ?done")
proof -
  let ?env = "env\<lparr>env_disk := d\<rparr>"
  have two: "pool.solo env rss 2 t Waiting d = (d, read_input ?env rss t)" by (simp add: numeral_2_eq_2)
  show ?thesis
  proof (cases "\<exists>c n es bounds rdir rows key_fn p. task_plan t = ShuffleWriteExec c n es bounds
      \<and> write_job ?env t c n es bounds = Inr (rdir, rows, key_fn, p)")
    case True
    then obtain c m es bounds rdir rows key_fn p where w: "task_plan t = ShuffleWriteExec c m es bounds"
        "write_job ?env t c m es bounds = Inr (rdir, rows, key_fn, p)" by blast
    then have read: "read_input ?env rss t = Writing rdir key_fn p [] rows" by (simp add: read_input_def)
    obtain n where n: "pool.solo env rss n t (Writing rdir key_fn p [] rows) d =
       (case write_loop (env_codec env) (\<lambda>u. block_path rdir (task_stage_id t) u (task_id t))
             (\<lambda>r. rbind (key_fn r) (partition_for (env_md5 env) p)) (d, []) rows of
          ((d', writers'), Some e) \<Rightarrow> (d', Finished (report t rss (Inl e)))
        | ((d', writers'), None) \<Rightarrow> (d', Finished (report t rss (write_result env t writers'))))"
      using solo_writing by blast
    have "write_result ?env t = write_result env t" by (simp add: write_result_def [abs_def])
    with w n have "pool.solo env rss n t (Writing rdir key_fn p [] rows) d = ?done"
      by (simp add: execute_task_def execute_write_task split: prod.split option.split)
    with two read have "pool.solo env rss (2 + n) t Waiting d = ?done" by (simp only: pool.solo_add prod.case)
    then show ?thesis ..
  next
    case False
    then have "(d, read_input ?env rss t) = ?done"
      by (auto simp: read_input_def execute_task_def execute_write_task
          split: pplan.split sum.split prod.split)
    with two show ?thesis by metis
  qed
qed

lemma solo_finished: "pool.solo env rss n t (Finished r) d = (d, Finished r)"
  by (induction n) simp_all

text \<open>There is one result a task can report.\<close>

lemma solo_task_unique:
  assumes "pool.solo env rss n t Waiting d = (d', Finished r)"
  shows "execute_task env rss t attempt d = (d', r)"
proof -
  obtain m where m: "pool.solo env rss m t Waiting d =
     (fst (execute_task env rss t attempt d), Finished (snd (execute_task env rss t attempt d)))"
    using solo_task by blast
  have "pool.solo env rss (n + m) t Waiting d = pool.solo env rss (m + n) t Waiting d"
    by (simp only: add.commute)
  then show ?thesis by (simp add: pool.solo_add assms m solo_finished prod_eq_iff)
qed

lemma execute_task_frame:
  assumes "q \<notin> block_paths t"
  shows "fst (execute_task env rss t attempt d) q = d q"
proof -
  obtain n where "pool.solo env rss n t Waiting d =
     (fst (execute_task env rss t attempt d), Finished (snd (execute_task env rss t attempt d)))"
    using solo_task by blast
  then show ?thesis using pool.solo_frame [OF _ assms, of Waiting env rss n d] by simp
qed

lemma execute_task_local:
  assumes "\<forall>q \<in> block_paths t \<union> input_paths t. d q = e q"
  shows "snd (execute_task env rss t attempt d) = snd (execute_task env rss t attempt e)"
    and "q \<in> block_paths t \<Longrightarrow> fst (execute_task env rss t attempt d) q = fst (execute_task env rss t attempt e) q"
proof -
  obtain n where n: "pool.solo env rss n t Waiting d =
     (fst (execute_task env rss t attempt d), Finished (snd (execute_task env rss t attempt d)))"
    using solo_task by blast
  obtain e' where e': "pool.solo env rss n t Waiting e = (e', Finished (snd (execute_task env rss t attempt d)))"
      "\<forall>q \<in> block_paths t. fst (execute_task env rss t attempt d) q = e' q"
    using pool.solo_local [OF _ assms, of Waiting env rss n] n
    by (cases "pool.solo env rss n t Waiting e") auto
  from solo_task_unique [OF e'(1)] e'(2)
  show "snd (execute_task env rss t attempt d) = snd (execute_task env rss t attempt e)"
    and "q \<in> block_paths t \<Longrightarrow> fst (execute_task env rss t attempt d) q = fst (execute_task env rss t attempt e) q"
    by simp_all
qed

section \<open>One after the other\<close>

text \<open>What a disk holds when every task has run from the same disk.\<close>

definition batch_outcome ::
    "'b env \<Rightarrow> nat option \<Rightarrow> (task \<times> nat) list \<Rightarrow> 'b files \<Rightarrow> 'b files \<Rightarrow> task_result list \<Rightarrow> bool" where
  "batch_outcome env rss batch d d' rs \<longleftrightarrow>
     rs = map (\<lambda>(t, a). snd (execute_task env rss t a d)) batch
     \<and> (\<forall>(t, a) \<in> set batch. \<forall>q \<in> block_paths t. d' q = fst (execute_task env rss t a d) q)
     \<and> (\<forall>q. (\<forall>(t, a) \<in> set batch. q \<notin> block_paths t) \<longrightarrow> d' q = d q)"

lemma batch_outcome_unique:
  assumes "batch_outcome env rss batch d d1 rs1" "batch_outcome env rss batch d d2 rs2"
  shows "d1 = d2 \<and> rs1 = rs2"
proof -
  have "d1 q = d2 q" for q
    using assms unfolding batch_outcome_def
    by (cases "\<forall>(t, a) \<in> set batch. q \<notin> block_paths t") fastforce+
  then show ?thesis using assms by (auto simp: batch_outcome_def)
qed

lemma apart_Cons:
  fixes t :: task
  assumes "pool.apart (t # ts)"
  shows "pool.apart ts" "\<forall>u \<in> set ts. block_paths t \<inter> block_paths u = {}"
    "\<forall>u \<in> set ts. input_paths u \<inter> block_paths t = {}"
proof -
  have other: "block_paths ((t # ts) ! i) \<inter> block_paths ((t # ts) ! j) = {}"
    if "i < Suc (length ts)" "j < Suc (length ts)" "i \<noteq> j" for i j
    using assms that by (simp add: pool.apart_def)
  show "\<forall>u \<in> set ts. block_paths t \<inter> block_paths u = {}"
    using other [of 0] by (force simp: in_set_conv_nth)
  have "block_paths (ts ! i) \<inter> block_paths (ts ! j) = {}" if "i < length ts" "j < length ts" "i \<noteq> j" for i j
    using other [of "Suc i" "Suc j"] that by simp
  then show "pool.apart ts" using assms by (simp add: pool.apart_def)
  show "\<forall>u \<in> set ts. input_paths u \<inter> block_paths t = {}"
    using assms by (simp add: pool.apart_def)
qed

lemma run_batch_outcome:
  "pool.apart (map fst batch) \<Longrightarrow> run_batch (execute_task env rss) batch d = (d', rs) \<Longrightarrow>
     batch_outcome env rss batch d d' rs"
proof (induction batch arbitrary: d d' rs)
  case (Cons x batch)
  obtain t a where x: "x = (t, a)" by (cases x)
  obtain d1 r where r: "execute_task env rss t a d = (d1, r)" by (cases "execute_task env rss t a d")
  then obtain rs' where rs': "run_batch (execute_task env rss) batch d1 = (d', rs')" "rs = r # rs'"
    using Cons.prems(2) x by (auto split: prod.splits)
  note apart = apart_Cons [of t "map fst batch"]
  have IH: "batch_outcome env rss batch d1 d' rs'"
    using Cons.IH [OF _ rs'(1)] apart(1) Cons.prems(1) x by simp
  have d1: "d1 q = d q" if "q \<notin> block_paths t" for q
    using execute_task_frame [OF that, of env rss a d] r by simp
  have same: "snd (execute_task env rss u b d1) = snd (execute_task env rss u b d)"
      "q \<in> block_paths u \<Longrightarrow> fst (execute_task env rss u b d1) q = fst (execute_task env rss u b d) q"
    if "(u, b) \<in> set batch" for u b q
  proof -
    have "\<forall>q \<in> block_paths u \<union> input_paths u. d1 q = d q"
      using apart(2,3) Cons.prems(1) x that by (force intro: d1)
    then show "snd (execute_task env rss u b d1) = snd (execute_task env rss u b d)"
      "q \<in> block_paths u \<Longrightarrow> fst (execute_task env rss u b d1) q = fst (execute_task env rss u b d) q"
      by (rule execute_task_local)+
  qed
  have "d' q = d1 q" if "q \<in> block_paths t" for q
    using IH apart(2) Cons.prems(1) x that by (force simp: batch_outcome_def)
  then show ?case
    using IH r rs'(2) same d1 by (auto simp: batch_outcome_def x)
qed (simp add: batch_outcome_def)

section \<open>At the same time\<close>

lemma worker_cases: "running k \<or> is_waiting k \<or> is_finished k"
  by (cases k) simp_all

lemma is_finishedE: "is_finished k \<Longrightarrow> (\<And>r. k = Finished r \<Longrightarrow> P) \<Longrightarrow> P"
  by (cases k) simp_all

lemma pool_progress:
  assumes "1 \<le> workers" "length ks = length ts" "\<not> list_all is_finished ks"
  shows "\<exists>s. pool_step env rss workers ts (d, ks) s"
proof -
  have "\<exists>i < length ks. may_run workers ks i"
  proof (cases "\<exists>i < length ks. running (ks ! i)")
    case True
    then show ?thesis by (auto simp: may_run_def)
  next
    case False
    then have none: "filter running ks = []" by (auto simp: filter_empty_conv in_set_conv_nth)
    from assms(3) False have "\<exists>i < length ks. is_waiting (ks ! i)"
      using worker_cases by (force simp: list_all_length)
    then obtain i where i: "i < length ks" "is_waiting (ks ! i)"
        "\<forall>j < i. \<not> (j < length ks \<and> is_waiting (ks ! j))"
      using exists_least_iff [of "\<lambda>i. i < length ks \<and> is_waiting (ks ! i)"] by blast
    then have "\<not> list_ex is_waiting (take i ks)" by (auto simp: list_ex_length)
    then show ?thesis using i none assms(1) by (auto simp: may_run_def)
  qed
  then obtain i where "i < length ts" "may_run workers ks i" using assms(2) by auto
  then show ?thesis using pool_step.intros by (metis surj_pair)
qed

text \<open>After every run of the pool: the steps of each task, no more than it needs on its own.\<close>

lemma pool_run_along:
  assumes "pool.apart ts" "(pool_step env rss workers ts ^^ n) (pool_start ts d0) (d, ks)"
  shows "\<exists>ns. pool.along env rss ts Waiting d0 ns d ks \<and> sum_list ns = n
    \<and> (\<forall>j < length ts. \<forall>N. is_finished (snd (pool.solo env rss N (ts ! j) Waiting d0)) \<longrightarrow> ns ! j \<le> N)"
  using assms(2)
proof (induction n arbitrary: d ks)
  case 0
  have "sum_list (map (\<lambda>_. 0) ts) = (0::nat)" by simp
  with 0 show ?case
    using pool.along_start [of env rss ts Waiting d0] by (auto simp: pool_start_def)
next
  case (Suc n)
  then obtain d1 ks1 where "(pool_step env rss workers ts ^^ n) (pool_start ts d0) (d1, ks1)"
      and step: "pool_step env rss workers ts (d1, ks1) (d, ks)" by auto
  with Suc.IH obtain ns where ns: "pool.along env rss ts Waiting d0 ns d1 ks1" "sum_list ns = n"
      "\<And>j N. j < length ts \<Longrightarrow> is_finished (snd (pool.solo env rss N (ts ! j) Waiting d0)) \<Longrightarrow> ns ! j \<le> N"
    by blast
  from step obtain i where i: "i < length ts" "may_run workers ks1 i"
      "d = fst (advance env rss (ts ! i) (ks1 ! i) d1)" "ks = ks1[i := snd (advance env rss (ts ! i) (ks1 ! i) d1)]"
    by (force elim: pool_stepE)
  have along: "pool.along env rss ts Waiting d0 (ns[i := Suc (ns ! i)]) d ks"
    unfolding i(3,4) by (rule pool.along_step [OF assms(1) _ ns(1) i(1)]) simp
  have here: "snd (pool.solo env rss (ns ! i) (ts ! i) Waiting d0) = ks1 ! i"
    and len: "length ns = length ts"
    using ns(1) i(1) by (simp_all add: pool.along_def)
  have "ns ! i \<noteq> N" if "is_finished (snd (pool.solo env rss N (ts ! i) Waiting d0))" for N
    using that i(2) here by (cases "ks1 ! i") (auto simp: may_run_def)
  then have "Suc (ns ! i) \<le> N" if "is_finished (snd (pool.solo env rss N (ts ! i) Waiting d0))" for N
    using ns(3) [OF i(1) that] that by (fastforce simp: Suc_le_eq order_less_le)
  then have "\<forall>j < length ts. \<forall>N. is_finished (snd (pool.solo env rss N (ts ! j) Waiting d0)) \<longrightarrow>
      ns[i := Suc (ns ! i)] ! j \<le> N"
    using ns(3) len i(1) by (metis nth_list_update_eq nth_list_update_neq)
  moreover have "sum_list (ns[i := Suc (ns ! i)]) = Suc n"
    using i(1) len ns(2) elem_le_sum_list [of i ns] by (simp add: sum_list_update)
  ultimately show ?case using along by blast
qed

lemma along_finished:
  assumes "pool.along env rss (map fst batch) Waiting d0 ns d ks" "list_all is_finished ks"
  shows "\<exists>rs. ks = map Finished rs \<and> batch_outcome env rss batch d0 d rs"
proof -
  let ?r = "\<lambda>(t, a). snd (execute_task env rss t a d0)"
  have len: "length ks = length batch" using assms(1) by (simp add: pool.along_def)
  have each: "ks ! j = Finished (?r (batch ! j))
      \<and> (\<forall>q \<in> block_paths (fst (batch ! j)). d q = fst (execute_task env rss (fst (batch ! j)) a d0) q)"
    if j: "j < length batch" for j a
  proof -
    obtain r where r: "ks ! j = Finished r" using assms(2) j len by (auto simp: list_all_length elim: is_finishedE)
    let ?solo = "pool.solo env rss (ns ! j) (fst (batch ! j)) Waiting d0"
    have solo: "snd ?solo = Finished r" "\<forall>q \<in> block_paths (fst (batch ! j)). d q = fst ?solo q"
      using assms(1) j r by (simp_all add: pool.along_def)
    then have "execute_task env rss (fst (batch ! j)) b d0 = (fst ?solo, r)" for b
      by (intro solo_task_unique) (simp add: prod_eq_iff)
    then show ?thesis using solo(2) r by (simp add: case_prod_beta)
  qed
  have "ks = map Finished (map ?r batch)" using each len by (intro nth_equalityI) auto
  moreover have "batch_outcome env rss batch d0 d (map ?r batch)"
    using each assms(1) by (fastforce simp: batch_outcome_def pool.along_def in_set_conv_nth)
  ultimately show ?thesis by blast
qed

text \<open>The tasks of a batch: of one stage, each with its own id, given blocks of other stages.\<close>

definition given_others :: "string \<Rightarrow> nat \<Rightarrow> task \<Rightarrow> bool" where
  "given_others rdir i t \<longleftrightarrow> (\<forall>q \<in> input_paths t. \<exists>s u k. s \<noteq> i \<and> q = block_path rdir s u k)"

lemma batch_apart:
  assumes "distinct (map task_id ts)"
    and "\<forall>t \<in> set ts. task_stage_id t = i \<and> shuffle_root_dir t = Some rdir \<and> given_others rdir i t"
  shows "pool.apart ts"
proof -
  have own: "block_paths t = range (\<lambda>u. block_path rdir i u (task_id t))" if "t \<in> set ts" for t
    using assms(2) that by (simp add: block_paths.simps)
  have "block_paths (ts ! m) \<inter> block_paths (ts ! n) = {}" if "m < length ts" "n < length ts" "m \<noteq> n" for m n
    using own [of "ts ! m"] own [of "ts ! n"] that assms(1) by (auto simp: distinct_conv_nth)
  moreover have "input_paths t \<inter> block_paths u = {}" if "t \<in> set ts" "u \<in> set ts" for t u
    using own [OF that(2)] assms(2) that(1) by (fastforce simp: given_others_def)
  ultimately show ?thesis by (simp add: pool.apart_def)
qed

section \<open>The batches of the scheduler\<close>

text \<open>Registered blocks lie under the directory of their stage.\<close>

definition well_placed :: "shuffle_manager \<Rightarrow> bool" where
  "well_placed m \<longleftrightarrow> (\<forall>s bs b. sm_blocks m s = Some bs \<longrightarrow> b \<in> set bs \<longrightarrow>
     (\<exists>u k. path b = block_path (root_dir m) s u k))"

definition reads_others :: "nat \<Rightarrow> pplan \<Rightarrow> bool" where
  "reads_others i p \<longleftrightarrow> (\<forall>l \<in> set (leaves p). \<forall>s b. l \<noteq> ShuffleReadExec i s b)"

lemma new_manager_placed: "well_placed (new_manager rdir)"
  by (simp add: well_placed_def new_manager_def)

lemma resolve_leaf_Some:
  "resolve_leaf pid m d l j = Some bs \<Longrightarrow>
     d j = Some bs \<or> (\<exists>s b. l = ShuffleReadExec j s b) \<and> (\<exists>u. bs = blocks_for m j u)"
  by (cases l) (auto simp: resolve_leaf_def split: if_split_asm)

lemma resolved_blocks:
  assumes "resolve_shuffle_blocks p pid m = Some d" "d j = Some bs"
  shows "(\<exists>s b. ShuffleReadExec j s b \<in> set (leaves p)) \<and> (\<exists>u. bs = blocks_for m j u)"
proof -
  have "foldl (resolve_leaf pid m) d0 ls j = Some bs \<Longrightarrow>
      d0 j = Some bs \<or> ((\<exists>s b. ShuffleReadExec j s b \<in> set ls) \<and> (\<exists>u. bs = blocks_for m j u))" for d0 ls
  proof (induction ls arbitrary: d0)
    case (Cons l ls)
    then have "foldl (resolve_leaf pid m) (resolve_leaf pid m d0 l) ls j = Some bs" by simp
    from Cons.IH [OF this] show ?case
      using resolve_leaf_Some [of pid m d0 l j bs] unfolding list.set(2) by blast
  qed simp
  from this [of "\<lambda>_. None" "read_leaves p"] show ?thesis
    using assms by (auto simp: resolve_shuffle_blocks_def read_leaves_def split: if_splits)
qed

lemma resolved_given_others:
  assumes "well_placed m" "reads_others i p" "shuffle_blocks t = resolve_shuffle_blocks p pid m"
  shows "given_others (root_dir m) i t"
proof -
  have "\<exists>s u k. s \<noteq> i \<and> path b = block_path (root_dir m) s u k"
    if "shuffle_blocks t = Some d" "d j = Some bs" "b \<in> set bs" for d j bs b
  proof -
    from resolved_blocks [of p pid m d j bs] that assms(3) obtain s c u
      where leaf: "ShuffleReadExec j s c \<in> set (leaves p)" and bs: "bs = blocks_for m j u" by auto
    from bs that(3) obtain bs' where "sm_blocks m j = Some bs'" "b \<in> set bs'"
      by (auto simp: blocks_for_def split: option.splits)
    then have "\<exists>u k. path b = block_path (root_dir m) j u k" using assms(1) by (auto simp: well_placed_def)
    moreover have "j \<noteq> i" using leaf assms(2) by (auto simp: reads_others_def)
    ultimately show ?thesis by blast
  qed
  then show ?thesis by (auto simp: given_others_def input_paths.simps split: option.splits)
qed

text \<open>The tasks that the scheduler makes for a stage can run together, and the blocks they report are well placed.\<close>

lemma made_tasks_others:
  assumes "well_placed (sc_manager sc)" "reads_others (stage_id st) (stage_plan st)"
    and "make_tasks st sc = (ts, sc1)"
  shows "distinct (map task_id ts)"
    and "t \<in> set ts \<Longrightarrow> task_stage_id t = stage_id st \<and> shuffle_root_dir t = Some (root_dir (sc_manager sc))
      \<and> given_others (root_dir (sc_manager sc)) (stage_id st) t"
  using assms(3) resolved_given_others [OF assms(1,2)] by (auto simp: make_tasks_def distinct_map inj_on_def)

lemma execute_task_blocks:
  assumes "b \<in> set (result_blocks (snd (execute_task env rss t a d)))"
  shows "path b \<in> block_paths t"
proof -
  obtain n where "pool.solo env rss n t Waiting d =
     (fst (execute_task env rss t a d), Finished (snd (execute_task env rss t a d)))"
    using solo_task by blast
  then show ?thesis using pool.solo_ok [of t Waiting env rss n d] assms by simp
qed

lemma stage_finished_placed:
  assumes "well_placed (sc_manager sc)"
    and "\<forall>r \<in> set rs. \<exists>t a d. r = snd (execute_task env rss t a d) \<and> task_stage_id t = stage_id st
      \<and> shuffle_root_dir t = Some (root_dir (sc_manager sc))"
  shows "well_placed (sc_manager (stage_finished st rec n rs sc))"
proof -
  have "\<exists>u k. path b = block_path (root_dir (sc_manager sc)) (stage_id st) u k"
    if "r \<in> set rs" "b \<in> set (result_blocks r)" for r b
  proof -
    from assms(2) that(1) obtain t a d where t: "r = snd (execute_task env rss t a d)" "task_stage_id t = stage_id st"
        "shuffle_root_dir t = Some (root_dir (sc_manager sc))" by blast
    then show ?thesis using execute_task_blocks [of b env rss t a d] that(2) by (auto simp: block_paths.simps)
  qed
  then show ?thesis using assms(1) by (auto simp: stage_finished_def well_placed_def register_blocks_def Let_def)
qed

text \<open>
  C10: The number of workers does not matter. However the tasks of a batch are interleaved on a pool
  of workers, record by record on one disk, the pool stops after a bounded number of steps, it only
  stops when every task has reported, and then the disk and the results are those of running the
  tasks one after the other. The tasks have distinct ids, belong to one stage, and read blocks of
  other stages.
\<close>

theorem pool_batch_correct:
  assumes "1 \<le> workers" "distinct (map (task_id \<circ> fst) batch)"
    and "\<forall>t \<in> fst ` set batch. task_stage_id t = i \<and> shuffle_root_dir t = Some rdir \<and> given_others rdir i t"
    and "run_batch (execute_task env rss) batch disk = (disk', rs)"
  shows "\<exists>bound. \<forall>n s. (pool_step env rss workers (map fst batch) ^^ n) (pool_start (map fst batch) disk) s \<longrightarrow>
    n \<le> bound \<and> ((\<exists>s'. pool_step env rss workers (map fst batch) s s') \<or> s = (disk', map Finished rs))"
proof -
  let ?ts = "map fst batch"
  have apart: "pool.apart ?ts" using assms(2,3) by (intro batch_apart [of _ i rdir]) simp_all
  have "\<exists>N. is_finished (snd (pool.solo env rss N t Waiting disk))" for t
    using solo_task [of env rss t disk 0] by (metis is_finished.simps(1) snd_conv)
  then obtain N where N: "is_finished (snd (pool.solo env rss (N t) t Waiting disk))" for t by metis
  have "n \<le> sum_list (map N ?ts) \<and> ((\<exists>s'. pool_step env rss workers ?ts s s') \<or> s = (disk', map Finished rs))"
    if run: "(pool_step env rss workers ?ts ^^ n) (pool_start ?ts disk) s" for n s
  proof -
    obtain d ks where s: "s = (d, ks)" by (cases s)
    obtain ns where ns: "pool.along env rss ?ts Waiting disk ns d ks" "sum_list ns = n"
        "\<forall>j < length ?ts. \<forall>N. is_finished (snd (pool.solo env rss N (?ts ! j) Waiting disk)) \<longrightarrow> ns ! j \<le> N"
      using pool_run_along [OF apart run [unfolded s]] by blast
    have "sum_list ns \<le> sum_list (map N ?ts)"
      using ns(1,3) N by (intro sum_list_mono2) (auto simp: pool.along_def)
    moreover have "s = (disk', map Finished rs)" if "list_all is_finished ks"
      using along_finished [OF ns(1) that] run_batch_outcome [OF apart assms(4)] s batch_outcome_unique by blast
    moreover have "\<exists>s'. pool_step env rss workers ?ts s s'" if "\<not> list_all is_finished ks"
      unfolding s using ns(1) that by (intro pool_progress [OF assms(1)]) (simp_all add: pool.along_def)
    ultimately show ?thesis using ns(2) by blast
  qed
  then show ?thesis by blast
qed

section \<open>An example\<close>

text \<open>The second of two shuffles: two tasks, each of which reads a block of the first.\<close>

definition first_blocks :: "block_meta list" where
  "first_blocks = map (\<lambda>u. \<lparr>bm_stage_id = 0, source_task_id = 0, target_partition = u, path = block_path ''/s'' 0 u 0,
     record_count = 1, byte_length = 1, checksum = hexdigest sample_codec [[(''a'', VInt (int u))]]\<rparr>) [0, 1]"

definition second_stage :: stage where
  "second_stage = \<lparr>stage_id = 1,
     stage_plan = ShuffleWriteExec (ShuffleReadExec 0 (ds_schema sample_dataset) False) 2 [Column ''a''] (Some [VInt 1]),
     stage_partitions = 2\<rparr>"

definition second_tasks :: "task list" where
  "second_tasks = fst (make_tasks second_stage
     ((sched_start ''/s'' ())\<lparr>sc_manager := register_blocks (new_manager ''/s'') 0 first_blocks, sc_next_id := 1\<rparr>))"

definition first_disk :: "row files" where
  "first_disk = [block_path ''/s'' 0 0 0 \<mapsto> [[(''a'', VInt 0)]], block_path ''/s'' 0 1 0 \<mapsto> [[(''a'', VInt 1)]]]"

lemma second_tasks_others:
  "distinct (map task_id second_tasks)"
  "t \<in> set second_tasks \<Longrightarrow> task_stage_id t = 1 \<and> shuffle_root_dir t = Some ''/s'' \<and> given_others ''/s'' 1 t"
proof -
  have "well_placed (register_blocks (new_manager ''/s'') 0 first_blocks)"
    by (auto simp: well_placed_def register_blocks_def new_manager_def first_blocks_def)
  moreover have "reads_others (stage_id second_stage) (stage_plan second_stage)"
    by (simp add: reads_others_def second_stage_def)
  moreover have "root_dir (register_blocks (new_manager ''/s'') 0 first_blocks) = ''/s''" "stage_id second_stage = 1"
    by (simp_all add: register_blocks_def new_manager_def second_stage_def)
  ultimately show "distinct (map task_id second_tasks)"
    "t \<in> set second_tasks \<Longrightarrow> task_stage_id t = 1 \<and> shuffle_root_dir t = Some ''/s'' \<and> given_others ''/s'' 1 t"
    using made_tasks_others [of "(sched_start ''/s'' ())\<lparr>sc_manager := register_blocks (new_manager ''/s'') 0 first_blocks,
        sc_next_id := 1\<rparr>" second_stage second_tasks] by (auto simp: second_tasks_def prod_eq_iff)
qed

lemma second_tasks_run:
  "(case run_batch (execute_task sample_env None) (map (\<lambda>t. (t, 0)) second_tasks) first_disk of (disk, rs) \<Rightarrow>
      (map result_state rs, map (map target_partition \<circ> result_blocks) rs,
       disk (block_path ''/s'' 1 0 1), disk (block_path ''/s'' 1 1 2)))
   = ([SUCCESS, SUCCESS], [[0], [1]], Some [[(''a'', VInt 0)]], Some [[(''a'', VInt 1)]])"
  by code_simp

theorem pool_batch_correct_witness:
  "\<exists>disk rs bound. map result_state rs = [SUCCESS, SUCCESS]
     \<and> disk (block_path ''/s'' 1 0 1) = Some [[(''a'', VInt 0)]] \<and> disk (block_path ''/s'' 1 1 2) = Some [[(''a'', VInt 1)]]
     \<and> (\<forall>n s. (pool_step sample_env None 2 second_tasks ^^ n) (pool_start second_tasks first_disk) s \<longrightarrow>
          n \<le> bound \<and> ((\<exists>s'. pool_step sample_env None 2 second_tasks s s') \<or> s = (disk, map Finished rs)))"
proof -
  let ?batch = "map (\<lambda>t. (t, 0::nat)) second_tasks"
  obtain disk rs where run: "run_batch (execute_task sample_env None) ?batch first_disk = (disk, rs)" by fastforce
  have ts: "map fst ?batch = second_tasks" by (simp add: comp_def)
  from pool_batch_correct [OF _ _ _ run, of 2 1 "''/s''"] second_tasks_others ts
  obtain bound where "\<forall>n s. (pool_step sample_env None 2 second_tasks ^^ n) (pool_start second_tasks first_disk) s \<longrightarrow>
      n \<le> bound \<and> ((\<exists>s'. pool_step sample_env None 2 second_tasks s s') \<or> s = (disk, map Finished rs))"
    by (auto simp: comp_def)
  moreover have "map result_state rs = [SUCCESS, SUCCESS]" "disk (block_path ''/s'' 1 0 1) = Some [[(''a'', VInt 0)]]"
    "disk (block_path ''/s'' 1 1 2) = Some [[(''a'', VInt 1)]]"
    using second_tasks_run unfolding run by simp_all
  ultimately show ?thesis by (intro exI [of _ disk] exI [of _ rs] exI [of _ bound] conjI)
qed

end
