(* ===== verification/Spec2Isabelle.thy ===== *)
theory Spec2Isabelle
  imports Analyzer SortExecution JoinExecution GroupBy PlanExecution SchedulerStale OptimizerRuns ScanPushdown FloatOrder SqlRoundTrip PhysicalMeaning AggregateMeaning StatisticsCorrect SortMeaning PlannerCorrect DataFrameApi QueryCorrect RangeBoundaries PlanTranslation CsvRoundTrip ParquetCorrect CheckpointCorrect WorkerPool
begin

text \<open>
  A verification development for MiniSpark (\<^verbatim>\<open>src/minispark/\<close>), a Spark-like query engine in Python:
  a query is a logical plan, checked by an analyzer, rewritten by an optimizer, turned into a
  physical plan, cut into stages at its shuffles, and run task by task on partitions.

  \<^bold>\<open>Values.\<close>  Python values are the datatype \<open>pval\<close> (\<^verbatim>\<open>None\<close>, \<^verbatim>\<open>bool\<close>, unbounded \<^verbatim>\<open>int\<close>, IEEE
  double, \<^verbatim>\<open>str\<close>, \<^verbatim>\<open>tuple\<close>) with Python's equality, ordering, arithmetic and \<^verbatim>\<open>repr\<close> (theories
  PyFloat, PyValue, PyRepr).  A raised exception is the left side of \<open>py_error + 'a\<close>, and a
  generator, which may raise after it has yielded rows, is the datatype \<open>'a gen\<close> (Prelude).

  \<^bold>\<open>Theories and the code they model.\<close>
  \<^item> CoreData: \<^verbatim>\<open>core/\<close> (field types, schema, record, partition, dataset).
  \<^item> Expressions, Aggregates: \<^verbatim>\<open>expressions/\<close>.  The locales \<open>mergeable\<close> and \<open>commutative_mergeable\<close> state
    the contract between an aggregate function and the operators that split and merge its states;
    every aggregate function of the code interprets them.
  \<^item> LogicalPlan, Analyzer: \<^verbatim>\<open>logical/\<close>.
  \<^item> Partitioner, ShuffleStore: \<^verbatim>\<open>shuffle/\<close>.  MD5 and \<^verbatim>\<open>pickle\<close> are parameters with their documented
    contracts; the disk is a map from paths to contents.
  \<^item> PhysicalPlan: \<^verbatim>\<open>physical/plan.py\<close>, \<^verbatim>\<open>execution/dag.py\<close>, \<^verbatim>\<open>physical/spill.py\<close>.
  \<^item> SortRows, Operators: \<^verbatim>\<open>physical/operators.py\<close>, with the spilling paths of the hash aggregation
    and of the sort.
  \<^item> AggregateExecution, GroupBy, SortExecution, JoinExecution: what the operators compute, spilled or
    not, against plain list definitions.
  \<^item> Stages, Worker, Scheduler: \<^verbatim>\<open>execution/stages.py\<close>, \<^verbatim>\<open>execution/worker.py\<close>, \<^verbatim>\<open>execution/tasks.py\<close>,
    \<^verbatim>\<open>execution/metrics.py\<close>, \<^verbatim>\<open>execution/scheduler.py\<close>.  SchedulerTermination, SchedulerRuns,
    SchedulerResults: fuel that is always enough, the recomputation of lost stages (the locale
    \<open>run_relation\<close> is what every step of a run respects), and where results come from.  SchedulerStale:
    the recovery gives fresh blocks to one task only.
  \<^item> WorkerPool: a batch on several worker processes, as a step relation on one disk; its outcome is
    that of running the tasks one after the other (the locale \<open>private_steps\<close>: processes that write apart).
  \<^item> PlanExecution: a plan run in stages through the disk yields \<open>direct\<close>, the meaning of a physical
    plan with neither stages nor files.
  \<^item> Optimizer: \<^verbatim>\<open>optimizer/rules.py\<close>, \<^verbatim>\<open>optimizer/optimizer.py\<close>.  PlanMeaning: the reference meaning of
    logical plans, and \<^verbatim>\<open>execution/executor.py\<close>.  OptimizerRules, ProjectionRules, OptimizerCorrect: the
    locale \<open>meaning_preserving\<close>, of which each of the five rules is an interpretation, and the runs
    that show why its conditions are needed.  OptimizerRuns: the locale \<open>error_free\<close>, which extends it;
    the rules make nothing raise that did not, on plans without a filter above a join.
  \<^item> Statistics, StatisticsCorrect: \<^verbatim>\<open>optimizer/statistics.py\<close>.
  \<^item> Planner, ScanPushdown: \<^verbatim>\<open>physical/planner.py\<close>; the locale \<open>data_source\<close> is the contract of
    \<^verbatim>\<open>storage/datasource.py\<close>, kept by the in-memory source and by checkpoints.  PhysicalMeaning,
    AggregateMeaning, SortMeaning, PlannerCorrect, PlanTranslation: the physical plan of a logical
    plan yields its rows.  FloatOrder, RangeBoundaries: range boundaries, computed in floating point,
    are in order.
  \<^item> MemorySource, CsvSource, Checkpoint, Parquet: \<^verbatim>\<open>storage/\<close>.  CsvCorrect, CsvSchema, CsvRoundTrip,
    CheckpointCorrect, ParquetCorrect: what they read.  pyarrow is the record \<open>arrow\<close>, with the laws
    \<open>terms_ok\<close>, \<open>arrow_ok\<close> and \<open>types_ok\<close>.
  \<^item> Config, PyParse: \<^verbatim>\<open>config/config.py\<close>, and the conversions of text to numbers it uses.
  \<^item> SqlTokenizer, SqlParser: \<^verbatim>\<open>sql/\<close>.  SqlTotality: it returns, and which errors it raises (the locale
    \<open>error_class\<close>).  SqlPrinter, SqlGrammar, SqlRoundTrip: it inverts a printer.
  \<^item> DataFrameApi, StorageApi: \<^verbatim>\<open>api/\<close>.  QueryCorrect: \<^verbatim>\<open>DataFrame.collect\<close> from end to end.

  \<^bold>\<open>How the parts interact.\<close>  A data frame is a logical plan.  \<open>run_query\<close> is what an action runs: it
  analyzes the plan (\<open>analyze\<close>), optimizes it (\<open>optimize\<close>), plans it (\<open>plan_physical\<close>: scans are re-read
  with column and filter hints by \<open>pushdown_scan_reads\<close>, then \<open>translate\<close>), cuts it at its exchanges
  (\<open>build_stages\<close>) and hands the stages to the scheduler (\<open>run_plan\<close>), whose tasks
  (\<open>execute_task\<close>) write their shuffle blocks to the disk and read those of the stages before.
  \<open>query_correct\<close> puts the theorems of all these parts together: a query that is tidy, over honest
  sources, on whose data nothing raises, and whose tasks do not fail, returns, and returns the rows
  of its reference meaning.  In that meaning an expression that raises is null; \<open>clean\<close> and \<open>runs\<close> say
  that none does, and \<open>clean\<close> also confines sums and means to ints, since a sum of floats depends on the
  partitions, and grouped keys to those that are equal only if identical, since \<^verbatim>\<open>1\<close> and \<^verbatim>\<open>1.0\<close> are hashed
  apart.

  \<^bold>\<open>Fuel.\<close>  A loop that may not end takes fuel, and \<^verbatim>\<open>None\<close> is running out of it.  The scheduler has
  \<open>plan_fuel\<close>, (stages + 1) * (retries + 2): a recovery uses up one of the stages not yet recomputed,
  any other round one attempt of each pending task.  The SQL parser has one more than the number of
  tokens, each of its loops consumes one.  Reading back-to-back pickles has one more than the length
  of the file.  In each case it is proved that the fuel is enough; a run without
  faults needs two.  The optimizer has the source's own
  bound on its rounds.

  \<^bold>\<open>Parameters.\<close>  MD5, \<^verbatim>\<open>pickle\<close> (of records, of checkpoint descriptions), \<^verbatim>\<open>psutil\<close>, pyarrow, and the
  task function of the scheduler where a theorem is about all of them; the last is instantiated with
  the worker's.  Their laws are hypotheses with the names \<open>pickle_ok\<close> and the like, and every theorem
  that has one comes with a run on a concrete instance.

  \<^bold>\<open>Not modelled.\<close>
  \<^item> \<^verbatim>\<open>config/log.py\<close>, \<^verbatim>\<open>__main__.py\<close>, examples and benchmarks: logging, printing and scripts.
  \<^item> The interface \<^verbatim>\<open>storage/datasource.py\<close> has no code of its own; it is the locale \<open>data_source\<close>.
  \<^item> \<open>run_plan\<close> runs the tasks of a batch one after the other, as with \<^verbatim>\<open>num_workers == 1\<close>; with more,
    WorkerPool takes the reading of a task's input as one step, and a worker process that dies is not
    modelled.  Clock and CPU readings, and the removal of shuffle directories after a query.
  \<^item> The wording of error messages; an exception is its class, with the data a handler looks at.
  \<^item> Characters beyond Latin-1, UTF-8 decoding, the limit on the digits of an int that is printed, files
    that change between \<^verbatim>\<open>read\<close> and the iteration of a partition, a second iteration of a sorted partition.
  \<^item> A CSV row read with some columns keeps the order of the header, and a Parquet filter may drop rows
    with nulls under an inequality or a negation: these sources keep the contract of \<open>data_source\<close> only
    under the conditions of \<open>csv_read_correct\<close> and \<open>parquet_read_honours\<close>.
\<close>

end
